(* ===== verification/Prelude.thy ===== *)
theory Prelude
  imports Main "HOL-Library.Word"
begin

text \<open>
  Shared vocabulary of the development: bytes as the C locale's \<open><ctype.h>\<close> classifies
  them, byte strings with the comparison functions of \<open><string.h>\<close>, the outcome of a
  computation that C leaves undefined, and a few generic list lemmas.

  A C string or a slice \<open>(text, leng)\<close> of a buffer is a HOL \<open>string\<close> of its bytes; the
  terminating NUL is not part of it.  \<open>char\<close> is signed, as on the platforms the program
  is built for, so \<open>schar\<close> gives the value a \<open>char\<close> has in an expression.
\<close>

named_theorems bytes "classification and comparison of bytes"

section \<open>Bytes\<close>

abbreviation NUL :: char where "NUL \<equiv> CHR 0x00"
abbreviation LF :: char where "LF \<equiv> CHR 0x0A"
abbreviation CR :: char where "CR \<equiv> CHR 0x0D"
abbreviation TAB :: char where "TAB \<equiv> CHR 0x09"
abbreviation QUOTE :: char where "QUOTE \<equiv> CHR 0x27"
abbreviation DQUOTE :: char where "DQUOTE \<equiv> CHR 0x22"
abbreviation BSLASH :: char where "BSLASH \<equiv> CHR 0x5C"

definition byte :: "char \<Rightarrow> nat" where
  "byte c = of_char c"

definition schar :: "char \<Rightarrow> int" where
  "schar c = (if byte c < 128 then int (byte c) else int (byte c) - 256)"

definition c_isdigit :: "char \<Rightarrow> bool" where [bytes]:
  "c_isdigit c \<longleftrightarrow> 48 \<le> byte c \<and> byte c \<le> 57"

definition c_isalpha :: "char \<Rightarrow> bool" where [bytes]:
  "c_isalpha c \<longleftrightarrow> (65 \<le> byte c \<and> byte c \<le> 90) \<or> (97 \<le> byte c \<and> byte c \<le> 122)"

definition c_isalnum :: "char \<Rightarrow> bool" where [bytes]:
  "c_isalnum c \<longleftrightarrow> c_isalpha c \<or> c_isdigit c"

definition c_isxdigit :: "char \<Rightarrow> bool" where [bytes]:
  "c_isxdigit c \<longleftrightarrow> c_isdigit c \<or> (65 \<le> byte c \<and> byte c \<le> 70) \<or> (97 \<le> byte c \<and> byte c \<le> 102)"

definition c_isspace :: "char \<Rightarrow> bool" where [bytes]:
  "c_isspace c \<longleftrightarrow> byte c = 32 \<or> (9 \<le> byte c \<and> byte c \<le> 13)"

lemma byte_inject [simp]: "byte c = byte d \<longleftrightarrow> c = d"
  by (simp add: byte_def)

lemma byte_less: "byte c < 256"
  by (simp add: byte_def)

lemma schar_inject [simp]: "schar c = schar d \<longleftrightarrow> c = d"
proof -
  have "byte c < 256" "byte d < 256" by (rule byte_less)+
  then have "schar c = schar d \<longleftrightarrow> byte c = byte d"
    by (auto simp: schar_def)
  then show ?thesis by simp
qed

lemma schar_zero_iff [simp]: "schar c = 0 \<longleftrightarrow> c = NUL"
proof -
  have "schar NUL = 0" by (simp add: schar_def byte_def)
  then show ?thesis by (metis schar_inject)
qed

section \<open>Comparison of byte strings\<close>

text \<open>
  \<open>memcmp\<close> and \<open>strcmp\<close> specify the sign of their result only; the model returns
  \<open>-1\<close>, \<open>0\<close> or \<open>1\<close>, and no caller looks at more than the sign.
\<close>

fun c_memcmp :: "string \<Rightarrow> string \<Rightarrow> int" where
  "c_memcmp (a # as) (b # bs) =
     (if byte a < byte b then -1 else if byte b < byte a then 1 else c_memcmp as bs)"
| "c_memcmp _ _ = 0"

fun c_strcmp :: "string \<Rightarrow> string \<Rightarrow> int" where
  "c_strcmp [] [] = 0"
| "c_strcmp [] (b # bs) = -1"
| "c_strcmp (a # as) [] = 1"
| "c_strcmp (a # as) (b # bs) =
     (if byte a < byte b then -1 else if byte b < byte a then 1 else c_strcmp as bs)"

lemma c_strcmp_zero_iff [simp]: "c_strcmp s t = 0 \<longleftrightarrow> s = t"
  by (induction s t rule: c_strcmp.induct) (auto simp flip: byte_inject)

lemma c_memcmp_zero_iff [simp]: "length s = length t \<Longrightarrow> c_memcmp s t = 0 \<longleftrightarrow> s = t"
  by (induction s t rule: c_memcmp.induct) (auto simp flip: byte_inject)

section \<open>Undefined behaviour\<close>

text \<open>
  The ways in which a modelled routine can leave the C language, and \<open>NoReturn\<close> for a
  loop or recursion that does not end (the model's fuel runs out).
\<close>

datatype ub =
    DivByZero            \<comment> \<open>integer division or remainder by zero\<close>
  | SignedOverflow       \<comment> \<open>signed arithmetic out of range\<close>
  | BadShift             \<comment> \<open>shift count negative or not below the width\<close>
  | Uninitialised        \<comment> \<open>a value is read that was never written\<close>
  | OutOfBounds          \<comment> \<open>a read or write outside an object\<close>
  | UseAfterFree         \<comment> \<open>a released object is released or used again\<close>
  | NullPointer          \<comment> \<open>the null pointer is followed\<close>
  | Exit                 \<comment> \<open>the program ends itself with a message\<close>
  | NoReturn             \<comment> \<open>the computation does not end\<close>

section \<open>Computations that may fail\<close>

text \<open>A result is \<open>Inl\<close> of an error or \<open>Inr\<close> of a value; \<open>sbind\<close> runs one step after another.\<close>

definition sbind :: "'e + 'a \<Rightarrow> ('a \<Rightarrow> 'e + 'b) \<Rightarrow> 'e + 'b" where
  "sbind m f = (case m of Inl e \<Rightarrow> Inl e | Inr x \<Rightarrow> f x)"

lemma sbind_simps [simp]: "sbind (Inl e) f = Inl e" "sbind (Inr x) f = f x"
  by (simp_all add: sbind_def)

lemma sbind_Inr_iff [simp]: "sbind m f = Inr y \<longleftrightarrow> (\<exists>x. m = Inr x \<and> f x = Inr y)"
  by (cases m) auto

lemma map_sum_Inr_iff [simp]: "map_sum id f s = Inr w \<longleftrightarrow> (\<exists>x. s = Inr x \<and> w = f x)"
  by (cases s) auto

lemma map_sum_Inl_iff [simp]: "map_sum id f s = Inl w \<longleftrightarrow> s = Inl w"
  by (cases s) auto

lemma sbind_Inl_iff [simp]: "sbind m f = Inl e \<longleftrightarrow> m = Inl e \<or> (\<exists>x. m = Inr x \<and> f x = Inl e)"
  by (cases m) auto

lemma sbind_assoc: "sbind (sbind m f) g = sbind m (\<lambda>x. sbind (f x) g)"
  by (cases m) simp_all

section \<open>Lists\<close>

lemma take_Suc_snoc: "n < length xs \<Longrightarrow> take (Suc n) xs = take n xs @ [xs ! n]"
  by (rule take_Suc_conv_app_nth)

lemma last_in_tl: "x # xs \<noteq> [] \<Longrightarrow> xs \<noteq> [] \<Longrightarrow> last (x # xs) = last xs"
  by simp

lemma all_less_Suc: "(\<forall>i < Suc n. P i) \<longleftrightarrow> (\<forall>i < n. P i) \<and> P n"
  by (auto simp: less_Suc_eq)

end
