(* ===== verification/Cpdefines.thy ===== *)
theory Cpdefines
  imports Prelude
begin

text \<open>
  The vocabulary of the C/C++ parser library (\<open>parsers/cpp/cpplib\<close>): the lexical codes of
  \<open>cpdefines.h\<close>, the operator codes of \<open>operator.h\<close> that the preprocessor's expressions
  use, and the token structure of \<open>cplex.h\<close>.  The source numbers keywords and lexical
  classes in one range of integers but stores them in different fields (\<open>keyword\<close> and
  \<open>lex\<close>), so the model has one datatype for each.  A single character token keeps its
  character; the end of the input is the token of the NUL character.
\<close>

section \<open>Codes\<close>

datatype keyword =
    KW_NONE
  | SN_ASM | SN_AUTO | SN_BREAK | SN_CASE | SN_CATCH | SN_CHAR | SN_CLASS | SN_CONST
  | SN_CONTINUE | SN_DEFAULT | SN_DELETE | SN_DO | SN_DOUBLE | SN_ELSE | SN_ENUM | SN_EXTERN
  | SN_FLOAT | SN_FOR | SN_FRIEND | SN_GOTO | SN_IF | SN_INLINE | SN_INT | SN_LONG | SN_NEW
  | SN_OPERATOR | SN_OVERLOAD | SN_PRIVATE | SN_PROTECTED | SN_PUBLIC | SN_REGISTER | SN_RETURN
  | SN_SHORT | SN_SIGNED | SN_SIZEOF | SN_STATIC | SN_STRUCT | SN_SWITCH | SN_TEMPLATE | SN_THIS
  | SN_THROW | SN_TRY | SN_TYPEDEF | SN_UNION | SN_UNSIGNED | SN_VIRTUAL | SN_VOID | SN_VOLATILE
  | SN_WHILE | SN_NAMESPACE | SN_USING | SN_INTERFACE | SN_BOOL

datatype lex =
    Ch char
  | SN_IDENTIFIER | SN_STRINGliteral | SN_FLOATINGconstant | SN_INTEGERconstant
  | SN_CHARACTERconstant | SN_LONGconstant
  | SN_PP_IF | SN_PP_ELSE | SN_PP_ENDIF
  | SN_ARROW | SN_ICR | SN_DECR | SN_LS | SN_RS | SN_LE | SN_GE | SN_EQ | SN_NE | SN_ANDAND
  | SN_OROR | SN_ELLIPSIS | SN_CLCL | SN_DOTstar | SN_ARROWstar
  | SN_MULTassign | SN_DIVassign | SN_MODassign | SN_PLUSassign | SN_MINUSassign
  | SN_LSassign | SN_RSassign | SN_ANDassign | SN_ERassign | SN_ORassign
  | SN_PP_ELIF | SN_NEWLINE | SN_INCLUDEliteral | SN_TRUE | SN_FALSE | SN_UNDEF
  | SN_PP_DEFINE | SN_PP_INCLUDE

datatype operator =
    OPERATOR_CONDITIONAL | OPERATOR_OROR | OPERATOR_ANDAND | OPERATOR_OR | OPERATOR_ER
  | OPERATOR_AND | OPERATOR_EQ | OPERATOR_NE | OPERATOR_L | OPERATOR_G | OPERATOR_LE
  | OPERATOR_GE | OPERATOR_LS | OPERATOR_RS | OPERATOR_PLUS | OPERATOR_MINUS | OPERATOR_MULT
  | OPERATOR_DIV | OPERATOR_MOD | OPERATOR_UPLUS | OPERATOR_UMINUS | OPERATOR_NOT
  | OPERATOR_BNOT

datatype cplex_mode = CPLEX_FALSE | CPLEX_UNDEF | CPLEX_TRUE

section \<open>Tokens\<close>

text \<open>
  The value part of \<open>struct sToken\<close>; the ring and free-list links are modelled with the
  store of the theory on tokens.  \<open>iParameter\<close> is \<open>-1\<close> for a token that is not a macro
  parameter.
\<close>

record token =
  tlex :: lex
  tkeyword :: keyword
  tis_cpp :: bool
  ttext :: string
  tmode :: cplex_mode
  iParameter :: int
  lineno_beg :: int
  charno_beg :: int
  lineno_end :: int
  charno_end :: int

text \<open>A token with the given code and text, everything else as a fresh token has it.\<close>

definition mk_token :: "lex \<Rightarrow> string \<Rightarrow> token" where
  "mk_token l s = \<lparr>tlex = l, tkeyword = KW_NONE, tis_cpp = False, ttext = s,
     tmode = CPLEX_FALSE, iParameter = -1,
     lineno_beg = 0, charno_beg = 0, lineno_end = 0, charno_end = 0\<rparr>"

lemma mk_token_simps [simp]:
  "tlex (mk_token l s) = l" "ttext (mk_token l s) = s" "iParameter (mk_token l s) = -1"
  "tkeyword (mk_token l s) = KW_NONE"
  by (simp_all add: mk_token_def)

section \<open>String comparison\<close>

text \<open>
  \<open>f_StringCompare\<close> copies the token text into a local array of 1000 bytes and terminates
  it there: a text of 1000 bytes or more is written past the array.
\<close>

definition f_StringCompare :: "string \<Rightarrow> string \<Rightarrow> ub + int" where
  "f_StringCompare s pc =
     (if length s \<ge> 1000 then Inl OutOfBounds else Inr (c_strcmp s pc))"

lemma f_StringCompare_zero:
  "f_StringCompare s pc = Inr 0 \<longleftrightarrow> length s < 1000 \<and> s = pc"
  by (auto simp: f_StringCompare_def)

end
