(* ===== verification/Expr.thy ===== *)
theory Expr
  imports Cpdefines
begin

text \<open>
  The evaluator of \<open>#if\<close> and \<open>#elif\<close> lines, \<open>parsers/cpp/cpplib/expr.c\<close>: a
  recursive-descent parser with one function per precedence level that evaluates as it
  parses.

  \<open>TokenAct\<close>, the position in the ring of tokens, is the list of the tokens that remain;
  \<open>step\<close> does not move past the last one.  \<open>Save\<close>/\<open>Restore\<close> keep the list of the entry
  of a function.  A \<open>Cexp_t\<close> whose type is not \<open>CEXP_DEF\<close> has a \<open>value\<close> that is never
  read, so the structure is a datatype.  \<open>int\<close> has 32 and \<open>long\<close> 64 bits; arithmetic that
  C leaves undefined is an error value, as is a result that is read uninitialised.
  Every loop and every recursion of the source spends one unit of fuel; running out is
  \<open>Inl NoReturn\<close>.
\<close>

section \<open>Values and operators\<close>

datatype cexp = CEXP_DEF int | CEXP_UNDEF | CEXP_NULL

type_synonym cres = "ub + cexp \<times> token list"

definition int_ok :: "int \<Rightarrow> bool" where
  "int_ok x \<longleftrightarrow> - (2 ^ 31) \<le> x \<and> x < 2 ^ 31"

definition long_ok :: "int \<Rightarrow> bool" where
  "long_ok x \<longleftrightarrow> - (2 ^ 63) \<le> x \<and> x < 2 ^ 63"

definition chk_int :: "int \<Rightarrow> ub + int" where
  "chk_int x = (if int_ok x then Inr x else Inl SignedOverflow)"

text \<open>The conversion of a \<open>long\<close> to an \<open>int\<close> keeps the low 32 bits.\<close>

definition long_to_int :: "int \<Rightarrow> int" where
  "long_to_int x = signed_take_bit 31 x"

definition c_bool :: "bool \<Rightarrow> int" where
  "c_bool b = (if b then 1 else 0)"

definition c_div :: "int \<Rightarrow> int \<Rightarrow> int" where
  "c_div a b = sgn a * sgn b * (\<bar>a\<bar> div \<bar>b\<bar>)"

definition c_mod :: "int \<Rightarrow> int \<Rightarrow> int" where
  "c_mod a b = a - c_div a b * b"

fun c_op1 :: "operator \<Rightarrow> int \<Rightarrow> ub + int" where
  "c_op1 OPERATOR_UPLUS a = Inr a"
| "c_op1 OPERATOR_UMINUS a = chk_int (- a)"
| "c_op1 OPERATOR_NOT a = Inr (c_bool (a = 0))"
| "c_op1 OPERATOR_BNOT a = Inr (not a)"
| "c_op1 _ a = Inl Uninitialised"

fun c_op2 :: "operator \<Rightarrow> int \<Rightarrow> int \<Rightarrow> ub + int" where
  "c_op2 OPERATOR_OROR a b = Inr (c_bool (a \<noteq> 0 \<or> b \<noteq> 0))"
| "c_op2 OPERATOR_ANDAND a b = Inr (c_bool (a \<noteq> 0 \<and> b \<noteq> 0))"
| "c_op2 OPERATOR_OR a b = Inr (or a b)"
| "c_op2 OPERATOR_ER a b = Inr (xor a b)"
| "c_op2 OPERATOR_AND a b = Inr (and a b)"
| "c_op2 OPERATOR_EQ a b = Inr (c_bool (a = b))"
| "c_op2 OPERATOR_NE a b = Inr (c_bool (a \<noteq> b))"
| "c_op2 OPERATOR_L a b = Inr (c_bool (a < b))"
| "c_op2 OPERATOR_G a b = Inr (c_bool (a > b))"
| "c_op2 OPERATOR_LE a b = Inr (c_bool (a \<le> b))"
| "c_op2 OPERATOR_GE a b = Inr (c_bool (a \<ge> b))"
| "c_op2 OPERATOR_LS a b =
     (if b < 0 \<or> b \<ge> 32 then Inl BadShift
      else if a < 0 then Inl SignedOverflow
      else chk_int (push_bit (nat b) a))"
| "c_op2 OPERATOR_RS a b =
     (if b < 0 \<or> b \<ge> 32 then Inl BadShift else Inr (drop_bit (nat b) a))"
| "c_op2 OPERATOR_PLUS a b = chk_int (a + b)"
| "c_op2 OPERATOR_MINUS a b = chk_int (a - b)"
| "c_op2 OPERATOR_MULT a b = chk_int (a * b)"
| "c_op2 OPERATOR_DIV a b =
     (if b = 0 then Inl DivByZero else chk_int (c_div a b))"
| "c_op2 OPERATOR_MOD a b =
     (if b = 0 then Inl DivByZero
      else if int_ok (c_div a b) then Inr (c_mod a b) else Inl SignedOverflow)"
| "c_op2 _ a b = Inl Uninitialised"

definition CexpCreateOp1 :: "operator \<Rightarrow> cexp \<Rightarrow> ub + cexp" where
  "CexpCreateOp1 operator c1 =
     (case c1 of
        CEXP_UNDEF \<Rightarrow> Inr CEXP_UNDEF
      | CEXP_DEF a \<Rightarrow> map_sum id CEXP_DEF (c_op1 operator a)
      | CEXP_NULL \<Rightarrow> map_sum id CEXP_DEF (c_op1 operator 0))"

text \<open>
  In \<open>CexpCreateOp2\<close> the treatment of an undefined operand of \<open>||\<close> is computed first and
  then overwritten by the assignment that follows the \<open>if\<close>: the assigned value is lost.
\<close>

definition oror_undef :: "cexp \<Rightarrow> cexp \<Rightarrow> cexp" where
  "oror_undef c1 c2 =
     (case (c1, c2) of
        (CEXP_UNDEF, CEXP_UNDEF) \<Rightarrow> CEXP_UNDEF
      | (CEXP_UNDEF, CEXP_DEF b) \<Rightarrow> CEXP_DEF (c_bool (b \<noteq> 0))
      | (CEXP_DEF a, _) \<Rightarrow> CEXP_DEF (c_bool (a \<noteq> 0))
      | _ \<Rightarrow> CEXP_UNDEF)"

definition CexpCreateOp2 :: "operator \<Rightarrow> cexp \<Rightarrow> cexp \<Rightarrow> ub + cexp" where
  "CexpCreateOp2 operator c1 c2 =
     (if c1 = CEXP_UNDEF \<or> c2 = CEXP_UNDEF then
        let c = (if operator = OPERATOR_OROR then oror_undef c1 c2 else CEXP_NULL);
            c = CEXP_UNDEF
        in Inr c
      else
        (case (c1, c2) of
           (CEXP_DEF a, CEXP_DEF b) \<Rightarrow> map_sum id CEXP_DEF (c_op2 operator a b)
         | _ \<Rightarrow> Inl Uninitialised))"

definition CexpCreateOp3 :: "cexp \<Rightarrow> cexp \<Rightarrow> cexp \<Rightarrow> cexp" where
  "CexpCreateOp3 c1 c2 c3 =
     (case c1 of
        CEXP_DEF a \<Rightarrow> (if a \<noteq> 0 then c2 else c3)
      | _ \<Rightarrow> CEXP_UNDEF)"

section \<open>Constants\<close>

datatype atol_mode = OCTAL | DECIMAL | HEXA

definition hex_digit :: "char \<Rightarrow> int" where
  "hex_digit c =
     (if 48 \<le> byte c \<and> byte c \<le> 57 then int (byte c) - 48
      else if 65 \<le> byte c \<and> byte c \<le> 70 then int (byte c) - 65 + 10
      else int (byte c) - 97 + 10)"

text \<open>
  The loop of \<open>f_Atol\<close>: \<open>i\<close> is the index, the list the text from there on.  In the two
  decimal branches \<open>value * base + *pc\<close> is formed before \<open>'0'\<close> is subtracted.  The
  \<open>strchr\<close> of the hexadecimal branch also finds the terminating NUL of its set, for which
  no digit is computed.
\<close>

fun f_Atol_loop :: "nat \<Rightarrow> atol_mode \<Rightarrow> int \<Rightarrow> string \<Rightarrow> ub + int" where
  "f_Atol_loop i mode value [] = Inr value"
| "f_Atol_loop i mode value (c # cs) =
     (if i = 0 \<and> c = CHR ''0'' then f_Atol_loop (Suc i) OCTAL value cs
      else if i = 1 \<and> mode = OCTAL \<and> (c = CHR ''x'' \<or> c = CHR ''X'')
        then f_Atol_loop (Suc i) HEXA value cs
      else
        (case mode of
           OCTAL \<Rightarrow>
             if byte c < 48 \<or> byte c > 55 then Inr value
             else if \<not> long_ok (value * 8 + int (byte c)) then Inl SignedOverflow
             else f_Atol_loop (Suc i) mode (value * 8 + int (byte c) - 48) cs
         | DECIMAL \<Rightarrow>
             if byte c < 48 \<or> byte c > 57 then Inr value
             else if \<not> long_ok (value * 10 + int (byte c)) then Inl SignedOverflow
             else f_Atol_loop (Suc i) mode (value * 10 + int (byte c) - 48) cs
         | HEXA \<Rightarrow>
             if c = NUL then Inl Uninitialised
             else if \<not> c_isxdigit c then Inr value
             else if \<not> long_ok (value * 16 + hex_digit c) then Inl SignedOverflow
             else f_Atol_loop (Suc i) mode (value * 16 + hex_digit c) cs))"

definition f_Atol :: "string \<Rightarrow> ub + int" where
  "f_Atol s = f_Atol_loop 0 DECIMAL 0 s"

fun f_Ctol_octal :: "int \<Rightarrow> string \<Rightarrow> ub + int" where
  "f_Ctol_octal value [] = Inr value"
| "f_Ctol_octal value (c # cs) =
     (if 48 \<le> byte c \<and> byte c \<le> 55 then
        if \<not> long_ok (value * 8 + (int (byte c) - 48)) then Inl SignedOverflow
        else f_Ctol_octal (value * 8 + (int (byte c) - 48)) cs
      else Inr value)"

text \<open>
  \<open>f_Ctol\<close> on a slice: the opening and the closing quote are dropped where they are
  present.  The first byte is read whatever the length is.
\<close>

definition f_Ctol_body :: "string \<Rightarrow> ub + int" where
  "f_Ctol_body text =
     (case text of
        [] \<Rightarrow> Inr 0
      | c # cs \<Rightarrow>
          if c = BSLASH then
            (case cs of
               [] \<Rightarrow> Inr 0
             | d # ds \<Rightarrow>
                 if d = CHR ''n'' then Inr 10
                 else if d = CHR ''t'' then Inr 9
                 else if d = CHR ''r'' then Inr 13
                 else if 48 \<le> byte d \<and> byte d \<le> 55 then f_Ctol_octal 0 (d # ds)
                 else Inr (int (byte d)))
          else Inr (int (byte c)))"

definition f_Ctol :: "string \<Rightarrow> ub + int" where
  "f_Ctol text =
     (if text = [] then Inl OutOfBounds
      else
        let text = (if hd text = QUOTE then tl text else text) in
        if text = [] then Inr 0
        else f_Ctol_body (if last text = QUOTE then butlast text else text))"

section \<open>The parser\<close>

definition token_at :: "token list \<Rightarrow> lex" where
  "token_at ts = (case ts of [] \<Rightarrow> Ch NUL | t # _ \<Rightarrow> tlex t)"

definition ident :: "token list \<Rightarrow> string" where
  "ident ts = (case ts of [] \<Rightarrow> [] | t # _ \<Rightarrow> ttext t)"

definition step :: "token list \<Rightarrow> token list" where
  "step ts = (case ts of t # u # us \<Rightarrow> u # us | _ \<Rightarrow> ts)"

definition const_value :: "ub + int \<Rightarrow> token list \<Rightarrow> cres" where
  "const_value v ts = map_sum id (\<lambda>n. (CEXP_DEF (long_to_int n), step ts)) v"

fun skip_strings :: "nat \<Rightarrow> token list \<Rightarrow> ub + token list" where
  "skip_strings 0 ts = Inl NoReturn"
| "skip_strings (Suc n) ts =
     (if token_at ts = SN_STRINGliteral then skip_strings n (step ts) else Inr ts)"

text \<open>
  \<open>rec\<close> stands for the recursive call of \<open>constant_expression\<close>.  An identifier
  \<open>defined\<close> can only come out of a macro expansion; the branch returns a structure of
  which no field was written.
\<close>

definition primary_expression ::
    "(token list \<Rightarrow> cres) \<Rightarrow> nat \<Rightarrow> token list \<Rightarrow> cres" where
  "primary_expression rec n ts =
     (case token_at ts of
        SN_INTEGERconstant \<Rightarrow> const_value (f_Atol (ident ts)) ts
      | SN_LONGconstant \<Rightarrow> const_value (f_Atol (ident ts)) ts
      | SN_CHARACTERconstant \<Rightarrow> const_value (f_Ctol (ident ts)) ts
      | SN_FLOATINGconstant \<Rightarrow> Inr (CEXP_UNDEF, step ts)
      | SN_STRINGliteral \<Rightarrow> map_sum id (\<lambda>ts'. (CEXP_UNDEF, ts')) (skip_strings n (step ts))
      | SN_IDENTIFIER \<Rightarrow>
          (case f_StringCompare (ident ts) ''defined'' of
             Inl e \<Rightarrow> Inl e
           | Inr d \<Rightarrow> if d = 0 then Inl Uninitialised else Inr (CEXP_UNDEF, step ts))
      | SN_UNDEF \<Rightarrow> Inr (CEXP_UNDEF, step ts)
      | SN_TRUE \<Rightarrow> Inr (CEXP_DEF 1, step ts)
      | SN_FALSE \<Rightarrow> Inr (CEXP_DEF 0, step ts)
      | Ch c \<Rightarrow>
          if c = CHR ''('' then
            (case rec (step ts) of
               Inl e \<Rightarrow> Inl e
             | Inr (c1, ts') \<Rightarrow>
                 if c1 = CEXP_NULL then Inr (c1, ts)
                 else if token_at ts' = Ch CHR '')'' then Inr (c1, step ts')
                 else Inr (c1, ts'))
          else Inr (CEXP_NULL, ts)
      | _ \<Rightarrow> Inr (CEXP_NULL, ts))"

fun unary_op :: "lex \<Rightarrow> operator option" where
  "unary_op (Ch c) =
     (if c = CHR ''+'' then Some OPERATOR_UPLUS
      else if c = CHR ''-'' then Some OPERATOR_UMINUS
      else if c = CHR ''!'' then Some OPERATOR_NOT
      else if c = CHR ''~'' then Some OPERATOR_BNOT
      else None)"
| "unary_op _ = None"

fun unary_expression ::
    "(token list \<Rightarrow> cres) \<Rightarrow> nat \<Rightarrow> nat \<Rightarrow> token list \<Rightarrow> cres" where
  "unary_expression rec n 0 ts = Inl NoReturn"
| "unary_expression rec n (Suc m) ts =
     (case primary_expression rec n ts of
        Inl e \<Rightarrow> Inl e
      | Inr (c, ts') \<Rightarrow>
          if c \<noteq> CEXP_NULL then Inr (c, ts')
          else
            (case unary_op (token_at ts') of
               None \<Rightarrow> Inr (CEXP_NULL, ts)
             | Some operator \<Rightarrow>
                 (case unary_expression rec n m (step ts') of
                    Inl e \<Rightarrow> Inl e
                  | Inr (c1, ts'') \<Rightarrow>
                      if c1 \<noteq> CEXP_NULL
                      then map_sum id (\<lambda>c. (c, ts'')) (CexpCreateOp1 operator c1)
                      else Inr (CEXP_NULL, ts))))"

text \<open>
  The shape the binary levels share: one operand of the next level, then a loop that reads
  an operator of the level and another operand.
\<close>

fun binary_loop ::
    "(lex \<Rightarrow> operator option) \<Rightarrow> (token list \<Rightarrow> cres) \<Rightarrow> nat \<Rightarrow> token list \<Rightarrow> cexp \<Rightarrow>
     token list \<Rightarrow> cres" where
  "binary_loop ops next 0 save c1 ts = Inl NoReturn"
| "binary_loop ops next (Suc n) save c1 ts =
     (case ops (token_at ts) of
        None \<Rightarrow> Inr (c1, ts)
      | Some operator \<Rightarrow>
          (case next (step ts) of
             Inl e \<Rightarrow> Inl e
           | Inr (c2, ts') \<Rightarrow>
               if c2 = CEXP_NULL then Inr (c2, save)
               else
                 (case CexpCreateOp2 operator c1 c2 of
                    Inl e \<Rightarrow> Inl e
                  | Inr c \<Rightarrow> binary_loop ops next n save c ts')))"

definition binary_level ::
    "(lex \<Rightarrow> operator option) \<Rightarrow> (token list \<Rightarrow> cres) \<Rightarrow> nat \<Rightarrow> token list \<Rightarrow> cres" where
  "binary_level ops next n ts =
     (case next ts of
        Inl e \<Rightarrow> Inl e
      | Inr (c1, ts') \<Rightarrow>
          if c1 = CEXP_NULL then Inr (c1, ts)
          else binary_loop ops next n ts c1 ts')"

fun multiplicative_op :: "lex \<Rightarrow> operator option" where
  "multiplicative_op (Ch c) =
     (if c = CHR ''*'' then Some OPERATOR_MULT
      else if c = CHR ''/'' then Some OPERATOR_DIV
      else if c = CHR ''%'' then Some OPERATOR_MOD
      else None)"
| "multiplicative_op _ = None"

fun additive_op :: "lex \<Rightarrow> operator option" where
  "additive_op (Ch c) =
     (if c = CHR ''+'' then Some OPERATOR_PLUS
      else if c = CHR ''-'' then Some OPERATOR_MINUS
      else None)"
| "additive_op _ = None"

fun shift_op :: "lex \<Rightarrow> operator option" where
  "shift_op SN_LS = Some OPERATOR_LS"
| "shift_op SN_RS = Some OPERATOR_RS"
| "shift_op _ = None"

fun relational_op :: "lex \<Rightarrow> operator option" where
  "relational_op (Ch c) =
     (if c = CHR ''<'' then Some OPERATOR_L
      else if c = CHR ''>'' then Some OPERATOR_G
      else None)"
| "relational_op SN_LE = Some OPERATOR_LE"
| "relational_op SN_GE = Some OPERATOR_GE"
| "relational_op _ = None"

fun equality_op :: "lex \<Rightarrow> operator option" where
  "equality_op SN_EQ = Some OPERATOR_EQ"
| "equality_op SN_NE = Some OPERATOR_NE"
| "equality_op _ = None"

fun and_op :: "lex \<Rightarrow> operator option" where
  "and_op (Ch c) = (if c = CHR ''&'' then Some OPERATOR_AND else None)"
| "and_op _ = None"

fun exclusive_or_op :: "lex \<Rightarrow> operator option" where
  "exclusive_or_op (Ch c) = (if c = CHR ''^'' then Some OPERATOR_ER else None)"
| "exclusive_or_op _ = None"

fun inclusive_or_op :: "lex \<Rightarrow> operator option" where
  "inclusive_or_op (Ch c) = (if c = CHR ''|'' then Some OPERATOR_OR else None)"
| "inclusive_or_op _ = None"

fun logical_and_op :: "lex \<Rightarrow> operator option" where
  "logical_and_op SN_ANDAND = Some OPERATOR_ANDAND"
| "logical_and_op _ = None"

fun logical_or_op :: "lex \<Rightarrow> operator option" where
  "logical_or_op SN_OROR = Some OPERATOR_OROR"
| "logical_or_op _ = None"

definition multiplicative_expression where
  "multiplicative_expression rec n =
     binary_level multiplicative_op (unary_expression rec n n) n"

definition additive_expression where
  "additive_expression rec n = binary_level additive_op (multiplicative_expression rec n) n"

definition shift_expression where
  "shift_expression rec n = binary_level shift_op (additive_expression rec n) n"

definition relational_expression where
  "relational_expression rec n = binary_level relational_op (shift_expression rec n) n"

definition equality_expression where
  "equality_expression rec n = binary_level equality_op (relational_expression rec n) n"

definition and_expression where
  "and_expression rec n = binary_level and_op (equality_expression rec n) n"

definition exclusive_or_expression where
  "exclusive_or_expression rec n = binary_level exclusive_or_op (and_expression rec n) n"

definition inclusive_or_expression where
  "inclusive_or_expression rec n =
     binary_level inclusive_or_op (exclusive_or_expression rec n) n"

definition logical_and_expression where
  "logical_and_expression rec n =
     binary_level logical_and_op (inclusive_or_expression rec n) n"

definition logical_or_expression where
  "logical_or_expression rec n = binary_level logical_or_op (logical_and_expression rec n) n"

text \<open>
  \<open>conditional_expression\<close>; \<open>rec\<close> is the call for the second operand (a
  \<open>constant_expression\<close>) and the one for the third (the function itself, which
  \<open>constant_expression\<close> is a synonym of).
\<close>

definition conditional_expression :: "(token list \<Rightarrow> cres) \<Rightarrow> nat \<Rightarrow> token list \<Rightarrow> cres" where
  "conditional_expression rec n ts =
     (case logical_or_expression rec n ts of
        Inl e \<Rightarrow> Inl e
      | Inr (c1, ts1) \<Rightarrow>
          if c1 = CEXP_NULL then Inr (c1, ts)
          else if token_at ts1 \<noteq> Ch CHR ''?'' then Inr (c1, ts1)
          else
            (case rec (step ts1) of
               Inl e \<Rightarrow> Inl e
             | Inr (c2, ts2) \<Rightarrow>
                 if c2 = CEXP_NULL then Inr (c2, ts)
                 else if token_at ts2 \<noteq> Ch CHR '':'' then Inr (CEXP_NULL, ts)
                 else
                   (case rec (step ts2) of
                      Inl e \<Rightarrow> Inl e
                    | Inr (c3, ts3) \<Rightarrow>
                        if c3 = CEXP_NULL then Inr (c3, ts)
                        else Inr (CexpCreateOp3 c1 c2 c3, ts3))))"

fun constant_expression :: "nat \<Rightarrow> token list \<Rightarrow> cres" where
  "constant_expression 0 ts = Inl NoReturn"
| "constant_expression (Suc n) ts = conditional_expression (constant_expression n) (Suc n) ts"

definition ConstantExpression_fuel :: "nat \<Rightarrow> token list \<Rightarrow> ub + cplex_mode" where
  "ConstantExpression_fuel n ts =
     map_sum id
       (\<lambda>(c, _). case c of
           CEXP_NULL \<Rightarrow> CPLEX_TRUE
         | CEXP_UNDEF \<Rightarrow> CPLEX_UNDEF
         | CEXP_DEF v \<Rightarrow> if v \<noteq> 0 then CPLEX_TRUE else CPLEX_FALSE)
       (constant_expression n ts)"

text \<open>The entry point, with the fuel that a line of that length needs at most.\<close>

definition ConstantExpression :: "token list \<Rightarrow> ub + cplex_mode" where
  "ConstantExpression ts = ConstantExpression_fuel (Suc (length ts)) ts"

end
