(* ===== verification/Expr_Spec.thy ===== *)
theory Expr_Spec
  imports Expr
begin

text \<open>
  What the evaluator of \<open>#if\<close> lines promises.  The reference is an abstract syntax with an
  evaluation that is independent of the parser, a printer with as few parentheses as the
  precedence of C allows, and the meaning the C standard gives to an expression (with
  \<open>&&\<close>, \<open>||\<close> and \<open>?:\<close> evaluating only the operands they need).
\<close>

section \<open>Abstract syntax\<close>

datatype aexp =
    Atom token
  | Unary operator aexp
  | Binary operator aexp aexp
  | Cond aexp aexp aexp

text \<open>The height of a binary operator: \<open>1\<close> binds tightest, \<open>10\<close> loosest.\<close>

fun height :: "operator \<Rightarrow> nat" where
  "height OPERATOR_MULT = 1" | "height OPERATOR_DIV = 1" | "height OPERATOR_MOD = 1"
| "height OPERATOR_PLUS = 2" | "height OPERATOR_MINUS = 2"
| "height OPERATOR_LS = 3" | "height OPERATOR_RS = 3"
| "height OPERATOR_L = 4" | "height OPERATOR_G = 4"
| "height OPERATOR_LE = 4" | "height OPERATOR_GE = 4"
| "height OPERATOR_EQ = 5" | "height OPERATOR_NE = 5"
| "height OPERATOR_AND = 6" | "height OPERATOR_ER = 7" | "height OPERATOR_OR = 8"
| "height OPERATOR_ANDAND = 9" | "height OPERATOR_OROR = 10"
| "height _ = 0"

fun op_lex :: "operator \<Rightarrow> lex" where
  "op_lex OPERATOR_MULT = Ch CHR ''*''" | "op_lex OPERATOR_DIV = Ch CHR ''/''"
| "op_lex OPERATOR_MOD = Ch CHR ''%''" | "op_lex OPERATOR_PLUS = Ch CHR ''+''"
| "op_lex OPERATOR_MINUS = Ch CHR ''-''" | "op_lex OPERATOR_LS = SN_LS"
| "op_lex OPERATOR_RS = SN_RS" | "op_lex OPERATOR_L = Ch CHR ''<''"
| "op_lex OPERATOR_G = Ch CHR ''>''" | "op_lex OPERATOR_LE = SN_LE"
| "op_lex OPERATOR_GE = SN_GE" | "op_lex OPERATOR_EQ = SN_EQ"
| "op_lex OPERATOR_NE = SN_NE" | "op_lex OPERATOR_AND = Ch CHR ''&''"
| "op_lex OPERATOR_ER = Ch CHR ''^''" | "op_lex OPERATOR_OR = Ch CHR ''|''"
| "op_lex OPERATOR_ANDAND = SN_ANDAND" | "op_lex OPERATOR_OROR = SN_OROR"
| "op_lex OPERATOR_UPLUS = Ch CHR ''+''" | "op_lex OPERATOR_UMINUS = Ch CHR ''-''"
| "op_lex OPERATOR_NOT = Ch CHR ''!''" | "op_lex OPERATOR_BNOT = Ch CHR ''~''"
| "op_lex OPERATOR_CONDITIONAL = Ch CHR ''?''"

definition tok :: "lex \<Rightarrow> token" where
  "tok l = mk_token l []"

definition unary_ops :: "operator set" where
  "unary_ops = {OPERATOR_UPLUS, OPERATOR_UMINUS, OPERATOR_NOT, OPERATOR_BNOT}"

fun atom_val :: "token \<Rightarrow> ub + cexp" where
  "atom_val t =
     (case tlex t of
        SN_INTEGERconstant \<Rightarrow> map_sum id (\<lambda>n. CEXP_DEF (long_to_int n)) (f_Atol (ttext t))
      | SN_LONGconstant \<Rightarrow> map_sum id (\<lambda>n. CEXP_DEF (long_to_int n)) (f_Atol (ttext t))
      | SN_CHARACTERconstant \<Rightarrow> map_sum id (\<lambda>n. CEXP_DEF (long_to_int n)) (f_Ctol (ttext t))
      | SN_TRUE \<Rightarrow> Inr (CEXP_DEF 1)
      | SN_FALSE \<Rightarrow> Inr (CEXP_DEF 0)
      | _ \<Rightarrow> Inr CEXP_UNDEF)"

definition atom_ok :: "token \<Rightarrow> bool" where
  "atom_ok t \<longleftrightarrow>
     tlex t \<in> {SN_INTEGERconstant, SN_LONGconstant, SN_CHARACTERconstant,
       SN_FLOATINGconstant, SN_STRINGliteral, SN_UNDEF, SN_TRUE, SN_FALSE} \<or>
     tlex t = SN_IDENTIFIER \<and> ttext t \<noteq> ''defined'' \<and> length (ttext t) < 1000"

fun wf_aexp :: "aexp \<Rightarrow> bool" where
  "wf_aexp (Atom t) = atom_ok t"
| "wf_aexp (Unary opr e) = (opr \<in> unary_ops \<and> wf_aexp e)"
| "wf_aexp (Binary opr e1 e2) = (1 \<le> height opr \<and> wf_aexp e1 \<and> wf_aexp e2)"
| "wf_aexp (Cond a b c) = (wf_aexp a \<and> wf_aexp b \<and> wf_aexp c)"

text \<open>The evaluation the parser performs, every operand of every operator included.\<close>

fun aeval :: "aexp \<Rightarrow> ub + cexp" where
  "aeval (Atom t) = atom_val t"
| "aeval (Unary opr e) = sbind (aeval e) (CexpCreateOp1 opr)"
| "aeval (Binary opr e1 e2) = sbind (aeval e1) (\<lambda>v. sbind (aeval e2) (CexpCreateOp2 opr v))"
| "aeval (Cond a b c) =
     sbind (aeval a) (\<lambda>u. sbind (aeval b) (\<lambda>v. sbind (aeval c) (\<lambda>w. Inr (CexpCreateOp3 u v w))))"

definition par :: "bool \<Rightarrow> token list \<Rightarrow> token list" where
  "par p ts = (if p then tok (Ch CHR ''('') # ts @ [tok (Ch CHR '')'')] else ts)"

text \<open>\<open>pr h e\<close> prints \<open>e\<close> where an expression of height at most \<open>h\<close> may stand.\<close>

fun pr :: "nat \<Rightarrow> aexp \<Rightarrow> token list" where
  "pr h (Atom t) = [t]"
| "pr h (Unary opr e) = tok (op_lex opr) # pr 0 e"
| "pr h (Binary opr e1 e2) =
     par (h < height opr) (pr (height opr) e1 @ tok (op_lex opr) # pr (height opr - 1) e2)"
| "pr h (Cond a b c) =
     par (h < 11) (pr 10 a @ tok (Ch CHR ''?'') # pr 11 b @ tok (Ch CHR '':'') # pr 11 c)"

section \<open>The levels of the parser as one family\<close>

definition level_ops :: "(lex \<Rightarrow> operator option) list" where
  "level_ops = [multiplicative_op, additive_op, shift_op, relational_op, equality_op, and_op,
     exclusive_or_op, inclusive_or_op, logical_and_op, logical_or_op]"

fun bparse :: "(token list \<Rightarrow> cres) \<Rightarrow> nat \<Rightarrow> nat \<Rightarrow> token list \<Rightarrow> cres" where
  "bparse rec n 0 = unary_expression rec n n"
| "bparse rec n (Suc k) = binary_level (level_ops ! k) (bparse rec n k) n"

lemma logical_or_bparse: "logical_or_expression rec n = bparse rec n 10"
  by (simp add: logical_or_expression_def logical_and_expression_def
      inclusive_or_expression_def exclusive_or_expression_def and_expression_def
      equality_expression_def relational_expression_def shift_expression_def
      additive_expression_def multiplicative_expression_def level_ops_def eval_nat_numeral)

lemma less10: "(k::nat) < 10 \<Longrightarrow>
  k = 0 \<or> k = 1 \<or> k = 2 \<or> k = 3 \<or> k = 4 \<or> k = 5 \<or> k = 6 \<or> k = 7 \<or> k = 8 \<or> k = 9"
  by arith

lemma level_ops_op_lex:
  assumes "1 \<le> height opr" "k < 10"
  shows "(level_ops ! k) (op_lex opr) = (if Suc k = height opr then Some opr else None)"
  using less10 [OF assms(2)] assms(1)
  by (cases opr; elim disjE) (simp_all add: level_ops_def)

lemma height_le: "height opr \<le> 10"
  by (cases opr) simp_all

lemma level_ops_None [simp]:
  assumes "k < 10"
  shows "(level_ops ! k) (Ch CHR ''?'') = None" "(level_ops ! k) (Ch CHR '':'') = None"
    "(level_ops ! k) (Ch CHR '')'') = None" "(level_ops ! k) SN_NEWLINE = None"
    "(level_ops ! k) (Ch NUL) = None"
  using less10 [OF assms] by (elim disjE; simp add: level_ops_def)+

section \<open>The parser on printed expressions\<close>

lemma token_at_Cons [simp]: "token_at (t # ts) = tlex t"
  by (simp add: token_at_def)

lemma ident_Cons [simp]: "ident (t # ts) = ttext t"
  by (simp add: ident_def)

lemma tlex_tok [simp]: "tlex (tok l) = l"
  by (simp add: tok_def)

lemma step_Cons [simp]: "ts \<noteq> [] \<Longrightarrow> step (t # ts) = ts"
  by (cases ts) (simp_all add: step_def)

lemma pr_nonempty [simp]: "pr h e \<noteq> []"
  by (cases e) (simp_all add: par_def)

definition stops :: "nat \<Rightarrow> token list \<Rightarrow> bool" where
  "stops h rest \<longleftrightarrow> rest \<noteq> [] \<and> token_at rest \<noteq> SN_STRINGliteral \<and>
     (\<forall>j < h. j < 10 \<longrightarrow> (level_ops ! j) (token_at rest) = None) \<and>
     (h = 11 \<longrightarrow> token_at rest \<noteq> Ch CHR ''?'')"

lemma stops_nonempty [simp]: "stops h rest \<Longrightarrow> rest \<noteq> []"
  by (simp add: stops_def)

lemma stops_mono: "stops h rest \<Longrightarrow> k \<le> h \<Longrightarrow> k \<le> 10 \<Longrightarrow> stops k rest"
  by (auto simp: stops_def)

lemma stops_closers [simp]:
  "stops 11 (tok (Ch CHR '')'') # rest)" "stops 11 (tok (Ch CHR '':'') # rest)"
  "stops 10 (tok (Ch CHR ''?'') # rest)" "stops 11 (tok SN_NEWLINE # rest)"
  by (auto simp: stops_def)

lemma stops_op:
  assumes "1 \<le> height opr" "k < height opr"
  shows "stops k (tok (op_lex opr) # rest)"
proof -
  have "op_lex opr \<noteq> SN_STRINGliteral" by (cases opr) simp_all
  then show ?thesis using assms height_le [of opr] by (auto simp: stops_def level_ops_op_lex)
qed

definition res :: "aexp \<Rightarrow> token list \<Rightarrow> cres" where
  "res e rest = map_sum id (\<lambda>v. (v, rest)) (aeval e)"

lemma CexpCreateOp1_not_NULL: "CexpCreateOp1 opr v = Inr w \<Longrightarrow> w \<noteq> CEXP_NULL"
  by (cases v) (auto simp: CexpCreateOp1_def)

lemma CexpCreateOp2_not_NULL: "CexpCreateOp2 opr u v = Inr w \<Longrightarrow> w \<noteq> CEXP_NULL"
  by (cases u; cases v) (auto simp: CexpCreateOp2_def split: if_splits)

lemma CexpCreateOp3_not_NULL:
  "v \<noteq> CEXP_NULL \<Longrightarrow> w \<noteq> CEXP_NULL \<Longrightarrow> CexpCreateOp3 u v w \<noteq> CEXP_NULL"
  by (simp add: CexpCreateOp3_def split: cexp.split)

lemma aeval_not_NULL: "aeval e = Inr v \<Longrightarrow> v \<noteq> CEXP_NULL"
proof (induction e arbitrary: v)
  case (Atom t)
  then show ?case by (auto split: lex.splits)
next
  case (Unary opr e)
  then show ?case by (auto dest: CexpCreateOp1_not_NULL)
next
  case (Binary opr e1 e2)
  then show ?case by (auto dest: CexpCreateOp2_not_NULL)
next
  case (Cond a b c)
  then show ?case by (auto simp: CexpCreateOp3_not_NULL)
qed

lemma res_cases:
  obtains (err) x where "aeval e = Inl x" "\<And>rest. res e rest = Inl x"
  | (val) v where "aeval e = Inr v" "v \<noteq> CEXP_NULL" "\<And>rest. res e rest = Inr (v, rest)"
  using aeval_not_NULL [of e] by (cases "aeval e") (auto simp: res_def)

text \<open>The parser reads \<open>e\<close> at height \<open>k\<close>, with fuel \<open>n\<close>.\<close>

definition reads :: "nat \<Rightarrow> aexp \<Rightarrow> nat \<Rightarrow> bool" where
  "reads k e n \<longleftrightarrow>
     (\<forall>rest. stops k rest \<longrightarrow> length (pr k e) < n \<longrightarrow>
        bparse (constant_expression (n - 1)) n k (pr k e @ rest) = res e rest)"

text \<open>At a binary level, reading an operand leaves the loop of the level to continue.\<close>

fun spine :: "nat \<Rightarrow> aexp \<Rightarrow> nat" where
  "spine k (Binary opr e1 e2) = (if height opr = k then Suc (spine k e1) else 0)"
| "spine k _ = 0"

lemma length_par: "length ts \<le> length (par p ts)"
  by (simp add: par_def)

lemma spine_less: "spine k e < length (pr k e)"
proof (induction e)
  case (Binary opr e1 e2)
  then show ?case by (auto simp: par_def)
qed (simp_all add: par_def)

definition continues :: "nat \<Rightarrow> aexp \<Rightarrow> nat \<Rightarrow> bool" where
  "continues k e n \<longleftrightarrow>
     (\<forall>rest. stops k rest \<longrightarrow> length (pr (Suc k) e) < n \<longrightarrow>
        bparse (constant_expression (n - 1)) n (Suc k) (pr (Suc k) e @ rest) =
        (case aeval e of
           Inl x \<Rightarrow> Inl x
         | Inr v \<Rightarrow> binary_loop (level_ops ! k) (bparse (constant_expression (n - 1)) n k)
                     (n - spine (Suc k) e) (pr (Suc k) e @ rest) v rest))"

lemma reads_continues:
  assumes "reads k e n" "pr (Suc k) e = pr k e" "spine (Suc k) e = 0"
  shows "continues k e n"
  unfolding continues_def
proof (intro allI impI)
  fix rest
  assume "stops k rest" "length (pr (Suc k) e) < n"
  with assms have r: "bparse (constant_expression (n - 1)) n k (pr k e @ rest) = res e rest"
    by (simp add: reads_def)
  show "bparse (constant_expression (n - 1)) n (Suc k) (pr (Suc k) e @ rest) =
        (case aeval e of
           Inl x \<Rightarrow> Inl x
         | Inr v \<Rightarrow> binary_loop (level_ops ! k) (bparse (constant_expression (n - 1)) n k)
                     (n - spine (Suc k) e) (pr (Suc k) e @ rest) v rest)"
    by (cases rule: res_cases [of e]) (use r assms in \<open>simp_all add: binary_level_def\<close>)
qed

lemma continues_reads:
  assumes "continues k e n" "k < 10"
  shows "reads (Suc k) e n"
  unfolding reads_def
proof (intro allI impI)
  fix rest
  assume s: "stops (Suc k) rest" and n: "length (pr (Suc k) e) < n"
  then have s': "stops k rest" using assms by (auto intro: stops_mono)
  have none: "(level_ops ! k) (token_at rest) = None"
    using s assms by (simp add: stops_def)
  obtain m where m: "n - spine (Suc k) e = Suc m"
    using spine_less [of "Suc k" e] n by (cases "n - spine (Suc k) e") auto
  show "bparse (constant_expression (n - 1)) n (Suc k) (pr (Suc k) e @ rest) = res e rest"
    using assms(1) s' n none m unfolding continues_def
    by (cases rule: res_cases [of e]) simp_all
qed

lemma continues_Binary:
  assumes "height opr = Suc k" "continues k e1 n" "reads k e2 n"
  shows "continues k (Binary opr e1 e2) n"
  unfolding continues_def
proof (intro allI impI)
  fix rest
  let ?e = "Binary opr e1 e2"
  let ?sub = "bparse (constant_expression (n - 1)) n k"
  assume s: "stops k rest" and n: "length (pr (Suc k) ?e) < n"
  have k: "k < 10" using assms(1) height_le [of opr] by simp
  define mid where "mid = tok (op_lex opr) # pr k e2 @ rest"
  have p: "pr (Suc k) ?e @ rest = pr (Suc k) e1 @ mid"
    using assms(1) by (simp add: par_def mid_def)
  have opn: "(level_ops ! k) (token_at mid) = Some opr"
    using level_ops_op_lex [of opr k] assms(1) k by (simp add: mid_def)
  have st: "step mid = pr k e2 @ rest" by (simp add: mid_def)
  have smid: "stops k mid" unfolding mid_def using assms(1) by (intro stops_op) simp_all
  have n1: "length (pr (Suc k) e1) < n" and n2: "length (pr k e2) < n"
    using n assms(1) by (simp_all add: par_def)
  have r2: "?sub (pr k e2 @ rest) = res e2 rest"
    using assms(3) s n2 by (simp add: reads_def)
  obtain m where m: "n - spine (Suc k) e1 = Suc m" "n - spine (Suc k) ?e = m"
    using spine_less [of "Suc k" e1] n1 assms(1) by (cases "n - spine (Suc k) e1") auto
  have c1: "bparse (constant_expression (n - 1)) n (Suc k) (pr (Suc k) e1 @ mid) =
        (case aeval e1 of
           Inl x \<Rightarrow> Inl x
         | Inr v \<Rightarrow> binary_loop (level_ops ! k) ?sub (Suc m) (pr (Suc k) e1 @ mid) v mid)"
    using assms(2) smid n1 unfolding continues_def m(1) [symmetric] by blast
  show "bparse (constant_expression (n - 1)) n (Suc k) (pr (Suc k) ?e @ rest) =
        (case aeval ?e of
           Inl x \<Rightarrow> Inl x
         | Inr v \<Rightarrow> binary_loop (level_ops ! k) ?sub
                     (n - spine (Suc k) ?e) (pr (Suc k) ?e @ rest) v rest)"
    unfolding p m(2) c1
    by (cases rule: res_cases [of e1]; cases rule: res_cases [of e2])
      (use opn st r2 in \<open>simp_all split: sum.splits\<close>)
qed


text \<open>The height of the outermost construct of an expression.\<close>

fun outer :: "aexp \<Rightarrow> nat" where
  "outer (Binary opr e1 e2) = height opr"
| "outer (Cond a b c) = 11"
| "outer _ = 0"

lemma pr_low: "outer e \<le> k \<Longrightarrow> outer e \<le> h \<Longrightarrow> pr k e = pr h e"
  by (cases e) (auto simp: par_def)

lemma pr_high: "k < outer e \<Longrightarrow> outer e \<le> 11 \<Longrightarrow>
  pr k e = tok (Ch CHR ''('') # pr 11 e @ [tok (Ch CHR '')'')]"
  by (cases e) (auto simp: par_def)

lemma outer_le: "outer e \<le> 11"
  using height_le by (cases e) (auto intro: le_SucI order_trans)

lemma pr_same: "outer e \<noteq> Suc k \<Longrightarrow> pr (Suc k) e = pr k e"
proof (cases "outer e \<le> k")
  case True
  then show ?thesis by (intro pr_low) auto
next
  case False
  assume "outer e \<noteq> Suc k"
  with False show ?thesis by (simp add: pr_high outer_le)
qed

lemma spine_zero: "outer e \<noteq> k \<Longrightarrow> spine k e = 0"
  by (cases e) simp_all

text \<open>Upwards through the levels at which the expression is printed in the same way.\<close>

lemma reads_up:
  assumes "reads j e n" "j \<le> k" "k \<le> 10" "outer e \<le> j \<or> k < outer e"
  shows "reads k e n"
  using assms(2,3,4)
proof (induction k rule: dec_induct)
  case base
  show ?case by (rule assms(1))
next
  case (step k)
  have "reads k e n" using step by auto
  moreover have "pr (Suc k) e = pr k e"
    using step.hyps step.prems by (intro pr_same) auto
  moreover have "spine (Suc k) e = 0"
    using step.hyps step.prems by (intro spine_zero) auto
  ultimately have "continues k e n" by (rule reads_continues)
  then show ?case using step.prems by (intro continues_reads) auto
qed

definition reads_cond :: "aexp \<Rightarrow> nat \<Rightarrow> bool" where
  "reads_cond e n \<longleftrightarrow>
     (\<forall>rest. stops 11 rest \<longrightarrow> length (pr 11 e) < n \<longrightarrow>
        constant_expression n (pr 11 e @ rest) = res e rest)"

lemma constant_expression_unfold:
  "0 < n \<Longrightarrow> constant_expression n ts = conditional_expression (constant_expression (n - 1)) n ts"
  by (cases n) simp_all

lemma reads_cond_plain:
  assumes "reads 10 e n" "outer e \<le> 10"
  shows "reads_cond e n"
  unfolding reads_cond_def
proof (intro allI impI)
  fix rest
  assume s: "stops 11 rest" and n: "length (pr 11 e) < n"
  have p: "pr 11 e = pr 10 e" using assms(2) by (intro pr_low) simp_all
  have r: "bparse (constant_expression (n - 1)) n 10 (pr 10 e @ rest) = res e rest"
    using assms(1) n s p stops_mono [OF s, of 10] by (simp add: reads_def)
  have q: "token_at rest \<noteq> Ch CHR ''?''" using s by (simp add: stops_def)
  show "constant_expression n (pr 11 e @ rest) = res e rest"
    using n q r unfolding p
    by (cases rule: res_cases [of e])
      (simp_all add: constant_expression_unfold conditional_expression_def logical_or_bparse)
qed

lemma reads_cond_Cond:
  assumes "reads 10 a n" "reads_cond b (n - 1)" "reads_cond c (n - 1)"
  shows "reads_cond (Cond a b c) n"
  unfolding reads_cond_def
proof (intro allI impI)
  fix rest
  assume s: "stops 11 rest" and n: "length (pr 11 (Cond a b c)) < n"
  define r2 where "r2 = tok (Ch CHR '':'') # pr 11 c @ rest"
  define r1 where "r1 = tok (Ch CHR ''?'') # pr 11 b @ r2"
  have p: "pr 11 (Cond a b c) @ rest = pr 10 a @ r1" by (simp add: par_def r1_def r2_def)
  have l: "length (pr 10 a) < n" "length (pr 11 b) < n - 1" "length (pr 11 c) < n - 1" "0 < n"
    using n by (auto simp: par_def)
  have ra: "bparse (constant_expression (n - 1)) n 10 (pr 10 a @ r1) = res a r1"
    using assms(1) l(1) by (simp add: reads_def r1_def)
  have rb: "constant_expression (n - 1) (pr 11 b @ r2) = res b r2"
    using assms(2) l(2) by (simp add: reads_cond_def r2_def)
  have rc: "constant_expression (n - 1) (pr 11 c @ rest) = res c rest"
    using assms(3) l(3) s by (simp add: reads_cond_def)
  have t: "token_at r1 = Ch CHR ''?''" "step r1 = pr 11 b @ r2"
      "token_at r2 = Ch CHR '':''" "step r2 = pr 11 c @ rest"
    by (simp_all add: r1_def r2_def)
  have e: "constant_expression n (pr 11 (Cond a b c) @ rest) =
      conditional_expression (constant_expression (n - 1)) n (pr 10 a @ r1)"
    unfolding p by (rule constant_expression_unfold [OF l(4)])
  show "constant_expression n (pr 11 (Cond a b c) @ rest) = res (Cond a b c) rest"
  proof (cases rule: res_cases [of a])
    case (err x)
    then show ?thesis
      unfolding e conditional_expression_def logical_or_bparse ra by (simp add: res_def)
  next
    case a: (val u)
    show ?thesis
      unfolding e conditional_expression_def logical_or_bparse ra a(3)
      by (cases rule: res_cases [of b]; cases rule: res_cases [of c])
        (simp_all only: sum.case prod.case t rb rc a(2) if_False not_True_eq_False
          not_False_eq_True simp_thms refl res_def aeval.simps a(1) sbind_simps map_sum.simps id_apply)
  qed
qed

text \<open>Unary level: atoms, prefix operators and parenthesised expressions.\<close>

definition reads_unary :: "aexp \<Rightarrow> nat \<Rightarrow> bool" where
  "reads_unary e n \<longleftrightarrow>
     (\<forall>m rest. stops 0 rest \<longrightarrow> length (pr 0 e) < n \<longrightarrow> length (pr 0 e) < m \<longrightarrow>
        unary_expression (constant_expression (n - 1)) n m (pr 0 e @ rest) = res e rest)"

lemma reads_unary_reads: "reads_unary e n \<Longrightarrow> reads 0 e n"
  by (simp add: reads_unary_def reads_def)

lemma primary_atom:
  assumes "atom_ok t" "stops 0 rest" "1 < n"
  shows "primary_expression rec n (t # rest) = map_sum id (\<lambda>v. (v, rest)) (atom_val t)"
proof -
  have "skip_strings n rest = Inr rest"
    using assms by (cases n) (simp_all add: stops_def)
  then show ?thesis
    using assms
    by (cases "tlex t")
      (auto simp: atom_ok_def primary_expression_def const_value_def f_StringCompare_def
        sum.map_comp o_def id_def)
qed

lemma unary_of_primary:
  assumes "primary_expression rec n ts = map_sum id (\<lambda>v. (v, rest)) s"
    "\<And>v. s = Inr v \<Longrightarrow> v \<noteq> CEXP_NULL" "0 < m"
  shows "unary_expression rec n m ts = map_sum id (\<lambda>v. (v, rest)) s"
  using assms by (cases m; cases s) simp_all

lemma reads_unary_Atom:
  assumes "atom_ok t"
  shows "reads_unary (Atom t) n"
  unfolding reads_unary_def
proof (intro allI impI)
  fix m rest
  assume "stops 0 rest" "length (pr 0 (Atom t)) < n" "length (pr 0 (Atom t)) < m"
  then show "unary_expression (constant_expression (n - 1)) n m (pr 0 (Atom t) @ rest) =
      res (Atom t) rest"
    using assms aeval_not_NULL [of "Atom t"] unfolding res_def
    by (auto intro!: unary_of_primary simp: primary_atom)
qed

lemma reads_unary_Unary:
  assumes "opr \<in> unary_ops" "reads_unary e n"
  shows "reads_unary (Unary opr e) n"
  unfolding reads_unary_def
proof (intro allI impI)
  fix m rest
  let ?ts = "tok (op_lex opr) # pr 0 e @ rest"
  assume s: "stops 0 rest" and n: "length (pr 0 (Unary opr e)) < n"
    and m: "length (pr 0 (Unary opr e)) < m"
  obtain m' where m': "m = Suc m'" using m by (cases m) auto
  have r: "unary_expression (constant_expression (n - 1)) n m' (pr 0 e @ rest) = res e rest"
    using assms(2) s n m m' by (simp add: reads_unary_def)
  have p: "primary_expression (constant_expression (n - 1)) n ?ts = Inr (CEXP_NULL, ?ts)"
    using assms(1) by (auto simp: unary_ops_def primary_expression_def)
  have u: "unary_op (op_lex opr) = Some opr"
    using assms(1) by (auto simp: unary_ops_def)
  show "unary_expression (constant_expression (n - 1)) n m (pr 0 (Unary opr e) @ rest) =
      res (Unary opr e) rest"
    unfolding m'
    by (cases rule: res_cases [of e]) (use p u r in \<open>simp_all add: res_def\<close>)
qed

lemma reads_unary_paren:
  assumes "0 < outer e" "reads_cond e (n - 1)"
  shows "reads_unary e n"
  unfolding reads_unary_def
proof (intro allI impI)
  fix m rest
  let ?r = "tok (Ch CHR '')'') # rest"
  assume s: "stops 0 rest" and n: "length (pr 0 e) < n" and m: "length (pr 0 e) < m"
  have p: "pr 0 e @ rest = tok (Ch CHR ''('') # pr 11 e @ ?r"
    using assms(1) outer_le by (simp add: pr_high)
  have "length (pr 11 e) < n - 1" using n assms(1) outer_le by (simp add: pr_high)
  then have r: "constant_expression (n - 1) (pr 11 e @ ?r) = res e ?r"
    using assms(2) by (simp add: reads_cond_def)
  have "primary_expression (constant_expression (n - 1)) n (pr 0 e @ rest) = res e rest"
    unfolding p
    by (cases rule: res_cases [of e]) (use r s in \<open>simp_all add: primary_expression_def\<close>)
  then show "unary_expression (constant_expression (n - 1)) n m (pr 0 e @ rest) = res e rest"
    unfolding res_def using m aeval_not_NULL [of e] by (intro unary_of_primary) auto
qed

text \<open>Everything together: an expression is read at its own height, hence at every height.\<close>

definition parses :: "aexp \<Rightarrow> bool" where
  "parses e \<longleftrightarrow> (\<forall>n. reads_unary e n \<and> reads_cond e n \<and>
     (\<forall>h \<le> 10. reads h e n) \<and> (\<forall>k < 10. continues k e n))"

lemma parsesI:
  assumes unary: "\<And>n. outer e = 0 \<Longrightarrow> reads_unary e n"
    and binary: "\<And>n. 0 < outer e \<Longrightarrow> outer e \<le> 10 \<Longrightarrow> continues (outer e - 1) e n"
    and cond: "\<And>n. outer e = 11 \<Longrightarrow> reads_cond e n"
  shows "parses e"
proof -
  have own: "reads (outer e) e n" if "outer e \<le> 10" for n
  proof (cases "outer e")
    case 0
    with unary show ?thesis by (auto intro: reads_unary_reads)
  next
    case (Suc k)
    with binary [of n] that show ?thesis by (auto intro: continues_reads)
  qed
  have c: "reads_cond e n" for n
  proof (cases "outer e \<le> 10")
    case True
    then show ?thesis using own by (auto intro: reads_cond_plain reads_up)
  next
    case False
    then show ?thesis using outer_le [of e] by (auto intro: cond)
  qed
  have u: "reads_unary e n" for n
    using c unary by (cases "outer e = 0") (auto intro: reads_unary_paren)
  have r: "reads h e n" if "h \<le> 10" for h n
  proof (cases "outer e \<le> h")
    case True
    with that own show ?thesis by (auto intro: reads_up)
  next
    case False
    with that show ?thesis by (intro reads_up [OF reads_unary_reads [OF u]]) auto
  qed
  have "continues k e n" if "k < 10" for k n
  proof (cases "outer e = Suc k")
    case True
    then show ?thesis using binary [of n] that by simp
  next
    case False
    then have "pr (Suc k) e = pr k e" by (rule pr_same)
    then show ?thesis using r [of k n] that False by (intro reads_continues spine_zero) auto
  qed
  then show ?thesis using c u r by (simp add: parses_def)
qed

lemma wf_parses: "wf_aexp e \<Longrightarrow> parses e"
proof (induction e)
  case (Atom t)
  then show ?case by (intro parsesI) (simp_all add: reads_unary_Atom)
next
  case (Unary opr e)
  then show ?case by (intro parsesI) (simp_all add: reads_unary_Unary parses_def)
next
  case (Binary opr e1 e2)
  then have "parses e1" "parses e2" by simp_all
  then show ?case using Binary.prems height_le [of opr]
    by (intro parsesI) (auto simp: parses_def intro!: continues_Binary)
next
  case (Cond a b c)
  then show ?case by (intro parsesI) (simp_all add: parses_def reads_cond_Cond)
qed

lemma constant_expression_printed:
  assumes "wf_aexp e" "length (pr 11 e) < n" "stops 11 rest"
  shows "constant_expression n (pr 11 e @ rest) = map_sum id (\<lambda>v. (v, rest)) (aeval e)"
  using wf_parses [OF assms(1)] assms(2,3) by (simp add: parses_def reads_cond_def res_def)

end
