(* ===== verification/Expr_Props.thy ===== *)
theory Expr_Props
  imports Expr_Spec
begin

text \<open>
  Termination and the meaning of the \<open>#if\<close> evaluator.
\<close>

section \<open>Termination and error recovery\<close>

text \<open>
  The lines the lexer hands over end with a newline token or with the end of the file
  (\<open>f_TokenReadToNewline\<close>); \<open>step\<close> never has to move past that token.
\<close>

definition well_ended :: "token list \<Rightarrow> bool" where
  "well_ended ts \<longleftrightarrow> ts \<noteq> [] \<and> tlex (last ts) \<in> {SN_NEWLINE, Ch NUL}"

lemma well_ended_step:
  assumes "well_ended ts" "token_at ts \<noteq> SN_NEWLINE" "token_at ts \<noteq> Ch NUL"
  shows "well_ended (step ts)" "length ts = Suc (length (step ts))"
proof -
  obtain t us where ts: "ts = t # us" using assms(1) by (cases ts) (auto simp: well_ended_def)
  have "us \<noteq> []" using assms ts by (auto simp: well_ended_def)
  then show "well_ended (step ts)" "length ts = Suc (length (step ts))"
    using assms(1) ts by (simp_all add: well_ended_def)
qed

definition outcome_ok :: "token list \<Rightarrow> cres \<Rightarrow> bool" where
  "outcome_ok ts r \<longleftrightarrow>
     (case r of
        Inl e \<Rightarrow> e \<noteq> NoReturn
      | Inr (c, ts') \<Rightarrow>
          if c = CEXP_NULL then ts' = ts else well_ended ts' \<and> length ts' < length ts)"

definition good :: "nat \<Rightarrow> (token list \<Rightarrow> cres) \<Rightarrow> bool" where
  "good L P \<longleftrightarrow> (\<forall>ts. well_ended ts \<longrightarrow> length ts \<le> L \<longrightarrow> outcome_ok ts (P ts))"

lemma goodD:
  assumes "good L P" "well_ended ts" "length ts \<le> L"
  obtains (err) e where "P ts = Inl e" "e \<noteq> NoReturn"
  | (null) "P ts = Inr (CEXP_NULL, ts)"
  | (val) c ts' where "P ts = Inr (c, ts')" "c \<noteq> CEXP_NULL" "well_ended ts'"
      "length ts' < length ts"
proof -
  have "outcome_ok ts (P ts)" using assms by (simp add: good_def)
  then show thesis
    by (cases "P ts") (auto simp: outcome_ok_def split: if_splits intro: err null val)
qed

lemma c_op2_returns: "c_op2 opr a b \<noteq> Inl NoReturn"
  by (cases opr) (simp_all add: chk_int_def)

lemma c_op1_returns: "c_op1 opr a \<noteq> Inl NoReturn"
  by (cases opr) (simp_all add: chk_int_def)

lemma CexpCreateOp2_returns: "CexpCreateOp2 opr u v \<noteq> Inl NoReturn"
  by (cases u; cases v) (auto simp: CexpCreateOp2_def c_op2_returns)

lemma CexpCreateOp1_returns: "CexpCreateOp1 opr u \<noteq> Inl NoReturn"
  by (cases u) (auto simp: CexpCreateOp1_def c_op1_returns)

lemma f_Atol_returns: "f_Atol s \<noteq> Inl NoReturn"
proof -
  have "f_Atol_loop i m v s \<noteq> Inl NoReturn" for i m v
  proof (induction i m v s rule: f_Atol_loop.induct)
    case (2 i mode v c cs)
    then show ?case by (cases mode) auto
  qed simp
  then show ?thesis by (simp add: f_Atol_def)
qed

lemma f_Ctol_returns: "f_Ctol s \<noteq> Inl NoReturn"
proof -
  have "f_Ctol_octal v s \<noteq> Inl NoReturn" for v s
    by (induction v s rule: f_Ctol_octal.induct) simp_all
  then show ?thesis by (simp add: f_Ctol_def f_Ctol_body_def Let_def split: list.split)
qed

lemma skip_strings_ok:
  "well_ended ts \<Longrightarrow> length ts \<le> n \<Longrightarrow>
   \<exists>ts'. skip_strings n ts = Inr ts' \<and> well_ended ts' \<and> length ts' \<le> length ts"
proof (induction n ts rule: skip_strings.induct)
  case (1 ts)
  then show ?case by (simp add: well_ended_def)
next
  case (2 n ts)
  show ?case
  proof (cases "token_at ts = SN_STRINGliteral")
    case True
    then have "well_ended (step ts)" "length ts = Suc (length (step ts))"
      using 2 by (auto intro: well_ended_step)
    with 2 True show ?thesis by fastforce
  next
    case False
    with 2 show ?thesis by simp
  qed
qed

lemma good_const:
  assumes "well_ended ts" "token_at ts \<noteq> SN_NEWLINE" "token_at ts \<noteq> Ch NUL" "v \<noteq> Inl NoReturn"
  shows "outcome_ok ts (const_value v ts)"
  using well_ended_step [OF assms(1-3)] assms(4)
  by (cases v) (auto simp: outcome_ok_def const_value_def)

lemma good_primary:
  assumes "good L rec" "Suc L \<le> n"
  shows "good (Suc L) (primary_expression rec n)"
  unfolding good_def
proof (intro allI impI)
  fix ts
  assume w: "well_ended ts" and l: "length ts \<le> Suc L"
  note st = well_ended_step [OF w]
  show "outcome_ok ts (primary_expression rec n ts)"
  proof (cases "token_at ts = Ch CHR ''(''")
    case True
    have s: "well_ended (step ts)" "length ts = Suc (length (step ts))"
      using True by (auto intro: st)
    then have "length (step ts) \<le> L" using l by simp
    from assms(1) s(1) this show ?thesis
    proof (cases rule: goodD)
      case (val c ts')
      then show ?thesis
        using True s well_ended_step [of ts']
        by (auto simp: primary_expression_def outcome_ok_def)
    qed (use True in \<open>simp_all add: primary_expression_def outcome_ok_def\<close>)
  next
    case notpar: False
    show ?thesis
    proof (cases "token_at ts = SN_STRINGliteral")
      case True
      then have s: "well_ended (step ts)" "length ts = Suc (length (step ts))"
        by (auto intro: st)
      then obtain ts' where "skip_strings n (step ts) = Inr ts'" "well_ended ts'"
          "length ts' \<le> length (step ts)"
        using skip_strings_ok [of "step ts" n] l assms(2) by auto
      with True s show ?thesis by (simp add: primary_expression_def outcome_ok_def)
    next
      case False
      then show ?thesis
        using notpar w st good_const [OF w] f_Atol_returns f_Ctol_returns
        by (cases "token_at ts")
          (auto simp: primary_expression_def outcome_ok_def f_StringCompare_def)
    qed
  qed
qed

lemma unary_op_ends [simp]: "unary_op SN_NEWLINE = None" "unary_op (Ch NUL) = None"
  by simp_all

lemma good_unary:
  assumes "good L rec" "Suc L \<le> n"
  shows "well_ended ts \<Longrightarrow> length ts \<le> Suc L \<Longrightarrow> length ts \<le> m \<Longrightarrow>
    outcome_ok ts (unary_expression rec n m ts)"
proof (induction m arbitrary: ts)
  case 0
  then show ?case by (simp add: well_ended_def)
next
  case (Suc m)
  from good_primary [OF assms] Suc.prems(1,2) show ?case
  proof (cases rule: goodD)
    case null
    show ?thesis
    proof (cases "unary_op (token_at ts)")
      case None
      with null show ?thesis by (simp add: outcome_ok_def)
    next
      case (Some opr)
      then have s: "well_ended (step ts)" "length ts = Suc (length (step ts))"
        using well_ended_step [OF Suc.prems(1)] by force+
      then have "outcome_ok (step ts) (unary_expression rec n m (step ts))"
        using Suc by simp
      then show ?thesis
        using null Some s CexpCreateOp1_not_NULL CexpCreateOp1_returns
        by (auto simp: outcome_ok_def map_sum_def split: sum.splits if_splits)
    qed
  qed (simp_all add: outcome_ok_def)
qed

definition ends_level :: "(lex \<Rightarrow> operator option) \<Rightarrow> bool" where
  "ends_level ops \<longleftrightarrow> ops SN_NEWLINE = None \<and> ops (Ch NUL) = None"

lemma binary_loop_ok:
  assumes "good L next" "ends_level ops"
  shows "well_ended ts \<Longrightarrow> length ts \<le> L \<Longrightarrow> length ts \<le> m \<Longrightarrow> c1 \<noteq> CEXP_NULL \<Longrightarrow>
    length ts < length save \<Longrightarrow> outcome_ok save (binary_loop ops next m save c1 ts)"
proof (induction m arbitrary: ts c1)
  case 0
  then show ?case by (simp add: well_ended_def)
next
  case (Suc m)
  show ?case
  proof (cases "ops (token_at ts)")
    case None
    with Suc.prems show ?thesis by (simp add: outcome_ok_def)
  next
    case (Some opr)
    then have s: "well_ended (step ts)" "length ts = Suc (length (step ts))"
      using well_ended_step [OF Suc.prems(1)] assms(2) by (force simp: ends_level_def)+
    then have "length (step ts) \<le> L" using Suc.prems by simp
    from assms(1) s(1) this show ?thesis
    proof (cases rule: goodD)
      case (val c2 ts')
      then have "outcome_ok save (binary_loop ops next m save c ts')"
        if "CexpCreateOp2 opr c1 c2 = Inr c" for c
        using Suc.prems s that CexpCreateOp2_not_NULL by (intro Suc.IH) auto
      with Some val show ?thesis
        using CexpCreateOp2_returns by (auto simp: outcome_ok_def split: sum.split)
    qed (use Some in \<open>simp_all add: outcome_ok_def\<close>)
  qed
qed

lemma good_binary:
  assumes "good L next" "L \<le> n" "ends_level ops"
  shows "good L (binary_level ops next n)"
  unfolding good_def
proof (intro allI impI)
  fix ts
  assume w: "well_ended ts" "length ts \<le> L"
  from assms(1) w show "outcome_ok ts (binary_level ops next n ts)"
  proof (cases rule: goodD)
    case (val c ts')
    then have "outcome_ok ts (binary_loop ops next n ts c ts')"
      using w assms(2) by (intro binary_loop_ok [OF assms(1,3)]) auto
    with val show ?thesis by (simp add: binary_level_def)
  qed (simp_all add: binary_level_def outcome_ok_def)
qed

lemma good_bparse:
  assumes "good L rec" "Suc L \<le> n"
  shows "k \<le> 10 \<Longrightarrow> good (Suc L) (bparse rec n k)"
proof (induction k)
  case 0
  show ?case using good_unary [OF assms] assms(2) by (simp add: good_def)
next
  case (Suc k)
  then have "ends_level (level_ops ! k)" by (simp add: ends_level_def)
  with Suc assms(2) show ?case by (simp add: good_binary)
qed

lemma good_conditional:
  assumes "good L rec" "Suc L \<le> n"
  shows "good (Suc L) (conditional_expression rec n)"
  unfolding good_def
proof (intro allI impI)
  fix ts
  assume w: "well_ended ts" "length ts \<le> Suc L"
  have g: "good (Suc L) (logical_or_expression rec n)"
    using good_bparse [OF assms, of 10] by (simp add: logical_or_bparse)
  from g w show "outcome_ok ts (conditional_expression rec n ts)"
  proof (cases rule: goodD)
    case v1: (val c1 ts1)
    show ?thesis
    proof (cases "token_at ts1 = Ch CHR ''?''")
      case True
      then have s: "well_ended (step ts1)" "length ts1 = Suc (length (step ts1))"
        using well_ended_step [OF v1(3)] by auto
      then have "length (step ts1) \<le> L" using v1 w by simp
      from assms(1) s(1) this show ?thesis
      proof (cases rule: goodD)
        case v2: (val c2 ts2)
        show ?thesis
        proof (cases "token_at ts2 = Ch CHR '':''")
          case colon: True
          then have s2: "well_ended (step ts2)" "length ts2 = Suc (length (step ts2))"
            using well_ended_step [OF v2(3)] by auto
          then have "length (step ts2) \<le> L" using v1 v2 s w by simp
          from assms(1) s2(1) this show ?thesis
          proof (cases rule: goodD)
            case (val c3 ts3)
            then show ?thesis using v1 v2 True colon s s2
              by (simp add: conditional_expression_def outcome_ok_def CexpCreateOp3_not_NULL)
          qed (use v1 v2 True colon in \<open>simp_all add: conditional_expression_def outcome_ok_def\<close>)
        qed (use v1 v2 True in \<open>simp add: conditional_expression_def outcome_ok_def\<close>)
      qed (use v1 True in \<open>simp_all add: conditional_expression_def outcome_ok_def\<close>)
    qed (use v1 in \<open>simp add: conditional_expression_def outcome_ok_def\<close>)
  qed (simp_all add: conditional_expression_def outcome_ok_def)
qed

lemma good_constant: "good n (constant_expression n)"
proof (induction n)
  case 0
  show ?case by (auto simp: good_def well_ended_def)
next
  case (Suc n)
  then show ?case using good_conditional [OF Suc, of "Suc n"] by (simp add: good_def)
qed

lemma constant_expression_outcome:
  assumes "well_ended ts" "length ts \<le> n"
  shows "outcome_ok ts (constant_expression n ts)"
  using good_constant [of n] assms by (simp add: good_def)

section \<open>The meaning of a condition\<close>

text \<open>
  The value C gives to a constant expression, without reference to the evaluator: constants are
  read as numbers, arithmetic is that of 64-bit integers and undefined (\<open>None\<close>) where C leaves it
  so, \<open>&&\<close>, \<open>||\<close> and \<open>?:\<close> evaluate from left to right and only the operands they need.  \<open>\<rho>\<close> says
  what the operands the evaluator cannot know are worth.
\<close>

definition digit_values :: "(char \<times> nat) list" where
  "digit_values = zip ''0123456789abcdefABCDEF'' ([0..<16] @ [10..<16])"

fun digits_value :: "nat \<Rightarrow> int \<Rightarrow> string \<Rightarrow> int option" where
  "digits_value base v [] = Some v"
| "digits_value base v (c # cs) =
     (case map_of digit_values c of
        None \<Rightarrow> None
      | Some d \<Rightarrow> if d < base then digits_value base (v * int base + int d) cs else None)"

definition std_int :: "string \<Rightarrow> int option" where
  "std_int s =
     (let t = (if s \<noteq> [] \<and> last s \<in> {CHR ''l'', CHR ''L''} then butlast s else s) in
      case t of
        [] \<Rightarrow> None
      | c # cs \<Rightarrow>
          if c \<noteq> CHR ''0'' then digits_value 10 0 (c # cs)
          else
            (case cs of
               [] \<Rightarrow> Some 0
             | x # ds \<Rightarrow>
                 if x = CHR ''x'' \<or> x = CHR ''X'' then (if ds = [] then None else digits_value 16 0 ds)
                 else digits_value 8 0 (x # ds)))"

definition simple_escapes :: "(char \<times> int) list" where
  "simple_escapes = [(CHR ''n'', 10), (CHR ''t'', 9), (CHR ''r'', 13), (BSLASH, 92), (QUOTE, 39), (DQUOTE, 34),
     (CHR ''?'', 63), (CHR ''a'', 7), (CHR ''b'', 8), (CHR ''f'', 12), (CHR ''v'', 11)]"

text \<open>A character constant: one character of ASCII, a simple escape, or up to three octal digits.\<close>

definition ascii_code :: "int option \<Rightarrow> int option" where
  "ascii_code v = (case v of None \<Rightarrow> None | Some n \<Rightarrow> if n < 128 then Some n else None)"

definition std_char :: "string \<Rightarrow> int option" where
  "std_char s =
     (if length s < 3 \<or> hd s \<noteq> QUOTE \<or> last s \<noteq> QUOTE then None
      else
        (case butlast (tl s) of
           [] \<Rightarrow> None
         | c # cs \<Rightarrow>
             if c = BSLASH then
               (case cs of
                  [] \<Rightarrow> None
                | e # es \<Rightarrow>
                    if es = [] \<and> map_of simple_escapes e \<noteq> None then map_of simple_escapes e
                    else if length cs \<le> 3 then ascii_code (digits_value 8 0 cs) else None)
             else if cs = [] \<and> c \<noteq> QUOTE \<and> c \<noteq> LF then ascii_code (Some (int (byte c))) else None))"

definition fits :: "int \<Rightarrow> int option" where
  "fits x = (if - (2 ^ 63) \<le> x \<and> x < 2 ^ 63 then Some x else None)"

definition truth :: "bool \<Rightarrow> int option" where
  "truth b = Some (if b then 1 else 0)"

text \<open>Division truncates towards zero.\<close>

definition quotient :: "int \<Rightarrow> int \<Rightarrow> int" where
  "quotient a b = (if (a < 0) = (b < 0) then \<bar>a\<bar> div \<bar>b\<bar> else - (\<bar>a\<bar> div \<bar>b\<bar>))"

fun std_op1 :: "operator \<Rightarrow> int \<Rightarrow> int option" where
  "std_op1 OPERATOR_UPLUS a = Some a"
| "std_op1 OPERATOR_UMINUS a = fits (- a)"
| "std_op1 OPERATOR_NOT a = truth (a = 0)"
| "std_op1 OPERATOR_BNOT a = Some (- a - 1)"
| "std_op1 _ a = None"

fun std_op2 :: "operator \<Rightarrow> int \<Rightarrow> int \<Rightarrow> int option" where
  "std_op2 OPERATOR_MULT a b = fits (a * b)"
| "std_op2 OPERATOR_DIV a b = (if b = 0 then None else fits (quotient a b))"
| "std_op2 OPERATOR_MOD a b = (if b = 0 then None else Option.bind (fits (quotient a b)) (\<lambda>q. Some (a - b * q)))"
| "std_op2 OPERATOR_PLUS a b = fits (a + b)"
| "std_op2 OPERATOR_MINUS a b = fits (a - b)"
| "std_op2 OPERATOR_LS a b = (if 0 \<le> a \<and> 0 \<le> b \<and> b < 64 then fits (a * 2 ^ nat b) else None)"
| "std_op2 OPERATOR_RS a b = (if 0 \<le> b \<and> b < 64 then Some (a div 2 ^ nat b) else None)"
| "std_op2 OPERATOR_L a b = truth (a < b)"
| "std_op2 OPERATOR_G a b = truth (b < a)"
| "std_op2 OPERATOR_LE a b = truth (\<not> b < a)"
| "std_op2 OPERATOR_GE a b = truth (\<not> a < b)"
| "std_op2 OPERATOR_EQ a b = truth (a = b)"
| "std_op2 OPERATOR_NE a b = truth (a \<noteq> b)"
| "std_op2 OPERATOR_AND a b = Some (and a b)"
| "std_op2 OPERATOR_ER a b = Some (xor a b)"
| "std_op2 OPERATOR_OR a b = Some (or a b)"
| "std_op2 OPERATOR_ANDAND a b = truth (a \<noteq> 0 \<and> b \<noteq> 0)"
| "std_op2 OPERATOR_OROR a b = truth (a \<noteq> 0 \<or> b \<noteq> 0)"
| "std_op2 _ a b = None"

fun std_eval :: "(token \<Rightarrow> int) \<Rightarrow> aexp \<Rightarrow> int option" where
  "std_eval \<rho> (Atom t) =
     (case tlex t of
        SN_INTEGERconstant \<Rightarrow> std_int (ttext t)
      | SN_LONGconstant \<Rightarrow> std_int (ttext t)
      | SN_CHARACTERconstant \<Rightarrow> std_char (ttext t)
      | SN_TRUE \<Rightarrow> Some 1
      | SN_FALSE \<Rightarrow> Some 0
      | _ \<Rightarrow> Some (\<rho> t))"
| "std_eval \<rho> (Unary opr e) = Option.bind (std_eval \<rho> e) (std_op1 opr)"
| "std_eval \<rho> (Binary opr e1 e2) =
     Option.bind (std_eval \<rho> e1) (\<lambda>a.
       if opr = OPERATOR_OROR \<and> a \<noteq> 0 then Some 1
       else if opr = OPERATOR_ANDAND \<and> a = 0 then Some 0
       else Option.bind (std_eval \<rho> e2) (std_op2 opr a))"
| "std_eval \<rho> (Cond e1 e2 e3) =
     Option.bind (std_eval \<rho> e1) (\<lambda>a. if a \<noteq> 0 then std_eval \<rho> e2 else std_eval \<rho> e3)"

text \<open>The constants whose value the evaluator gets right: integers below \<open>2 ^ 31\<close> that are not unsigned, and
  character constants but for the escapes \<open>\a\<close>, \<open>\b\<close>, \<open>\f\<close> and \<open>\v\<close>.\<close>

definition plain_atom :: "token \<Rightarrow> bool" where
  "plain_atom t \<longleftrightarrow>
     (if tlex t = SN_INTEGERconstant \<or> tlex t = SN_LONGconstant
      then (case std_int (ttext t) of None \<Rightarrow> False | Some v \<Rightarrow> v < 2 ^ 31)
      else if tlex t = SN_CHARACTERconstant
      then std_char (ttext t) \<noteq> None \<and> (\<forall>e \<in> set ''abfv''. ttext t \<noteq> [QUOTE, BSLASH, e, QUOTE])
      else True)"

fun plain_atoms :: "aexp \<Rightarrow> bool" where
  "plain_atoms (Atom t) = plain_atom t"
| "plain_atoms (Unary opr e) = plain_atoms e"
| "plain_atoms (Binary opr e1 e2) = (plain_atoms e1 \<and> plain_atoms e2)"
| "plain_atoms (Cond a b c) = (plain_atoms a \<and> plain_atoms b \<and> plain_atoms c)"

lemma digit_byte:
  assumes "map_of digit_values c = Some d"
  shows "d < 16" "d < 10 \<Longrightarrow> byte c = d + 48" "c_isxdigit c" "hex_digit c = int d" "c \<noteq> CHR ''x''" "c \<noteq> CHR ''X''" "c \<noteq> NUL"
proof -
  have "(c, d) \<in> set digit_values" using assms by (rule map_of_SomeD)
  then show "d < 16" "d < 10 \<Longrightarrow> byte c = d + 48" "c_isxdigit c" "hex_digit c = int d" "c \<noteq> CHR ''x''" "c \<noteq> CHR ''X''" "c \<noteq> NUL"
    by (auto simp: digit_values_def upt_rec bytes byte_def hex_digit_def)
qed

lemma digits_value_mono: "digits_value base v ds = Some w \<Longrightarrow> 0 \<le> v \<Longrightarrow> 0 < base \<Longrightarrow> v \<le> w"
proof (induction ds arbitrary: v)
  case (Cons c ds)
  then obtain d where "digits_value base (v * int base + int d) ds = Some w" by (auto split: option.splits if_splits)
  then have "v * int base + int d \<le> w" using Cons by simp
  moreover have "v * 1 \<le> v * int base" using Cons.prems by (intro mult_left_mono) simp_all
  ultimately show ?case by simp
qed simp

definition mode_base :: "atol_mode \<Rightarrow> nat" where
  "mode_base m = (case m of OCTAL \<Rightarrow> 8 | DECIMAL \<Rightarrow> 10 | HEXA \<Rightarrow> 16)"

lemma Atol_digits:
  assumes "digits_value (mode_base m) v ds = Some w" "0 \<le> v" "w < 2 ^ 31" "u \<in> {'''', ''l'', ''L''}"
    and "i = 0 \<Longrightarrow> ds \<noteq> [] \<and> hd ds \<noteq> CHR ''0'' \<and> m = DECIMAL"
  shows "f_Atol_loop i m v (ds @ u) = Inr w"
  using assms
proof (induction ds arbitrary: v i)
  case Nil
  then show ?case by (cases m) (auto simp: bytes byte_def)
next
  case (Cons c ds)
  obtain d where d: "map_of digit_values c = Some d" "d < mode_base m"
    "digits_value (mode_base m) (v * int (mode_base m) + int d) ds = Some w"
    using Cons.prems(1) by (auto split: option.splits if_splits)
  note b = digit_byte [OF d(1)]
  have w: "0 \<le> v * int (mode_base m) + int d" "v * int (mode_base m) + int d < 2 ^ 31"
    using digits_value_mono [OF d(3)] Cons.prems(2,3) by (auto simp: mode_base_def split: atol_mode.splits)
  have "f_Atol_loop (Suc i) m (v * int (mode_base m) + int d) (ds @ u) = Inr w"
    using Cons.prems(3,4) d(3) w(1) by (intro Cons.IH) auto
  moreover have "\<not> (i = 0 \<and> c = CHR ''0'')" using Cons.prems(5) by auto
  ultimately show ?case using b d(2) w by (cases m) (auto simp: mode_base_def long_ok_def)
qed

lemma std_int_Atol:
  assumes "std_int s = Some v" "v < 2 ^ 31"
  shows "f_Atol s = Inr v \<and> 0 \<le> v"
proof -
  let ?sfx = "s \<noteq> [] \<and> last s \<in> {CHR ''l'', CHR ''L''}"
  define t where "t = (if ?sfx then butlast s else s)"
  define u where "u = (if ?sfx then [last s] else [])"
  have s: "s = t @ u" and u: "u \<in> {'''', ''l'', ''L''}" by (auto simp: t_def u_def)
  obtain c cs where t: "t = c # cs" using assms(1) by (cases t) (auto simp: std_int_def t_def Let_def)
  note v = assms(1) [unfolded std_int_def Let_def, folded t_def, unfolded t list.case]
  show ?thesis
  proof (cases "c = CHR ''0''")
    case False
    then have "digits_value (mode_base DECIMAL) 0 (c # cs) = Some v" using v by (simp add: mode_base_def)
    from Atol_digits [OF this _ assms(2) u, of 0] digits_value_mono [OF this] False show ?thesis
      by (simp add: f_Atol_def s t mode_base_def)
  next
    case zero: True
    then have A: "f_Atol s = f_Atol_loop 1 OCTAL 0 (cs @ u)" by (simp add: f_Atol_def s t)
    show ?thesis
    proof (cases cs)
      case Nil
      then have "digits_value (mode_base OCTAL) 0 [] = Some v" using v zero by simp
      from Atol_digits [OF this _ assms(2) u, of 1] v Nil zero A show ?thesis by simp
    next
      case (Cons x ds)
      show ?thesis
      proof (cases "x = CHR ''x'' \<or> x = CHR ''X''")
        case True
        then have d: "digits_value (mode_base HEXA) 0 ds = Some v" using v zero Cons by (auto simp: mode_base_def split: if_splits)
        have "f_Atol s = f_Atol_loop 2 HEXA 0 (ds @ u)" using A Cons True by (auto simp: numeral_2_eq_2)
        with Atol_digits [OF d _ assms(2) u, of 2] digits_value_mono [OF d] show ?thesis by (simp add: mode_base_def)
      next
        case False
        then have d: "digits_value (mode_base OCTAL) 0 cs = Some v" using v zero Cons by (simp add: mode_base_def)
        from Atol_digits [OF d _ assms(2) u, of 1] digits_value_mono [OF d] A show ?thesis by (simp add: mode_base_def)
      qed
    qed
  qed
qed

lemma Ctol_digits:
  "digits_value 8 v ds = Some w \<Longrightarrow> 0 \<le> v \<Longrightarrow> w < 128 \<Longrightarrow> f_Ctol_octal v ds = Inr w"
proof (induction ds arbitrary: v)
  case (Cons c ds)
  then obtain d where d: "map_of digit_values c = Some d" "d < 8" "digits_value 8 (v * 8 + int d) ds = Some w"
    by (auto split: option.splits if_splits)
  have "0 \<le> v * 8 + int d" "v * 8 + int d < 128" using digits_value_mono [OF d(3)] Cons.prems by simp_all
  with Cons.IH [OF d(3)] Cons.prems digit_byte [OF d(1)] d(2) show ?case by (auto simp: long_ok_def)
qed simp

lemma simple_escape:
  "map_of simple_escapes e = Some v \<Longrightarrow> e \<notin> set ''abfv'' \<Longrightarrow> f_Ctol_body [BSLASH, e] = Inr v \<and> 0 \<le> v \<and> v < 128"
  by (auto simp: simple_escapes_def f_Ctol_body_def byte_def split: if_splits)

lemma std_char_Ctol:
  assumes "std_char s = Some v" "\<forall>e \<in> set ''abfv''. s \<noteq> [QUOTE, BSLASH, e, QUOTE]"
  shows "f_Ctol s = Inr v \<and> 0 \<le> v \<and> v < 128"
proof -
  from assms(1) have l: "3 \<le> length s" "hd s = QUOTE" "last s = QUOTE" by (auto simp: std_char_def split: if_splits)
  then obtain b where "s = QUOTE # b @ [QUOTE]"
    by (cases s; cases "tl s" rule: rev_cases) auto
  then have s: "s = QUOTE # b @ [QUOTE]" "b \<noteq> []" using l(1) by auto
  have f: "f_Ctol s = f_Ctol_body b" using s(2) by (simp add: f_Ctol_def s(1))
  obtain c cs where b: "b = c # cs" using s(2) by (cases b) auto
  note v = assms(1) [unfolded std_char_def s(1), simplified, unfolded b list.case]
  show ?thesis
  proof (cases "c = BSLASH")
    case False
    then show ?thesis using v f by (auto simp: b f_Ctol_body_def ascii_code_def byte_def split: if_splits)
  next
    case True
    then obtain e es where cs: "cs = e # es" using v by (cases cs) auto
    show ?thesis
    proof (cases "es = [] \<and> map_of simple_escapes e \<noteq> None")
      case esc: True
      have "e \<notin> set ''abfv''" using assms(2) esc by (auto simp: s(1) b True cs)
      then show ?thesis using esc v simple_escape [of e v] True by (simp add: f b cs)
    next
      case False
      then have o: "digits_value 8 0 cs = Some v" "v < 128"
        using v True cs by (auto simp: ascii_code_def split: if_splits option.splits)
      then obtain d where d: "map_of digit_values e = Some d" "d < 8" by (auto simp: cs split: option.splits if_splits)
      then have e: "byte e = d + 48" using digit_byte(2) [OF d(1)] by simp
      then have "e \<notin> {CHR ''n'', CHR ''t'', CHR ''r''}" using d(2) by (auto simp: byte_def)
      then have "f_Ctol_body b = f_Ctol_octal 0 cs" using True d(2) e by (simp add: f_Ctol_body_def b cs)
      with Ctol_digits [OF o(1)] o digits_value_mono [OF o(1)] f show ?thesis by simp
    qed
  qed
qed

lemma long_to_int_small: "0 \<le> v \<Longrightarrow> v < 2 ^ 31 \<Longrightarrow> long_to_int v = v"
  by (simp add: long_to_int_def signed_take_bit_int_eq_self)

lemma c_div_quotient: "c_div a b = quotient a b"
  by (auto simp: c_div_def quotient_def sgn_if)

lemma int_ok_fits: "int_ok x \<Longrightarrow> fits x = Some x"
  by (simp add: int_ok_def fits_def)

lemma chk_int_fits: "chk_int x = Inr v \<Longrightarrow> fits x = Some v"
  by (auto simp: chk_int_def int_ok_fits split: if_splits)

lemma c_op1_std: "c_op1 opr a = Inr v \<Longrightarrow> std_op1 opr a = Some v"
  by (cases opr) (auto simp: chk_int_fits truth_def c_bool_def not_int_def)

lemma c_op2_std:
  assumes "c_op2 opr a b = Inr v"
  shows "std_op2 opr a b = Some v"
  using assms
  by (cases opr)
    (auto simp: chk_int_fits truth_def c_bool_def c_div_quotient c_mod_def int_ok_fits push_bit_eq_mult drop_bit_eq_div
      split: if_splits)

lemma aeval_std_eval: "aeval e = Inr (CEXP_DEF v) \<Longrightarrow> plain_atoms e \<Longrightarrow> std_eval \<rho> e = Some v"
proof (induction e arbitrary: v)
  case (Atom t)
  have num: "std_int (ttext t) = Some w \<Longrightarrow> w < 2 ^ 31 \<Longrightarrow> map_sum id (\<lambda>n. CEXP_DEF (long_to_int n)) (f_Atol (ttext t)) = Inr (CEXP_DEF w)" for w
    using std_int_Atol [of "ttext t" w] by (simp add: long_to_int_small)
  have chr: "std_char (ttext t) = Some w \<Longrightarrow> \<forall>e \<in> set ''abfv''. ttext t \<noteq> [QUOTE, BSLASH, e, QUOTE] \<Longrightarrow>
      map_sum id (\<lambda>n. CEXP_DEF (long_to_int n)) (f_Ctol (ttext t)) = Inr (CEXP_DEF w)" for w
    using std_char_Ctol [of "ttext t" w] by (simp add: long_to_int_small)
  show ?case
  proof (cases "tlex t \<in> {SN_INTEGERconstant, SN_LONGconstant}")
    case True
    then obtain w where "std_int (ttext t) = Some w" "w < 2 ^ 31"
      using Atom.prems(2) by (auto simp: plain_atom_def split: option.splits)
    with num True Atom.prems(1) show ?thesis by auto
  next
    case False
    show ?thesis
    proof (cases "tlex t = SN_CHARACTERconstant")
      case True
      then obtain w where "std_char (ttext t) = Some w" "\<forall>e \<in> set ''abfv''. ttext t \<noteq> [QUOTE, BSLASH, e, QUOTE]"
        using Atom.prems(2) by (auto simp: plain_atom_def)
      with chr True Atom.prems(1) show ?thesis by auto
    next
      case False
      with \<open>tlex t \<notin> _\<close> Atom.prems(1) show ?thesis by (cases "tlex t") auto
    qed
  qed
next
  case (Unary opr e)
  from Unary.prems obtain c where c: "aeval e = Inr c" "CexpCreateOp1 opr c = Inr (CEXP_DEF v)"
    by auto
  then obtain a where "c = CEXP_DEF a" using aeval_not_NULL [of e c]
    by (cases c) (auto simp: CexpCreateOp1_def)
  with c Unary.IH [of a] Unary.prems(2) show ?case by (auto simp: CexpCreateOp1_def c_op1_std)
next
  case (Binary opr e1 e2)
  from Binary.prems obtain c d where c: "aeval e1 = Inr c" and d: "aeval e2 = Inr d"
    and cd: "CexpCreateOp2 opr c d = Inr (CEXP_DEF v)" by auto
  then obtain a b where ab: "c = CEXP_DEF a" "d = CEXP_DEF b" "c_op2 opr a b = Inr v"
    by (cases c; cases d) (auto simp: CexpCreateOp2_def)
  with c d Binary have "std_eval \<rho> e1 = Some a" "std_eval \<rho> e2 = Some b" by simp_all
  with c_op2_std [OF ab(3)] show ?case by (auto simp: truth_def)
next
  case (Cond e1 e2 e3)
  from Cond.prems obtain c1 c2 c3 where c: "aeval e1 = Inr c1" "aeval e2 = Inr c2" "aeval e3 = Inr c3"
    and v: "CexpCreateOp3 c1 c2 c3 = CEXP_DEF v" by auto
  then obtain a where a: "c1 = CEXP_DEF a"
    by (cases c1) (auto simp: CexpCreateOp3_def)
  with v have "(if a \<noteq> 0 then c2 else c3) = CEXP_DEF v" by (simp add: CexpCreateOp3_def)
  with a c Cond show ?case by (auto split: if_splits)
qed

section \<open>Properties\<close>

definition condition_line :: "aexp \<Rightarrow> token list" where
  "condition_line e = pr 11 e @ [tok SN_NEWLINE]"

definition mode_of :: "cexp \<Rightarrow> cplex_mode" where
  "mode_of c = (case c of CEXP_NULL \<Rightarrow> CPLEX_TRUE | CEXP_UNDEF \<Rightarrow> CPLEX_UNDEF
     | CEXP_DEF v \<Rightarrow> if v \<noteq> 0 then CPLEX_TRUE else CPLEX_FALSE)"

lemma ConstantExpression_alt:
  "ConstantExpression ts =
     map_sum id (\<lambda>(c, ts'). mode_of c) (constant_expression (Suc (length ts)) ts)"
  by (simp add: ConstantExpression_def ConstantExpression_fuel_def mode_of_def)

lemma constant_expression_condition_line:
  assumes "wf_aexp e"
  shows "constant_expression (Suc (length (condition_line e))) (condition_line e) =
      map_sum id (\<lambda>v. (v, [tok SN_NEWLINE])) (aeval e)"
  unfolding condition_line_def by (rule constant_expression_printed [OF assms]) simp_all

lemma ConstantExpression_condition_line:
  assumes "wf_aexp e"
  shows "ConstantExpression (condition_line e) = map_sum id mode_of (aeval e)"
proof -
  show ?thesis
    unfolding ConstantExpression_alt constant_expression_condition_line [OF assms]
    by (cases "aeval e") simp_all
qed

text \<open>
  C14: The recursive-descent parser implements C's precedence and associativity.  The line
  printed from any well-formed abstract expression with as few parentheses as precedence
  allows, terminated by a newline, is evaluated to exactly the value of that abstract
  expression (or fails with exactly the error its evaluation has), and the parser stops at
  the newline.
\<close>

theorem expr_parse_print:
  assumes "wf_aexp e"
  shows "constant_expression (Suc (length (condition_line e))) (condition_line e) =
    map_sum id (\<lambda>v. (v, [tok SN_NEWLINE])) (aeval e)"
  using assms by (rule constant_expression_condition_line)

definition ex_int :: "string \<Rightarrow> aexp" where
  "ex_int s = Atom (mk_token SN_INTEGERconstant s)"

definition ex_sum :: aexp where
  "ex_sum = Binary OPERATOR_MULT
     (Binary OPERATOR_MINUS (Binary OPERATOR_MINUS (ex_int ''0x10'') (ex_int ''5'')) (ex_int ''1''))
     (ex_int ''010'')"

theorem expr_parse_print_witness:
  "constant_expression (Suc (length (condition_line ex_sum))) (condition_line ex_sum) =
    Inr (CEXP_DEF 80, [tok SN_NEWLINE])"
proof -
  have w: "wf_aexp ex_sum" by (simp add: ex_sum_def ex_int_def atom_ok_def)
  have v: "aeval ex_sum = Inr (CEXP_DEF 80)" by code_simp
  show ?thesis using expr_parse_print [OF w] by (simp add: v)
qed




text \<open>A constant is cut to 32 bits before it is looked at: \<open>#if 4294967296\<close> is decided false.\<close>

theorem expr_constant_cut:
  assumes "f_Atol s = Inr v" "v mod 2 ^ 32 = 0"
  shows "ConstantExpression (condition_line (ex_int s)) = Inr CPLEX_FALSE"
proof -
  have w: "wf_aexp (ex_int s)" by (simp add: ex_int_def atom_ok_def)
  have "(v + 2 ^ 31) mod 2 ^ 32 = (v mod 2 ^ 32 + 2 ^ 31) mod (2 ^ 32 :: int)" by (simp only: mod_add_left_eq)
  also have "\<dots> = 2 ^ 31" unfolding assms(2) by simp
  finally have "long_to_int v = 0" by (simp add: long_to_int_def signed_take_bit_eq_take_bit_shift take_bit_eq_mod)
  then show ?thesis using assms(1) by (simp add: ConstantExpression_condition_line [OF w]) (simp add: ex_int_def mode_of_def)
qed

theorem expr_constant_cut_witness:
  "ConstantExpression (condition_line (ex_int ''4294967296'')) = Inr CPLEX_FALSE \<and>
   std_eval (\<lambda>_. 0) (ex_int ''4294967296'') = Some (2 ^ 32)"
proof
  have "f_Atol ''4294967296'' = Inr (2 ^ 32)" by code_simp
  from expr_constant_cut [OF this] show "ConstantExpression (condition_line (ex_int ''4294967296'')) = Inr CPLEX_FALSE" by simp
qed code_simp

text \<open>
  C16: The evaluator returns on every token line that ends with a newline or end-of-file
  token, syntactically correct or not: the fuel of one unit per token plus one is never used
  up.  When it finds no expression it leaves the position where it was.
\<close>

theorem expr_terminates:
  assumes "well_ended ts"
  shows "ConstantExpression ts \<noteq> Inl NoReturn \<and>
    (\<forall>c ts'. constant_expression (Suc (length ts)) ts = Inr (c, ts') \<longrightarrow>
      (if c = CEXP_NULL then ts' = ts else well_ended ts' \<and> length ts' < length ts))"
  using constant_expression_outcome [OF assms, of "Suc (length ts)"]
  unfolding ConstantExpression_alt outcome_ok_def
  by (auto simp del: constant_expression.simps split: sum.splits)

definition ex_broken :: "token list" where
  "ex_broken = [tok (Ch CHR ''-''), tok (Ch CHR ''(''), mk_token SN_INTEGERconstant ''3'',
     tok (Ch CHR ''*''), tok SN_NEWLINE]"

theorem expr_terminates_witness:
  "ConstantExpression ex_broken \<noteq> Inl NoReturn \<and> ConstantExpression ex_broken = Inr CPLEX_TRUE"
proof -
  have "well_ended ex_broken" by (simp add: ex_broken_def well_ended_def)
  from expr_terminates [OF this] have "ConstantExpression ex_broken \<noteq> Inl NoReturn" by (rule conjunct1)
  moreover have "ConstantExpression ex_broken = Inr CPLEX_TRUE" by code_simp
  ultimately show ?thesis by simp
qed

text \<open>The operands of \<open>&&\<close> are evaluated even when the first one is zero.  Whatever error
  the evaluation of the second operand runs into (a division by zero, say) is the outcome of
  \<open>#if 0 && ...\<close>, although the condition has the value 0 in C.
\<close>

theorem expr_andand_not_lazy:
  assumes "wf_aexp e" "aeval e = Inl x"
  shows "ConstantExpression (condition_line (Binary OPERATOR_ANDAND (ex_int ''0'') e)) = Inl x \<and>
    std_eval \<rho> (Binary OPERATOR_ANDAND (ex_int ''0'') e) = Some 0"
proof -
  have z: "f_Atol ''0'' = Inr 0" "std_int ''0'' = Some 0" by code_simp+
  have w: "wf_aexp (Binary OPERATOR_ANDAND (ex_int ''0'') e)"
    using assms(1) by (simp add: ex_int_def atom_ok_def)
  have "aeval (Binary OPERATOR_ANDAND (ex_int ''0'') e) = Inl x"
    using assms(2) z by (simp add: ex_int_def)
  moreover have "std_eval \<rho> (Binary OPERATOR_ANDAND (ex_int ''0'') e) = Some 0"
    using z by (simp add: ex_int_def)
  ultimately show ?thesis by (simp add: ConstantExpression_condition_line [OF w])
qed

theorem expr_andand_not_lazy_witness:
  "ConstantExpression (condition_line (Binary OPERATOR_ANDAND (ex_int ''0'')
      (Binary OPERATOR_DIV (ex_int ''10'') (ex_int ''0'')))) = Inl DivByZero"
proof -
  let ?e = "Binary OPERATOR_DIV (ex_int ''10'') (ex_int ''0'')"
  have w: "wf_aexp ?e" by (simp add: ex_int_def atom_ok_def)
  have "aeval ?e = Inl DivByZero" by code_simp
  from expr_andand_not_lazy [OF w this] show ?thesis by blast
qed

text \<open>\<open>||\<close> with a true first operand and an unknown second one is answered \<open>CPLEX_UNDEF\<close>:
  the value that the first branch of \<open>CexpCreateOp2\<close> computes for this case (\<open>1\<close>, as C has
  it whatever the unknown operand is worth) is overwritten before it is returned.
\<close>

theorem expr_oror_undef_lost:
  assumes "wf_aexp e" "aeval e = Inr (CEXP_DEF a)" "a \<noteq> 0" "wf_aexp u" "aeval u = Inr CEXP_UNDEF" "plain_atoms e"
  shows "ConstantExpression (condition_line (Binary OPERATOR_OROR e u)) = Inr CPLEX_UNDEF \<and>
    oror_undef (CEXP_DEF a) CEXP_UNDEF = CEXP_DEF 1 \<and>
    std_eval \<rho> (Binary OPERATOR_OROR e u) = Some 1"
proof -
  have w: "wf_aexp (Binary OPERATOR_OROR e u)" using assms by simp
  show ?thesis
    using assms aeval_std_eval [OF assms(2,6), of \<rho>]
    by (simp add: ConstantExpression_condition_line [OF w] CexpCreateOp2_def mode_of_def
        oror_undef_def c_bool_def)
qed

theorem expr_oror_undef_lost_witness:
  "ConstantExpression (condition_line (Binary OPERATOR_OROR (ex_int ''1'')
      (Atom (mk_token SN_IDENTIFIER ''FOO'')))) = Inr CPLEX_UNDEF"
proof -
  let ?u = "Atom (mk_token SN_IDENTIFIER ''FOO'')"
  have w: "wf_aexp (ex_int ''1'')" "wf_aexp ?u" by (simp_all add: ex_int_def atom_ok_def)
  have "aeval (ex_int ''1'') = Inr (CEXP_DEF 1)" "aeval ?u = Inr CEXP_UNDEF" "plain_atoms (ex_int ''1'')" by code_simp+
  from expr_oror_undef_lost [OF w(1) this(1) _ w(2) this(2,3)] show ?thesis by simp
qed

end
