(* ===== verification/SrchTbl.thy ===== *)
theory SrchTbl
  imports Prelude "HOL-Library.List_Lexorder"
begin

text \<open>
  The search table interface of \<open>parsers/common/srchtbl.h\<close>: entries, the table structure
  and what the two implementations of \<open>srchtbl.c\<close> (a sorted array and a hash table) share.

  A key pointer is modelled by the bytes it points to, up to the terminating NUL.  The data
  pointer is null, an object of the client, or a block of bytes.  An array cell that was
  allocated but never written is \<open>None\<close>.  \<open>trace\<close> records, in order, what the table does to
  the outside when it drops an entry: the call of the client's hook and the blocks it
  releases.  A returned \<open>SearchEntry *\<close> is the index of its cell.
\<close>

section \<open>Entries and tables\<close>

datatype 'd cdata = NullData | Obj 'd | Block string

record 'd search_entry =
  key :: string
  key_len :: int
  edata :: "'d cdata"
  data_len :: int
  flag :: nat

record 'd DATA =
  entry :: "'d search_entry"
  used :: nat

datatype 'd tbl_event =
    Hook "'d search_entry"
  | FreeKey string
  | FreeData "'d cdata"

record 'd search_table =
  data :: "'d DATA option list"
  hsize :: nat
  filled :: nat
  cursor :: nat
  hook :: bool
  trace :: "'d tbl_event list"

datatype search_action = Find | Add | Delete

definition SEARCH_DUP_KEY :: nat where "SEARCH_DUP_KEY = 1"
definition SEARCH_DUP_DATA :: nat where "SEARCH_DUP_DATA = 2"
definition SEARCH_FIRST :: nat where "SEARCH_FIRST = 4"

lemmas search_flags = SEARCH_DUP_KEY_def SEARCH_DUP_DATA_def SEARCH_FIRST_def

definition has_flag :: "nat \<Rightarrow> nat \<Rightarrow> bool" where
  "has_flag f b \<longleftrightarrow> and f b \<noteq> 0"

text \<open>\<open>item.flag & ~(SEARCH_DUP_KEY | SEARCH_DUP_DATA | SEARCH_FIRST)\<close>\<close>

definition bad_flag :: "nat \<Rightarrow> bool" where
  "bad_flag f \<longleftrightarrow> f \<noteq> and f (or SEARCH_DUP_KEY (or SEARCH_DUP_DATA SEARCH_FIRST))"

definition zero_entry :: "'d search_entry" where
  "zero_entry = \<lparr>key = [], key_len = 0, edata = NullData, data_len = 0, flag = 0\<rparr>"

definition zero_DATA :: "'d DATA" where
  "zero_DATA = \<lparr>entry = zero_entry, used = 0\<rparr>"

section \<open>Array access\<close>

definition get_cell :: "'d search_table \<Rightarrow> nat \<Rightarrow> ub + 'd DATA" where
  "get_cell t i =
     (if i < length (data t) then
        (case data t ! i of None \<Rightarrow> Inl Uninitialised | Some d \<Rightarrow> Inr d)
      else Inl OutOfBounds)"

definition put_cell :: "nat \<Rightarrow> 'd DATA \<Rightarrow> 'd search_table \<Rightarrow> ub + 'd search_table" where
  "put_cell i d t =
     (if i < length (data t) then Inr (t\<lparr>data := (data t)[i := Some d]\<rparr>) else Inl OutOfBounds)"

definition memmove :: "'a list \<Rightarrow> nat \<Rightarrow> nat \<Rightarrow> nat \<Rightarrow> ub + 'a list" where
  "memmove xs dst src n =
     (if src + n \<le> length xs \<and> dst + n \<le> length xs
      then Inr (take dst xs @ take n (drop src xs) @ drop (dst + n) xs)
      else Inl OutOfBounds)"

section \<open>Dropping and copying entries\<close>

definition remove_entry :: "'d search_table \<Rightarrow> 'd search_entry \<Rightarrow> 'd search_table" where
  "remove_entry t s =
     t\<lparr>trace := trace t
        @ (if hook t then [Hook s] else [])
        @ (if has_flag (flag s) SEARCH_DUP_KEY then [FreeKey (key s)] else [])
        @ (if has_flag (flag s) SEARCH_DUP_DATA then [FreeData (edata s)] else [])\<rparr>"

lemma remove_entry_simps [simp]:
  "data (remove_entry t s) = data t" "hsize (remove_entry t s) = hsize t"
  "filled (remove_entry t s) = filled t" "cursor (remove_entry t s) = cursor t"
  "hook (remove_entry t s) = hook t"
  by (simp_all add: remove_entry_def)

text \<open>The copies that \<open>SEARCH_DUP_KEY\<close> and \<open>SEARCH_DUP_DATA\<close> ask for.\<close>

definition dup_key :: "'d search_entry \<Rightarrow> 'd search_entry" where
  "dup_key item =
     (if has_flag (flag item) SEARCH_DUP_KEY
      then item\<lparr>key := take (nat (key_len item)) (key item)\<rparr> else item)"

definition dup_data :: "'d search_entry \<Rightarrow> ub + 'd search_entry" where
  "dup_data item =
     (if has_flag (flag item) SEARCH_DUP_DATA then
        (case edata item of
           NullData \<Rightarrow> Inl OutOfBounds
         | Obj x \<Rightarrow> Inr item
         | Block bs \<Rightarrow>
             if data_len item = -1
             then Inr (item\<lparr>data_len := int (length bs), edata := Block bs\<rparr>)
             else Inr (item\<lparr>edata := Block (take (nat (data_len item)) bs)\<rparr>))
      else Inr item)"

text \<open>The events of dropping one entry.\<close>

definition dropped :: "bool \<Rightarrow> 'd search_entry \<Rightarrow> 'd tbl_event list" where
  "dropped h s =
     (if h then [Hook s] else [])
     @ (if has_flag (flag s) SEARCH_DUP_KEY then [FreeKey (key s)] else [])
     @ (if has_flag (flag s) SEARCH_DUP_DATA then [FreeData (edata s)] else [])"

lemma remove_entry_dropped: "remove_entry t s = t\<lparr>trace := trace t @ dropped (hook t) s\<rparr>"
  by (simp add: remove_entry_def dropped_def)

text \<open>
  \<open>TableDestroy\<close>: walk the table with its own \<open>seq\<close> operation and drop every entry met; the
  table is then freed.  The fuel is one unit per cell and one for the end of the walk.
\<close>

fun destroy_loop ::
    "nat \<Rightarrow> ('d search_table \<Rightarrow> nat \<Rightarrow> ub + 'd search_table \<times> nat option) \<Rightarrow>
     'd search_table \<Rightarrow> nat \<Rightarrow> ub + 'd search_table" where
  "destroy_loop 0 seq t pos = Inl NoReturn"
| "destroy_loop (Suc n) seq t pos =
     sbind (seq t pos) (\<lambda>(t, s).
       case s of
         None \<Rightarrow> Inr t
       | Some i \<Rightarrow>
           sbind (get_cell t i) (\<lambda>d. destroy_loop n seq (remove_entry t (entry d)) 1))"

definition TableDestroy ::
    "('d search_table \<Rightarrow> nat \<Rightarrow> ub + 'd search_table \<times> nat option) \<Rightarrow>
     'd search_table \<Rightarrow> ub + 'd search_table" where
  "TableDestroy seq t =
     sbind (destroy_loop (length (data t) + 1) seq t 0) (\<lambda>t. Inr (t\<lparr>data := []\<rparr>))"

section \<open>Well-formed entries and their keys\<close>

text \<open>
  The key of an entry is the slice of \<open>key_len\<close> bytes.  Entries are well formed when the
  slice lies within the string and the empty slice is that of an empty string: the sorted
  table compares the first byte of two keys before it looks at their lengths.
\<close>

definition ekey :: "'d search_entry \<Rightarrow> string" where
  "ekey e = take (nat (key_len e)) (key e)"

definition wf_entry :: "'d search_entry \<Rightarrow> bool" where
  "wf_entry e \<longleftrightarrow> 0 \<le> key_len e \<and> key_len e \<le> int (length (key e)) \<and> NUL \<notin> set (key e) \<and>
     (key_len e = 0 \<longrightarrow> key e = [])"

lemma length_ekey: "wf_entry e \<Longrightarrow> int (length (ekey e)) = key_len e"
  by (auto simp: wf_entry_def ekey_def min_def)

lemma NUL_ekey: "wf_entry e \<Longrightarrow> NUL \<notin> set (ekey e)"
  by (auto simp: wf_entry_def ekey_def dest: in_set_takeD)

lemma dup_key_simps [simp]:
  "ekey (dup_key e) = ekey e" "key_len (dup_key e) = key_len e" "edata (dup_key e) = edata e"
  "data_len (dup_key e) = data_len e" "flag (dup_key e) = flag e"
  by (simp_all add: dup_key_def ekey_def)

lemma wf_dup_key: "wf_entry e \<Longrightarrow> wf_entry (dup_key e)"
  by (auto simp: wf_entry_def dup_key_def dest: in_set_takeD)

lemma dup_data_key:
  assumes "dup_data e = Inr e'"
  shows "key e' = key e" "key_len e' = key_len e" "ekey e' = ekey e" "flag e' = flag e"
  using assms
  by (auto simp: dup_data_def ekey_def split: if_splits cdata.splits)

lemma wf_dup_data: "dup_data e = Inr e' \<Longrightarrow> wf_entry e \<Longrightarrow> wf_entry e'"
  using dup_data_key [of e e'] by (simp add: wf_entry_def)

section \<open>Contracts\<close>

text \<open>
  What a client of a search table relies on.  \<open>lookup\<close> is the entry a search returns,
  \<open>insert\<close> the table after an \<open>add\<close>; an entry that is already there is not replaced.
\<close>

locale lookup_table =
  fixes invar :: "'t \<Rightarrow> bool"
    and lookup :: "'t \<Rightarrow> string \<Rightarrow> 'e option"
    and insert :: "'e \<Rightarrow> 't \<Rightarrow> 't"
    and accepts :: "'e \<Rightarrow> bool"
    and keyof :: "'e \<Rightarrow> string"
    and stored :: "'e \<Rightarrow> 'e"
  assumes invar_insert: "invar t \<Longrightarrow> accepts e \<Longrightarrow> invar (insert e t)"
    and lookup_insert: "invar t \<Longrightarrow> accepts e \<Longrightarrow>
      lookup (insert e t) k =
        (if k = keyof e \<and> lookup t k = None then Some (stored e) else lookup t k)"
begin

fun insert_all :: "'e list \<Rightarrow> 't \<Rightarrow> 't" where
  "insert_all [] t = t"
| "insert_all (e # es) t = insert_all es (insert e t)"

lemma invar_insert_all:
  "invar t \<Longrightarrow> \<forall>e \<in> set es. accepts e \<Longrightarrow> invar (insert_all es t)"
  by (induction es arbitrary: t) (auto intro: invar_insert)

lemma lookup_insert_same:
  "invar t \<Longrightarrow> accepts e \<Longrightarrow> lookup t (keyof e) = None \<Longrightarrow>
   lookup (insert e t) (keyof e) = Some (stored e)"
  by (simp add: lookup_insert)

lemma insert_present:
  "invar t \<Longrightarrow> accepts e \<Longrightarrow> lookup t (keyof e) \<noteq> None \<Longrightarrow>
   lookup (insert e t) = lookup t"
  by (rule ext) (auto simp: lookup_insert)

text \<open>After any number of insertions, the first entry inserted under a key is found.\<close>

lemma lookup_insert_all:
  "invar t \<Longrightarrow> \<forall>e \<in> set es. accepts e \<Longrightarrow>
   lookup (insert_all es t) k =
     (case lookup t k of
        Some v \<Rightarrow> Some v
      | None \<Rightarrow> map_option stored (find (\<lambda>e. keyof e = k) es))"
proof (induction es arbitrary: t)
  case Nil
  then show ?case by (simp split: option.split)
next
  case (Cons e es)
  then have i: "invar (insert e t)" by (auto intro: invar_insert)
  from Cons show ?case
    by (auto simp: Cons.IH [OF i] lookup_insert split: option.split)
qed

end

text \<open>
  The contract with deletion.  \<open>room\<close> is the condition under which the implementation can
  delete at all.
\<close>

locale deleting_table = lookup_table invar lookup insert accepts keyof stored
  for invar :: "'t \<Rightarrow> bool"
    and lookup :: "'t \<Rightarrow> string \<Rightarrow> 'e option"
    and insert :: "'e \<Rightarrow> 't \<Rightarrow> 't"
    and accepts :: "'e \<Rightarrow> bool"
    and keyof :: "'e \<Rightarrow> string"
    and stored :: "'e \<Rightarrow> 'e" +
  fixes room :: "'t \<Rightarrow> bool"
    and remove :: "string \<Rightarrow> 't \<Rightarrow> 't"
  assumes invar_remove: "invar t \<Longrightarrow> room t \<Longrightarrow> invar (remove k t)"
    and lookup_remove: "invar t \<Longrightarrow> room t \<Longrightarrow>
      lookup (remove k t) j = (if j = k then None else lookup t j)"
begin

text \<open>Deleting an entry and adding one with the same key replaces it.\<close>

lemma lookup_replace:
  "invar t \<Longrightarrow> room t \<Longrightarrow> accepts e \<Longrightarrow>
   lookup (insert e (remove (keyof e) t)) j =
     (if j = keyof e then Some (stored e) else lookup t j)"
  by (simp add: lookup_insert lookup_remove invar_remove)

end

end
