(* ===== verification/Btree.thy ===== *)
theory Btree
  imports SrchTbl
begin

text \<open>
  The sorted table of \<open>srchtbl.c\<close> (\<open>SEARCH_BTREE_TABLE\<close>; despite its name an array that is
  searched by bisection).  Indices are natural numbers: an array cannot have \<open>2 ^ 30\<close>
  entries, so \<open>l + u\<close> does not overflow.
\<close>

section \<open>Operations\<close>

definition key0 :: "string \<Rightarrow> char" where
  "key0 k = (case k of [] \<Rightarrow> NUL | c # _ \<Rightarrow> c)"

text \<open>The comparison of the loop: first bytes as signed \<open>char\<close>, then \<open>memcmp\<close>, then lengths.\<close>

definition btree_compare :: "string \<Rightarrow> int \<Rightarrow> 'd search_entry \<Rightarrow> int" where
  "btree_compare k k_len p =
     (let comparison = schar (key0 k) - schar (key0 (key p)) in
      if comparison = 0 then
        (let cmp = k_len - key_len p;
             len = (if cmp < 0 then k_len else key_len p);
             comparison = c_memcmp (take (nat len) k) (take (nat len) (key p))
         in if comparison = 0 then cmp else comparison)
      else comparison)"

function btree_bisect ::
    "'d search_table \<Rightarrow> string \<Rightarrow> int \<Rightarrow> nat \<Rightarrow> nat \<Rightarrow> nat \<Rightarrow> int \<Rightarrow> ub + nat \<times> int \<times> bool" where
  "btree_bisect t k k_len l u idx comparison =
     (if l < u then
        let idx = (l + u) div 2 in
        sbind (get_cell t idx) (\<lambda>d.
          let comparison = btree_compare k k_len (entry d) in
          if comparison < 0 then btree_bisect t k k_len l idx idx comparison
          else if comparison > 0 then btree_bisect t k k_len (idx + 1) u idx comparison
          else Inr (idx, comparison, True))
      else Inr (idx, comparison, False))"
  by pat_completeness auto
termination
  by (relation "measure (\<lambda>(t, k, k_len, l, u, idx, comparison). u - l)") auto

declare btree_bisect.simps [simp del]

text \<open>The length of a key given as \<open>-1\<close> is that of the string.\<close>

definition btree_item :: "'d search_entry \<Rightarrow> 'd search_entry" where
  "btree_item item =
     (if key_len item = -1 then item\<lparr>key_len := int (length (key item))\<rparr> else item)"

definition btree_find :: "'d search_table \<Rightarrow> nat \<Rightarrow> bool \<Rightarrow> 'd search_table \<times> nat option" where
  "btree_find t idx found =
     (if \<not> found then (t, None) else (t\<lparr>cursor := idx\<rparr>, Some idx))"

definition btree_delete ::
    "'d search_table \<Rightarrow> nat \<Rightarrow> bool \<Rightarrow> ub + 'd search_table \<times> nat option" where
  "btree_delete t idx found =
     (if \<not> found then Inr (t, None)
      else
        sbind (get_cell t idx) (\<lambda>p.
        let t = remove_entry t (entry p);
            move_len = filled t - idx + 1 in
        sbind (memmove (data t) idx (idx + 1) move_len) (\<lambda>d.
        Inr (t\<lparr>data := d, filled := filled t - 1\<rparr>, Some idx))))"

definition btree_grow :: "'d search_table \<Rightarrow> 'd search_table" where
  "btree_grow t =
     (if filled t + 1 \<ge> hsize t
      then t\<lparr>hsize := hsize t * 2,
             data := data t @ replicate (hsize t * 2 - length (data t)) None\<rparr>
      else t)"

definition btree_add ::
    "'d search_table \<Rightarrow> 'd search_entry \<Rightarrow> nat \<Rightarrow> int \<Rightarrow> bool \<Rightarrow>
     ub + 'd search_table \<times> nat option" where
  "btree_add t item idx comparison found =
     (if found then Inr (t, Some idx)
      else
        let t = btree_grow t;
            idx = (if comparison > 0 then idx + 1 else idx);
            t = t\<lparr>cursor := idx\<rparr>;
            move_len = filled t - idx + 1 in
        sbind (memmove (data t) (idx + 1) idx move_len) (\<lambda>d.
        let t = t\<lparr>data := d\<rparr> in
        if bad_flag (flag item) then Inr (t, None)
        else
          sbind (dup_data (dup_key item)) (\<lambda>item.
          sbind (put_cell idx \<lparr>entry = item, used = 1\<rparr> t) (\<lambda>t.
          Inr (t\<lparr>filled := filled t + 1\<rparr>, Some idx)))))"

definition BtreeTableSearchFunc ::
    "'d search_table \<Rightarrow> 'd search_entry \<Rightarrow> search_action \<Rightarrow>
     ub + 'd search_table \<times> nat option" where
  "BtreeTableSearchFunc t item action =
     (let item = btree_item item in
      sbind (btree_bisect t (key item) (key_len item) 0 (filled t) 0 (-1))
        (\<lambda>(idx, comparison, found).
          case action of
            Find \<Rightarrow> Inr (btree_find t idx found)
          | Delete \<Rightarrow> btree_delete t idx found
          | Add \<Rightarrow> btree_add t item idx comparison found))"

definition BtreeTableAdd where
  "BtreeTableAdd t item = BtreeTableSearchFunc t item Add"

definition BtreeTableDelete where
  "BtreeTableDelete t item = BtreeTableSearchFunc t item Delete"

definition BtreeTableSearch where
  "BtreeTableSearch t item = BtreeTableSearchFunc t item Find"

definition BtreeTableSeq :: "'d search_table \<Rightarrow> nat \<Rightarrow> 'd search_table \<times> nat option" where
  "BtreeTableSeq t pos =
     (let cou = (if pos = 0 then 0 else cursor t + 1) in
      if cou \<ge> filled t then (t, None) else (t\<lparr>cursor := cou\<rparr>, Some cou))"

definition BtreeTableCreate :: "nat \<Rightarrow> bool \<Rightarrow> 'd search_table" where
  "BtreeTableCreate nel delete_entry =
     (let nel = (if nel = 0 then 1 else nel) in
      \<lparr>data = replicate nel (Some zero_DATA), hsize = nel, filled = 0, cursor = 0,
       hook = delete_entry, trace = []\<rparr>)"


section \<open>The order of the keys\<close>

lemma schar_NUL [simp]: "schar NUL = 0"
  by simp

text \<open>
  The comparison is that of the lexicographic order on byte values in which the first byte
  counts as a signed \<open>char\<close> and the empty key as the byte \<open>0\<close>.
\<close>

definition kord :: "string \<Rightarrow> int list" where
  "kord k = (case k of [] \<Rightarrow> [0] | c # cs \<Rightarrow> schar c # map (\<lambda>c. int (byte c)) cs)"

lemma map_byte_inject: "map (\<lambda>c. int (byte c)) s = map (\<lambda>c. int (byte c)) t \<longleftrightarrow> s = t"
  by (rule inj_map_eq_map) (auto intro!: injI)

lemma kord_inject: "NUL \<notin> set k \<Longrightarrow> NUL \<notin> set k' \<Longrightarrow> kord k = kord k' \<longleftrightarrow> k = k'"
  by (auto simp: kord_def map_byte_inject eq_commute [of 0] split: list.splits)

text \<open>\<open>memcmp\<close> on the common length and then the lengths is the lexicographic order.\<close>

definition lexcmp :: "string \<Rightarrow> string \<Rightarrow> int" where
  "lexcmp s t =
     (let m = min (length s) (length t); c = c_memcmp (take m s) (take m t)
      in if c = 0 then int (length s) - int (length t) else c)"

lemma lexcmp_Cons:
  "lexcmp (a # s) (b # t) =
     (if byte a < byte b then -1 else if byte b < byte a then 1 else lexcmp s t)"
  by (simp add: lexcmp_def Let_def)

lemma lexcmp_less:
  "(lexcmp s t < 0 \<longleftrightarrow> map (\<lambda>c. int (byte c)) s < map (\<lambda>c. int (byte c)) t) \<and>
   (lexcmp s t = 0 \<longleftrightarrow> s = t)"
proof (induction s t rule: list_induct2')
  case (4 a s b t)
  then show ?case by (auto simp: lexcmp_Cons simp flip: byte_inject)
qed (auto simp: lexcmp_def Let_def)

lemma btree_compare_lexcmp:
  assumes "wf_entry e" "wf_entry p" "key e = c # cs" "key p = c # ds" "0 < key_len e" "0 < key_len p"
  shows "btree_compare (key e) (key_len e) p = lexcmp (ekey e) (ekey p)"
proof -
  have l: "int (length (ekey e)) = key_len e" "int (length (ekey p)) = key_len p"
    using assms by (simp_all add: length_ekey)
  have m: "min (length (ekey e)) (length (ekey p)) =
      nat (if key_len e - key_len p < 0 then key_len e else key_len p)"
    using l by auto
  have t: "take (nat (if key_len e - key_len p < 0 then key_len e else key_len p)) (ekey e) =
      take (nat (if key_len e - key_len p < 0 then key_len e else key_len p)) (key e)"
    "take (nat (if key_len e - key_len p < 0 then key_len e else key_len p)) (ekey p) =
      take (nat (if key_len e - key_len p < 0 then key_len e else key_len p)) (key p)"
    using assms by (auto simp: ekey_def min_def)
  show ?thesis
    unfolding lexcmp_def Let_def m t l btree_compare_def using assms(3,4) by (simp add: key0_def)
qed

lemma wf_entry_cases:
  assumes "wf_entry e"
  obtains (empty) "key e = []" "key_len e = 0" "ekey e = []"
  | (ne) c cs cs' where "key e = c # cs" "0 < key_len e" "ekey e = c # cs'" "c \<noteq> NUL"
proof (cases "key_len e = 0")
  case True
  with assms show thesis by (intro empty) (simp_all add: wf_entry_def ekey_def)
next
  case False
  with assms have "0 < key_len e" by (simp add: wf_entry_def)
  moreover from this obtain n where "nat (key_len e) = Suc n" by (cases "nat (key_len e)") auto
  moreover from assms calculation obtain c cs where "key e = c # cs"
    by (cases "key e") (auto simp: wf_entry_def)
  ultimately show thesis using assms by (intro ne [of c cs "take n cs"]) (auto simp: ekey_def wf_entry_def)
qed

lemma btree_compare_order:
  assumes "wf_entry e" "wf_entry p"
  shows "btree_compare (key e) (key_len e) p < 0 \<longleftrightarrow> kord (ekey e) < kord (ekey p)"
    and "btree_compare (key e) (key_len e) p = 0 \<longleftrightarrow> ekey e = ekey p"
proof -
  have "(btree_compare (key e) (key_len e) p < 0 \<longleftrightarrow> kord (ekey e) < kord (ekey p)) \<and>
    (btree_compare (key e) (key_len e) p = 0 \<longleftrightarrow> ekey e = ekey p)"
    using assms(1)
  proof (cases rule: wf_entry_cases)
    case empty
    from assms(2) show ?thesis
    proof (cases rule: wf_entry_cases)
      case (ne c cs cs')
      then show ?thesis using empty by (simp add: btree_compare_def key0_def kord_def Let_def)
    qed (use empty in \<open>simp add: btree_compare_def key0_def Let_def\<close>)
  next
    case e: (ne c cs cs')
    from assms(2) show ?thesis
    proof (cases rule: wf_entry_cases)
      case empty
      then show ?thesis using e by (simp add: btree_compare_def key0_def kord_def Let_def)
    next
      case p: (ne d ds ds')
      show ?thesis
      proof (cases "c = d")
        case True
        then have "btree_compare (key e) (key_len e) p = lexcmp (ekey e) (ekey p)"
          using assms e p by (intro btree_compare_lexcmp) auto
        moreover have "lexcmp (ekey e) (ekey p) = lexcmp cs' ds'"
          using e p True by (simp add: lexcmp_Cons)
        ultimately show ?thesis using lexcmp_less [of cs' ds'] e p True by (simp add: kord_def)
      next
        case False
        then have "btree_compare (key e) (key_len e) p = schar c - schar d" "schar c \<noteq> schar d"
          using e p by (simp_all add: btree_compare_def key0_def Let_def)
        with e p False show ?thesis by (auto simp: kord_def)
      qed
    qed
  qed
  then show "btree_compare (key e) (key_len e) p < 0 \<longleftrightarrow> kord (ekey e) < kord (ekey p)"
    "btree_compare (key e) (key_len e) p = 0 \<longleftrightarrow> ekey e = ekey p" by simp_all
qed

section \<open>The invariant\<close>

definition entries :: "'d search_table \<Rightarrow> 'd search_entry list" where
  "entries t = map (\<lambda>c. entry (the c)) (take (filled t) (data t))"

definition btree_inv :: "'d search_table \<Rightarrow> bool" where
  "btree_inv t \<longleftrightarrow>
     length (data t) = hsize t \<and> filled t < hsize t \<and>
     (\<forall>i < filled t. data t ! i \<noteq> None) \<and>
     (\<forall>e \<in> set (entries t). wf_entry e) \<and>
     sorted_wrt (<) (map (kord \<circ> ekey) (entries t))"

lemma length_entries: "btree_inv t \<Longrightarrow> length (entries t) = filled t"
  by (simp add: btree_inv_def entries_def)

lemma get_cell_entries:
  assumes "btree_inv t" "i < filled t"
  obtains d where "get_cell t i = Inr d" "entry d = entries t ! i"
proof -
  from assms obtain d where "data t ! i = Some d" by (auto simp: btree_inv_def)
  with assms have "get_cell t i = Inr d" "entry d = entries t ! i"
    by (simp_all add: get_cell_def btree_inv_def entries_def)
  then show thesis by (rule that)
qed

lemma entries_wf: "btree_inv t \<Longrightarrow> i < filled t \<Longrightarrow> wf_entry (entries t ! i)"
  by (metis btree_inv_def length_entries nth_mem)

lemma entries_less:
  "btree_inv t \<Longrightarrow> i < j \<Longrightarrow> j < filled t \<Longrightarrow>
   kord (ekey (entries t ! i)) < kord (ekey (entries t ! j))"
  by (auto simp: btree_inv_def sorted_wrt_iff_nth_less entries_def)

section \<open>Bisection\<close>

text \<open>What the search says about the position it ends at.\<close>

definition insert_pos :: "nat \<Rightarrow> int \<Rightarrow> nat" where
  "insert_pos idx comparison = (if comparison > 0 then idx + 1 else idx)"

definition located :: "'d search_table \<Rightarrow> string \<Rightarrow> nat \<times> int \<times> bool \<Rightarrow> bool" where
  "located t k r = (case r of (idx, comparison, found) \<Rightarrow>
     if found then idx < filled t \<and> ekey (entries t ! idx) = k
     else insert_pos idx comparison \<le> filled t \<and>
       (\<forall>i < insert_pos idx comparison. kord (ekey (entries t ! i)) < kord k) \<and>
       (\<forall>i. insert_pos idx comparison \<le> i \<longrightarrow> i < filled t \<longrightarrow> kord k < kord (ekey (entries t ! i))))"

definition bisecting :: "'d search_table \<Rightarrow> string \<Rightarrow> nat \<Rightarrow> nat \<Rightarrow> nat \<Rightarrow> int \<Rightarrow> bool" where
  "bisecting t k l u idx comparison \<longleftrightarrow>
     l \<le> u \<and> u \<le> filled t \<and>
     (\<forall>i < l. kord (ekey (entries t ! i)) < kord k) \<and>
     (\<forall>i. u \<le> i \<longrightarrow> i < filled t \<longrightarrow> kord k < kord (ekey (entries t ! i))) \<and>
     (comparison > 0 \<and> l = idx + 1 \<or> comparison < 0 \<and> (u = idx \<or> l = idx \<and> idx = 0))"

lemma bisecting_down:
  assumes "btree_inv t" "bisecting t k l u idx0 c0" "l < u" "idx = (l + u) div 2"
    "kord k < kord (ekey (entries t ! idx))" "c < 0"
  shows "bisecting t k l idx idx c"
proof -
  have "idx < u" "l \<le> idx" using assms by auto
  moreover have "kord k < kord (ekey (entries t ! i))" if "idx \<le> i" "i < filled t" for i
    using assms(5) entries_less [OF assms(1), of idx i] that by (cases "i = idx") (auto dest: less_trans)
  ultimately show ?thesis using assms by (auto simp: bisecting_def)
qed

lemma bisecting_up:
  assumes "btree_inv t" "bisecting t k l u idx0 c0" "l < u" "idx = (l + u) div 2"
    "kord (ekey (entries t ! idx)) < kord k" "c > 0"
  shows "bisecting t k (idx + 1) u idx c"
proof -
  have i: "idx < u" "idx < filled t" using assms by (auto simp: bisecting_def)
  moreover have "kord (ekey (entries t ! i)) < kord k" if "i < idx + 1" for i
    using assms(5) entries_less [OF assms(1), of i idx] i that by (cases "i = idx") (auto dest: less_trans)
  ultimately show ?thesis using assms by (auto simp: bisecting_def)
qed

lemma btree_bisect_located:
  assumes "btree_inv t" "wf_entry e"
  shows "bisecting t (ekey e) l u idx comparison \<Longrightarrow>
    \<exists>r. btree_bisect t (key e) (key_len e) l u idx comparison = Inr r \<and> located t (ekey e) r"
  using assms
proof (induction t "key e" "key_len e" l u idx comparison rule: btree_bisect.induct)
  case (1 t l u idx comparison)
  show ?case
  proof (cases "l < u")
    case False
    with "1.prems" show ?thesis
      by (subst btree_bisect.simps) (auto simp: bisecting_def located_def insert_pos_def)
  next
    case True
    define i where "i = (l + u) div 2"
    have i: "i < filled t" using "1.prems" True by (auto simp: i_def bisecting_def)
    obtain d where d: "get_cell t i = Inr d" "entry d = entries t ! i"
      using get_cell_entries [OF "1.prems"(2) i] .
    define c where "c = btree_compare (key e) (key_len e) (entry d)"
    have o: "c < 0 \<longleftrightarrow> kord (ekey e) < kord (ekey (entries t ! i))" "c = 0 \<longleftrightarrow> ekey e = ekey (entries t ! i)"
      using btree_compare_order [OF "1.prems"(3) entries_wf [OF "1.prems"(2) i]] by (simp_all add: c_def d)
    have step: "btree_bisect t (key e) (key_len e) l u idx comparison =
        (if c < 0 then btree_bisect t (key e) (key_len e) l i i c
         else if c > 0 then btree_bisect t (key e) (key_len e) (i + 1) u i c
         else Inr (i, c, True))"
      using True d by (subst btree_bisect.simps) (simp add: i_def c_def Let_def)
    note IH = "1.hyps" [OF True i_def c_def]
    consider "c < 0" | "c > 0" | "c = 0" by linarith
    then show ?thesis
    proof cases
      case 1
      with "1.prems" True o show ?thesis
        using IH(1) bisecting_down [OF "1.prems"(2,1) True i_def _ 1] by (simp add: step)
    next
      case 2
      with o have "kord (ekey (entries t ! i)) < kord (ekey e)"
        using kord_inject NUL_ekey "1.prems"(3) entries_wf [OF "1.prems"(2) i]
        by (metis less_irrefl linorder_neqE not_less_iff_gr_or_eq)
      from bisecting_up [OF "1.prems"(2,1) True i_def this 2] 2 "1.prems" show ?thesis
        using IH(2) by (simp add: step)
    next
      case 3
      with o i show ?thesis by (simp add: step located_def)
    qed
  qed
qed

lemma btree_search_located:
  assumes "btree_inv t" "wf_entry e"
  obtains idx comparison found where
    "btree_bisect t (key e) (key_len e) 0 (filled t) 0 (-1) = Inr (idx, comparison, found)"
    "located t (ekey e) (idx, comparison, found)"
proof -
  have "bisecting t (ekey e) 0 (filled t) 0 (-1)" by (simp add: bisecting_def)
  from btree_bisect_located [OF assms this] that show thesis by (metis prod_cases3)
qed


section \<open>Searching\<close>

lemma entries_update [simp]:
  "entries (t\<lparr>cursor := i\<rparr>) = entries t" "btree_inv (t\<lparr>cursor := i\<rparr>) = btree_inv t"
  by (simp_all add: entries_def btree_inv_def)

lemma located_found:
  assumes "btree_inv t" "located t k (idx, comparison, found)"
  shows "found \<longleftrightarrow> k \<in> ekey ` set (entries t)"
proof (cases found)
  case True
  then have "idx < length (entries t)" "ekey (entries t ! idx) = k"
    using assms by (simp_all add: located_def length_entries)
  with True show ?thesis by auto
next
  case False
  have "ekey (entries t ! i) \<noteq> k" if "i < filled t" for i
    using assms(2) False that
    by (cases "i < insert_pos idx comparison") (auto simp: located_def dest!: spec [of _ i])
  then have "k \<notin> ekey ` set (entries t)"
    using length_entries [OF assms(1)] by (fastforce simp: in_set_conv_nth)
  with False show ?thesis by simp
qed

lemma btree_index_unique:
  assumes "btree_inv t" "i < filled t" "j < filled t"
    "ekey (entries t ! i) = ekey (entries t ! j)"
  shows "i = j"
  using assms entries_less [OF assms(1), of i j] entries_less [OF assms(1), of j i]
  by (cases i j rule: linorder_cases) auto

lemma BtreeTableSearch_present:
  assumes "btree_inv t" "wf_entry (btree_item item)" "i < filled t"
    "ekey (entries t ! i) = ekey (btree_item item)"
  shows "BtreeTableSearch t item = Inr (t\<lparr>cursor := i\<rparr>, Some i)"
proof -
  obtain idx c f where
    b: "btree_bisect t (key (btree_item item)) (key_len (btree_item item)) 0 (filled t) 0 (-1) =
        Inr (idx, c, f)" and l: "located t (ekey (btree_item item)) (idx, c, f)"
    using btree_search_located [OF assms(1,2)] .
  have "i < length (entries t)" using assms by (simp add: length_entries)
  then have f using located_found [OF assms(1) l] assms(4) by (metis image_eqI nth_mem)
  with l have "idx = i" using assms by (auto simp: located_def intro: btree_index_unique)
  with b \<open>f\<close> show ?thesis
    by (simp add: BtreeTableSearch_def BtreeTableSearchFunc_def btree_find_def Let_def)
qed

lemma BtreeTableSearch_absent:
  assumes "btree_inv t" "wf_entry (btree_item item)"
    "ekey (btree_item item) \<notin> ekey ` set (entries t)"
  shows "BtreeTableSearch t item = Inr (t, None)"
proof -
  obtain idx c f where
    b: "btree_bisect t (key (btree_item item)) (key_len (btree_item item)) 0 (filled t) 0 (-1) =
        Inr (idx, c, f)" and l: "located t (ekey (btree_item item)) (idx, c, f)"
    using btree_search_located [OF assms(1,2)] .
  then have "\<not> f" using located_found [OF assms(1) l] assms(3) by simp
  with b show ?thesis
    by (simp add: BtreeTableSearch_def BtreeTableSearchFunc_def btree_find_def Let_def)
qed

section \<open>Inserting\<close>

lemma length_btree_grow: "length (data t) = hsize t \<Longrightarrow> length (data (btree_grow t)) = hsize (btree_grow t)"
  by (simp add: btree_grow_def)

lemma btree_grow_simps [simp]:
  "filled (btree_grow t) = filled t" "cursor (btree_grow t) = cursor t"
  "hook (btree_grow t) = hook t" "trace (btree_grow t) = trace t"
  by (simp_all add: btree_grow_def)

lemma entries_grow: "filled t \<le> length (data t) \<Longrightarrow> entries (btree_grow t) = entries t"
  by (simp add: entries_def btree_grow_def)

lemma btree_grow_room: "filled t < hsize t \<Longrightarrow> Suc (filled t) < hsize (btree_grow t)"
  by (simp add: btree_grow_def)

lemma memmove_up:
  assumes "i \<le> n" "n + 1 < length xs"
  shows "memmove xs (i + 1) i (n - i + 1) =
    Inr (take (i + 1) xs @ take (n - i + 1) (drop i xs) @ drop (n + 2) xs)"
  using assms by (simp add: memmove_def)

lemma insert_shifted:
  assumes "i \<le> n" "n + 1 < length xs"
  shows "take (n + 1) ((take (i + 1) xs @ take (n - i + 1) (drop i xs) @ drop (n + 2) xs)[i := y]) =
    take i xs @ y # take (n - i) (drop i xs)"
  using assms
  by (simp add: list_update_append take_Suc_conv_app_nth min_def Suc_diff_le) arith

lemma take_drop_all: "i \<le> n \<Longrightarrow> take n xs = take i xs @ take (n - i) (drop i xs)"
  by (simp add: take_add [symmetric])

lemma sorted_wrt_insert:
  fixes xs :: "'a::order list"
  assumes "sorted_wrt (<) xs" "\<forall>i < p. xs ! i < x" "\<forall>i. p \<le> i \<longrightarrow> i < length xs \<longrightarrow> x < xs ! i" "p \<le> length xs"
  shows "sorted_wrt (<) (take p xs @ x # drop p xs)"
proof -
  have "sorted_wrt (<) (take p xs @ drop p xs)" using assms(1) by simp
  then have s: "sorted_wrt (<) (take p xs)" "sorted_wrt (<) (drop p xs)"
      "\<forall>a \<in> set (take p xs). \<forall>b \<in> set (drop p xs). a < b"
    unfolding sorted_wrt_append by simp_all
  have lo: "\<forall>a \<in> set (take p xs). a < x"
    using assms(2,4) by (auto simp: in_set_conv_nth)
  have hi: "\<forall>b \<in> set (drop p xs). x < b"
    using assms(3,4) by (auto simp: in_set_conv_nth)
  from s lo hi show ?thesis by (auto simp: sorted_wrt_append)
qed

definition inserted :: "nat \<Rightarrow> 'a \<Rightarrow> 'a list \<Rightarrow> 'a list" where
  "inserted p x xs = take p xs @ x # drop p xs"

lemma map_inserted: "map f (inserted p x xs) = inserted p (f x) (map f xs)"
  by (simp add: inserted_def take_map drop_map)

lemma set_inserted: "set (inserted p x xs) = insert x (set xs)"
  using set_append [of "take p xs" "drop p xs"] by (simp add: inserted_def)

lemma BtreeTableAdd_absent:
  assumes "btree_inv t" "wf_entry (btree_item item)" "\<not> bad_flag (flag item)"
    "dup_data (dup_key (btree_item item)) = Inr item'"
    "ekey (btree_item item) \<notin> ekey ` set (entries t)"
  obtains t' p where "BtreeTableAdd t item = Inr (t', Some p)" "p \<le> filled t"
    "btree_inv t'" "entries t' = inserted p item' (entries t)" "filled t' = filled t + 1"
    "trace t' = trace t" "hook t' = hook t"
proof -
  let ?k = "ekey (btree_item item)"
  obtain idx c f where
    b: "btree_bisect t (key (btree_item item)) (key_len (btree_item item)) 0 (filled t) 0 (-1) =
        Inr (idx, c, f)" and l: "located t ?k (idx, c, f)"
    using btree_search_located [OF assms(1,2)] .
  have nf: "\<not> f" using located_found [OF assms(1) l] assms(5) by simp
  define p where "p = insert_pos idx c"
  have p: "p \<le> filled t" "\<forall>i < p. kord (ekey (entries t ! i)) < kord ?k"
    "\<forall>i. p \<le> i \<longrightarrow> i < filled t \<longrightarrow> kord ?k < kord (ekey (entries t ! i))"
    using l nf by (simp_all add: located_def p_def)
  define g where "g = btree_grow t"
  have g: "length (data g) = hsize g" "filled g = filled t" "filled t + 1 < length (data g)"
      "entries g = entries t" "trace g = trace t" "hook g = hook t"
    using assms(1) by (simp_all add: g_def btree_inv_def length_btree_grow btree_grow_room entries_grow)
  define d where "d = take (p + 1) (data g) @ take (filled t - p + 1) (drop p (data g)) @
      drop (filled t + 2) (data g)"
  have ld: "length d = length (data g)" using p g by (simp add: d_def)
  have mm: "memmove (data g) (p + 1) p (filled t - p + 1) = Inr d"
    unfolding d_def using p g by (intro memmove_up) simp_all
  define t' where "t' = g\<lparr>cursor := p, data := d[p := Some \<lparr>entry = item', used = 1\<rparr>], filled := filled t + 1\<rparr>"
  have flag: "flag (btree_item item) = flag item" by (simp add: btree_item_def)
  have add: "BtreeTableAdd t item = Inr (t', Some p)"
    using mm g nf assms(3,4) p ld flag
    by (simp add: BtreeTableAdd_def BtreeTableSearchFunc_def b btree_add_def Let_def
        g_def [symmetric] p_def [unfolded insert_pos_def, symmetric] put_cell_def t'_def)
  have tk: "take (filled t') (data t') = take p (data g) @ Some \<lparr>entry = item', used = 1\<rparr> #
      take (filled t - p) (drop p (data g))"
    using insert_shifted [OF p(1) g(3)] by (simp add: t'_def d_def)
  have es: "entries t' = inserted p item' (entries t)"
    unfolding g(4) [symmetric] unfolding entries_def tk inserted_def using p g
    by (simp add: take_map drop_map take_drop min_def)
  have k': "ekey item' = ?k" using dup_data_key(3) [OF assms(4)] by simp
  have wf: "wf_entry item'" using wf_dup_data [OF assms(4)] wf_dup_key [OF assms(2)] by simp
  have "\<forall>i < filled t. data g ! i \<noteq> None"
    using assms(1) by (auto simp: g_def btree_grow_def btree_inv_def nth_append)
  then have "\<forall>x \<in> set (take (filled t') (data t')). x \<noteq> None"
    unfolding tk using p g by (auto simp: in_set_conv_nth)
  then have cells: "\<forall>i < filled t'. data t' ! i \<noteq> None"
    using g ld by (auto simp: t'_def in_set_conv_nth)
  have "sorted_wrt (<) (map (kord \<circ> ekey) (entries t'))"
    unfolding es map_inserted unfolding inserted_def
    using p assms(1) k' by (intro sorted_wrt_insert) (simp_all add: btree_inv_def length_entries [OF assms(1)])
  then have "btree_inv t'"
    using cells wf assms(1) g ld unfolding btree_inv_def es set_inserted by (simp add: t'_def)
  from that [OF add p(1) this es] g show thesis by (simp add: t'_def)
qed

lemma BtreeTableAdd_present:
  assumes "btree_inv t" "wf_entry (btree_item item)" "i < filled t"
    "ekey (entries t ! i) = ekey (btree_item item)"
  shows "BtreeTableAdd t item = Inr (t, Some i)"
proof -
  obtain idx c f where
    b: "btree_bisect t (key (btree_item item)) (key_len (btree_item item)) 0 (filled t) 0 (-1) =
        Inr (idx, c, f)" and l: "located t (ekey (btree_item item)) (idx, c, f)"
    using btree_search_located [OF assms(1,2)] .
  have "i < length (entries t)" using assms by (simp add: length_entries)
  then have f using located_found [OF assms(1) l] assms(4) by (metis image_eqI nth_mem)
  with l have "idx = i" using assms by (auto simp: located_def intro: btree_index_unique)
  with b \<open>f\<close> show ?thesis
    by (simp add: BtreeTableAdd_def BtreeTableSearchFunc_def btree_add_def Let_def)
qed

end
