(* ===== verification/Btree_Map.thy ===== *)
theory Btree_Map
  imports Btree
begin

text \<open>
  The sorted table as a finite map: deleting, the map view of the three operations and the
  interpretation of the table contract, enumeration and destruction.
\<close>

section \<open>Deleting\<close>

lemma memmove_down:
  assumes "i < n" "n + 1 < length xs"
  shows "memmove xs i (i + 1) (n - i + 1) =
    Inr (take i xs @ take (n - i + 1) (drop (i + 1) xs) @ drop (n + 1) xs)"
  using assms by (simp add: memmove_def)

lemma delete_shifted:
  assumes "i < n" "n + 1 < length xs"
  shows "take (n - 1) (take i xs @ take (n - i + 1) (drop (i + 1) xs) @ drop (n + 1) xs) =
    take i xs @ take (n - 1 - i) (drop (i + 1) xs)"
proof -
  obtain m where "n = Suc (i + m)" using assms(1) less_iff_Suc_add by auto
  then show ?thesis using assms(2) by simp
qed

lemma sorted_wrt_delete:
  "sorted_wrt P xs \<Longrightarrow> sorted_wrt P (take i xs @ drop (Suc i) xs)"
proof (induction xs arbitrary: i)
  case (Cons a xs)
  then show ?case by (cases i) (auto dest: in_set_takeD in_set_dropD)
qed simp

definition deleted :: "nat \<Rightarrow> 'a list \<Rightarrow> 'a list" where
  "deleted i xs = take i xs @ drop (Suc i) xs"

lemma map_deleted: "map f (deleted i xs) = deleted i (map f xs)"
  by (simp add: deleted_def take_map drop_map)

lemma sorted_wrt_deleted: "sorted_wrt P xs \<Longrightarrow> sorted_wrt P (deleted i xs)"
  unfolding deleted_def by (rule sorted_wrt_delete)

lemma set_deleted: "set (deleted i xs) \<subseteq> set xs"
  by (auto simp: deleted_def dest: in_set_takeD in_set_dropD)

lemma btree_delete_found:
  assumes "btree_inv t" "wf_entry (btree_item item)" "i < filled t"
    "ekey (entries t ! i) = ekey (btree_item item)"
  shows "BtreeTableDelete t item = btree_delete t i True"
proof -
  obtain idx c f where
    b: "btree_bisect t (key (btree_item item)) (key_len (btree_item item)) 0 (filled t) 0 (-1) =
        Inr (idx, c, f)" and l: "located t (ekey (btree_item item)) (idx, c, f)"
    using btree_search_located [OF assms(1,2)] .
  have "i < length (entries t)" using assms by (simp add: length_entries)
  then have f using located_found [OF assms(1) l] assms(4) by (metis image_eqI nth_mem)
  with l have "idx = i" using assms by (auto simp: located_def intro: btree_index_unique)
  with b \<open>f\<close> show ?thesis by (simp add: BtreeTableDelete_def BtreeTableSearchFunc_def Let_def)
qed

lemma BtreeTableDelete_absent:
  assumes "btree_inv t" "wf_entry (btree_item item)"
    "ekey (btree_item item) \<notin> ekey ` set (entries t)"
  shows "BtreeTableDelete t item = Inr (t, None)"
proof -
  obtain idx c f where
    b: "btree_bisect t (key (btree_item item)) (key_len (btree_item item)) 0 (filled t) 0 (-1) =
        Inr (idx, c, f)" and l: "located t (ekey (btree_item item)) (idx, c, f)"
    using btree_search_located [OF assms(1,2)] .
  then have "\<not> f" using located_found [OF assms(1) l] assms(3) by simp
  with b show ?thesis
    by (simp add: BtreeTableDelete_def BtreeTableSearchFunc_def btree_delete_def Let_def)
qed

text \<open>The array has to extend one cell past the one after the last entry.\<close>

definition btree_room :: "'d search_table \<Rightarrow> bool" where
  "btree_room t \<longleftrightarrow> filled t + 1 < hsize t"

lemma btree_delete_room:
  assumes "btree_inv t" "i < filled t" "btree_room t"
  obtains t' where "btree_delete t i True = Inr (t', Some i)" "btree_inv t'"
    "entries t' = deleted i (entries t)" "filled t' = filled t - 1"
    "trace t' = trace (remove_entry t (entries t ! i))" "hsize t' = hsize t"
proof -
  obtain p where p: "get_cell t i = Inr p" "entry p = entries t ! i"
    using get_cell_entries [OF assms(1,2)] .
  have len: "length (data t) = hsize t" "filled t + 1 < length (data t)"
    using assms by (simp_all add: btree_inv_def btree_room_def)
  define d where "d = take i (data t) @ take (filled t - i + 1) (drop (i + 1) (data t)) @
      drop (filled t + 1) (data t)"
  have mm: "memmove (data t) i (i + 1) (filled t - i + 1) = Inr d"
    unfolding d_def using assms len by (intro memmove_down) simp_all
  define t' where "t' = (remove_entry t (entries t ! i))\<lparr>data := d, filled := filled t - 1\<rparr>"
  have del: "btree_delete t i True = Inr (t', Some i)"
    using p mm by (simp add: btree_delete_def t'_def Let_def)
  have tk: "take (filled t') (data t') = take i (data t) @ take (filled t - 1 - i) (drop (i + 1) (data t))"
    using delete_shifted [OF assms(2) len(2)] by (simp add: t'_def d_def)
  have es: "entries t' = deleted i (entries t)"
    using assms(2) len unfolding entries_def tk deleted_def
    by (simp add: take_map drop_map drop_take min_def)
  have cells: "\<forall>j < filled t'. data t' ! j \<noteq> None"
  proof -
    have "\<forall>x \<in> set (take (filled t') (data t')). x \<noteq> None"
      unfolding tk using assms len by (auto simp: in_set_conv_nth btree_inv_def)
    moreover have "filled t' \<le> length (data t')" using len assms by (simp add: t'_def d_def)
    ultimately show ?thesis by (auto simp: in_set_conv_nth)
  qed
  have "length (data t') = hsize t'" "filled t' < hsize t'"
    using len assms by (simp_all add: t'_def d_def)
  then have "btree_inv t'"
    using cells assms(1) set_deleted [of i "entries t"] unfolding btree_inv_def es
    by (auto simp: map_deleted intro: sorted_wrt_deleted)
  from that [OF del this es] show thesis by (simp add: t'_def remove_entry_def)
qed

lemma btree_delete_no_room:
  assumes "btree_inv t" "i < filled t" "\<not> btree_room t"
  shows "btree_delete t i True = Inl OutOfBounds"
proof -
  obtain p where p: "get_cell t i = Inr p" using get_cell_entries [OF assms(1,2)] .
  have "\<not> (i + 1 + (filled t - i + 1) \<le> length (data t))"
    using assms by (simp add: btree_inv_def btree_room_def)
  with p show ?thesis by (simp add: btree_delete_def memmove_def Let_def)
qed

section \<open>The table as a map\<close>

definition btree_key :: "string \<Rightarrow> 'd search_entry" where
  "btree_key k = zero_entry\<lparr>key := k, key_len := -1\<rparr>"

definition btree_lookup :: "'d search_table \<Rightarrow> string \<Rightarrow> 'd search_entry option" where
  "btree_lookup t k =
     (if NUL \<in> set k then None
      else case BtreeTableSearch t (btree_key k) of
          Inr (t', Some i) \<Rightarrow> Some (entries t ! i)
        | _ \<Rightarrow> None)"

definition btree_insert :: "'d search_entry \<Rightarrow> 'd search_table \<Rightarrow> 'd search_table" where
  "btree_insert e t = (case BtreeTableAdd t e of Inr (t', _) \<Rightarrow> t' | Inl _ \<Rightarrow> t)"

definition btree_remove :: "string \<Rightarrow> 'd search_table \<Rightarrow> 'd search_table" where
  "btree_remove k t =
     (if NUL \<in> set k then t
      else case BtreeTableDelete t (btree_key k) of Inr (t', _) \<Rightarrow> t' | Inl _ \<Rightarrow> t)"

definition btree_accepts :: "'d search_entry \<Rightarrow> bool" where
  "btree_accepts e \<longleftrightarrow> wf_entry (btree_item e) \<and> \<not> bad_flag (flag e) \<and>
     (has_flag (flag e) SEARCH_DUP_DATA \<longrightarrow> edata e \<noteq> NullData)"

definition btree_stored :: "'d search_entry \<Rightarrow> 'd search_entry" where
  "btree_stored e = (case dup_data (dup_key (btree_item e)) of Inr e' \<Rightarrow> e' | Inl _ \<Rightarrow> e)"

lemma btree_accepts_stored: "btree_accepts e \<Longrightarrow> dup_data (dup_key (btree_item e)) = Inr (btree_stored e)"
  by (cases "edata e")
    (auto simp: btree_accepts_def btree_stored_def dup_data_def btree_item_def)

lemma wf_btree_key: "NUL \<notin> set k \<Longrightarrow> wf_entry (btree_item (btree_key k))"
  by (simp add: wf_entry_def btree_item_def btree_key_def)

lemma ekey_btree_key: "ekey (btree_item (btree_key k)) = k"
  by (simp add: ekey_def btree_item_def btree_key_def)

text \<open>Lookups read the entry list.\<close>

lemma btree_lookup_entries:
  assumes "btree_inv t"
  shows "btree_lookup t k = Some e \<longleftrightarrow> e \<in> set (entries t) \<and> ekey e = k"
proof (cases "NUL \<in> set k")
  case True
  have "wf_entry e" if "e \<in> set (entries t)" using assms that by (simp add: btree_inv_def)
  with True show ?thesis by (auto simp: btree_lookup_def dest: NUL_ekey)
next
  case False
  then have wf: "wf_entry (btree_item (btree_key k :: 'a search_entry))" by (rule wf_btree_key)
  show ?thesis
  proof (cases "\<exists>i < filled t. ekey (entries t ! i) = k")
    case True
    then obtain i where i: "i < filled t" "ekey (entries t ! i) = k" by blast
    then have "BtreeTableSearch t (btree_key k) = Inr (t\<lparr>cursor := i\<rparr>, Some i)"
      using wf by (intro BtreeTableSearch_present assms) (simp_all add: ekey_btree_key)
    then have l: "btree_lookup t k = Some (entries t ! i)" using False by (simp add: btree_lookup_def)
    have u: "j = i" if "j < filled t" "ekey (entries t ! j) = k" for j
      by (rule btree_index_unique [OF assms that(1) i(1)]) (simp add: that i)
    have "entries t ! i \<in> set (entries t)" using i length_entries [OF assms] by simp
    moreover have "e = entries t ! i" if "e \<in> set (entries t)" "ekey e = k"
      using that u length_entries [OF assms] by (metis in_set_conv_nth)
    ultimately show ?thesis using l i by auto
  next
    case none: False
    then have "k \<notin> ekey ` set (entries t)"
      using length_entries [OF assms] by (fastforce simp: in_set_conv_nth)
    then have "BtreeTableSearch t (btree_key k) = Inr (t, None)"
      using wf by (intro BtreeTableSearch_absent assms) (simp_all add: ekey_btree_key)
    then show ?thesis using False \<open>k \<notin> ekey ` set (entries t)\<close> by (auto simp: btree_lookup_def)
  qed
qed

lemma btree_lookup_None: "btree_inv t \<Longrightarrow> btree_lookup t k = None \<longleftrightarrow> k \<notin> ekey ` set (entries t)"
  using btree_lookup_entries [of t k] by (cases "btree_lookup t k") (force simp: image_iff)+

lemma btree_insert_cases:
  assumes "btree_inv t" "btree_accepts e"
  obtains (present) "btree_lookup t (ekey (btree_item e)) \<noteq> None" "btree_insert e t = t"
  | (absent) p where "btree_lookup t (ekey (btree_item e)) = None" "btree_inv (btree_insert e t)"
      "entries (btree_insert e t) = inserted p (btree_stored e) (entries t)"
proof (cases "btree_lookup t (ekey (btree_item e))")
  case None
  then have new: "ekey (btree_item e) \<notin> ekey ` set (entries t)" using btree_lookup_None assms(1) by blast
  have w: "wf_entry (btree_item e)" and f: "\<not> bad_flag (flag e)"
    using assms(2) by (simp_all add: btree_accepts_def)
  show thesis
  proof (rule BtreeTableAdd_absent [OF assms(1) w f btree_accepts_stored [OF assms(2)] new])
    fix t' p
    assume "BtreeTableAdd t e = Inr (t', Some p)" "btree_inv t'"
      "entries t' = inserted p (btree_stored e) (entries t)"
    with None show thesis by (intro absent [of p]) (simp_all add: btree_insert_def)
  qed
next
  case (Some v)
  then have "v \<in> set (entries t)" "ekey v = ekey (btree_item e)"
    using btree_lookup_entries assms(1) by blast+
  then obtain i where "i < filled t" "ekey (entries t ! i) = ekey (btree_item e)"
    using length_entries [OF assms(1)] by (auto simp: in_set_conv_nth)
  then have "BtreeTableAdd t e = Inr (t, Some i)"
    using assms by (intro BtreeTableAdd_present) (simp_all add: btree_accepts_def)
  with Some present show thesis by (simp add: btree_insert_def)
qed

lemma ekey_btree_stored: "btree_accepts e \<Longrightarrow> ekey (btree_stored e) = ekey (btree_item e)"
  using dup_data_key(3) [OF btree_accepts_stored] by simp

lemma btree_remove_cases:
  assumes "btree_inv t" "btree_room t"
  obtains (absent) "btree_lookup t k = None" "btree_remove k t = t"
  | (present) i where "i < filled t" "ekey (entries t ! i) = k" "btree_inv (btree_remove k t)"
      "entries (btree_remove k t) = deleted i (entries t)"
proof (cases "btree_lookup t k")
  case None
  then have "k \<notin> ekey ` set (entries t)" using btree_lookup_None assms(1) by blast
  then have "NUL \<notin> set k \<Longrightarrow> BtreeTableDelete t (btree_key k) = Inr (t, None)"
    by (intro BtreeTableDelete_absent assms) (simp_all add: ekey_btree_key wf_btree_key)
  with None absent show thesis by (simp add: btree_remove_def)
next
  case (Some v)
  then have v: "v \<in> set (entries t)" "ekey v = k" and k: "NUL \<notin> set k"
    using btree_lookup_entries assms(1) by (blast, blast, auto simp: btree_lookup_def split: if_splits)
  then obtain i where i: "i < filled t" "ekey (entries t ! i) = k"
    using length_entries [OF assms(1)] by (auto simp: in_set_conv_nth)
  then have "BtreeTableDelete t (btree_key k) = btree_delete t i True"
    using k by (intro btree_delete_found assms) (simp_all add: ekey_btree_key wf_btree_key)
  with btree_delete_room [OF assms(1) i(1) assms(2)] k i present show thesis
    by (metis (no_types, lifting) btree_remove_def case_prod_conv sum.case(2))
qed

lemma set_deleted_unique:
  assumes "btree_inv t" "i < filled t"
  shows "set (deleted i (entries t)) = {e \<in> set (entries t). ekey e \<noteq> ekey (entries t ! i)}"
proof -
  have "entries t = take i (entries t) @ entries t ! i # drop (Suc i) (entries t)"
    using assms by (simp add: id_take_nth_drop length_entries)
  moreover have "distinct (map ekey (entries t))"
    using assms btree_index_unique [OF assms(1)] by (auto simp: distinct_conv_nth length_entries)
  ultimately have "distinct (map ekey (take i (entries t) @ entries t ! i # drop (Suc i) (entries t)))"
    by metis
  then have "\<forall>e \<in> set (deleted i (entries t)). ekey e \<noteq> ekey (entries t ! i)"
    by (simp add: deleted_def) (metis Un_iff image_eqI)
  moreover have "set (entries t) = insert (entries t ! i) (set (deleted i (entries t)))"
    using \<open>entries t = _\<close> unfolding deleted_def
    by (metis Un_insert_right list.simps(15) set_append)
  ultimately show ?thesis by auto
qed

interpretation btree: deleting_table btree_inv btree_lookup btree_insert btree_accepts
    "ekey \<circ> btree_item" btree_stored btree_room btree_remove
proof unfold_locales
  fix t :: "'a search_table" and e :: "'a search_entry" and k j
  assume t: "btree_inv t"
  {
    assume e: "btree_accepts e"
    show "btree_inv (btree_insert e t)"
      using t e by (cases rule: btree_insert_cases) (simp_all add: t)
    show "btree_lookup (btree_insert e t) k =
        (if k = (ekey \<circ> btree_item) e \<and> btree_lookup t k = None then Some (btree_stored e)
         else btree_lookup t k)"
      using t e
    proof (cases rule: btree_insert_cases)
      case (absent p)
      have s: "btree_lookup (btree_insert e t) k = Some x \<longleftrightarrow>
          (if k = (ekey \<circ> btree_item) e then Some (btree_stored e) else btree_lookup t k) = Some x" for x
        using absent t e btree_lookup_None [OF t, of k]
        by (auto simp: btree_lookup_entries set_inserted ekey_btree_stored) (metis image_eqI)
      have "btree_lookup (btree_insert e t) k =
          (if k = (ekey \<circ> btree_item) e then Some (btree_stored e) else btree_lookup t k)"
        using s by (metis option.exhaust)
      then show ?thesis using absent(1) by auto
    qed auto
  }
  assume r: "btree_room t"
  show "btree_inv (btree_remove k t)"
    using t r by (cases rule: btree_remove_cases [of t k]) (simp_all add: t)
  show "btree_lookup (btree_remove k t) j = (if j = k then None else btree_lookup t j)"
    using t r
  proof (cases rule: btree_remove_cases [of t k])
    case (present i)
    have "btree_lookup (btree_remove k t) j = Some x \<longleftrightarrow>
        (if j = k then None else btree_lookup t j) = Some x" for x
      using present t set_deleted_unique [OF t present(1)] by (auto simp: btree_lookup_entries)
    then show ?thesis by (metis option.exhaust)
  qed auto
qed

section \<open>Enumerating and destroying\<close>

lemma btree_seq_steps:
  "BtreeTableSeq t 0 = (if filled t = 0 then (t, None) else (t\<lparr>cursor := 0\<rparr>, Some 0))"
  "p \<noteq> 0 \<Longrightarrow> BtreeTableSeq t p =
    (if cursor t + 1 < filled t then (t\<lparr>cursor := cursor t + 1\<rparr>, Some (cursor t + 1)) else (t, None))"
  by (auto simp: BtreeTableSeq_def Let_def)

lemma get_cell_cursor: "get_cell (t\<lparr>cursor := i\<rparr>) j = get_cell t j"
  by (simp add: get_cell_def)

lemma btree_walk:
  assumes "btree_inv t" "i \<le> filled t" "n = filled t - i"
  shows "\<exists>t'. destroy_loop (Suc n + m) (\<lambda>t p. Inr (BtreeTableSeq t p)) (t\<lparr>cursor := i - 1\<rparr>)
      (if i = 0 then 0 else 1) = Inr t' \<and>
    trace t' = trace t @ concat (map (dropped (hook t)) (drop i (entries t)))"
  using assms
proof (induction n arbitrary: t i)
  case 0
  then have "drop i (entries t) = []" by (simp add: length_entries)
  with 0 show ?case by (simp add: btree_seq_steps)
next
  case (Suc n)
  then have i: "i < filled t" by simp
  obtain d where d: "get_cell t i = Inr d" "entry d = entries t ! i"
    using get_cell_entries [OF Suc.prems(1) i] .
  have seq: "BtreeTableSeq (t\<lparr>cursor := i - 1\<rparr>) (if i = 0 then 0 else 1) = (t\<lparr>cursor := i\<rparr>, Some i)"
    using i by (simp add: btree_seq_steps)
  define u where "u = remove_entry t (entries t ! i)"
  have u: "btree_inv u" "filled u = filled t" "entries u = entries t" "hook u = hook t"
    "trace u = trace t @ dropped (hook t) (entries t ! i)"
    using Suc.prems(1) by (simp_all add: u_def btree_inv_def entries_def remove_entry_dropped)
  have cell: "get_cell (t\<lparr>cursor := i\<rparr>) i = Inr d" using d(1) by (simp only: get_cell_cursor)
  have "n = filled u - Suc i" "Suc i \<le> filled u" using Suc.prems u i by simp_all
  from Suc.IH [OF u(1) this(2,1)] obtain t' where
    t': "destroy_loop (Suc n + m) (\<lambda>t p. Inr (BtreeTableSeq t p)) (u\<lparr>cursor := i\<rparr>) 1 = Inr t'"
      "trace t' = trace t @ dropped (hook t) (entries t ! i) @
        concat (map (dropped (hook t)) (drop (Suc i) (entries t)))"
    using u by auto
  have "remove_entry (t\<lparr>cursor := i\<rparr>) (entry d) = u\<lparr>cursor := i\<rparr>"
    by (simp add: u_def remove_entry_def d)
  then have "destroy_loop (Suc (Suc n + m)) (\<lambda>t p. Inr (BtreeTableSeq t p)) (t\<lparr>cursor := i - 1\<rparr>)
      (if i = 0 then 0 else 1) = Inr t'"
    using seq cell t'(1) by (subst destroy_loop.simps(2)) (simp only: sbind_simps prod.case option.case)
  moreover have "drop i (entries t) = entries t ! i # drop (Suc i) (entries t)"
    using i Suc.prems by (simp add: Cons_nth_drop_Suc length_entries)
  ultimately show ?case using t'(2) by (intro exI [of _ t']) simp_all
qed

section \<open>Properties\<close>

lemma btree_create_inv: "btree_inv (BtreeTableCreate nel h)"
  by (simp add: btree_inv_def BtreeTableCreate_def entries_def Let_def)

lemma entries_create: "entries (BtreeTableCreate nel h) = []"
  by (simp add: BtreeTableCreate_def entries_def Let_def)

lemma btree_index:
  assumes "btree_inv t" "k \<in> ekey ` set (entries t)"
  obtains i where "i < filled t" "ekey (entries t ! i) = k"
  using assms length_entries [OF assms(1)] by (auto simp: in_set_conv_nth)

text \<open>C18: A search of the sorted table by bisection is a linear search of its entries: it
  returns the one entry with the key, sets the cursor to it, and returns NULL, leaving the
  table alone, exactly when no entry has the key.\<close>

theorem btree_search_exact:
  assumes "btree_inv t" "wf_entry (btree_item item)"
  shows "BtreeTableSearch t item =
    (case find (\<lambda>i. ekey (entries t ! i) = ekey (btree_item item)) [0..<filled t] of
       Some i \<Rightarrow> Inr (t\<lparr>cursor := i\<rparr>, Some i)
     | None \<Rightarrow> Inr (t, None))"
proof (cases "find (\<lambda>i. ekey (entries t ! i) = ekey (btree_item item)) [0..<filled t]")
  case None
  then have "ekey (btree_item item) \<notin> ekey ` set (entries t)"
    by (auto simp: find_None_iff elim!: btree_index [OF assms(1)])
  then show ?thesis using None BtreeTableSearch_absent [OF assms] by simp
next
  case (Some i)
  then have "i < filled t" "ekey (entries t ! i) = ekey (btree_item item)"
    by (auto simp: find_Some_iff)
  then show ?thesis using Some BtreeTableSearch_present [OF assms] by simp
qed

definition key_entry :: "string \<Rightarrow> nat \<Rightarrow> nat search_entry" where
  "key_entry k n = \<lparr>key = k, key_len = -1, edata = Obj n, data_len = 0, flag = 1\<rparr>"

definition table2 :: "nat search_table" where
  "table2 = btree_insert (key_entry ''a'' 1) (btree_insert (key_entry ''b'' 2) (BtreeTableCreate 0 False))"

lemma accepts_key_entry: "NUL \<notin> set k \<Longrightarrow> btree_accepts (key_entry k n)"
  by (simp add: btree_accepts_def key_entry_def btree_item_def wf_entry_def bad_flag_def has_flag_def
      search_flags)

lemma inv_table2: "btree_inv table2"
  unfolding table2_def
  by (intro btree.invar_insert accepts_key_entry btree_create_inv) simp_all

theorem btree_search_exact_witness:
  "BtreeTableSearch table2 (key_entry ''b'' 0) = Inr (table2\<lparr>cursor := 1\<rparr>, Some 1)"
proof -
  have "wf_entry (btree_item (key_entry ''b'' 0))" by code_simp
  moreover have "find (\<lambda>i. ekey (entries table2 ! i) = ekey (btree_item (key_entry ''b'' 0)))
      [0..<filled table2] = Some 1" by code_simp
  ultimately show ?thesis using btree_search_exact [OF inv_table2, of "key_entry ''b'' 0"] by simp
qed

text \<open>C19: Adding to the sorted table returns the cell of the entry with the key.  The entry
  is inserted at its place in the order, with the copies its flags ask for, if its key is new;
  an entry that is already there stays as it is.  The invariant (strictly increasing keys,
  a free cell at the end) is kept.\<close>

theorem btree_add_exact:
  assumes "btree_inv t" "btree_accepts e"
  shows "\<exists>t' p. BtreeTableAdd t e = Inr (t', Some p) \<and> btree_inv t' \<and> p < filled t' \<and>
    ekey (entries t' ! p) = ekey (btree_item e) \<and>
    entries t' =
      (if ekey (btree_item e) \<in> ekey ` set (entries t) then entries t
       else inserted p (btree_stored e) (entries t))"
proof (cases "ekey (btree_item e) \<in> ekey ` set (entries t)")
  case True
  then obtain i where "i < filled t" "ekey (entries t ! i) = ekey (btree_item e)"
    by (rule btree_index [OF assms(1)])
  then show ?thesis
    using BtreeTableAdd_present [OF assms(1)] assms True by (auto simp: btree_accepts_def)
next
  case False
  have w: "wf_entry (btree_item e)" and f: "\<not> bad_flag (flag e)"
    using assms(2) by (simp_all add: btree_accepts_def)
  show ?thesis
  proof (rule BtreeTableAdd_absent [OF assms(1) w f btree_accepts_stored [OF assms(2)] False])
    fix t' p
    assume a: "BtreeTableAdd t e = Inr (t', Some p)" "p \<le> filled t" "btree_inv t'"
      "entries t' = inserted p (btree_stored e) (entries t)" "filled t' = filled t + 1"
    then have "entries t' ! p = btree_stored e"
      using length_entries [OF assms(1)] by (simp add: inserted_def nth_append)
    with a False assms(2) show ?thesis by (auto simp: ekey_btree_stored)
  qed
qed

theorem btree_add_exact_witness:
  "\<exists>t' p. BtreeTableAdd table2 (key_entry ''aa'' 3) = Inr (t', Some p) \<and> btree_inv t' \<and>
    map ekey (entries t') = [''a'', ''aa'', ''b'']"
proof -
  have "ekey (btree_item (key_entry ''aa'' 3)) \<notin> ekey ` set (entries table2)"
    "map ekey (entries table2) = [''a'', ''b'']" "ekey (btree_item (key_entry ''aa'' 3)) = ''aa''"
    by code_simp+
  moreover obtain t' p where t': "BtreeTableAdd table2 (key_entry ''aa'' 3) = Inr (t', Some p)" "btree_inv t'"
      "ekey (entries t' ! p) = ekey (btree_item (key_entry ''aa'' 3))"
      "entries t' = (if ekey (btree_item (key_entry ''aa'' 3)) \<in> ekey ` set (entries table2)
         then entries table2 else inserted p (btree_stored (key_entry ''aa'' 3)) (entries table2))"
    using btree_add_exact [OF inv_table2 accepts_key_entry [of "''aa''" 3]] by auto
  ultimately have m: "map ekey (entries t') = inserted p ''aa'' [''a'', ''b'']"
    by (simp add: map_inserted ekey_btree_stored accepts_key_entry)
  have "sorted_wrt (<) (map kord (map ekey (entries t')))"
    using t'(2) by (simp add: btree_inv_def comp_def)
  moreover have "p = 0 \<or> p = 1 \<or> 2 \<le> p" by arith
  ultimately have "p = 1" unfolding m by (auto simp: inserted_def kord_def take_Cons' drop_Cons')
  with m t' show ?thesis by (auto simp: inserted_def)
qed

text \<open>The table built by any sequence of additions is a map from keys to entries in which
  the first entry added under a key wins.\<close>

theorem btree_first_wins:
  fixes es :: "'d search_entry list"
  assumes "\<forall>e \<in> set es. btree_accepts e"
  shows "btree_lookup (btree.insert_all es (BtreeTableCreate nel h)) k =
    map_option btree_stored (find (\<lambda>e. ekey (btree_item e) = k) es)"
proof -
  have "btree_lookup (BtreeTableCreate nel h :: 'd search_table) k = None"
    by (simp add: btree_lookup_None btree_create_inv entries_create)
  then show ?thesis
    using btree.lookup_insert_all [OF btree_create_inv assms] by (simp add: comp_def)
qed

theorem btree_first_wins_witness:
  "btree_lookup (btree.insert_all [key_entry ''b'' 1, key_entry ''a'' 2, key_entry ''b'' 3]
     (BtreeTableCreate 1 False)) ''b'' = Some (btree_stored (key_entry ''b'' 1))"
  using btree_first_wins [of "[key_entry ''b'' 1, key_entry ''a'' 2, key_entry ''b'' 3]" 1 False "''b''"]
  by (simp add: accepts_key_entry) (simp add: key_entry_def btree_item_def ekey_def)

text \<open>Deleting a key and adding an entry under it replaces the entry and leaves every
  other lookup alone, provided the array has a spare cell when the key is deleted.\<close>

theorem btree_replace:
  assumes "btree_inv t" "btree_room t" "btree_accepts e"
  shows "btree_lookup (btree_insert e (btree_remove (ekey (btree_item e)) t)) j =
    (if j = ekey (btree_item e) then Some (btree_stored e) else btree_lookup t j)"
  using btree.lookup_replace [OF assms] by simp

theorem btree_replace_witness:
  "btree_lookup (btree_insert (key_entry ''b'' 9) (btree_remove ''b'' table2)) ''b'' =
     Some (btree_stored (key_entry ''b'' 9))"
proof -
  have "btree_room table2" by code_simp
  moreover have "ekey (btree_item (key_entry ''b'' 9)) = ''b''" by code_simp
  ultimately show ?thesis
    using btree_replace [OF inv_table2, of "key_entry ''b'' 9" "''b''"] by (simp add: accepts_key_entry)
qed

text \<open>C20: Deleting an entry of the sorted table removes exactly that entry, calls the hook
  and releases the copies it owns, and keeps the invariant, as long as the array has a cell
  to spare.  Without one, that is when the table is as full as additions make it, the
  \<open>memmove\<close> of \<open>filled - idx + 1\<close> cells reads past the end of the array.\<close>

theorem btree_delete_exact:
  assumes "btree_inv t" "wf_entry (btree_item item)" "i < filled t"
    "ekey (entries t ! i) = ekey (btree_item item)"
  shows "if filled t + 1 < hsize t
    then \<exists>t'. BtreeTableDelete t item = Inr (t', Some i) \<and> btree_inv t' \<and>
      entries t' = take i (entries t) @ drop (Suc i) (entries t) \<and>
      trace t' = trace t @ dropped (hook t) (entries t ! i)
    else BtreeTableDelete t item = Inl OutOfBounds"
proof (cases "btree_room t")
  case True
  from btree_delete_room [OF assms(1,3) True] obtain t' where "btree_delete t i True = Inr (t', Some i)"
    "btree_inv t'" "entries t' = deleted i (entries t)" "trace t' = trace (remove_entry t (entries t ! i))"
    by blast
  with True btree_delete_found [OF assms] show ?thesis
    by (simp add: btree_room_def deleted_def remove_entry_dropped)
next
  case False
  with btree_delete_no_room [OF assms(1,3)] btree_delete_found [OF assms] show ?thesis
    by (simp add: btree_room_def)
qed

text \<open>The table that \<open>BtreeTableCreate\<close> makes for two entries has no cell to spare after one.\<close>

theorem btree_delete_exact_witness:
  "BtreeTableDelete (btree_insert (key_entry ''a'' 1) (BtreeTableCreate 2 False)) (key_entry ''a'' 0) =
     Inl OutOfBounds"
proof -
  let ?t = "btree_insert (key_entry ''a'' 1) (BtreeTableCreate 2 False)"
  have "btree_inv ?t" by (intro btree.invar_insert accepts_key_entry btree_create_inv) simp
  moreover have "wf_entry (btree_item (key_entry ''a'' 0))" "0 < filled ?t" "\<not> filled ?t + 1 < hsize ?t"
    "ekey (entries ?t ! 0) = ekey (btree_item (key_entry ''a'' 0))" by code_simp+
  ultimately show ?thesis using btree_delete_exact [of ?t "key_entry ''a'' 0" 0] by simp
qed

text \<open>Destroying the sorted table ends, reads no cell out of bounds and drops every entry
  once, in the order of the keys.\<close>

theorem btree_destroy_drops:
  assumes "btree_inv t"
  shows "\<exists>t'. TableDestroy (\<lambda>t p. Inr (BtreeTableSeq t p)) t = Inr t' \<and>
    trace t' = trace t @ concat (map (dropped (hook t)) (entries t))"
proof (cases "filled t = 0")
  case True
  then show ?thesis
    using assms by (simp add: TableDestroy_def btree_seq_steps entries_def)
next
  case False
  have "Suc (filled t) + (hsize t - filled t) = length (data t) + 1"
    using assms by (simp add: btree_inv_def)
  moreover have "destroy_loop n (\<lambda>t p. Inr (BtreeTableSeq t p)) (t\<lparr>cursor := c\<rparr>) 0 =
      destroy_loop n (\<lambda>t p. Inr (BtreeTableSeq t p)) t 0" for n c
    using False by (cases n) (simp_all add: btree_seq_steps)
  ultimately show ?thesis
    using btree_walk [OF assms, of 0 "filled t" "hsize t - filled t"] by (auto simp: TableDestroy_def)
qed

theorem btree_destroy_drops_witness:
  "\<exists>t'. TableDestroy (\<lambda>t p. Inr (BtreeTableSeq t p)) table2 = Inr t' \<and>
    trace t' = [FreeKey ''a'', FreeKey ''b'']"
proof -
  have "trace table2 = []" "concat (map (dropped (hook table2)) (entries table2)) =
    [FreeKey ''a'', FreeKey ''b'']" by code_simp+
  with btree_destroy_drops [OF inv_table2] show ?thesis by simp
qed

text \<open>The array after an addition that is refused for its flags.\<close>

lemma shifted_prefix:
  assumes "p < n" "n + 1 < length xs"
  shows "take n (take (p + 1) xs @ take (n - p + 1) (drop p xs) @ ys) =
    take n (inserted p (xs ! p) xs)"
proof -
  obtain m where "n = Suc (p + m)" using assms(1) less_iff_Suc_add by auto
  then show ?thesis using assms(2) by (simp add: inserted_def take_Suc_snoc min_def) arith
qed

lemma take_inserted_take:
  "p < n \<Longrightarrow> n \<le> length xs \<Longrightarrow> take n (inserted p x (take n xs)) = take n (inserted p x xs)"
proof -
  assume "p < n" "n \<le> length xs"
  moreover from this obtain m where "n = Suc (p + m)" using less_iff_Suc_add by auto
  ultimately show ?thesis by (simp add: inserted_def drop_take min_def)
qed

text \<open>An addition with a flag the table does not know is refused only after the array has
  been shifted.  Nothing is returned, but if a greater key was there, the entry at the place of
  insertion is now there twice and the greatest entry is lost (for a single greater key the two
  are the same, and the table is unchanged).\<close>

theorem btree_add_bad_flag:
  assumes "btree_inv t" "wf_entry (btree_item item)" "bad_flag (flag item)"
    "ekey (btree_item item) \<notin> ekey ` set (entries t)"
  shows "\<exists>t' p. BtreeTableAdd t item = Inr (t', None) \<and> p \<le> filled t \<and> filled t' = filled t \<and>
    (\<forall>i < p. kord (ekey (entries t ! i)) < kord (ekey (btree_item item))) \<and>
    (\<forall>i. p \<le> i \<longrightarrow> i < filled t \<longrightarrow> kord (ekey (btree_item item)) < kord (ekey (entries t ! i))) \<and>
    entries t' = (if p < filled t then take (filled t) (inserted p (entries t ! p) (entries t))
                  else entries t)"
proof -
  let ?k = "ekey (btree_item item)"
  obtain idx c f where
    b: "btree_bisect t (key (btree_item item)) (key_len (btree_item item)) 0 (filled t) 0 (-1) =
        Inr (idx, c, f)" and l: "located t ?k (idx, c, f)"
    using btree_search_located [OF assms(1,2)] .
  have nf: "\<not> f" using located_found [OF assms(1) l] assms(4) by simp
  define p where "p = insert_pos idx c"
  have p: "p \<le> filled t" "\<forall>i < p. kord (ekey (entries t ! i)) < kord ?k"
    "\<forall>i. p \<le> i \<longrightarrow> i < filled t \<longrightarrow> kord ?k < kord (ekey (entries t ! i))"
    using l nf by (simp_all add: located_def p_def)
  define g where "g = btree_grow t"
  have g: "filled g = filled t" "filled t + 1 < length (data g)" "entries g = entries t"
    using assms(1) by (simp_all add: g_def btree_inv_def length_btree_grow btree_grow_room entries_grow)
  define d where "d = take (p + 1) (data g) @ take (filled t - p + 1) (drop p (data g)) @
      drop (filled t + 2) (data g)"
  have mm: "memmove (data g) (p + 1) p (filled t - p + 1) = Inr d"
    unfolding d_def using p g by (intro memmove_up) simp_all
  define t' where "t' = g\<lparr>cursor := p, data := d\<rparr>"
  have flag: "flag (btree_item item) = flag item" by (simp add: btree_item_def)
  have add: "BtreeTableAdd t item = Inr (t', None)"
    using mm g nf assms(3) flag
    by (simp add: BtreeTableAdd_def BtreeTableSearchFunc_def b btree_add_def Let_def
        g_def [symmetric] p_def [unfolded insert_pos_def, symmetric] t'_def)
  have es: "entries t' = (if p < filled t then take (filled t) (inserted p (entries t ! p) (entries t))
                  else entries t)"
  proof (cases "p < filled t")
    case True
    have n: "entry (the (data g ! p)) = entries t ! p"
      using True g(1,2) unfolding g(3) [symmetric] unfolding entries_def by simp
    have m: "entries t = take (filled t) (map (\<lambda>c. entry (the c)) (data g))"
      unfolding g(3) [symmetric] unfolding entries_def by (simp add: take_map g)
    have "entries t' = map (\<lambda>c. entry (the c)) (take (filled t) (inserted p (data g ! p) (data g)))"
      unfolding entries_def t'_def using shifted_prefix [OF True g(2)] g(1) by (simp add: d_def)
    also have "\<dots> = take (filled t) (inserted p (entries t ! p) (map (\<lambda>c. entry (the c)) (data g)))"
      by (simp add: take_map [symmetric] map_inserted n)
    finally show ?thesis using True g(2) m by (simp add: take_inserted_take [OF True])
  next
    case False
    with p(1) have "p = filled t" by simp
    with g(1,2) False show ?thesis
      unfolding g(3) [symmetric] unfolding entries_def t'_def by (simp add: d_def)
  qed
  show ?thesis using add p es g(1) by (intro exI [of _ t'] exI [of _ p]) (simp add: t'_def)
qed

text \<open>Adding \<open>a\<close> with flag 8 to the keys \<open>b\<close>, \<open>c\<close> leaves \<open>b\<close>, \<open>b\<close>.\<close>

definition table_bc :: "nat search_table" where
  "table_bc = btree_insert (key_entry ''c'' 1) (btree_insert (key_entry ''b'' 2) (BtreeTableCreate 5 False))"

theorem btree_add_bad_flag_witness:
  "\<exists>t'. BtreeTableAdd table_bc (key_entry ''a'' 3\<lparr>flag := 8\<rparr>) = Inr (t', None) \<and>
    map ekey (entries t') = [''b'', ''b'']"
proof -
  let ?e = "key_entry ''a'' 3\<lparr>flag := 8\<rparr>"
  have inv: "btree_inv table_bc" unfolding table_bc_def
    by (intro btree.invar_insert accepts_key_entry btree_create_inv) simp_all
  have h: "wf_entry (btree_item ?e)" "bad_flag (flag ?e)" "filled table_bc = 2"
    "ekey (btree_item ?e) \<notin> ekey ` set (entries table_bc)"
    "map ekey (entries table_bc) = [''b'', ''c'']" "ekey (btree_item ?e) = ''a''" by code_simp+
  from btree_add_bad_flag [OF inv h(1,2,4)] obtain t' p where
    t': "BtreeTableAdd table_bc ?e = Inr (t', None)" "p \<le> 2"
      "\<forall>i < p. kord (ekey (entries table_bc ! i)) < kord ''a''"
      "entries t' = (if p < 2 then take 2 (inserted p (entries table_bc ! p) (entries table_bc))
        else entries table_bc)"
    unfolding h(3,6) by blast
  have e: "ekey (entries table_bc ! 0) = ''b''" "length (entries table_bc) = 2" by code_simp+
  have "p = 0"
  proof (rule ccontr)
    assume "p \<noteq> 0"
    with t'(3) have "kord (ekey (entries table_bc ! 0)) < kord ''a''" by blast
    then have "schar CHR ''b'' < schar CHR ''a''" by (simp add: e kord_def)
    moreover have "\<not> schar CHR ''b'' < schar CHR ''a''" by code_simp
    ultimately show False by contradiction
  qed
  with t'(4) have "map ekey (entries t') = take 2 (inserted 0 (ekey (entries table_bc ! 0)) [''b'', ''c''])"
    by (simp add: take_map [symmetric] map_inserted h(5))
  then show ?thesis using t'(1) by (auto simp: e inserted_def)
qed

end
