(* ===== verification/Hashtbl.thy ===== *)
theory Hashtbl
  imports SrchTbl
begin

text \<open>
  The hash table of \<open>srchtbl.c\<close> (\<open>SEARCH_HASH_TABLE\<close>): open addressing with double hashing.
  Cell 0 is never used; \<open>used\<close> holds the first hash value of the entry and 0 in a free cell.
  Hash values are 32 bit words and the index computations wrap like \<open>unsigned int\<close>; table
  sizes stay below \<open>2 ^ 28\<close>, so that the size computations of \<open>HashTableCreate\<close> and
  \<open>isprime\<close> do not.
\<close>

section \<open>Creating a table\<close>

function prime_loop :: "nat \<Rightarrow> nat \<Rightarrow> nat" where
  "prime_loop number dv =
     (if dv * dv < number \<and> number mod dv \<noteq> 0 then prime_loop number (dv + 2) else dv)"
  by pat_completeness auto
termination
proof (relation "measure (\<lambda>(number, dv). number - dv)")
  fix number dv :: nat
  assume "dv * dv < number \<and> number mod dv \<noteq> 0"
  moreover have "dv \<le> dv * dv" by (cases dv) auto
  ultimately have "dv < number" by (meson le_less_trans)
  then show "((number, dv + 2), number, dv) \<in> measure (\<lambda>(number, dv). number - dv)" by simp
qed simp

declare prime_loop.simps [simp del]

definition isprime :: "nat \<Rightarrow> bool" where
  "isprime number = (number mod prime_loop number 3 \<noteq> 0)"

lemma prime_loop_spec:
  assumes "odd dv" "3 \<le> dv" "\<forall>d. odd d \<longrightarrow> 3 \<le> d \<longrightarrow> d < dv \<longrightarrow> \<not> d dvd n"
    "dv = 3 \<or> (dv - 2) * (dv - 2) < n"
  shows "odd (prime_loop n dv) \<and> 3 \<le> prime_loop n dv \<and>
    (\<forall>d. odd d \<longrightarrow> 3 \<le> d \<longrightarrow> d < prime_loop n dv \<longrightarrow> \<not> d dvd n) \<and>
    (n \<le> prime_loop n dv * prime_loop n dv \<or> prime_loop n dv dvd n) \<and>
    (prime_loop n dv = 3 \<or> (prime_loop n dv - 2) * (prime_loop n dv - 2) < n)"
  using assms
proof (induction n dv rule: prime_loop.induct)
  case (1 n dv)
  show ?case
  proof (cases "dv * dv < n \<and> n mod dv \<noteq> 0")
    case True
    have "\<not> d dvd n" if "odd d" "3 \<le> d" "d < dv + 2" for d
    proof (cases "d = dv")
      case False
      have "d \<noteq> dv + 1" using that(1) "1.prems"(1) by auto
      with False that "1.prems"(3) show ?thesis by simp
    qed (use True in auto)
    with 1 True show ?thesis by (subst (1 2 3 4 5 6 7 8 9) prime_loop.simps) simp
  next
    case False
    then have "prime_loop n dv = dv" by (subst prime_loop.simps) auto
    with False "1.prems" show ?thesis by auto
  qed
qed

definition no_divisor :: "nat \<Rightarrow> bool" where
  "no_divisor n \<longleftrightarrow> 1 < n \<and> (\<forall>d. d dvd n \<longrightarrow> d = 1 \<or> d = n)"

lemma isprime_no_divisor:
  assumes "odd n" "3 < n"
  shows "isprime n \<longleftrightarrow> no_divisor n"
proof -
  define r where "r = prime_loop n 3"
  have r: "odd r" "3 \<le> r" "\<forall>d. odd d \<longrightarrow> 3 \<le> d \<longrightarrow> d < r \<longrightarrow> \<not> d dvd n" "n \<le> r * r \<or> r dvd n"
    "r = 3 \<or> (r - 2) * (r - 2) < n"
    unfolding r_def using prime_loop_spec [of 3 n] by auto
  show ?thesis
  proof
    assume "isprime n"
    then have nr: "\<not> r dvd n" by (simp add: isprime_def r_def dvd_eq_mod_eq_0)
    have "d = 1 \<or> d = n" if d: "d dvd n" for d
    proof (rule ccontr)
      assume "\<not> (d = 1 \<or> d = n)"
      obtain e where e: "n = d * e" using d by blast
      have ne: "d \<noteq> 1" "e \<noteq> 1" using e \<open>\<not> (d = 1 \<or> d = n)\<close> by auto
      have o: "odd d" "odd e" using e assms(1) by auto
      then have g: "3 \<le> d" "3 \<le> e" using ne by presburger+
      have "\<not> d < r" "\<not> e < r" using r(3) o g e by auto
      moreover have "d \<noteq> r" "e \<noteq> r" using nr e by auto
      ultimately have "r < d" "r < e" by simp_all
      then have "r * r < d * e" by (simp add: mult_strict_mono)
      with r(4) nr e show False by simp
    qed
    then show "no_divisor n" using assms(2) by (simp add: no_divisor_def)
  next
    assume "no_divisor n"
    have "\<not> r dvd n"
    proof
      assume "r dvd n"
      then have "r = n" using \<open>no_divisor n\<close> r(2) by (auto simp: no_divisor_def)
      have "n \<noteq> 4" using assms(1) by auto
      with assms(2) have "5 \<le> n" by simp
      then obtain m where "n = m + 5" using le_Suc_ex [of 5 n] by (auto simp: add.commute)
      with \<open>r = n\<close> r(5) show False by (simp add: algebra_simps)
    qed
    then show "isprime n" by (simp add: isprime_def r_def dvd_eq_mod_eq_0)
  qed
qed

lemma least_divisor:
  assumes "1 < (m::nat)"
  obtains p where "no_divisor p" "p dvd m"
proof -
  define p where "p = (LEAST d. 1 < d \<and> d dvd m)"
  have p: "1 < p" "p dvd m" and l: "\<And>d. 1 < d \<Longrightarrow> d dvd m \<Longrightarrow> p \<le> d"
    using LeastI [of "\<lambda>d. 1 < d \<and> d dvd m" m] assms
    by (auto simp: p_def intro: Least_le)
  have "d = 1 \<or> d = p" if "d dvd p" for d
  proof -
    have "d \<noteq> 0" "d \<le> p" using that p(1) by (auto intro!: Nat.gr0I dvd_imp_le)
    moreover have "1 < d \<Longrightarrow> p \<le> d" using l that p(2) dvd_trans by blast
    ultimately show ?thesis by linarith
  qed
  with p have "no_divisor p" by (auto simp: no_divisor_def)
  then show thesis using p(2) by (rule that)
qed

lemma prime_above: "\<exists>p > n. no_divisor p"
proof -
  obtain p where p: "no_divisor p" "p dvd fact n + 1"
    using least_divisor [of "fact n + 1"] fact_gt_zero [of n] by auto
  have "\<not> p \<le> n"
  proof
    assume "p \<le> n"
    with p(1) have "p dvd fact n" by (intro dvd_fact) (auto simp: no_divisor_def)
    with p(2) have "p dvd 1" by (metis dvd_add_right_iff)
    with p(1) show False by (simp add: no_divisor_def)
  qed
  with p(1) show ?thesis by (meson linorder_not_le)
qed

text \<open>The search \<open>while (!isprime (nel)) nel += 2\<close> from an odd number, which is given as
  \<open>2 * k + 1\<close>.  It ends because there is always a greater prime.\<close>

lemma odd_isprime_above: "\<exists>j \<ge> k. isprime (2 * j + 1)"
proof -
  obtain p where p: "2 * k + 4 < p" "no_divisor p" using prime_above by blast
  have "odd p"
  proof
    assume "even p"
    then have "2 dvd p" .
    then show False using p by (auto simp: no_divisor_def)
  qed
  then obtain j where "p = 2 * j + 1" by (auto elim: oddE)
  with p isprime_no_divisor [of p] show ?thesis by (intro exI [of _ j]) auto
qed

function next_prime :: "nat \<Rightarrow> nat" where
  "next_prime k = (if isprime (2 * k + 1) then 2 * k + 1 else next_prime (k + 1))"
  by pat_completeness auto
termination
proof (relation "measure (\<lambda>k. (LEAST j. k \<le> j \<and> isprime (2 * j + 1)) - k)")
  fix k
  assume n: "\<not> isprime (2 * k + 1)"
  define m where "m = (LEAST j. k \<le> j \<and> isprime (2 * j + 1))"
  have m: "k \<le> m" "isprime (2 * m + 1)"
    using LeastI_ex [of "\<lambda>j. k \<le> j \<and> isprime (2 * j + 1)"] odd_isprime_above [of k]
    by (auto simp: m_def)
  have "k \<noteq> m" using m(2) n by auto
  with m have "k + 1 \<le> m" by simp
  then have "(LEAST j. k + 1 \<le> j \<and> isprime (2 * j + 1)) \<le> m" using m(2) by (intro Least_le) simp
  with \<open>k + 1 \<le> m\<close> show "(k + 1, k) \<in> measure (\<lambda>k. (LEAST j. k \<le> j \<and> isprime (2 * j + 1)) - k)"
    by (simp flip: m_def add: diff_less_mono2 [unfolded not_less]) (simp add: m_def)
qed simp

declare next_prime.simps [simp del]

text \<open>\<open>nel |= 1\<close> is \<open>2 * (nel div 2) + 1\<close>.\<close>

definition HashTableCreate :: "nat \<Rightarrow> bool \<Rightarrow> 'd search_table" where
  "HashTableCreate nel delete_entry =
     (let nel = (nel * 10) div 9 + 1;
          nel = next_prime (nel div 2) in
      \<lparr>data = replicate (nel + 1) (Some zero_DATA), hsize = nel, filled = 0, cursor = 0,
       hook = delete_entry, trace = []\<rparr>)"

section \<open>Hashing\<close>

definition hash_item :: "'d search_entry \<Rightarrow> 'd search_entry" where
  "hash_item item =
     (if key_len item \<le> 0 then item\<lparr>key_len := int (length (key item))\<rparr> else item)"

fun hash_loop :: "string \<Rightarrow> nat \<Rightarrow> 32 word \<Rightarrow> 32 word" where
  "hash_loop k 0 hval = hval"
| "hash_loop k (Suc count) hval =
     hash_loop k count (push_bit 4 hval + word_of_int (schar (k ! count)))"

definition hash_key :: "string \<Rightarrow> nat \<Rightarrow> ub + 32 word" where
  "hash_key k count =
     (if count \<le> length k + 1 then Inr (hash_loop (k @ [NUL]) count (word_of_nat count))
      else Inl OutOfBounds)"

text \<open>The first hash function: the modulus, but not zero.\<close>

definition hash_first :: "nat \<Rightarrow> 32 word \<Rightarrow> nat" where
  "hash_first sz h = (let hval = nat (uint h mod int sz) in if hval = 0 then 1 else hval)"

text \<open>The second hash function and the step, in \<open>unsigned int\<close> arithmetic.\<close>

definition hash_second :: "nat \<Rightarrow> nat \<Rightarrow> nat" where
  "hash_second sz hval = 1 + hval mod (if 2 \<le> sz then sz - 2 else 2 ^ 32 + sz - 2)"

definition hash_step :: "nat \<Rightarrow> nat \<Rightarrow> nat \<Rightarrow> nat" where
  "hash_step sz hval2 idx =
     (if idx \<le> hval2 then
        (if hval2 \<le> sz + idx then sz + idx - hval2 else 2 ^ 32 + sz + idx - hval2)
      else idx - hval2)"

definition hash_matches :: "'d search_entry \<Rightarrow> nat \<Rightarrow> 'd DATA \<Rightarrow> bool" where
  "hash_matches item hval d \<longleftrightarrow>
     used d = hval \<and> key_len item = key_len (entry d) \<and>
     c_memcmp (take (nat (key_len item)) (key item)) (take (nat (key_len item)) (key (entry d))) = 0"

text \<open>The \<open>do ... while\<close> loop.  After as many rounds as there are cells it repeats itself.\<close>

fun hash_probe ::
    "nat \<Rightarrow> 'd search_table \<Rightarrow> 'd search_entry \<Rightarrow> nat \<Rightarrow> nat \<Rightarrow> nat \<Rightarrow> ub + nat \<times> bool" where
  "hash_probe 0 t item hval hval2 idx = Inl NoReturn"
| "hash_probe (Suc n) t item hval hval2 idx =
     (let idx = hash_step (hsize t) hval2 idx in
      sbind (get_cell t idx) (\<lambda>d.
      if hash_matches item hval d then Inr (idx, True)
      else if used d \<noteq> 0 then hash_probe n t item hval hval2 idx
      else Inr (idx, False)))"

definition hash_locate ::
    "'d search_table \<Rightarrow> 'd search_entry \<Rightarrow> nat \<Rightarrow> ub + nat \<times> bool" where
  "hash_locate t item hval =
     sbind (get_cell t hval) (\<lambda>d.
     if used d \<noteq> 0 then
       (if hash_matches item hval d then Inr (hval, True)
        else hash_probe (hsize t + 1) t item hval (hash_second (hsize t) hval) hval)
     else Inr (hval, False))"

section \<open>Operations\<close>

definition hash_hit ::
    "'d search_table \<Rightarrow> search_action \<Rightarrow> nat \<Rightarrow> ub + 'd search_table \<times> nat option" where
  "hash_hit t action idx =
     (if action = Delete then
        sbind (get_cell t idx) (\<lambda>d.
        let t = remove_entry t (entry d) in
        sbind (put_cell idx zero_DATA t) (\<lambda>t.
        Inr (t\<lparr>filled := filled t - 1\<rparr>, Some idx)))
      else Inr (t, Some idx))"

definition hash_put ::
    "'d search_table \<Rightarrow> 'd search_entry \<Rightarrow> bool \<Rightarrow> nat \<Rightarrow> nat \<Rightarrow> ub + 'd search_table \<times> nat option" where
  "hash_put t item dup_enabled hval idx =
     (if dup_enabled \<and> bad_flag (flag item) then Inr (t, None)
      else
        sbind (if dup_enabled then dup_data (dup_key item) else Inr item) (\<lambda>item.
        sbind (put_cell idx \<lparr>entry = item, used = hval\<rparr> t) (\<lambda>t.
        Inr (t\<lparr>filled := filled t + 1\<rparr>, Some idx))))"

definition hash_search ::
    "'d search_table \<Rightarrow> 'd search_entry \<Rightarrow> search_action \<Rightarrow> bool \<Rightarrow>
     ub + 'd search_table \<times> nat option" where
  "hash_search t item action dup_enabled =
     (let item = hash_item item in
      sbind (hash_key (key item) (nat (key_len item))) (\<lambda>h.
      let hval = hash_first (hsize t) h in
      sbind (hash_locate t item hval) (\<lambda>(idx, found).
      if found then hash_hit t action idx
      else if action = Add then hash_put t item dup_enabled hval idx
      else Inr (t, None))))"

text \<open>Growing moves the entries, in the order of the cells from 1 on, by recursive calls; the
  depth of the recursion is the first argument.\<close>

fun rehash ::
    "('d search_table \<Rightarrow> 'd search_entry \<Rightarrow> ub + 'd search_table) \<Rightarrow>
     'd DATA option list \<Rightarrow> 'd search_table \<Rightarrow> ub + 'd search_table" where
  "rehash add [] t = Inr t"
| "rehash add (c # cs) t =
     (case c of
        None \<Rightarrow> Inl Uninitialised
      | Some d \<Rightarrow>
          if used d \<noteq> 0 then sbind (add t (entry d)) (rehash add cs) else rehash add cs t)"

primrec HashTableSearchFunc_depth ::
    "nat \<Rightarrow> 'd search_table \<Rightarrow> 'd search_entry \<Rightarrow> search_action \<Rightarrow> bool \<Rightarrow>
     ub + 'd search_table \<times> nat option" where
  "HashTableSearchFunc_depth 0 t item action dup_enabled = Inl NoReturn"
| "HashTableSearchFunc_depth (Suc n) t item action dup_enabled =
     sbind
       (if action = Add \<and> filled t * 10 > hsize t * 9 then
          rehash (\<lambda>t e. map_sum id fst (HashTableSearchFunc_depth n t e Add False))
            (drop 1 (data t)) ((HashTableCreate (hsize t * 2) (hook t))\<lparr>trace := trace t\<rparr>)
        else Inr t) (\<lambda>t.
     hash_search t item action dup_enabled)"

definition HashTableSearchFunc where
  "HashTableSearchFunc = HashTableSearchFunc_depth 2"

definition HashTableAdd where
  "HashTableAdd t item = HashTableSearchFunc t item Add True"

definition HashTableDelete where
  "HashTableDelete t item = HashTableSearchFunc t item Delete False"

definition HashTableSearch where
  "HashTableSearch t item = HashTableSearchFunc t item Find False"

function seq_scan :: "'d search_table \<Rightarrow> nat \<Rightarrow> ub + nat" where
  "seq_scan t cou =
     sbind (get_cell t cou) (\<lambda>d.
     if used d = 0 \<and> cou < hsize t then seq_scan t (cou + 1) else Inr cou)"
  by pat_completeness auto
termination by (relation "measure (\<lambda>(t, cou). hsize t - cou)") auto

declare seq_scan.simps [simp del]

definition HashTableSeq :: "'d search_table \<Rightarrow> nat \<Rightarrow> ub + 'd search_table \<times> nat option" where
  "HashTableSeq t pos =
     (let cou = (if pos = 0 then 0 else cursor t + 1) in
      if cou \<ge> hsize t then Inr (t, None)
      else
        sbind (seq_scan t cou) (\<lambda>cou.
        if cou \<ge> hsize t then Inr (t, None) else Inr (t\<lparr>cursor := cou\<rparr>, Some cou)))"

end
