(* ===== verification/Hashtbl_Map.thy ===== *)
theory Hashtbl_Map
  imports Hashtbl
begin

text \<open>
  The hash table as a finite map: the probe sequence visits every cell because the size is
  prime, so a search finds the entry or a free cell; the invariant of a table that is only
  added to and the interpretation of the table contract.  Deletion breaks the invariant.
\<close>

section \<open>The probe sequence\<close>

primrec probe :: "nat \<Rightarrow> nat \<Rightarrow> nat \<Rightarrow> nat" where
  "probe sz hval 0 = hval"
| "probe sz hval (Suc j) = hash_step sz (hash_second sz hval) (probe sz hval j)"

lemma hash_second_range:
  assumes "3 \<le> sz"
  shows "0 < hash_second sz hval" "hash_second sz hval < sz"
proof -
  have "hval mod (sz - 2) < sz - 2" using assms by (intro mod_less_divisor) simp
  moreover have "hash_second sz hval = 1 + hval mod (sz - 2)" using assms by (simp add: hash_second_def)
  ultimately show "0 < hash_second sz hval" "hash_second sz hval < sz" using assms by linarith+
qed

lemma hash_step_range:
  assumes "0 < h2" "h2 < sz" "0 < idx" "idx \<le> sz"
  shows "0 < hash_step sz h2 idx" "hash_step sz h2 idx \<le> sz"
    "(hash_step sz h2 idx + h2) mod sz = idx mod sz"
  using assms by (auto simp: hash_step_def)

lemma probe_range:
  assumes "3 \<le> sz" "0 < hval" "hval \<le> sz"
  shows "0 < probe sz hval j \<and> probe sz hval j \<le> sz \<and>
    (probe sz hval j + j * hash_second sz hval) mod sz = hval mod sz"
proof (induction j)
  case (Suc j)
  note s = hash_second_range [OF assms(1), of hval]
  let ?p = "probe sz hval j" and ?h2 = "hash_second sz hval"
  have r: "0 < ?p" "?p \<le> sz" "(?p + j * ?h2) mod sz = hval mod sz" using Suc by simp_all
  note t = hash_step_range [OF s r(1,2)]
  have "(hash_step sz ?h2 ?p + ?h2 + j * ?h2) mod sz = (?p + j * ?h2) mod sz"
    using t(3) by (metis mod_add_left_eq)
  then show ?case using t r(3) by (simp add: add.assoc)
qed (use assms in simp)

lemma no_divisor_coprime:
  assumes "no_divisor p" "0 < h" "h < p"
  shows "coprime p h"
proof -
  have "gcd p h dvd p" "gcd p h dvd h" by simp_all
  then have "gcd p h = 1 \<or> gcd p h = p" "gcd p h \<le> h"
    using assms by (auto simp: no_divisor_def dvd_imp_le)
  with assms(3) show ?thesis by (auto simp: coprime_iff_gcd_eq_1)
qed

lemma probe_inj:
  assumes "no_divisor sz" "3 \<le> sz" "0 < hval" "hval \<le> sz" "i < j" "j < sz"
  shows "probe sz hval i \<noteq> probe sz hval j"
proof
  let ?h2 = "hash_second sz hval"
  assume e: "probe sz hval i = probe sz hval j"
  note s = hash_second_range [OF assms(2), of hval]
  have "(probe sz hval i + j * ?h2) mod sz = (probe sz hval i + i * ?h2) mod sz"
    using probe_range [OF assms(2-4), of i] probe_range [OF assms(2-4), of j] e by simp
  then have "sz dvd (probe sz hval i + j * ?h2) - (probe sz hval i + i * ?h2)"
    using assms(5) by (subst mod_eq_dvd_iff_nat [symmetric]) simp_all
  moreover have "(probe sz hval i + j * ?h2) - (probe sz hval i + i * ?h2) = (j - i) * ?h2"
    by (simp add: diff_mult_distrib)
  ultimately have "sz dvd j - i"
    using no_divisor_coprime [OF assms(1) s] by (simp add: coprime_dvd_mult_left_iff)
  then show False using assms(5,6) by (auto dest: dvd_imp_le)
qed

lemma probe_covers:
  assumes "no_divisor sz" "3 \<le> sz" "0 < hval" "hval \<le> sz" "0 < i" "i \<le> sz"
  obtains j where "j < sz" "probe sz hval j = i"
proof -
  have "inj_on (probe sz hval) {..<sz}"
  proof (rule inj_onI)
    fix i j
    assume "i \<in> {..<sz}" "j \<in> {..<sz}" "probe sz hval i = probe sz hval j"
    then show "i = j"
      using probe_inj [OF assms(1-4), of i j] probe_inj [OF assms(1-4), of j i]
      by (cases i j rule: linorder_cases) auto
  qed
  then have "card (probe sz hval ` {..<sz}) = card {1..sz}" by (simp add: card_image)
  moreover have "probe sz hval ` {..<sz} \<subseteq> {1..sz}"
    using probe_range [OF assms(2-4)] by (auto simp: Suc_le_eq)
  ultimately have "probe sz hval ` {..<sz} = {1..sz}" by (intro card_subset_eq) simp_all
  moreover have "i \<in> {1..sz}" using assms(5,6) by simp
  ultimately show thesis using that by (metis imageE lessThan_iff)
qed

section \<open>The invariant\<close>

definition hashof :: "string \<Rightarrow> 32 word" where
  "hashof k = hash_loop (k @ [NUL]) (length k) (word_of_nat (length k))"

definition hv :: "'d search_table \<Rightarrow> string \<Rightarrow> nat" where
  "hv t k = hash_first (hsize t) (hashof k)"

definition cell :: "'d search_table \<Rightarrow> nat \<Rightarrow> 'd DATA" where
  "cell t i = the (data t ! i)"

definition occupied :: "'d search_table \<Rightarrow> nat set" where
  "occupied t = {i. 0 < i \<and> i \<le> hsize t \<and> used (cell t i) \<noteq> 0}"

definition hash_inv :: "'d search_table \<Rightarrow> bool" where
  "hash_inv t \<longleftrightarrow> no_divisor (hsize t) \<and> 11 \<le> hsize t \<and> length (data t) = hsize t + 1 \<and>
     (\<forall>i \<le> hsize t. data t ! i \<noteq> None) \<and>
     filled t = card (occupied t) \<and> filled t < hsize t \<and>
     (\<forall>i \<in> occupied t. wf_entry (entry (cell t i)) \<and>
        used (cell t i) = hv t (ekey (entry (cell t i))) \<and>
        (\<exists>j < hsize t. probe (hsize t) (used (cell t i)) j = i \<and>
           (\<forall>l < j. probe (hsize t) (used (cell t i)) l \<in> occupied t))) \<and>
     (\<forall>i \<in> occupied t. \<forall>j \<in> occupied t.
        ekey (entry (cell t i)) = ekey (entry (cell t j)) \<longrightarrow> i = j)"

lemma hash_loop_cong: "(\<And>i. i < count \<Longrightarrow> k ! i = k' ! i) \<Longrightarrow> hash_loop k count h = hash_loop k' count h"
  by (induction count arbitrary: h) auto

lemma hash_key_wf:
  assumes "wf_entry e"
  shows "hash_key (key e) (nat (key_len e)) = Inr (hashof (ekey e))"
proof -
  have n: "nat (key_len e) \<le> length (key e)" "length (ekey e) = nat (key_len e)"
    using assms length_ekey [OF assms] by (auto simp: wf_entry_def nat_le_iff)
  have "hash_loop (key e @ [NUL]) (nat (key_len e)) h = hash_loop (ekey e @ [NUL]) (nat (key_len e)) h" for h
    using n by (intro hash_loop_cong) (simp add: nth_append ekey_def)
  with n show ?thesis by (simp add: hash_key_def hashof_def)
qed

lemma hash_first_range: "3 \<le> sz \<Longrightarrow> 0 < hash_first sz h \<and> hash_first sz h < sz"
proof -
  assume "3 \<le> sz"
  moreover have "uint h mod int sz < int sz" "0 \<le> uint h mod int sz"
    using \<open>3 \<le> sz\<close> by simp_all
  ultimately show ?thesis by (simp add: hash_first_def Let_def nat_less_iff)
qed

lemma hash_matches_wf:
  assumes "wf_entry item" "wf_entry (entry d)"
  shows "hash_matches item h d \<longleftrightarrow> used d = h \<and> ekey item = ekey (entry d)"
proof -
  have l: "int (length (ekey item)) = key_len item" "int (length (ekey (entry d))) = key_len (entry d)"
    using assms by (simp_all add: length_ekey)
  show ?thesis
  proof (cases "key_len item = key_len (entry d)")
    case True
    then have "take (nat (key_len item)) (key (entry d)) = ekey (entry d)" by (simp add: ekey_def)
    moreover have "length (ekey item) = length (ekey (entry d))" using l True by simp
    moreover have "take (nat (key_len item)) (key item) = ekey item" by (simp add: ekey_def)
    ultimately show ?thesis using True unfolding hash_matches_def by (metis c_memcmp_zero_iff)
  next
    case False
    then have "ekey item \<noteq> ekey (entry d)" using l by auto
    with False show ?thesis by (simp add: hash_matches_def)
  qed
qed

lemma get_cell_hash:
  "hash_inv t \<Longrightarrow> i \<le> hsize t \<Longrightarrow> get_cell t i = Inr (cell t i)"
  by (auto simp: hash_inv_def get_cell_def cell_def split: option.split)

lemma hv_range: "hash_inv t \<Longrightarrow> 0 < hv t k \<and> hv t k \<le> hsize t"
  using hash_first_range [of "hsize t" "hashof k"] by (auto simp: hash_inv_def hv_def)

section \<open>Locating\<close>

text \<open>The search follows the probe sequence up to the first cell that is free or matches.\<close>

definition stops :: "'d search_table \<Rightarrow> 'd search_entry \<Rightarrow> nat \<Rightarrow> nat \<Rightarrow> bool" where
  "stops t item hval i \<longleftrightarrow> used (cell t i) = 0 \<or> hash_matches item hval (cell t i)"

lemma hash_probe_run:
  assumes "\<And>i. 0 < i \<Longrightarrow> i \<le> hsize t \<Longrightarrow> get_cell t i = Inr (cell t i)" "3 \<le> hsize t"
    "0 < hval" "hval \<le> hsize t" "j - i < n" "i < j"
    "stops t item hval (probe (hsize t) hval j)" "\<And>l. i < l \<Longrightarrow> l < j \<Longrightarrow> \<not> stops t item hval (probe (hsize t) hval l)"
  shows "hash_probe n t item hval (hash_second (hsize t) hval) (probe (hsize t) hval i) =
    Inr (probe (hsize t) hval j, hash_matches item hval (cell t (probe (hsize t) hval j)))"
  using assms(5-8)
proof (induction n arbitrary: i)
  case (Suc n)
  let ?p = "probe (hsize t) hval (Suc i)"
  have g: "get_cell t ?p = Inr (cell t ?p)"
    using probe_range [OF assms(2-4), of "Suc i"] by (intro assms(1)) simp_all
  show ?case
  proof (cases "j = Suc i")
    case True
    then show ?thesis using g Suc.prems(3) by (auto simp: stops_def Let_def)
  next
    case False
    then have "\<not> stops t item hval ?p" by (intro Suc.prems(4)) (use Suc.prems(2) in simp_all)
    moreover have "hash_probe n t item hval (hash_second (hsize t) hval) ?p =
        Inr (probe (hsize t) hval j, hash_matches item hval (cell t (probe (hsize t) hval j)))"
      using False Suc.prems by (intro Suc.IH) simp_all
    ultimately show ?thesis using g by (simp add: stops_def Let_def)
  qed
qed simp

lemma hash_locate_run:
  assumes "hash_inv t" "hval = hv t k" "j < hsize t" "stops t item hval (probe (hsize t) hval j)"
    "\<And>l. l < j \<Longrightarrow> \<not> stops t item hval (probe (hsize t) hval l)"
    "\<And>d. used d = 0 \<Longrightarrow> \<not> hash_matches item hval d"
  shows "hash_locate t item hval =
    Inr (probe (hsize t) hval j, hash_matches item hval (cell t (probe (hsize t) hval j)))"
proof -
  have r: "0 < hval" "hval \<le> hsize t" "3 \<le> hsize t"
    using hv_range [OF assms(1), of k] assms(1,2) by (simp_all add: hash_inv_def)
  have g: "\<And>i. 0 < i \<Longrightarrow> i \<le> hsize t \<Longrightarrow> get_cell t i = Inr (cell t i)"
    using get_cell_hash [OF assms(1)] by simp
  show ?thesis
  proof (cases j)
    case 0
    then show ?thesis using g [OF r(1,2)] assms(4,6) by (auto simp: hash_locate_def stops_def)
  next
    case (Suc m)
    then have ns: "\<not> stops t item hval (probe (hsize t) hval 0)" by (intro assms(5)) simp
    then have "used (cell t hval) \<noteq> 0" "\<not> hash_matches item hval (cell t hval)" by (simp_all add: stops_def)
    moreover have "hash_probe (hsize t + 1) t item hval (hash_second (hsize t) hval) (probe (hsize t) hval 0) =
        Inr (probe (hsize t) hval j, hash_matches item hval (cell t (probe (hsize t) hval j)))"
      using Suc assms r by (intro hash_probe_run g) simp_all
    ultimately show ?thesis using g [OF r(1,2)] by (simp add: hash_locate_def)
  qed
qed

lemma not_matches_free:
  assumes "hash_inv t" "hval = hv t k" "used d = 0"
  shows "\<not> hash_matches item hval d"
  using hv_range [OF assms(1), of k] assms(2,3) by (simp add: hash_matches_def)

lemma occupied_wf:
  assumes "hash_inv t" "i \<in> occupied t"
  shows "wf_entry (entry (cell t i))" "used (cell t i) = hv t (ekey (entry (cell t i)))"
  using assms by (auto simp: hash_inv_def)

lemma stops_key:
  assumes "hash_inv t" "wf_entry item" "0 < i" "i \<le> hsize t"
  shows "stops t item (hv t (ekey item)) i \<longleftrightarrow>
    i \<notin> occupied t \<or> ekey (entry (cell t i)) = ekey item"
proof (cases "i \<in> occupied t")
  case True
  note o = occupied_wf [OF assms(1) True]
  have u: "used (cell t i) \<noteq> 0" using True by (simp add: occupied_def)
  show ?thesis
  proof (cases "ekey (entry (cell t i)) = ekey item")
    case e: True
    then show ?thesis using hash_matches_wf [OF assms(2) o(1)] o(2) by (simp add: stops_def)
  next
    case False
    then show ?thesis
      using u True hash_matches_wf [OF assms(2) o(1), of "hv t (ekey item)"]
      by (metis stops_def)
  qed
next
  case False
  then show ?thesis using assms(3,4) by (simp add: stops_def occupied_def)
qed

text \<open>The two outcomes of a search.\<close>

lemma hash_locate_present:
  assumes "hash_inv t" "wf_entry item" "i \<in> occupied t" "ekey (entry (cell t i)) = ekey item"
  shows "hash_locate t item (hv t (ekey item)) = Inr (i, True)"
proof -
  let ?h = "hv t (ekey item)"
  note o = occupied_wf [OF assms(1,3), unfolded assms(4)]
  obtain j where j: "j < hsize t" "probe (hsize t) ?h j = i" "\<forall>l < j. probe (hsize t) ?h l \<in> occupied t"
    using assms(1,3) o by (fastforce simp: hash_inv_def)
  have r: "3 \<le> hsize t" "0 < ?h" "?h \<le> hsize t" "no_divisor (hsize t)"
    using hv_range [OF assms(1)] assms(1) by (simp_all add: hash_inv_def)
  have m: "hash_matches item ?h (cell t i)"
    using hash_matches_wf [OF assms(2) o(1)] o(2) assms(4) by simp
  have "\<not> stops t item ?h (probe (hsize t) ?h l)" if "l < j" for l
  proof -
    have l: "probe (hsize t) ?h l \<in> occupied t" using j(3) that by blast
    have "probe (hsize t) ?h l \<noteq> i" using probe_inj [OF r(4,1,2,3) that j(1)] j(2) by simp
    then have "ekey (entry (cell t (probe (hsize t) ?h l))) \<noteq> ekey item"
      using assms(1,3,4) l by (auto simp: hash_inv_def)
    then show ?thesis using l probe_range [OF r(1-3), of l] by (simp add: stops_key [OF assms(1,2)])
  qed
  then have "hash_locate t item ?h =
      Inr (probe (hsize t) ?h j, hash_matches item ?h (cell t (probe (hsize t) ?h j)))"
    using j m not_matches_free [OF assms(1) refl]
    by (intro hash_locate_run [OF assms(1) refl]) (simp_all add: stops_def)
  then show ?thesis using j m by simp
qed

lemma hash_locate_absent:
  assumes "hash_inv t" "wf_entry item" "\<And>i. i \<in> occupied t \<Longrightarrow> ekey (entry (cell t i)) \<noteq> ekey item"
  obtains j where "j < hsize t"
    "hash_locate t item (hv t (ekey item)) = Inr (probe (hsize t) (hv t (ekey item)) j, False)"
    "probe (hsize t) (hv t (ekey item)) j \<notin> occupied t"
    "\<forall>l < j. probe (hsize t) (hv t (ekey item)) l \<in> occupied t"
proof -
  let ?h = "hv t (ekey item)"
  have r: "3 \<le> hsize t" "0 < ?h" "?h \<le> hsize t" "no_divisor (hsize t)"
    using hv_range [OF assms(1)] assms(1) by (simp_all add: hash_inv_def)
  have fin: "occupied t \<subseteq> {1..hsize t}" by (auto simp: occupied_def)
  have "card (occupied t) < card {1..hsize t}" using assms(1) by (simp add: hash_inv_def)
  then have "occupied t \<noteq> {1..hsize t}" by auto
  with fin obtain i where "i \<in> {1..hsize t}" "i \<notin> occupied t" by blast
  then obtain j0 where j0: "j0 < hsize t" "probe (hsize t) ?h j0 \<notin> occupied t"
    using probe_covers [OF r(4,1,2,3), of i] by auto
  define j where "j = (LEAST j. probe (hsize t) ?h j \<notin> occupied t)"
  have j: "probe (hsize t) ?h j \<notin> occupied t" "j \<le> j0"
    unfolding j_def using LeastI [of "\<lambda>j. probe (hsize t) ?h j \<notin> occupied t", OF j0(2)] j0(2)
    by (auto intro: Least_le)
  have lt: "probe (hsize t) ?h l \<in> occupied t" if "l < j" for l
    using not_less_Least [OF that [unfolded j_def]] by simp
  have pr: "0 < probe (hsize t) ?h l" "probe (hsize t) ?h l \<le> hsize t" for l
    using probe_range [OF r(1-3), of l] by simp_all
  have "\<not> stops t item ?h (probe (hsize t) ?h l)" if "l < j" for l
    using lt [OF that] assms(3) pr by (simp add: stops_key [OF assms(1,2)])
  moreover have free: "used (cell t (probe (hsize t) ?h j)) = 0"
    using j(1) pr by (simp add: occupied_def)
  ultimately have "hash_locate t item ?h =
      Inr (probe (hsize t) ?h j, hash_matches item ?h (cell t (probe (hsize t) ?h j)))"
    using j j0 not_matches_free [OF assms(1) refl]
    by (intro hash_locate_run [OF assms(1) refl]) (simp_all add: stops_def)
  then show thesis using that [of j] j j0 lt not_matches_free [OF assms(1) refl free] by simp
qed

section \<open>Searching and adding\<close>

lemma hash_item_wf: "wf_entry e \<Longrightarrow> hash_item e = e"
  by (auto simp: hash_item_def wf_entry_def)

lemma hash_search_locate:
  assumes "wf_entry (hash_item item)"
  shows "hash_search t item action dup =
    sbind (hash_locate t (hash_item item) (hv t (ekey (hash_item item)))) (\<lambda>(idx, found).
      if found then hash_hit t action idx
      else if action = Add then hash_put t (hash_item item) dup (hv t (ekey (hash_item item))) idx
      else Inr (t, None))"
  using hash_key_wf [OF assms] unfolding hv_def by (simp add: hash_search_def Let_def)

definition hash_entries :: "'d search_table \<Rightarrow> 'd search_entry set" where
  "hash_entries t = (\<lambda>i. entry (cell t i)) ` occupied t"

lemma hash_search_present:
  assumes "hash_inv t" "wf_entry (hash_item item)" "i \<in> occupied t"
    "ekey (entry (cell t i)) = ekey (hash_item item)" "action \<noteq> Delete"
  shows "hash_search t item action dup = Inr (t, Some i)"
  using hash_locate_present [OF assms(1-4)] assms(5)
  by (simp add: hash_search_locate [OF assms(2)] hash_hit_def)

lemma hash_search_absent:
  assumes "hash_inv t" "wf_entry (hash_item item)"
    "ekey (hash_item item) \<notin> ekey ` hash_entries t" "action \<noteq> Add"
  shows "hash_search t item action dup = Inr (t, None)"
proof -
  have "\<And>i. i \<in> occupied t \<Longrightarrow> ekey (entry (cell t i)) \<noteq> ekey (hash_item item)"
    using assms(3) unfolding hash_entries_def by (metis image_eqI)
  from hash_locate_absent [OF assms(1,2) this] obtain j where
    "hash_locate t (hash_item item) (hv t (ekey (hash_item item))) =
      Inr (probe (hsize t) (hv t (ekey (hash_item item))) j, False)" by blast
  then show ?thesis using assms(4) by (simp add: hash_search_locate [OF assms(2)])
qed

text \<open>Storing an entry with a new key in the free cell that was found.\<close>

lemma cell_put:
  assumes "idx \<le> hsize t" "length (data t) = hsize t + 1"
  shows "put_cell idx d t = Inr (t\<lparr>data := (data t)[idx := Some d]\<rparr>)"
    "i \<le> hsize t \<Longrightarrow> cell (t\<lparr>data := (data t)[idx := Some d], filled := n\<rparr>) i = (if i = idx then d else cell t i)"
  using assms by (auto simp: put_cell_def cell_def)

lemma hash_put_inv:
  assumes "hash_inv t" "wf_entry e" "ekey e = k" "k \<notin> ekey ` hash_entries t" "filled t + 1 < hsize t"
    "j < hsize t" "idx = probe (hsize t) (hv t k) j" "idx \<notin> occupied t"
    "\<forall>l < j. probe (hsize t) (hv t k) l \<in> occupied t"
    "t' = t\<lparr>data := (data t)[idx := Some \<lparr>entry = e, used = hv t k\<rparr>], filled := filled t + 1\<rparr>"
  shows "hash_inv t'" "hash_entries t' = insert e (hash_entries t)" "occupied t' = insert idx (occupied t)"
    "cell t' idx = \<lparr>entry = e, used = hv t k\<rparr>"
proof -
  have r: "3 \<le> hsize t" "0 < hv t k" "hv t k \<le> hsize t" "length (data t) = hsize t + 1"
    using hv_range [OF assms(1)] assms(1) by (simp_all add: hash_inv_def)
  have idx: "0 < idx" "idx \<le> hsize t" using probe_range [OF r(1-3), of j] assms(7) by simp_all
  have c: "\<And>i. i \<le> hsize t \<Longrightarrow> cell t' i = (if i = idx then \<lparr>entry = e, used = hv t k\<rparr> else cell t i)"
    unfolding assms(10) using cell_put(2) [OF idx(2) r(4)] by blast
  have h: "hsize t' = hsize t" "hv t' = hv t" "filled t' = filled t + 1" "length (data t') = hsize t + 1"
    using r(4) by (simp_all add: assms(10) hv_def fun_eq_iff)
  have occ: "occupied t' = insert idx (occupied t)"
    using idx c r(2) by (auto simp: occupied_def h(1))
  have old: "i \<in> occupied t \<Longrightarrow> i \<le> hsize t \<and> i \<noteq> idx" for i
    using assms(8) by (auto simp: occupied_def)
  have fin: "finite (occupied t)" by (rule finite_subset [of _ "{..hsize t}"]) (auto simp: occupied_def)
  have es: "hash_entries t' = insert e (hash_entries t)"
    using c idx old by (auto simp: hash_entries_def occ)
  have new: "ekey (entry (cell t i)) \<noteq> k" if "i \<in> occupied t" for i
    using assms(4) that unfolding hash_entries_def by (metis image_eqI)
  have some: "\<forall>i \<le> hsize t'. data t' ! i \<noteq> None"
    using assms(1) idx r(4) by (auto simp: assms(10) hash_inv_def nth_list_update)
  have chains: "wf_entry (entry (cell t' i)) \<and> used (cell t' i) = hv t' (ekey (entry (cell t' i))) \<and>
      (\<exists>j < hsize t'. probe (hsize t') (used (cell t' i)) j = i \<and>
         (\<forall>l < j. probe (hsize t') (used (cell t' i)) l \<in> occupied t'))" if i: "i \<in> occupied t'" for i
  proof (cases "i = idx")
    case True
    then show ?thesis using c [OF idx(2)] assms(2,3,6,7,9) by (auto simp: h occ)
  next
    case False
    then have i': "i \<in> occupied t" using i occ by simp
    then have "cell t' i = cell t i" using c old by simp
    then show ?thesis using assms(1) i' by (fastforce simp: hash_inv_def h occ)
  qed
  have dist: "i = l" if "i \<in> occupied t'" "l \<in> occupied t'"
      "ekey (entry (cell t' i)) = ekey (entry (cell t' l))" for i l
  proof -
    have u: "ekey (entry (cell t i)) = ekey (entry (cell t l)) \<Longrightarrow> i \<in> occupied t \<Longrightarrow> l \<in> occupied t \<Longrightarrow> i = l"
      using assms(1) by (simp add: hash_inv_def)
    have ci: "ekey (entry (cell t' i)) = (if i = idx then k else ekey (entry (cell t i)))"
      and cl: "ekey (entry (cell t' l)) = (if l = idx then k else ekey (entry (cell t l)))"
      using that(1,2) c idx old assms(3) by (auto simp: occ)
    show ?thesis
    proof (rule ccontr)
      assume "i \<noteq> l"
      have m: "i = idx \<or> i \<in> occupied t" "l = idx \<or> l \<in> occupied t"
        using that(1,2) unfolding occ by simp_all
      from \<open>i \<noteq> l\<close> m old [of i] old [of l] consider "i = idx" "l \<in> occupied t" "l \<noteq> idx" | "l = idx" "i \<in> occupied t" "i \<noteq> idx"
        | "i \<in> occupied t" "l \<in> occupied t" "i \<noteq> idx" "l \<noteq> idx" by metis
      then show False
      proof cases
        case 1
        then show False using new [of l] that(3) ci cl by simp
      next
        case 2
        then show False using new [of i] that(3) ci cl by simp
      next
        case 3
        then show False using u \<open>i \<noteq> l\<close> that(3) ci cl by simp
      qed
    qed
  qed
  have b: "no_divisor (hsize t')" "11 \<le> hsize t'" "length (data t') = hsize t' + 1"
    "filled t' = card (occupied t')" "filled t' < hsize t'"
    using assms(1,5,8) fin by (simp_all add: h occ hash_inv_def)
  have "\<forall>i \<in> occupied t'. \<forall>j \<in> occupied t'.
      ekey (entry (cell t' i)) = ekey (entry (cell t' j)) \<longrightarrow> i = j" using dist by blast
  then show "hash_inv t'" unfolding hash_inv_def [of t'] using b some chains by blast
  show "hash_entries t' = insert e (hash_entries t)" "occupied t' = insert idx (occupied t)"
    "cell t' idx = \<lparr>entry = e, used = hv t k\<rparr>"
    using es occ c idx by simp_all
qed

lemma hash_search_add:
  assumes "hash_inv t" "wf_entry (hash_item item)" "ekey (hash_item item) \<notin> ekey ` hash_entries t"
    "filled t + 1 < hsize t" "dup \<longrightarrow> \<not> bad_flag (flag item)"
    "(if dup then dup_data (dup_key (hash_item item)) else Inr (hash_item item)) = Inr e"
  obtains t' idx where "hash_search t item Add dup = Inr (t', Some idx)" "hash_inv t'"
    "hash_entries t' = insert e (hash_entries t)" "idx \<in> occupied t'" "entry (cell t' idx) = e"
    "filled t' = filled t + 1" "hsize t' = hsize t" "trace t' = trace t" "hook t' = hook t"
proof -
  let ?i = "hash_item item"
  have k: "ekey e = ekey ?i" "wf_entry e"
    using assms(2,6) dup_data_key(3) [of "dup_key ?i" e] wf_dup_data [of "dup_key ?i" e] wf_dup_key [of ?i]
    by (auto split: if_splits)
  have "\<And>i. i \<in> occupied t \<Longrightarrow> ekey (entry (cell t i)) \<noteq> ekey ?i"
    using assms(3) unfolding hash_entries_def by (metis image_eqI)
  from hash_locate_absent [OF assms(1,2) this] obtain j where j: "j < hsize t"
    "hash_locate t ?i (hv t (ekey ?i)) = Inr (probe (hsize t) (hv t (ekey ?i)) j, False)"
    "probe (hsize t) (hv t (ekey ?i)) j \<notin> occupied t"
    "\<forall>l < j. probe (hsize t) (hv t (ekey ?i)) l \<in> occupied t" by blast
  define idx where "idx = probe (hsize t) (hv t (ekey ?i)) j"
  define t' where "t' = t\<lparr>data := (data t)[idx := Some \<lparr>entry = e, used = hv t (ekey ?i)\<rparr>],
    filled := filled t + 1\<rparr>"
  note p = hash_put_inv [OF assms(1) k(2,1) assms(3,4) j(1) idx_def j(3) [folded idx_def] j(4) t'_def]
  have r: "idx \<le> hsize t" "length (data t) = hsize t + 1"
    using probe_range [of "hsize t" "hv t (ekey ?i)" j] hv_range [OF assms(1)] assms(1)
    by (simp_all add: hash_inv_def idx_def)
  have "flag ?i = flag item" by (simp add: hash_item_def)
  then have "hash_put t ?i dup (hv t (ekey ?i)) idx = Inr (t', Some idx)"
    using assms(5,6) cell_put(1) [OF r] by (simp add: hash_put_def t'_def del: sbind_Inr_iff)
  then have "hash_search t item Add dup = Inr (t', Some idx)"
    using j(2) by (simp add: hash_search_locate [OF assms(2)] idx_def)
  then show thesis using p(1,2) by (rule that) (simp_all add: p(3,4), simp_all add: t'_def)
qed

section \<open>Creating and growing\<close>

lemma next_prime_spec: "2 * k + 1 \<le> next_prime k \<and> odd (next_prime k) \<and> isprime (next_prime k)"
proof (induction k rule: next_prime.induct)
  case (1 k)
  then show ?case
    by (cases "isprime (2 * k + 1)") (simp_all add: next_prime.simps [of k])
qed

lemma not_isprime_9: "\<not> isprime 9"
  by (simp add: isprime_def prime_loop.simps)

lemma create_hsize:
  assumes "7 \<le> nel"
  shows "11 \<le> hsize (HashTableCreate nel h)" "no_divisor (hsize (HashTableCreate nel h))"
    "nel \<le> hsize (HashTableCreate nel h)"
proof -
  define n where "n = (nel * 10) div 9 + 1"
  have n: "8 \<le> n" "nel \<le> n" using assms by (simp_all add: n_def)
  have z: "hsize (HashTableCreate nel h) = next_prime (n div 2)"
    by (simp add: HashTableCreate_def n_def Let_def)
  note s = next_prime_spec [of "n div 2"]
  have "n \<le> 2 * (n div 2) + 1" "8 \<le> 2 * (n div 2)" using n by simp_all
  then have "9 \<le> next_prime (n div 2)" "nel \<le> next_prime (n div 2)" using s n by linarith+
  moreover have "next_prime (n div 2) \<noteq> 9" using s not_isprime_9 by auto
  moreover have "next_prime (n div 2) \<noteq> 10" using s by auto
  ultimately show "11 \<le> hsize (HashTableCreate nel h)" "nel \<le> hsize (HashTableCreate nel h)"
    unfolding z by linarith+
  then show "no_divisor (hsize (HashTableCreate nel h))"
    using isprime_no_divisor [of "next_prime (n div 2)"] s unfolding z by simp
qed

lemma create_cell: "i \<le> hsize (HashTableCreate nel h) \<Longrightarrow> data (HashTableCreate nel h) ! i = Some zero_DATA"
  by (simp add: HashTableCreate_def Let_def nth_Cons split: nat.split)

lemma occupied_create: "occupied (HashTableCreate nel h) = {}"
  by (auto simp: occupied_def cell_def create_cell zero_DATA_def)

lemma occupied_trace [simp]: "occupied (t\<lparr>trace := tr\<rparr>) = occupied t" "cell (t\<lparr>trace := tr\<rparr>) = cell t"
    "hv (t\<lparr>trace := tr\<rparr>) = hv t" "hash_entries (t\<lparr>trace := tr\<rparr>) = hash_entries t"
    "hash_inv (t\<lparr>trace := tr\<rparr>) = hash_inv t"
proof -
  show c: "cell (t\<lparr>trace := tr\<rparr>) = cell t" by (simp add: cell_def fun_eq_iff)
  show o: "occupied (t\<lparr>trace := tr\<rparr>) = occupied t" by (simp add: occupied_def c)
  show h: "hv (t\<lparr>trace := tr\<rparr>) = hv t" by (simp add: hv_def fun_eq_iff)
  show "hash_entries (t\<lparr>trace := tr\<rparr>) = hash_entries t" by (simp add: hash_entries_def c o)
  show "hash_inv (t\<lparr>trace := tr\<rparr>) = hash_inv t" by (simp add: hash_inv_def c o h)
qed

lemma hash_inv_create: "7 \<le> nel \<Longrightarrow> hash_inv (HashTableCreate nel h)"
  using create_hsize [of nel h] unfolding hash_inv_def occupied_create
  by (simp add: create_cell) (simp add: HashTableCreate_def Let_def)

lemma hash_entries_create: "hash_entries (HashTableCreate nel h) = {}"
  by (simp add: hash_entries_def occupied_create)

definition used_entries :: "'d DATA option list \<Rightarrow> 'd search_entry list" where
  "used_entries cs = map (entry \<circ> the) (filter (\<lambda>c. used (the c) \<noteq> 0) cs)"

lemma used_entries_simps:
  "used_entries [] = []"
  "used_entries (Some d # cs) = (if used d \<noteq> 0 then [entry d] else []) @ used_entries cs"
  by (simp_all add: used_entries_def)

lemma rehash_ok:
  assumes "hash_inv t" "\<forall>c \<in> set cs. c \<noteq> None" "\<forall>e \<in> set (used_entries cs). wf_entry e"
    "distinct (map ekey (used_entries cs))"
    "ekey ` set (used_entries cs) \<inter> ekey ` hash_entries t = {}"
    "2 * (filled t + length (used_entries cs)) \<le> hsize t"
  shows "\<exists>t'. rehash (\<lambda>t e. map_sum id fst (HashTableSearchFunc_depth (Suc 0) t e Add False)) cs t = Inr t' \<and>
    hash_inv t' \<and> hash_entries t' = hash_entries t \<union> set (used_entries cs) \<and> hsize t' = hsize t \<and>
    trace t' = trace t \<and> hook t' = hook t \<and> filled t' = filled t + length (used_entries cs)"
  using assms
proof (induction cs arbitrary: t)
  case Nil
  then show ?case by (simp add: used_entries_simps)
next
  case (Cons c cs)
  then obtain d where c: "c = Some d" by auto
  show ?case
  proof (cases "used d = 0")
    case True
    with Cons c show ?thesis by (simp add: used_entries_simps)
  next
    case False
    let ?e = "entry d"
    have e: "wf_entry ?e" "ekey ?e \<notin> ekey ` hash_entries t" "2 * (filled t + 1) \<le> hsize t"
      using Cons.prems False by (simp_all add: c used_entries_simps)
    have sz: "filled t + 1 < hsize t" "\<not> filled t * 10 > hsize t * 9"
      using e(3) Cons.prems(1) by (simp_all add: hash_inv_def)
    have he: "wf_entry (hash_item ?e)" "hash_item ?e = ?e" using e(1) by (simp_all add: hash_item_wf)
    have "(if False then dup_data (dup_key ?e) else Inr ?e) = Inr ?e" "False \<longrightarrow> \<not> bad_flag (flag ?e)" by simp_all
    from hash_search_add [of t ?e False ?e, unfolded he(2), OF Cons.prems(1) e(1,2) sz(1) this(2,1)]
    obtain t1 idx where t1: "hash_search t ?e Add False = Inr (t1, Some idx)" "hash_inv t1"
      "hash_entries t1 = insert ?e (hash_entries t)" "filled t1 = filled t + 1" "hsize t1 = hsize t"
      "trace t1 = trace t" "hook t1 = hook t" by blast
    have add: "map_sum id fst (HashTableSearchFunc_depth (Suc 0) t ?e Add False) = Inr t1"
      using t1(1) sz(2) by simp
    have "\<forall>c \<in> set cs. c \<noteq> None" "\<forall>e \<in> set (used_entries cs). wf_entry e"
      "distinct (map ekey (used_entries cs))"
      "ekey ` set (used_entries cs) \<inter> ekey ` hash_entries t1 = {}"
      "2 * (filled t1 + length (used_entries cs)) \<le> hsize t1"
      using Cons.prems False t1(3,4,5) by (simp_all add: c used_entries_simps)
    from Cons.IH [OF t1(2) this] obtain t2 where t2:
      "rehash (\<lambda>t e. map_sum id fst (HashTableSearchFunc_depth (Suc 0) t e Add False)) cs t1 = Inr t2"
      "hash_inv t2" "hash_entries t2 = hash_entries t1 \<union> set (used_entries cs)" "hsize t2 = hsize t1"
      "trace t2 = trace t1" "hook t2 = hook t1" "filled t2 = filled t1 + length (used_entries cs)"
      by blast
    define F :: "'a search_table \<Rightarrow> 'a search_entry \<Rightarrow> ub + 'a search_table" where
      "F = (\<lambda>t e. map_sum id fst (HashTableSearchFunc_depth (Suc 0) t e Add False))"
    have "F t ?e = Inr t1" "rehash F cs t1 = Inr t2"
      unfolding F_def by (fact add, fact t2(1))
    then have "rehash F (c # cs) t = Inr t2" using False by (simp add: c)
    moreover have "hash_inv t2 \<and> hash_entries t2 = hash_entries t \<union> set (used_entries (c # cs)) \<and>
        hsize t2 = hsize t \<and> trace t2 = trace t \<and> hook t2 = hook t \<and>
        filled t2 = filled t + length (used_entries (c # cs))"
      using False t1 t2(2-7) by (simp add: c used_entries_simps)
    ultimately show ?thesis unfolding F_def by blast
  qed
qed

lemma used_entries_table:
  assumes "hash_inv t"
  shows "set (used_entries (drop 1 (data t))) = hash_entries t"
    "length (used_entries (drop 1 (data t))) = filled t"
    "distinct (map ekey (used_entries (drop 1 (data t))))"
proof -
  define is' where "is' = filter (\<lambda>i. used (cell t i) \<noteq> 0) [1..<hsize t + 1]"
  have "drop 1 (data t) = map (\<lambda>i. data t ! i) [1..<hsize t + 1]"
    using assms by (intro nth_equalityI) (simp_all add: hash_inv_def del: upt_Suc)
  then have u: "used_entries (drop 1 (data t)) = map (\<lambda>i. entry (cell t i)) is'"
    by (simp add: used_entries_def is'_def filter_map comp_def cell_def)
  have o: "set is' = occupied t" by (auto simp: is'_def occupied_def)
  have d: "distinct is'" by (simp add: is'_def)
  show "set (used_entries (drop 1 (data t))) = hash_entries t"
    unfolding u by (simp add: o hash_entries_def)
  show "length (used_entries (drop 1 (data t))) = filled t"
    using assms distinct_card [OF d] unfolding u by (simp add: o hash_inv_def)
  have "inj_on (\<lambda>i. ekey (entry (cell t i))) (set is')"
    using assms by (auto simp: o hash_inv_def inj_on_def)
  with d show "distinct (map ekey (used_entries (drop 1 (data t))))"
    unfolding u by (simp add: distinct_map comp_def)
qed

text \<open>The size after the check that an addition begins with: more than nine tenths full means growth.\<close>

definition grown_size :: "'d search_table \<Rightarrow> nat" where
  "grown_size t =
     (if 9 * hsize t < 10 * filled t then next_prime ((20 * hsize t div 9 + 1) div 2) else hsize t)"

lemma hash_grown:
  assumes "hash_inv t"
  obtains t1 where
    "(if filled t * 10 > hsize t * 9 then
        rehash (\<lambda>t e. map_sum id fst (HashTableSearchFunc_depth (Suc 0) t e Add False))
          (drop 1 (data t)) ((HashTableCreate (hsize t * 2) (hook t))\<lparr>trace := trace t\<rparr>)
      else Inr t) = Inr t1"
    "hash_inv t1" "hash_entries t1 = hash_entries t" "filled t1 + 1 < hsize t1" "trace t1 = trace t"
    "hsize t1 = grown_size t"
proof (cases "filled t * 10 > hsize t * 9")
  case False
  then have "filled t + 1 < hsize t" using assms by (simp add: hash_inv_def)
  moreover have "hsize t = grown_size t" using False by (simp add: grown_size_def)
  ultimately show thesis using that [of t] False assms by simp
next
  case True
  define c where "c = (HashTableCreate (2 * hsize t) (hook t))\<lparr>trace := trace t\<rparr>"
  have "7 \<le> 2 * hsize t" using assms by (simp add: hash_inv_def)
  note n = hash_inv_create [OF this, of "hook t"] create_hsize(3) [OF this, of "hook t", unfolded mult.commute [of _ 2]]
  have c: "hash_inv c" "hash_entries c = {}" "filled c = 0" "trace c = trace t" "2 * hsize t \<le> hsize c"
    using n unfolding c_def by (simp_all add: hash_entries_create) (simp add: HashTableCreate_def Let_def)
  note u = used_entries_table [OF assms]
  have "\<forall>c \<in> set (drop 1 (data t)). c \<noteq> None"
    using assms by (auto simp: in_set_conv_nth hash_inv_def)
  moreover have "\<forall>e \<in> hash_entries t. wf_entry e"
    using occupied_wf(1) [OF assms] by (auto simp: hash_entries_def)
  moreover have "2 * (filled c + filled t) \<le> hsize c" using c(3,5) assms by (simp add: hash_inv_def)
  ultimately obtain t' where
    "rehash (\<lambda>t e. map_sum id fst (HashTableSearchFunc_depth (Suc 0) t e Add False))
       (drop 1 (data t)) c = Inr t'" "hash_inv t'" "hash_entries t' = hash_entries t"
    "hsize t' = hsize c" "trace t' = trace t" "filled t' = filled t"
    using rehash_ok [OF c(1), of "drop 1 (data t)"] u c by auto
  moreover have "filled t + 1 < hsize c" using c(5) assms by (simp add: hash_inv_def)
  moreover have "hsize c = grown_size t" using True by (simp add: c_def grown_size_def HashTableCreate_def Let_def)
  ultimately show thesis using that [of t'] True by (simp add: c_def mult.commute [of _ 2])
qed

section \<open>The table as a map\<close>

definition hash_key_entry :: "string \<Rightarrow> 'd search_entry" where
  "hash_key_entry k = zero_entry\<lparr>key := k, key_len := -1\<rparr>"

definition hash_lookup :: "'d search_table \<Rightarrow> string \<Rightarrow> 'd search_entry option" where
  "hash_lookup t k =
     (if NUL \<in> set k then None
      else case HashTableSearch t (hash_key_entry k) of
          Inr (t', Some i) \<Rightarrow> Some (entry (cell t i))
        | _ \<Rightarrow> None)"

definition hash_insert :: "'d search_entry \<Rightarrow> 'd search_table \<Rightarrow> 'd search_table" where
  "hash_insert e t = (case HashTableAdd t e of Inr (t', _) \<Rightarrow> t' | Inl _ \<Rightarrow> t)"

definition hash_accepts :: "'d search_entry \<Rightarrow> bool" where
  "hash_accepts e \<longleftrightarrow> wf_entry (hash_item e) \<and> \<not> bad_flag (flag e) \<and>
     (has_flag (flag e) SEARCH_DUP_DATA \<longrightarrow> edata e \<noteq> NullData)"

definition hash_stored :: "'d search_entry \<Rightarrow> 'd search_entry" where
  "hash_stored e = (case dup_data (dup_key (hash_item e)) of Inr e' \<Rightarrow> e' | Inl _ \<Rightarrow> e)"

lemma hash_accepts_stored: "hash_accepts e \<Longrightarrow> dup_data (dup_key (hash_item e)) = Inr (hash_stored e)"
  by (cases "edata e")
    (auto simp: hash_accepts_def hash_stored_def dup_data_def hash_item_def)

lemma ekey_hash_stored: "hash_accepts e \<Longrightarrow> ekey (hash_stored e) = ekey (hash_item e)"
  using dup_data_key(3) [OF hash_accepts_stored] by simp

lemma wf_hash_key: "NUL \<notin> set k \<Longrightarrow> wf_entry (hash_item (hash_key_entry k))"
  by (simp add: wf_entry_def hash_item_def hash_key_entry_def)

lemma ekey_hash_key: "ekey (hash_item (hash_key_entry k)) = k"
  by (simp add: ekey_def hash_item_def hash_key_entry_def)

lemma depth_not_add: "action \<noteq> Add \<Longrightarrow> HashTableSearchFunc t item action dup = hash_search t item action dup"
  by (simp add: HashTableSearchFunc_def numeral_2_eq_2)

lemma hash_lookup_entries:
  assumes "hash_inv t"
  shows "hash_lookup t k = Some e \<longleftrightarrow> e \<in> hash_entries t \<and> ekey e = k"
proof (cases "NUL \<in> set k")
  case True
  have "NUL \<notin> set (ekey e)" if "e \<in> hash_entries t"
    using occupied_wf(1) [OF assms] that NUL_ekey by (auto simp: hash_entries_def)
  with True show ?thesis by (auto simp: hash_lookup_def)
next
  case False
  let ?q = "hash_key_entry k :: 'a search_entry"
  have wf: "wf_entry (hash_item ?q)" using False by (rule wf_hash_key)
  have k: "ekey (hash_item ?q) = k" by (rule ekey_hash_key)
  show ?thesis
  proof (cases "\<exists>i \<in> occupied t. ekey (entry (cell t i)) = k")
    case True
    then obtain i where i: "i \<in> occupied t" "ekey (entry (cell t i)) = k" by blast
    then have "HashTableSearch t ?q = Inr (t, Some i)"
      using hash_search_present [OF assms wf i(1)] by (simp add: k HashTableSearch_def depth_not_add)
    then have l: "hash_lookup t k = Some (entry (cell t i))" using False by (simp add: hash_lookup_def)
    have "j = i" if "j \<in> occupied t" "ekey (entry (cell t j)) = k" for j
      using assms that i by (simp add: hash_inv_def)
    then have "e = entry (cell t i)" if "e \<in> hash_entries t" "ekey e = k"
      using that by (auto simp: hash_entries_def)
    moreover have "entry (cell t i) \<in> hash_entries t" using i(1) by (simp add: hash_entries_def)
    ultimately show ?thesis using l i(2) by auto
  next
    case none: False
    then have nk: "k \<notin> ekey ` hash_entries t" by (auto simp: hash_entries_def)
    then have "HashTableSearch t ?q = Inr (t, None)"
      using hash_search_absent [OF assms wf] by (simp add: k HashTableSearch_def depth_not_add)
    then show ?thesis using False nk by (auto simp: hash_lookup_def)
  qed
qed

lemma hash_lookup_None: "hash_inv t \<Longrightarrow> hash_lookup t k = None \<longleftrightarrow> k \<notin> ekey ` hash_entries t"
  using hash_lookup_entries [of t k] by (cases "hash_lookup t k") (force simp: image_iff)+

text \<open>An addition, with the growth of the table that it may start with.\<close>

lemma HashTableAdd_ok:
  assumes "hash_inv t" "hash_accepts e"
  obtains t' i where "HashTableAdd t e = Inr (t', Some i)" "hash_inv t'" "i \<in> occupied t'"
    "ekey (entry (cell t' i)) = ekey (hash_item e)" "trace t' = trace t"
    "hash_entries t' =
      (if ekey (hash_item e) \<in> ekey ` hash_entries t then hash_entries t
       else insert (hash_stored e) (hash_entries t))"
    "hsize t' = grown_size t"
proof -
  obtain t1 where g: "(if filled t * 10 > hsize t * 9 then
        rehash (\<lambda>t e. map_sum id fst (HashTableSearchFunc_depth (Suc 0) t e Add False))
          (drop 1 (data t)) ((HashTableCreate (hsize t * 2) (hook t))\<lparr>trace := trace t\<rparr>)
      else Inr t) = Inr t1"
    and t1: "hash_inv t1" "hash_entries t1 = hash_entries t" "filled t1 + 1 < hsize t1" "trace t1 = trace t"
      "hsize t1 = grown_size t"
    using hash_grown [OF assms(1)] .
  have add: "HashTableAdd t e = hash_search t1 e Add True"
  proof -
    have d: "HashTableSearchFunc_depth 2 = HashTableSearchFunc_depth (Suc (Suc 0))"
      by (simp only: numeral_2_eq_2)
    show ?thesis
      unfolding HashTableAdd_def HashTableSearchFunc_def d HashTableSearchFunc_depth.simps(2) [of "Suc 0"]
      by (simp only: g simp_thms sbind_simps)
  qed
  have wf: "wf_entry (hash_item e)" and bf: "\<not> bad_flag (flag e)"
    using assms(2) by (simp_all add: hash_accepts_def)
  show thesis
  proof (cases "ekey (hash_item e) \<in> ekey ` hash_entries t")
    case True
    then obtain i where i: "i \<in> occupied t1" "ekey (entry (cell t1 i)) = ekey (hash_item e)"
      unfolding t1(2) [symmetric] unfolding hash_entries_def by auto
    from hash_search_present [OF t1(1) wf this, of Add True] show thesis
      using that [of t1 i] add i t1 True by simp
  next
    case False
    have "True \<longrightarrow> \<not> bad_flag (flag e)" "ekey (hash_item e) \<notin> ekey ` hash_entries t1"
      "(if True then dup_data (dup_key (hash_item e)) else Inr (hash_item e)) = Inr (hash_stored e)"
      using bf False t1(2) hash_accepts_stored [OF assms(2)] by simp_all
    from hash_search_add [OF t1(1) wf this(2) t1(3) this(1,3)]
    obtain t' i where "hash_search t1 e Add True = Inr (t', Some i)" "hash_inv t'"
      "hash_entries t' = insert (hash_stored e) (hash_entries t1)" "i \<in> occupied t'"
      "entry (cell t' i) = hash_stored e" "trace t' = trace t1" "hsize t' = hsize t1"
      unfolding t1(2) by blast
    with that [of t' i] add t1 False ekey_hash_stored [OF assms(2)] show thesis by simp
  qed
qed

interpretation hash: lookup_table hash_inv hash_lookup hash_insert hash_accepts
    "ekey \<circ> hash_item" hash_stored
proof unfold_locales
  fix t :: "'a search_table" and e :: "'a search_entry" and k
  assume t: "hash_inv t" and e: "hash_accepts e"
  from HashTableAdd_ok [OF t e] obtain t' i where
    a: "HashTableAdd t e = Inr (t', Some i)" "hash_inv t'"
    "hash_entries t' =
      (if ekey (hash_item e) \<in> ekey ` hash_entries t then hash_entries t
       else insert (hash_stored e) (hash_entries t))" by blast
  have i: "hash_insert e t = t'" using a(1) by (simp add: hash_insert_def)
  with a(2) show "hash_inv (hash_insert e t)" by simp
  have n: "hash_lookup t (ekey (hash_item e)) = None \<longleftrightarrow> ekey (hash_item e) \<notin> ekey ` hash_entries t"
    by (rule hash_lookup_None [OF t])
  have s: "hash_lookup t' k = Some x \<longleftrightarrow>
      (if k = ekey (hash_item e) \<and> hash_lookup t k = None then Some (hash_stored e)
       else hash_lookup t k) = Some x" for x
  proof (cases "k = ekey (hash_item e) \<and> hash_lookup t k = None")
    case True
    then have nk: "k \<notin> ekey ` hash_entries t" using n by metis
    then have "hash_entries t' = insert (hash_stored e) (hash_entries t)" using a(3) True by simp
    then show ?thesis
      using True nk ekey_hash_stored [OF e] hash_lookup_entries [OF a(2), of k x]
      by auto (metis image_eqI)
  next
    case False
    have "x \<in> hash_entries t' \<and> ekey x = k \<longleftrightarrow> x \<in> hash_entries t \<and> ekey x = k"
      using a(3) False n ekey_hash_stored [OF e] by (auto split: if_splits)
    then show ?thesis
      using False hash_lookup_entries [OF a(2), of k x] hash_lookup_entries [OF t, of k x] by auto
  qed
  have "hash_lookup t' k =
      (if k = ekey (hash_item e) \<and> hash_lookup t k = None then Some (hash_stored e)
       else hash_lookup t k)"
    using s by (metis option.exhaust)
  with i show "hash_lookup (hash_insert e t) k =
      (if k = (ekey \<circ> hash_item) e \<and> hash_lookup t k = None then Some (hash_stored e)
       else hash_lookup t k)" by simp
qed

section \<open>Properties\<close>

lemma not_isprime_3: "\<not> isprime 3"
  by (simp add: isprime_def prime_loop.simps)

lemma create_prime:
  assumes "2 \<le> nel"
  shows "nel < hsize (HashTableCreate nel h)" "no_divisor (hsize (HashTableCreate nel h))"
proof -
  define n where "n = (nel * 10) div 9 + 1"
  have n: "3 \<le> n" "nel < n" using assms by (simp_all add: n_def)
  have z: "hsize (HashTableCreate nel h) = next_prime (n div 2)"
    by (simp add: HashTableCreate_def n_def Let_def)
  note s = next_prime_spec [of "n div 2"]
  have "n \<le> 2 * (n div 2) + 1" using n by simp
  then have g: "3 \<le> next_prime (n div 2)" "nel < next_prime (n div 2)" using s n by linarith+
  moreover have "next_prime (n div 2) \<noteq> 3" using s not_isprime_3 by auto
  ultimately have "no_divisor (next_prime (n div 2))"
    using isprime_no_divisor [of "next_prime (n div 2)"] s by simp
  with g show "nel < hsize (HashTableCreate nel h)" "no_divisor (hsize (HashTableCreate nel h))"
    unfolding z by blast+
qed

text \<open>\<open>HashTableCreate\<close> returns a table whose size is a prime greater than the number of
  entries asked for (from two entries on), whatever that number is: the search for a prime ends.\<close>

theorem hash_create_prime:
  assumes "2 \<le> nel"
  shows "\<exists>sz. hsize (HashTableCreate nel h) = sz \<and> nel < sz \<and> (\<forall>d. d dvd sz \<longrightarrow> d = 1 \<or> d = sz)"
  using create_prime [OF assms, of h] unfolding no_divisor_def by blast

theorem hash_create_prime_witness:
  "\<exists>sz. hsize (HashTableCreate 1000 True) = sz \<and> 1000 < sz \<and> (\<forall>d. d dvd sz \<longrightarrow> d = 1 \<or> d = sz)"
  by (rule hash_create_prime) simp

text \<open>In a table of that size the probe sequence of double hashing visits every cell from 1
  to the size exactly once before it repeats.\<close>

theorem hash_probe_bijective:
  assumes "2 \<le> nel" "sz = hsize (HashTableCreate nel h)"
  shows "bij_betw (probe sz (hash_first sz w)) {..<sz} {1..sz}"
proof -
  have p1: "no_divisor sz" unfolding assms(2) by (rule create_prime(2) [OF assms(1)])
  have "nel < sz" unfolding assms(2) by (rule create_prime(1) [OF assms(1)])
  with p1 assms(1) have p: "no_divisor sz" "3 \<le> sz" by simp_all
  then have r: "0 < hash_first sz w" "hash_first sz w \<le> sz" using hash_first_range [of sz w] by simp_all
  have "inj_on (probe sz (hash_first sz w)) {..<sz}"
  proof (rule inj_onI)
    fix i j
    assume "i \<in> {..<sz}" "j \<in> {..<sz}" "probe sz (hash_first sz w) i = probe sz (hash_first sz w) j"
    then show "i = j"
      using probe_inj [OF p r, of i j] probe_inj [OF p r, of j i] by (cases i j rule: linorder_cases) auto
  qed
  moreover have "probe sz (hash_first sz w) ` {..<sz} = {1..sz}"
  proof (intro equalityI subsetI)
    fix i
    assume "i \<in> {1..sz}"
    then show "i \<in> probe sz (hash_first sz w) ` {..<sz}" using probe_covers [OF p r, of i] by auto
  qed (use probe_range [OF p(2) r] in \<open>auto simp: Suc_le_eq\<close>)
  ultimately show ?thesis by (simp add: bij_betw_def)
qed

theorem hash_probe_bijective_witness:
  "bij_betw (probe 5 (hash_first 5 123456789)) {..<5} {1..5}"
proof -
  have "5 = hsize (HashTableCreate 3 False)" by code_simp
  from hash_probe_bijective [OF _ this] show ?thesis by simp
qed

definition hash_entry :: "string \<Rightarrow> nat \<Rightarrow> nat search_entry" where
  "hash_entry k n = \<lparr>key = k, key_len = -1, edata = Obj n, data_len = 0, flag = 1\<rparr>"

lemma accepts_hash_entry: "NUL \<notin> set k \<Longrightarrow> hash_accepts (hash_entry k n)"
  by (simp add: hash_accepts_def hash_entry_def hash_item_def wf_entry_def bad_flag_def has_flag_def
      search_flags)

text \<open>As long as entries are only added, the hash table is a map from keys to entries in
  which the first entry added under a key wins, through any number of enlargements.\<close>

theorem hash_first_wins:
  fixes es :: "'d search_entry list"
  assumes "7 \<le> nel" "\<forall>e \<in> set es. hash_accepts e"
  shows "hash_lookup (hash.insert_all es (HashTableCreate nel h)) k =
    map_option hash_stored (find (\<lambda>e. ekey (hash_item e) = k) es)"
proof -
  have "hash_lookup (HashTableCreate nel h :: 'd search_table) k = None"
    by (simp add: hash_lookup_None hash_inv_create assms(1) hash_entries_create)
  then show ?thesis
    using hash.lookup_insert_all [OF hash_inv_create [OF assms(1)] assms(2)] by (simp add: comp_def)
qed

theorem hash_first_wins_witness:
  "hash_lookup (hash.insert_all [hash_entry ''b'' 1, hash_entry ''a'' 2, hash_entry ''b'' 3]
     (HashTableCreate 7 False)) ''b'' = Some (hash_stored (hash_entry ''b'' 1))"
  using hash_first_wins [of 7 "[hash_entry ''b'' 1, hash_entry ''a'' 2, hash_entry ''b'' 3]" False "''b''"]
  by (simp add: accepts_hash_entry) (simp add: hash_entry_def hash_item_def ekey_def)

text \<open>C21: Adding to the hash table ends, and leaves exactly the old entries and the new one, unless its
  key was there; the cell returned holds the entry with the key.  The table is enlarged exactly when
  more than nine tenths of its cells are taken, to the first prime from ten ninths of twice its size
  on, so to more than twice its size.\<close>

theorem hash_add_exact:
  assumes "hash_inv t" "hash_accepts e"
  shows "\<exists>t' i. HashTableAdd t e = Inr (t', Some i) \<and> hash_inv t' \<and>
    ekey (entry (cell t' i)) = ekey (hash_item e) \<and> trace t' = trace t \<and>
    hash_entries t' =
      (if ekey (hash_item e) \<in> ekey ` hash_entries t then hash_entries t
       else insert (hash_stored e) (hash_entries t)) \<and>
    (if 9 * hsize t < 10 * filled t
     then hsize t' = next_prime ((20 * hsize t div 9 + 1) div 2) \<and> 2 * hsize t < hsize t'
     else hsize t' = hsize t)"
proof -
  have "2 * hsize t < next_prime ((20 * hsize t div 9 + 1) div 2)"
  proof -
    let ?k = "(20 * hsize t div 9 + 1) div 2"
    have "0 < hsize t" using assms(1) by (simp add: hash_inv_def)
    then have "2 * hsize t < 2 * ?k + 1" by linarith
    then show ?thesis using next_prime_spec [of ?k] by linarith
  qed
  moreover obtain t' i where "HashTableAdd t e = Inr (t', Some i)" "hash_inv t'"
    "ekey (entry (cell t' i)) = ekey (hash_item e)" "trace t' = trace t" "hsize t' = grown_size t"
    "hash_entries t' =
      (if ekey (hash_item e) \<in> ekey ` hash_entries t then hash_entries t
       else insert (hash_stored e) (hash_entries t))" using HashTableAdd_ok [OF assms] by metis
  ultimately show ?thesis by (auto simp: grown_size_def)
qed

theorem hash_add_exact_witness:
  "\<exists>t' i. HashTableAdd (HashTableCreate 7 False) (hash_entry ''key'' 1) = Inr (t', Some i) \<and>
    hash_entries t' = {hash_stored (hash_entry ''key'' 1)}"
proof -
  have "hash_inv (HashTableCreate 7 False :: nat search_table)" by (rule hash_inv_create) simp
  moreover have "hash_accepts (hash_entry ''key'' 1)" by (rule accepts_hash_entry) simp
  ultimately show ?thesis
    using hash_add_exact [of "HashTableCreate 7 False" "hash_entry ''key'' 1"]
    by (auto simp: hash_entries_create)
qed

text \<open>C22: A search of a hash table that was only added to ends; it returns the cell of the entry
  with the key, and NULL exactly when there is none.\<close>

theorem hash_search_exact:
  assumes "hash_inv t" "wf_entry (hash_item item)"
  shows "(\<forall>i. HashTableSearch t item = Inr (t, Some i) \<longleftrightarrow>
      i \<in> occupied t \<and> ekey (entry (cell t i)) = ekey (hash_item item)) \<and>
    (HashTableSearch t item = Inr (t, None) \<longleftrightarrow> ekey (hash_item item) \<notin> ekey ` hash_entries t)"
proof (cases "ekey (hash_item item) \<in> ekey ` hash_entries t")
  case True
  then obtain i where i: "i \<in> occupied t" "ekey (entry (cell t i)) = ekey (hash_item item)"
    unfolding hash_entries_def by auto
  have s: "HashTableSearch t item = Inr (t, Some i)"
    using hash_search_present [OF assms i] by (simp add: HashTableSearch_def depth_not_add)
  have u: "j = i" if "j \<in> occupied t" "ekey (entry (cell t j)) = ekey (hash_item item)" for j
    using assms(1) that i by (simp add: hash_inv_def)
  have "HashTableSearch t item = Inr (t, Some j) \<longleftrightarrow>
      j \<in> occupied t \<and> ekey (entry (cell t j)) = ekey (hash_item item)" for j
  proof
    assume "HashTableSearch t item = Inr (t, Some j)"
    with s i show "j \<in> occupied t \<and> ekey (entry (cell t j)) = ekey (hash_item item)" by simp
  next
    assume "j \<in> occupied t \<and> ekey (entry (cell t j)) = ekey (hash_item item)"
    then have "j = i" using u by blast
    with s show "HashTableSearch t item = Inr (t, Some j)" by simp
  qed
  moreover have "HashTableSearch t item \<noteq> Inr (t, None)" by (simp add: s)
  ultimately show ?thesis using True by simp
next
  case False
  then have "HashTableSearch t item = Inr (t, None)"
    using hash_search_absent [OF assms] by (simp add: HashTableSearch_def depth_not_add)
  moreover have "\<not> (i \<in> occupied t \<and> ekey (entry (cell t i)) = ekey (hash_item item))" for i
    using False unfolding hash_entries_def by (metis image_eqI)
  ultimately show ?thesis using False by simp
qed

theorem hash_search_exact_witness:
  "HashTableSearch (HashTableCreate 7 False) (hash_entry ''x'' 0) = Inr (HashTableCreate 7 False, None)"
proof -
  have "wf_entry (hash_item (hash_entry ''x'' 0))" by (simp add: hash_entry_def hash_item_def wf_entry_def)
  then show ?thesis
    using hash_search_exact [OF hash_inv_create, of 7 "hash_entry ''x'' 0" False]
    by (simp add: hash_entries_create)
qed

text \<open>C23: Deleting a present key from the hash table frees exactly its cell, drops the entry once
  and leaves every other cell as it was.\<close>

theorem hash_delete_exact:
  assumes "hash_inv t" "wf_entry (hash_item item)" "i \<in> occupied t"
    "ekey (entry (cell t i)) = ekey (hash_item item)"
  shows "\<exists>t'. HashTableDelete t item = Inr (t', Some i) \<and>
    trace t' = trace t @ dropped (hook t) (entry (cell t i)) \<and> filled t' = filled t - 1 \<and>
    occupied t' = occupied t - {i} \<and> (\<forall>j \<le> hsize t. j \<noteq> i \<longrightarrow> cell t' j = cell t j)"
proof -
  have i: "i \<le> hsize t" "length (data t) = hsize t + 1"
    using assms(1,3) by (auto simp: occupied_def hash_inv_def)
  have g: "get_cell t i = Inr (cell t i)" by (rule get_cell_hash [OF assms(1) i(1)])
  have l: "hash_search t item Delete False = hash_hit t Delete i"
    using hash_locate_present [OF assms] by (simp add: hash_search_locate [OF assms(2)])
  define t' where "t' = (remove_entry t (entry (cell t i)))\<lparr>data := (data t)[i := Some zero_DATA],
    filled := filled t - 1\<rparr>"
  have "hash_hit t Delete i = Inr (t', Some i)"
    using g i by (simp add: hash_hit_def put_cell_def t'_def Let_def)
  moreover have c: "cell t' j = (if j = i then zero_DATA else cell t j)" if "j \<le> hsize t" for j
    using that i by (auto simp: cell_def t'_def)
  moreover have "hsize t' = hsize t" by (simp add: t'_def)
  moreover from this have "occupied t' = occupied t - {i}"
    using c by (auto simp: occupied_def zero_DATA_def split: if_splits)
  ultimately show ?thesis using l
    by (simp add: HashTableDelete_def depth_not_add t'_def remove_entry_dropped)
qed

definition hash1 :: "nat search_table" where
  "hash1 = hash_insert (hash_entry ''key'' 1) (HashTableCreate 7 False)"

theorem hash_delete_exact_witness:
  "\<exists>t'. HashTableDelete hash1 (hash_entry ''key'' 0) = Inr (t', Some 8) \<and> filled t' = 0"
proof -
  have "hash_inv hash1" unfolding hash1_def
    by (intro hash.invar_insert hash_inv_create accepts_hash_entry) simp_all
  moreover have "wf_entry (hash_item (hash_entry ''key'' 0))"
    by (simp add: hash_entry_def hash_item_def wf_entry_def)
  moreover have "8 \<in> occupied hash1" "ekey (entry (cell hash1 8)) = ekey (hash_item (hash_entry ''key'' 0))"
    "filled hash1 = 1" unfolding occupied_def mem_Collect_eq by code_simp+
  ultimately show ?thesis using hash_delete_exact [of hash1 "hash_entry ''key'' 0" 8] by auto
qed

text \<open>In a table all of whose cells are taken, the search for a key that is not there never
  returns: no number of rounds of the probe loop is enough.\<close>

theorem hash_full_search_diverges:
  assumes "3 \<le> hsize t" "length (data t) = hsize t + 1" "0 < hval" "hval \<le> hsize t" "wf_entry item"
    "\<forall>i. 0 < i \<longrightarrow> i \<le> hsize t \<longrightarrow> (\<exists>d. data t ! i = Some d \<and> used d \<noteq> 0 \<and>
       wf_entry (entry d) \<and> ekey (entry d) \<noteq> ekey item)"
  shows "hash_probe n t item hval (hash_second (hsize t) hval) (probe (hsize t) hval j) = Inl NoReturn"
proof (induction n arbitrary: j)
  case (Suc n)
  let ?p = "probe (hsize t) hval (Suc j)"
  have r: "0 < ?p" "?p \<le> hsize t" using probe_range [OF assms(1,3,4), of "Suc j"] by simp_all
  then obtain d where d: "data t ! ?p = Some d" "used d \<noteq> 0" "wf_entry (entry d)"
      "ekey (entry d) \<noteq> ekey item"
    using assms(6) by blast
  have g: "get_cell t ?p = Inr d" using r d(1) assms(2) by (simp add: get_cell_def)
  moreover have "\<not> hash_matches item hval d"
    using hash_matches_wf [OF assms(5) d(3)] d(4) by simp
  moreover have "hash_probe n t item hval (hash_second (hsize t) hval) ?p = Inl NoReturn"
    by (rule Suc.IH)
  ultimately show ?case using d(2) by (simp add: Let_def)
qed simp

text \<open>Five entries fill the table that \<open>HashTableCreate\<close> makes for three.\<close>

definition full5 :: "nat search_table" where
  "full5 = hash_insert (hash_entry ''e'' 5) (hash_insert (hash_entry ''d'' 4) (hash_insert
     (hash_entry ''c'' 3) (hash_insert (hash_entry ''b'' 2) (hash_insert (hash_entry ''a'' 1)
     (HashTableCreate 3 False)))))"

theorem hash_full_search_diverges_witness:
  "\<forall>n. hash_probe n full5 (hash_item (hash_entry ''zz'' 0)) 4 (hash_second 5 4) 4 = Inl NoReturn"
proof
  fix n
  let ?q = "hash_item (hash_entry ''zz'' 0)"
  have z: "hsize full5 = 5" "length (data full5) = 6" by code_simp+
  have w: "wf_entry ?q" by (simp add: hash_entry_def hash_item_def wf_entry_def)
  have c: "\<forall>i \<in> set [1, 2, 3, 4, 5]. case data full5 ! i of None \<Rightarrow> False | Some d \<Rightarrow> used d \<noteq> 0 \<and>
       wf_entry (entry d) \<and> ekey (entry d) \<noteq> ekey ?q" by code_simp
  have "\<forall>i. 0 < i \<longrightarrow> i \<le> hsize full5 \<longrightarrow> (\<exists>d. data full5 ! i = Some d \<and> used d \<noteq> 0 \<and>
       wf_entry (entry d) \<and> ekey (entry d) \<noteq> ekey ?q)"
  proof (intro allI impI)
    fix i
    assume "0 < i" "i \<le> hsize full5"
    then have "i \<in> set [1, 2, 3, 4, 5]" unfolding z by auto
    from bspec [OF c this] show "\<exists>d. data full5 ! i = Some d \<and> used d \<noteq> 0 \<and>
       wf_entry (entry d) \<and> ekey (entry d) \<noteq> ekey ?q" by (simp split: option.splits)
  qed
  from hash_full_search_diverges [OF _ _ _ _ w this, of 4 n 0]
  show "hash_probe n full5 ?q 4 (hash_second 5 4) 4 = Inl NoReturn" by (simp add: z)
qed

text \<open>The enumeration of a hash table never reaches its last cell, although the probe sequence
  uses it: \<open>HashTableSeq\<close>, and with it the destruction of a table, misses an entry stored there.\<close>

theorem hash_seq_skips_last:
  assumes "HashTableSeq t pos = Inr (t', Some i)"
  shows "i < hsize t"
  using assms by (auto simp: HashTableSeq_def Let_def split: if_splits)

theorem hash_seq_skips_last_witness:
  "\<exists>t'. HashTableSeq full5 0 = Inr (t', Some 1) \<and> (1::nat) < 5 \<and> key (entry (cell full5 5)) = ''e''"
proof -
  have "map_sum id snd (HashTableSeq full5 0) = Inr (Some 1)" "hsize full5 = 5"
    "key (entry (cell full5 5)) = ''e''" by code_simp+
  moreover from this obtain t' where "HashTableSeq full5 0 = Inr (t', Some 1)" by auto
  ultimately show ?thesis using hash_seq_skips_last [of full5 0 t' 1] by auto
qed

definition two :: "nat search_table" where
  "two = hash_insert (hash_entry ''ab'' 2) (hash_insert (hash_entry ''h'' 1) (HashTableCreate 7 False))"

definition one_left :: "nat search_table" where
  "one_left = (case HashTableDelete two (hash_entry ''h'' 0) of Inr (t, _) \<Rightarrow> t | Inl _ \<Rightarrow> two)"

text \<open>Deletion breaks the chains of the hash table: it frees a cell that the search for
  another key has to pass.  Of two entries with the same hash value, the second is still in the
  table after the first was deleted, but is not found, and can be added a second time.\<close>

theorem hash_delete_breaks_chains:
  "filled one_left = 1 \<and> map_option key (hash_lookup two ''ab'') = Some ''ab'' \<and>
   key (entry (cell one_left 8)) = ''ab'' \<and> used (cell one_left 8) \<noteq> 0 \<and>
   hash_lookup one_left ''ab'' = None \<and>
   filled (hash_insert (hash_entry ''ab'' 3) one_left) = 2"
  by (intro conjI; code_simp)

end
