(* ===== verification/Tables.thy ===== *)
theory Tables
  imports Btree_Map Hashtbl_Map
begin

text \<open>
  \<open>SearchTableCreate\<close> and the operations a client reaches through the function pointers it
  installs: the sorted table and the hash table behind one interface.
\<close>

datatype table_type = SEARCH_HASH_TABLE | SEARCH_BTREE_TABLE

definition SearchTableCreate :: "nat \<Rightarrow> table_type \<Rightarrow> bool \<Rightarrow> 'd search_table" where
  "SearchTableCreate nel typ delete_entry =
     (if typ = SEARCH_BTREE_TABLE then BtreeTableCreate nel delete_entry
      else HashTableCreate nel delete_entry)"

definition table_add ::
    "table_type \<Rightarrow> 'd search_table \<Rightarrow> 'd search_entry \<Rightarrow> ub + 'd search_table \<times> nat option" where
  "table_add typ = (if typ = SEARCH_BTREE_TABLE then BtreeTableAdd else HashTableAdd)"

definition table_search ::
    "table_type \<Rightarrow> 'd search_table \<Rightarrow> 'd search_entry \<Rightarrow> ub + 'd search_table \<times> nat option" where
  "table_search typ = (if typ = SEARCH_BTREE_TABLE then BtreeTableSearch else HashTableSearch)"

text \<open>A sequence of calls of \<open>add\<close>.\<close>

fun table_add_all ::
    "table_type \<Rightarrow> 'd search_entry list \<Rightarrow> 'd search_table \<Rightarrow> ub + 'd search_table" where
  "table_add_all typ [] t = Inr t"
| "table_add_all typ (e # es) t =
     sbind (table_add typ t e) (\<lambda>(t, r). table_add_all typ es t)"

text \<open>What a search of a key finds: the entry in the cell it returns.\<close>

definition table_find :: "table_type \<Rightarrow> 'd search_table \<Rightarrow> string \<Rightarrow> ub + 'd search_entry option" where
  "table_find typ t k =
     sbind (table_search typ t (zero_entry\<lparr>key := k, key_len := -1\<rparr>)) (\<lambda>(t, r).
       case r of
         None \<Rightarrow> Inr None
       | Some i \<Rightarrow> sbind (get_cell t i) (\<lambda>d. Inr (Some (entry d))))"

lemma accepts_both:
  assumes "btree_accepts e"
  shows "hash_accepts e" "hash_item e = btree_item e" "hash_stored e = btree_stored e"
proof -
  show i: "hash_item e = btree_item e"
    using assms by (cases e) (auto simp: hash_item_def btree_item_def btree_accepts_def wf_entry_def)
  with assms show "hash_accepts e" "hash_stored e = btree_stored e"
    by (simp_all add: btree_accepts_def hash_accepts_def btree_stored_def hash_stored_def)
qed


section \<open>Both tables through the interface\<close>

lemma btree_add_ok:
  assumes "btree_inv t" "btree_accepts e"
  obtains i where "BtreeTableAdd t e = Inr (btree_insert e t, Some i)"
proof -
  have w: "wf_entry (btree_item e)" and f: "\<not> bad_flag (flag e)"
    using assms(2) by (simp_all add: btree_accepts_def)
  have "\<exists>i t'. BtreeTableAdd t e = Inr (t', Some i)"
  proof (cases "ekey (btree_item e) \<in> ekey ` set (entries t)")
    case True
    then obtain i where "i < filled t" "ekey (entries t ! i) = ekey (btree_item e)"
      using length_entries [OF assms(1)] by (auto simp: in_set_conv_nth)
    then show ?thesis using BtreeTableAdd_present [OF assms(1) w] by blast
  next
    case False
    show ?thesis
      by (rule BtreeTableAdd_absent [OF assms(1) w f btree_accepts_stored [OF assms(2)] False]) blast
  qed
  then show thesis using that by (auto simp: btree_insert_def)
qed

lemma btree_add_all:
  assumes "btree_inv t" "\<forall>e \<in> set es. btree_accepts e"
  shows "table_add_all SEARCH_BTREE_TABLE es t = Inr (btree.insert_all es t)"
  using assms
proof (induction es arbitrary: t)
  case (Cons e es)
  then obtain i where "BtreeTableAdd t e = Inr (btree_insert e t, Some i)"
    using btree_add_ok [of t e] by auto
  moreover have "btree_inv (btree_insert e t)" using Cons.prems by (intro btree.invar_insert) simp_all
  ultimately show ?case using Cons by (simp add: table_add_def)
qed simp

lemma hash_add_all:
  assumes "hash_inv t" "\<forall>e \<in> set es. hash_accepts e"
  shows "table_add_all SEARCH_HASH_TABLE es t = Inr (hash.insert_all es t)"
  using assms
proof (induction es arbitrary: t)
  case (Cons e es)
  then obtain t' i where "HashTableAdd t e = Inr (t', Some i)"
    using HashTableAdd_ok [of t e] by (metis list.set_intros(1))
  then have "HashTableAdd t e = Inr (hash_insert e t, Some i)" by (simp add: hash_insert_def)
  moreover have "hash_inv (hash_insert e t)" using Cons.prems by (intro hash.invar_insert) simp_all
  ultimately show ?case using Cons by (simp add: table_add_def)
qed simp

lemma btree_find_lookup:
  assumes "btree_inv t" "NUL \<notin> set k"
  shows "table_find SEARCH_BTREE_TABLE t k = Inr (btree_lookup t k)"
proof (cases "k \<in> ekey ` set (entries t)")
  case True
  then obtain i where i: "i < filled t" "ekey (entries t ! i) = k"
    using length_entries [OF assms(1)] by (auto simp: in_set_conv_nth)
  then have "BtreeTableSearch t (btree_key k) = Inr (t\<lparr>cursor := i\<rparr>, Some i)"
    by (intro BtreeTableSearch_present assms wf_btree_key) (simp_all add: ekey_btree_key)
  moreover obtain d where "get_cell t i = Inr d" "entry d = entries t ! i"
    using get_cell_entries [OF assms(1) i(1)] by blast
  moreover have "get_cell (t\<lparr>cursor := i\<rparr>) i = get_cell t i" by (simp add: get_cell_def)
  ultimately show ?thesis using assms(2)
    by (simp add: table_find_def table_search_def btree_lookup_def btree_key_def)
next
  case False
  then have "BtreeTableSearch t (btree_key k) = Inr (t, None)"
    by (intro BtreeTableSearch_absent assms wf_btree_key) (simp_all add: ekey_btree_key)
  then show ?thesis using assms(2)
    by (simp add: table_find_def table_search_def btree_lookup_def btree_key_def)
qed

lemma hash_find_lookup:
  assumes "hash_inv t" "NUL \<notin> set k"
  shows "table_find SEARCH_HASH_TABLE t k = Inr (hash_lookup t k)"
proof (cases "k \<in> ekey ` hash_entries t")
  case True
  then obtain i where i: "i \<in> occupied t" "ekey (entry (cell t i)) = k" by (auto simp: hash_entries_def)
  then have "HashTableSearch t (hash_key_entry k) = Inr (t, Some i)"
    using hash_search_present [OF assms(1) wf_hash_key [OF assms(2)] i(1)]
    by (simp add: ekey_hash_key HashTableSearch_def depth_not_add)
  moreover have "get_cell t i = Inr (cell t i)" by (rule get_cell_hash [OF assms(1)]) (use i in \<open>simp add: occupied_def\<close>)
  ultimately show ?thesis using assms(2)
    by (simp add: table_find_def table_search_def hash_lookup_def hash_key_entry_def)
next
  case False
  then have "HashTableSearch t (hash_key_entry k) = Inr (t, None)"
    using hash_search_absent [OF assms(1) wf_hash_key [OF assms(2)]]
    by (simp add: ekey_hash_key HashTableSearch_def depth_not_add)
  then show ?thesis using assms(2)
    by (simp add: table_find_def table_search_def hash_lookup_def hash_key_entry_def)
qed

section \<open>Property\<close>

text \<open>C17: The two implementations behind \<open>SearchTableCreate\<close> agree: any sequence of additions
  succeeds on both (the hash table being created for at least seven entries), and afterwards a
  search of any key finds in both the first entry added under it, with the copies its flags ask
  for, or nothing.\<close>

theorem search_tables_agree:
  fixes es :: "'d search_entry list"
  assumes "\<forall>e \<in> set es. btree_accepts e" "7 \<le> n"
  shows "\<exists>tb th.
    table_add_all SEARCH_BTREE_TABLE es (SearchTableCreate m SEARCH_BTREE_TABLE h) = Inr tb \<and>
    table_add_all SEARCH_HASH_TABLE es (SearchTableCreate n SEARCH_HASH_TABLE h) = Inr th \<and>
    (\<forall>k. NUL \<notin> set k \<longrightarrow>
      table_find SEARCH_BTREE_TABLE tb k = table_find SEARCH_HASH_TABLE th k \<and>
      table_find SEARCH_HASH_TABLE th k =
        Inr (map_option btree_stored (find (\<lambda>e. ekey (btree_item e) = k) es)))"
proof -
  let ?b = "BtreeTableCreate m h :: 'd search_table" and ?h = "HashTableCreate n h :: 'd search_table"
  let ?f = "\<lambda>k. map_option btree_stored (find (\<lambda>e. ekey (btree_item e) = k) es)"
  have a: "\<forall>e \<in> set es. hash_accepts e" using assms(1) accepts_both by blast
  note ib = btree_create_inv [of m h, where 'a = 'd] and ih = hash_inv_create [OF assms(2), of h, where 'a = 'd]
  have "btree_lookup (btree.insert_all es ?b) k = ?f k" for k
    using btree.lookup_insert_all [OF ib assms(1), of k] btree_lookup_None [OF ib, of k]
    by (simp add: entries_create comp_def)
  moreover have "hash_lookup (hash.insert_all es ?h) k = ?f k" for k
  proof -
    have "find (\<lambda>e. ekey (hash_item e) = k) es = find (\<lambda>e. ekey (btree_item e) = k) es"
      by (rule find_cong) (simp_all add: accepts_both(2) assms(1) [rule_format])
    moreover have "map_option hash_stored (find P es) = map_option btree_stored (find P es)" for P
      using assms(1)
      by (induction es) (simp_all add: accepts_both(3))
    ultimately show ?thesis
      using hash.lookup_insert_all [OF ih a, of k] hash_lookup_None [OF ih, of k]
      by (simp add: hash_entries_create comp_def)
  qed
  moreover note btree.invar_insert_all [OF ib assms(1)] hash.invar_insert_all [OF ih a]
  ultimately show ?thesis using btree_add_all [OF ib assms(1)] hash_add_all [OF ih a]
    by (simp add: SearchTableCreate_def btree_find_lookup hash_find_lookup)
qed

theorem search_tables_agree_witness:
  "\<exists>tb th. table_add_all SEARCH_BTREE_TABLE [key_entry ''b'' 1, key_entry ''b'' 2]
      (SearchTableCreate 1 SEARCH_BTREE_TABLE True) = Inr tb \<and>
    table_add_all SEARCH_HASH_TABLE [key_entry ''b'' 1, key_entry ''b'' 2]
      (SearchTableCreate 7 SEARCH_HASH_TABLE True) = Inr th \<and>
    table_find SEARCH_BTREE_TABLE tb ''b'' = Inr (Some (btree_stored (key_entry ''b'' 1))) \<and>
    table_find SEARCH_HASH_TABLE th ''c'' = Inr None"
proof -
  have "\<forall>e \<in> set [key_entry ''b'' 1, key_entry ''b'' 2]. btree_accepts e" by (simp add: accepts_key_entry)
  from search_tables_agree [OF this, of 7 1 True] obtain tb th where t:
    "table_add_all SEARCH_BTREE_TABLE [key_entry ''b'' 1, key_entry ''b'' 2]
      (SearchTableCreate 1 SEARCH_BTREE_TABLE True) = Inr tb"
    "table_add_all SEARCH_HASH_TABLE [key_entry ''b'' 1, key_entry ''b'' 2]
      (SearchTableCreate 7 SEARCH_HASH_TABLE True) = Inr th"
    and f: "\<And>k. NUL \<notin> set k \<Longrightarrow>
      table_find SEARCH_BTREE_TABLE tb k = table_find SEARCH_HASH_TABLE th k \<and>
      table_find SEARCH_HASH_TABLE th k = Inr (map_option btree_stored
        (find (\<lambda>e. ekey (btree_item e) = k) [key_entry ''b'' 1, key_entry ''b'' 2]))"
    by auto
  have "ekey (btree_item (key_entry ''b'' 1)) = ''b''" "ekey (btree_item (key_entry ''b'' 2)) = ''b''"
    by code_simp+
  with t f [of "''b''"] f [of "''c''"] show ?thesis by auto
qed

end
