(* ===== verification/LongStr.thy ===== *)
theory LongStr
  imports Prelude
begin

text \<open>
  The growing strings of \<open>misc/libutils/longstr.c\<close>.

  A \<open>LongString\<close> keeps what it believes to be the size of its buffer in \<open>allocated\<close>; the
  buffer itself is a block of cells with a size of its own, a cell that was never written
  being \<open>None\<close>.  Every access is checked against the block, so a \<open>LongString\<close> whose
  \<open>allocated\<close> is out of step with its block shows.  Buffers stay below \<open>2 ^ 31\<close> bytes, so
  that the \<open>int\<close> and \<open>unsigned int\<close> sizes do not wrap; the 16 bit fields do wrap.
  Allocation does not fail (\<open>ckalloc\<close> ends the program).

  A string argument is the bytes of an object that ends with a NUL of its own after them.
  The returned \<open>char *\<close> is \<open>True\<close> for the buffer and \<open>False\<close> for NULL.
\<close>

section \<open>Blocks\<close>

type_synonym block = "char option list"

definition store :: "block \<Rightarrow> nat \<Rightarrow> char \<Rightarrow> ub + block" where
  "store b i c = (if i < length b then Inr (b[i := Some c]) else Inl OutOfBounds)"

definition load :: "block \<Rightarrow> nat \<Rightarrow> ub + char" where
  "load b i =
     (if i < length b then (case b ! i of None \<Rightarrow> Inl Uninitialised | Some c \<Rightarrow> Inr c)
      else Inl OutOfBounds)"

definition block_alloc :: "nat \<Rightarrow> block" where
  "block_alloc n = replicate n None"

definition block_realloc :: "block \<Rightarrow> nat \<Rightarrow> block" where
  "block_realloc b n = take n b @ replicate (n - length b) None"

text \<open>\<open>memcpy\<close> of \<open>n\<close> bytes from an object to position \<open>i\<close>.\<close>

definition block_memcpy :: "block \<Rightarrow> nat \<Rightarrow> string \<Rightarrow> nat \<Rightarrow> ub + block" where
  "block_memcpy b i s n =
     (if n \<le> length s + 1 \<and> i + n \<le> length b
      then Inr (take i b @ map Some (take n (s @ [NUL])) @ drop (i + n) b)
      else Inl OutOfBounds)"

section \<open>The structure\<close>

text \<open>A field pointer: into the string's own buffer, into the argument of \<open>split\<close>, or into
  the buffer of the string this one was duplicated from.\<close>

datatype fptr = Own nat | Arg nat | Dup_of fptr

record long_string =
  allocated :: nat
  slot_size :: nat
  total_fields :: nat
  allocated_field_pointers :: nat
  len :: nat
  buf :: "block option"
  field_value :: "fptr option list option"
  field_size :: "16 word option list option"

definition STRING_SLOT_SIZE :: nat where "STRING_SLOT_SIZE = 500"
definition FIELD_POINTER_SLOT_SIZE :: nat where "FIELD_POINTER_SLOT_SIZE = 15"

definition LongStringInit :: "nat \<Rightarrow> long_string" where
  "LongStringInit siz =
     \<lparr>allocated = 0,
      slot_size = (if siz > 0 then siz mod 65536 else STRING_SLOT_SIZE),
      total_fields = 0, allocated_field_pointers = 0, len = 0, buf = None,
      field_value = None, field_size = None\<rparr>"

definition LongStringFree :: "long_string \<Rightarrow> long_string" where
  "LongStringFree str =
     str\<lparr>buf := None, field_value := None, field_size := None,
         allocated := 0, allocated_field_pointers := 0, total_fields := 0, len := 0\<rparr>"

definition LongStringMakespace :: "long_string \<Rightarrow> nat \<Rightarrow> ub + long_string \<times> bool" where
  "LongStringMakespace str siz =
     (let siz = siz + 1 in
      case buf str of
        None \<Rightarrow>
          sbind (store (block_alloc (siz + slot_size str)) 0 NUL) (\<lambda>b.
          Inr (str\<lparr>allocated := siz + slot_size str, buf := Some b\<rparr>, True))
      | Some b \<Rightarrow>
          if allocated str < siz then
            Inr (str\<lparr>allocated := siz + slot_size str,
                     buf := Some (block_realloc b (siz + slot_size str))\<rparr>, True)
          else Inr (str, True))"

definition LongStringMin :: "long_string \<Rightarrow> long_string \<times> bool" where
  "LongStringMin str =
     (case buf str of
        None \<Rightarrow> (str, False)
      | Some b \<Rightarrow> (str\<lparr>buf := Some (block_realloc b (len str + 1))\<rparr>, True))"

section \<open>Appending\<close>

text \<open>The inner loop \<open>while (s-- > 0 && *pi)\<close>.\<close>

fun copy_loop :: "block \<Rightarrow> nat \<Rightarrow> int \<Rightarrow> string \<Rightarrow> ub + block \<times> nat \<times> string" where
  "copy_loop b po s [] = Inr (b, po, [])"
| "copy_loop b po s (c # pi) =
     (if s > 0 \<and> c \<noteq> NUL
      then sbind (store b po c) (\<lambda>b. copy_loop b (po + 1) (s - 1) pi)
      else Inr (b, po, c # pi))"

definition at_end :: "string \<Rightarrow> bool" where
  "at_end pi = (case pi of [] \<Rightarrow> True | c # _ \<Rightarrow> c = NUL)"

text \<open>The outer loop, with one unit of fuel per round.\<close>

fun append_loop ::
    "nat \<Rightarrow> nat \<Rightarrow> nat \<Rightarrow> block \<Rightarrow> nat \<Rightarrow> string \<Rightarrow> ub + nat \<times> block \<times> nat" where
  "append_loop 0 slot al b po pi = Inl NoReturn"
| "append_loop (Suc n) slot al b po pi =
     sbind (copy_loop b po (int al - int po - 1) pi) (\<lambda>(b, po, pi).
     if at_end pi then Inr (al, b, po)
     else append_loop n slot (al + slot) (block_realloc b (al + slot)) po pi)"

definition append_str :: "long_string \<Rightarrow> string \<Rightarrow> ub + long_string \<times> bool" where
  "append_str str string =
     (let str =
        (case buf str of
           None \<Rightarrow> str\<lparr>allocated := slot_size str, buf := Some (block_alloc (slot_size str))\<rparr>
         | Some b \<Rightarrow> str) in
      sbind (append_loop (len str + length string + 2) (slot_size str) (allocated str)
               (the (buf str)) (len str) string) (\<lambda>(al, b, po).
      sbind (store b po NUL) (\<lambda>b.
      Inr (str\<lparr>allocated := al, buf := Some b, len := po\<rparr>, True))))"

definition append_mem :: "long_string \<Rightarrow> string \<Rightarrow> nat \<Rightarrow> ub + long_string \<times> bool" where
  "append_mem str string n =
     (let str =
        (if int n \<ge> int (allocated str) - int (len str) then
           (case buf str of
              Some b \<Rightarrow>
                str\<lparr>allocated := allocated str + (n + slot_size str),
                    buf := Some (block_realloc b (allocated str + (n + slot_size str)))\<rparr>
            | None \<Rightarrow>
                str\<lparr>allocated := n + slot_size str, buf := Some (block_alloc (n + slot_size str))\<rparr>)
         else str) in
      case buf str of
        None \<Rightarrow> Inl OutOfBounds
      | Some b \<Rightarrow>
          sbind (block_memcpy b (len str) string n) (\<lambda>b.
          sbind (store b (len str + n) NUL) (\<lambda>b.
          Inr (str\<lparr>buf := Some b, len := len str + n\<rparr>, True))))"

definition LongStringAppend :: "long_string \<Rightarrow> string \<Rightarrow> int \<Rightarrow> ub + long_string \<times> bool" where
  "LongStringAppend str string n =
     (if n = 0 then Inr (str, buf str \<noteq> None)
      else if n < 0 then append_str str string
      else append_mem str string (nat n))"

definition LongStringCopy :: "long_string \<Rightarrow> string \<Rightarrow> int \<Rightarrow> ub + long_string \<times> bool" where
  "LongStringCopy str string n = LongStringAppend (str\<lparr>len := 0\<rparr>) string n"

fun append_all :: "long_string \<Rightarrow> bool \<Rightarrow> string list \<Rightarrow> ub + long_string \<times> bool" where
  "append_all str pe [] = Inr (str, pe)"
| "append_all str pe (s # ss) =
     sbind (LongStringAppend str s (-1)) (\<lambda>(str, pe). append_all str pe ss)"

definition LongStringAppendStrings :: "long_string \<Rightarrow> string list \<Rightarrow> ub + long_string \<times> bool" where
  "LongStringAppendStrings str ss = append_all str False ss"

definition LongStringCopyStrings :: "long_string \<Rightarrow> string list \<Rightarrow> ub + long_string \<times> bool" where
  "LongStringCopyStrings str ss = append_all (str\<lparr>len := 0\<rparr>) False ss"

section \<open>Trimming\<close>

text \<open>\<open>strchr (trim_pat, c)\<close> also finds the terminating NUL.\<close>

definition in_pat :: "string \<Rightarrow> char \<Rightarrow> bool" where
  "in_pat pat c \<longleftrightarrow> c = NUL \<or> c \<in> set pat"

function skip_leading :: "string \<Rightarrow> block \<Rightarrow> nat \<Rightarrow> ub + nat" where
  "skip_leading pat b i =
     (if i < length b then
        sbind (load b i) (\<lambda>c. if c \<noteq> NUL \<and> in_pat pat c then skip_leading pat b (i + 1) else Inr i)
      else Inl OutOfBounds)"
  by pat_completeness auto
termination by (relation "measure (\<lambda>(pat, b, i). length b - i)") auto

declare skip_leading.simps [simp del]

text \<open>\<open>i\<close> counts from \<open>pbeg\<close> to \<open>pend\<close>.\<close>

fun skip_trailing :: "string \<Rightarrow> block \<Rightarrow> nat \<Rightarrow> nat \<Rightarrow> ub + nat" where
  "skip_trailing pat b pbeg 0 = Inr 0"
| "skip_trailing pat b pbeg (Suc i) =
     sbind (load b (pbeg + Suc i)) (\<lambda>c.
     if in_pat pat c then skip_trailing pat b pbeg i else Inr (Suc i))"

definition default_trim :: string where
  "default_trim = [CHR '' '', TAB, LF, CR]"

definition block_memmove :: "block \<Rightarrow> nat \<Rightarrow> nat \<Rightarrow> ub + block" where
  "block_memmove b src n =
     (if src + n \<le> length b then Inr (take n (drop src b) @ drop n b) else Inl OutOfBounds)"

definition LongStringTrim :: "long_string \<Rightarrow> string option \<Rightarrow> ub + long_string \<times> bool" where
  "LongStringTrim str trim_pat =
     (case buf str of
        None \<Rightarrow> Inr (str, False)
      | Some b \<Rightarrow>
          let pat = (case trim_pat of None \<Rightarrow> default_trim | Some p \<Rightarrow> p) in
          sbind (skip_leading pat b 0) (\<lambda>pbeg.
          sbind (if len str < pbeg + 1 then Inr 0
                 else sbind (skip_trailing pat b pbeg (len str - 1 - pbeg)) (\<lambda>i. Inr (i + 1))) (\<lambda>n.
          sbind (if pbeg > 0 then block_memmove b pbeg n else Inr b) (\<lambda>b.
          sbind (store b n NUL) (\<lambda>b.
          Inr (str\<lparr>buf := Some b, len := n\<rparr>, True))))))"

section \<open>Reading\<close>

text \<open>The inner loop of \<open>fgets\<close>: the stream is the list of the bytes still to be read; the last
  character read is returned, \<open>None\<close> for EOF.\<close>

fun fgets_loop ::
    "block \<Rightarrow> nat \<Rightarrow> int \<Rightarrow> char option \<Rightarrow> string \<Rightarrow> ub + block \<times> nat \<times> int \<times> char option \<times> string" where
  "fgets_loop b po s c [] = Inr (b, po, s, (if s > 0 then None else c), [])"
| "fgets_loop b po s c (x # fp) =
     (if s > 0 then
        if x = LF then Inr (b, po, s, Some LF, fp)
        else if x \<noteq> CR then
          sbind (store b po x) (\<lambda>b. fgets_loop b (po + 1) (s - 1) (Some x) fp)
        else fgets_loop b po s (Some x) fp
      else Inr (b, po, s, c, x # fp))"

fun fgets_outer ::
    "nat \<Rightarrow> nat \<Rightarrow> nat \<Rightarrow> block \<Rightarrow> nat \<Rightarrow> int \<Rightarrow> char option \<Rightarrow> string \<Rightarrow>
     ub + nat \<times> block \<times> nat \<times> char option \<times> string" where
  "fgets_outer 0 slot al b po s c fp = Inl NoReturn"
| "fgets_outer (Suc n) slot al b po s c fp =
     sbind (fgets_loop b po s c fp) (\<lambda>(b, po, s, c, fp).
     if s \<noteq> 0 then Inr (al, b, po, c, fp)
     else fgets_outer n slot (al + slot) (block_realloc b (al + slot)) po
            (int (al + slot) - int po - 1) c fp)"

definition LongStringFgets :: "long_string \<Rightarrow> string \<Rightarrow> ub + long_string \<times> bool \<times> string" where
  "LongStringFgets str fp =
     (let str =
        (case buf str of
           None \<Rightarrow> str\<lparr>allocated := slot_size str, buf := Some (block_alloc (slot_size str))\<rparr>
         | Some b \<Rightarrow> str) in
      sbind (fgets_outer (length fp + 2) (slot_size str) (allocated str) (the (buf str)) 0
               (int (allocated str) - 1) None fp) (\<lambda>(al, b, po, c, fp).
      sbind (store b po NUL) (\<lambda>b.
      let str = str\<lparr>allocated := al, buf := Some b, len := po\<rparr> in
      Inr (str, \<not> (c = None \<and> po = 0), fp))))"

text \<open>The outcome of opening a file: the size it states and what the reads deliver.\<close>

datatype infile = Open_fails | Stat_fails | File nat "string list"

fun read_loop :: "block \<Rightarrow> nat \<Rightarrow> nat \<Rightarrow> string list \<Rightarrow> ub + block" where
  "read_loop b p n [] = Inr b"
| "read_loop b p n (chunk # chunks) =
     (if n > 0 \<and> chunk \<noteq> [] then
        let chunk = take n chunk in
        sbind (block_memcpy b p chunk (length chunk)) (\<lambda>b.
        read_loop b (p + length chunk) (n - length chunk) chunks)
      else Inr b)"

definition LongStringReadFile :: "long_string \<Rightarrow> infile \<Rightarrow> ub + long_string \<times> bool" where
  "LongStringReadFile str f =
     (case f of
        Open_fails \<Rightarrow> Inr (LongStringFree str, False)
      | Stat_fails \<Rightarrow> Inr (LongStringFree str, False)
      | File st_size reads \<Rightarrow>
          let b = (case buf str of
                     None \<Rightarrow> block_alloc (st_size + 1)
                   | Some b \<Rightarrow> block_realloc b (st_size + 1)) in
          sbind (read_loop b 0 st_size reads) (\<lambda>b.
          sbind (store b st_size NUL) (\<lambda>b.
          Inr (str\<lparr>buf := Some b, len := st_size\<rparr>, True))))"

section \<open>Splitting\<close>

definition aget :: "'a option list \<Rightarrow> nat \<Rightarrow> ub + 'a" where
  "aget a i =
     (if i < length a then (case a ! i of None \<Rightarrow> Inl Uninitialised | Some x \<Rightarrow> Inr x)
      else Inl OutOfBounds)"

definition aset :: "'a option list \<Rightarrow> nat \<Rightarrow> 'a \<Rightarrow> ub + 'a option list" where
  "aset a i x = (if i < length a then Inr (a[i := Some x]) else Inl OutOfBounds)"

definition arealloc :: "'a option list \<Rightarrow> nat \<Rightarrow> 'a option list" where
  "arealloc a n = take n a @ replicate (n - length a) None"

fun fptr_offset :: "fptr \<Rightarrow> nat" where
  "fptr_offset (Own i) = i"
| "fptr_offset (Arg i) = i"
| "fptr_offset (Dup_of q) = fptr_offset q"

function block_strlen :: "block \<Rightarrow> nat \<Rightarrow> ub + nat" where
  "block_strlen b i =
     (if i < length b then
        sbind (load b i) (\<lambda>c. if c = NUL then Inr 0
          else sbind (block_strlen b (i + 1)) (\<lambda>n. Inr (n + 1)))
      else Inl OutOfBounds)"
  by pat_completeness auto
termination by (relation "measure (\<lambda>(b, i). length b - i)") auto

declare block_strlen.simps [simp del]

text \<open>The bytes that are scanned, the two field arrays, the number of pointers they are
  believed to hold, and the index of the current field.\<close>

record split_state =
  sp_mem :: block
  sp_value :: "fptr option list"
  sp_size :: "16 word option list"
  sp_alloc :: nat
  sp_cou :: nat

definition put_size :: "nat \<Rightarrow> split_state \<Rightarrow> ub + split_state" where
  "put_size p st =
     sbind (aget (sp_value st) (sp_cou st)) (\<lambda>q.
     sbind (aset (sp_size st) (sp_cou st) (word_of_int (int p - int (fptr_offset q)))) (\<lambda>a.
     Inr (st\<lparr>sp_size := a\<rparr>)))"

definition grow_fields :: "split_state \<Rightarrow> split_state" where
  "grow_fields st =
     (if sp_cou st + 1 = sp_alloc st then
        let al = (sp_alloc st + FIELD_POINTER_SLOT_SIZE) mod 65536 in
        st\<lparr>sp_alloc := al, sp_value := arealloc (sp_value st) al, sp_size := arealloc (sp_size st) al\<rparr>
      else st)"

text \<open>What the loop does at a separator at \<open>p\<close>, up to the test of \<open>maxfields\<close>.\<close>

definition next_field :: "(nat \<Rightarrow> fptr) \<Rightarrow> bool \<Rightarrow> nat \<Rightarrow> split_state \<Rightarrow> ub + split_state" where
  "next_field mk dup_flag p st =
     sbind (if dup_flag then store (sp_mem st) p NUL else Inr (sp_mem st)) (\<lambda>m.
     sbind (put_size p (grow_fields (st\<lparr>sp_mem := m\<rparr>))) (\<lambda>st.
     sbind (aset (sp_value st) (sp_cou st + 1) (mk (p + 1))) (\<lambda>v.
     Inr (st\<lparr>sp_value := v, sp_cou := sp_cou st + 1\<rparr>))))"

text \<open>The end of the rest of the string, which is taken as one field.\<close>

definition rest_end :: "nat \<Rightarrow> bool \<Rightarrow> int \<Rightarrow> block \<Rightarrow> nat \<Rightarrow> ub + nat" where
  "rest_end l dup_flag n m p =
     (if dup_flag then Inr l
      else if n > 0 then Inr (nat n + 1)
      else sbind (block_strlen m p) (\<lambda>k. Inr (p + k + 1)))"

lemma sbind_cong [fundef_cong]:
  "m = m' \<Longrightarrow> (\<And>x. m' = Inr x \<Longrightarrow> f x = g x) \<Longrightarrow> sbind m f = sbind m' g"
  by (cases m') auto

lemma length_store: "store b i c = Inr b' \<Longrightarrow> length b' = length b"
  by (auto simp: store_def split: if_splits)

lemma next_field_mem:
  "next_field mk d p st = Inr st' \<Longrightarrow>
   sp_mem st' = (if d then (sp_mem st)[p := Some NUL] else sp_mem st) \<and>
   sp_cou st' = sp_cou st + 1 \<and> (d \<longrightarrow> p < length (sp_mem st))"
  by (auto simp: next_field_def put_size_def grow_fields_def store_def Let_def split: if_splits)

function split_loop ::
    "(nat \<Rightarrow> fptr) \<Rightarrow> nat \<Rightarrow> int \<Rightarrow> bool \<Rightarrow> char \<Rightarrow> int \<Rightarrow> nat \<Rightarrow> split_state \<Rightarrow>
     ub + split_state \<times> nat" where
  "split_loop mk l n dup_flag sep maxfields p st =
     (if p < length (sp_mem st) then
        sbind (load (sp_mem st) p) (\<lambda>c.
        if c = NUL then Inr (st, p)
        else if c = sep then
          sbind (next_field mk dup_flag p st) (\<lambda>st'.
          if maxfields > 0 \<and> int (sp_cou st') = maxfields - 1
          then sbind (rest_end l dup_flag n (sp_mem st') p) (\<lambda>p. Inr (st', p))
          else split_loop mk l n dup_flag sep maxfields (p + 1) st')
        else split_loop mk l n dup_flag sep maxfields (p + 1) st)
      else Inl OutOfBounds)"
  by pat_completeness auto
termination
  by (relation "measure (\<lambda>(mk, l, n, d, sep, mf, p, st). length (sp_mem st) - p)")
    (auto dest!: next_field_mem split: if_splits)

declare split_loop.simps [simp del]

definition split_fields ::
    "(nat \<Rightarrow> fptr) \<Rightarrow> block \<Rightarrow> long_string \<Rightarrow> int \<Rightarrow> bool \<Rightarrow> char \<Rightarrow> int \<Rightarrow>
     ub + long_string \<times> block" where
  "split_fields mk m str n dup_flag sep maxfields =
     (let (al, v, a) =
        (case (field_value str, field_size str) of
           (Some v, Some a) \<Rightarrow> (allocated_field_pointers str, v, a)
         | _ \<Rightarrow> (FIELD_POINTER_SLOT_SIZE, replicate FIELD_POINTER_SLOT_SIZE None,
                 replicate FIELD_POINTER_SLOT_SIZE None)) in
      sbind (aset v 0 (mk 0)) (\<lambda>v.
      sbind (split_loop mk (len str) n dup_flag sep maxfields 0
               \<lparr>sp_mem = m, sp_value = v, sp_size = a, sp_alloc = al, sp_cou = 0\<rparr>) (\<lambda>(st, p).
      sbind (put_size p st) (\<lambda>st.
      Inr (str\<lparr>field_value := Some (sp_value st), field_size := Some (sp_size st),
               allocated_field_pointers := sp_alloc st,
               total_fields := (sp_cou st + 1) mod 65536\<rparr>, sp_mem st)))))"

text \<open>The argument is \<open>None\<close> when it is the string's own buffer.\<close>

definition LongStringSplit ::
    "long_string \<Rightarrow> string option \<Rightarrow> int \<Rightarrow> bool \<Rightarrow> char \<Rightarrow> int \<Rightarrow> ub + long_string \<times> nat" where
  "LongStringSplit str string n dup_flag separator maxfields =
     (case (dup_flag, string) of
        (False, Some s) \<Rightarrow>
          sbind (split_fields Arg (map Some (s @ [NUL])) str n False separator maxfields)
            (\<lambda>(str, m). Inr (str, total_fields str))
      | _ \<Rightarrow>
          sbind (case string of
                   None \<Rightarrow> Inr str
                 | Some s \<Rightarrow> sbind (LongStringCopy str s n) (\<lambda>(str, p). Inr str)) (\<lambda>str.
          case buf str of
            None \<Rightarrow> Inl OutOfBounds
          | Some b \<Rightarrow>
              sbind (split_fields Own b str n dup_flag separator maxfields) (\<lambda>(str, b).
              let str = str\<lparr>buf := Some b\<rparr> in Inr (str, total_fields str))))"

text \<open>\<open>LongStringDup (ostr, istr)\<close> returns both strings.\<close>

definition LongStringDup :: "long_string \<Rightarrow> ub + long_string \<times> long_string \<times> bool" where
  "LongStringDup istr =
     (let ostr = istr in
      sbind (case buf istr of
               None \<Rightarrow> Inr ostr
             | Some b \<Rightarrow>
                 if len istr + 1 \<le> length b
                 then Inr (ostr\<lparr>buf := Some (take (len istr + 1) b), allocated := len istr + 1\<rparr>)
                 else Inl OutOfBounds) (\<lambda>ostr.
      case (field_value istr, field_size istr) of
        (Some v, Some a) \<Rightarrow>
          let istr = istr\<lparr>allocated_field_pointers := total_fields istr\<rparr>;
              k = allocated_field_pointers istr in
          if k \<le> length v \<and> k \<le> length a
          then Inr (ostr\<lparr>field_value := Some (map (map_option Dup_of) (take k v)),
                         field_size := Some (take k a)\<rparr>, istr, buf ostr \<noteq> None)
          else Inl OutOfBounds
      | _ \<Rightarrow> Inr (ostr, istr, buf ostr \<noteq> None)))"

end
