(* ===== verification/LongStr_Props.thy ===== *)
theory LongStr_Props
  imports LongStr
begin

text \<open>
  What the growing strings promise: the text that a \<open>LongString\<close> stands for, the effect of
  every operation on it, and the operations that leave \<open>allocated\<close> out of step with the block.
\<close>

section \<open>The text of a string\<close>

text \<open>\<open>ls_buf\<close>: the block has the stated size and starts with the text.  \<open>ls_repr\<close>: the text is
  also terminated.\<close>

definition ls_buf :: "long_string \<Rightarrow> string \<Rightarrow> bool" where
  "ls_buf str s \<longleftrightarrow> slot_size str > 0 \<and> len str = length s \<and>
     (case buf str of
        None \<Rightarrow> allocated str = 0 \<and> s = []
      | Some b \<Rightarrow> length b = allocated str \<and> length s < length b \<and> take (length s) b = map Some s)"

definition ls_repr :: "long_string \<Rightarrow> string \<Rightarrow> bool" where
  "ls_repr str s \<longleftrightarrow> ls_buf str s \<and> (\<forall>b. buf str = Some b \<longrightarrow> b ! length s = Some NUL)"

definition upto_NUL :: "string \<Rightarrow> string" where
  "upto_NUL s = takeWhile (\<lambda>c. c \<noteq> NUL) s"

lemma upto_NUL_simps [simp]:
  "upto_NUL [] = []" "upto_NUL (c # s) = (if c = NUL then [] else c # upto_NUL s)"
  by (simp_all add: upto_NUL_def)

lemma upto_NUL_id [simp]: "NUL \<notin> set s \<Longrightarrow> upto_NUL s = s"
  by (induction s) auto

lemma length_upto_NUL: "length (upto_NUL s) \<le> length s"
  by (simp add: upto_NUL_def length_takeWhile_le)

lemma upto_NUL_drop: "k \<le> length (upto_NUL s) \<Longrightarrow> upto_NUL (drop k s) = drop k (upto_NUL s)"
proof (induction s arbitrary: k)
  case (Cons c s)
  then show ?case by (cases k) (auto split: if_splits)
qed simp

lemma at_end_upto: "at_end s \<longleftrightarrow> upto_NUL s = []"
  by (simp add: at_end_def split: list.splits)

lemma take_store_snoc:
  "i < length b \<Longrightarrow> take (Suc i) (b[i := Some c]) = take i b @ [Some c]"
  by (simp add: take_Suc_conv_app_nth)

lemma block_realloc_grow:
  assumes "length b \<le> n"
  shows "length (block_realloc b n) = n" "i \<le> length b \<Longrightarrow> take i (block_realloc b n) = take i b"
  using assms by (simp_all add: block_realloc_def)

section \<open>Appending\<close>

lemma copy_loop_ok:
  assumes "po < length b" "k = min (length (upto_NUL pi)) (length b - po - 1)"
  shows "\<exists>b'. copy_loop b po (int (length b) - int po - 1) pi = Inr (b', po + k, drop k pi) \<and>
    length b' = length b \<and> take (po + k) b' = take po b @ map Some (take k (upto_NUL pi))"
  using assms
proof (induction pi arbitrary: b po k)
  case (Cons c pi)
  show ?case
  proof (cases "po + 1 < length b \<and> c \<noteq> NUL")
    case False
    then have "k = 0" using Cons.prems by auto
    with False Cons.prems show ?thesis by auto
  next
    case True
    define j where "j = min (length (upto_NUL pi)) (length (b[po := Some c]) - (po + 1) - 1)"
    have k: "k = Suc j" using True Cons.prems by (auto simp: j_def)
    have "po + 1 < length (b[po := Some c])" using True by simp
    from Cons.IH [OF this j_def] obtain b' where
      "copy_loop (b[po := Some c]) (po + 1) (int (length b) - int (po + 1) - 1) pi =
         Inr (b', po + 1 + j, drop j pi)" "length b' = length b"
      "take (po + 1 + j) b' = take (po + 1) (b[po := Some c]) @ map Some (take j (upto_NUL pi))"
      by auto
    moreover have "int (length b) - int po - 1 - 1 = int (length b) - int (po + 1) - 1" by simp
    ultimately show ?thesis using True k by (simp add: store_def take_store_snoc)
  qed
qed auto

lemma append_loop_ok:
  assumes "slot > 0" "po < length b" "length (upto_NUL pi) + (if length b = po + 1 then 1 else 0) < n"
  shows "\<exists>al b'. append_loop n slot (length b) b po pi = Inr (al, b', po + length (upto_NUL pi)) \<and>
    length b' = al \<and> po + length (upto_NUL pi) < al \<and>
    take (po + length (upto_NUL pi)) b' = take po b @ map Some (upto_NUL pi)"
  using assms
proof (induction n arbitrary: b po pi)
  case (Suc n)
  define k where "k = min (length (upto_NUL pi)) (length b - po - 1)"
  obtain b' where b': "copy_loop b po (int (length b) - int po - 1) pi = Inr (b', po + k, drop k pi)"
    "length b' = length b" "take (po + k) b' = take po b @ map Some (take k (upto_NUL pi))"
    using copy_loop_ok [OF Suc.prems(2) k_def] by blast
  have kl: "k \<le> length (upto_NUL pi)" by (simp add: k_def)
  show ?case
  proof (cases "k = length (upto_NUL pi)")
    case True
    then have "at_end (drop k pi)" by (simp add: at_end_upto upto_NUL_drop)
    with b' True Suc.prems show ?thesis by (auto simp: k_def)
  next
    case False
    then have kb: "k = length b - po - 1" "k < length (upto_NUL pi)" by (simp_all add: k_def min_def split: if_splits)
    have ne: "\<not> at_end (drop k pi)" using kb(2) by (simp add: at_end_upto upto_NUL_drop)
    define b2 where "b2 = block_realloc b' (length b + slot)"
    have b2: "length b2 = length b + slot" "take (po + k) b2 = take (po + k) b'"
      unfolding b2_def using b'(2) kb Suc.prems(2) by (subst block_realloc_grow; simp)+
    have u: "upto_NUL (drop k pi) = drop k (upto_NUL pi)" using kl by (rule upto_NUL_drop)
    have "length (upto_NUL (drop k pi)) = length (upto_NUL pi) - k" by (simp add: u)
    then have "po + k < length b2" "length (upto_NUL (drop k pi)) +
        (if length b2 = po + k + 1 then 1 else 0) < n"
      using b2(1) kb Suc.prems by (simp_all split: if_splits) arith
    from Suc.IH [OF Suc.prems(1) this] obtain al b3 where
      "append_loop n slot (length b2) b2 (po + k) (drop k pi) = Inr (al, b3, po + length (upto_NUL pi))"
      "length b3 = al" "po + length (upto_NUL pi) < al"
      "take (po + length (upto_NUL pi)) b3 = take (po + k) b2 @ map Some (drop k (upto_NUL pi))"
      using kl by (auto simp: u)
    moreover have "take (po + k) b2 @ map Some (drop k (upto_NUL pi)) = take po b @ map Some (upto_NUL pi)"
      unfolding b2(2) b'(3) append_assoc map_append [symmetric] by simp
    ultimately show ?thesis using b'(1) ne by (simp add: b2(1) b2_def [symmetric])
  qed
qed simp

lemma append_str_ok:
  assumes "ls_buf str s"
  obtains str' where "append_str str t = Inr (str', True)" "ls_repr str' (s @ upto_NUL t)"
    "buf str' \<noteq> None"
proof -
  define u where "u = (case buf str of
      None \<Rightarrow> str\<lparr>allocated := slot_size str, buf := Some (block_alloc (slot_size str))\<rparr>
    | Some b \<Rightarrow> str)"
  obtain b where u: "buf u = Some b" "length b = allocated u" "length s < length b"
    "take (length s) b = map Some s" "slot_size u > 0" "len u = length s" "slot_size u = slot_size str"
    using assms by (auto simp: u_def ls_buf_def block_alloc_def split: option.splits)
  have "length (upto_NUL t) + (if length b = length s + 1 then 1 else 0) < len u + length t + 2"
    using length_upto_NUL [of t] by simp
  from append_loop_ok [OF u(5) u(3) this] obtain al b' where
    l: "append_loop (len u + length t + 2) (slot_size u) (allocated u) b (len u) t =
        Inr (al, b', length (s @ upto_NUL t))" "length b' = al" "length (s @ upto_NUL t) < al"
      "take (length (s @ upto_NUL t)) b' = map Some (s @ upto_NUL t)"
    using u by auto
  define str' where "str' = u\<lparr>allocated := al, buf := Some (b'[length (s @ upto_NUL t) := Some NUL]),
    len := length (s @ upto_NUL t)\<rparr>"
  have "append_str str t = Inr (str', True)"
    using l u(1) by (simp add: append_str_def u_def [symmetric] store_def str'_def
        del: append_loop.simps sbind_Inr_iff)
  moreover have "ls_repr str' (s @ upto_NUL t)"
    using l u by (simp add: ls_repr_def ls_buf_def str'_def)
  ultimately show thesis by (rule that) (simp add: str'_def)
qed

lemma block_memcpy_ok:
  assumes "n \<le> length t + 1" "i + n \<le> length b"
  obtains b' where "block_memcpy b i t n = Inr b'" "length b' = length b"
    "take (i + n) b' = take i b @ map Some (take n (t @ [NUL]))"
  using assms by (auto simp: block_memcpy_def)

lemma append_mem_ok:
  assumes "ls_buf str s" "n \<le> length t + 1"
  obtains str' where "append_mem str t n = Inr (str', True)" "ls_repr str' (s @ take n (t @ [NUL]))"
    "buf str' \<noteq> None"
proof -
  define x where "x = take n (t @ [NUL])"
  have x: "length x = n" using assms by (simp add: x_def)
  define u where "u = (if int n \<ge> int (allocated str) - int (len str) then
           (case buf str of
              Some b \<Rightarrow>
                str\<lparr>allocated := allocated str + (n + slot_size str),
                    buf := Some (block_realloc b (allocated str + (n + slot_size str)))\<rparr>
            | None \<Rightarrow>
                str\<lparr>allocated := n + slot_size str, buf := Some (block_alloc (n + slot_size str))\<rparr>)
         else str)"
  have "\<exists>b. buf u = Some b \<and> length b = allocated u \<and> length s + n < length b \<and>
    take (length s) b = map Some s \<and> slot_size u > 0 \<and> len u = length s"
    using assms(1) by (cases "buf str") (auto simp: u_def ls_buf_def block_alloc_def block_realloc_grow)
  then obtain b where u: "buf u = Some b" "length b = allocated u" "length s + n < length b"
    "take (length s) b = map Some s" "slot_size u > 0" "len u = length s" by blast
  obtain b' where b': "block_memcpy b (length s) t n = Inr b'" "length b' = length b"
    "take (length s + n) b' = map Some (s @ x)"
    using block_memcpy_ok [OF assms(2), of "length s" b] u(3,4) unfolding x_def by auto
  define str' where "str' = u\<lparr>buf := Some (b'[length s + n := Some NUL]), len := length s + n\<rparr>"
  have "append_mem str t n = Inr (str', True)"
    using b' u by (simp add: append_mem_def u_def [symmetric] store_def str'_def)
  moreover have "ls_repr str' (s @ x)"
    using b' u x by (simp add: ls_repr_def ls_buf_def str'_def)
  ultimately show thesis unfolding x_def by (rule that) (simp add: str'_def)
qed

text \<open>Every variant of \<open>append\<close>.\<close>

definition appended :: "string \<Rightarrow> string \<Rightarrow> int \<Rightarrow> string" where
  "appended s t n = s @ (if n < 0 then upto_NUL t else take (nat n) (t @ [NUL]))"

lemma LongStringAppend_ok:
  assumes "ls_repr str s" "n \<le> int (length t) + 1"
  obtains str' where "LongStringAppend str t n = Inr (str', n \<noteq> 0 \<or> buf str \<noteq> None)"
    "ls_repr str' (appended s t n)"
proof (cases "n = 0")
  case True
  with that assms show thesis by (simp add: LongStringAppend_def appended_def)
next
  case False
  have "ls_buf str s" using assms(1) by (simp add: ls_repr_def)
  with False assms(2) that show thesis
    by (cases "n < 0")
      (auto simp: LongStringAppend_def appended_def elim: append_str_ok [of str s t]
         append_mem_ok [of str s "nat n" t])
qed

section \<open>The contract of a text buffer\<close>

text \<open>A client that only appends strings relies on the following.\<close>

locale text_buffer =
  fixes repr :: "'b \<Rightarrow> string \<Rightarrow> bool"
    and append1 :: "'b \<Rightarrow> string \<Rightarrow> ub + 'b"
  assumes append1_repr: "repr b s \<Longrightarrow> \<exists>b'. append1 b t = Inr b' \<and> repr b' (s @ upto_NUL t)"
begin

fun append_seq :: "'b \<Rightarrow> string list \<Rightarrow> ub + 'b" where
  "append_seq b [] = Inr b"
| "append_seq b (t # ts) = sbind (append1 b t) (\<lambda>b. append_seq b ts)"

lemma append_seq_repr:
  "repr b s \<Longrightarrow> \<exists>b'. append_seq b ts = Inr b' \<and> repr b' (s @ concat (map upto_NUL ts))"
proof (induction ts arbitrary: b s)
  case (Cons t ts)
  from append1_repr [OF Cons.prems, of t] obtain b' where b': "append1 b t = Inr b'"
    "repr b' (s @ upto_NUL t)" by blast
  from Cons.IH [OF b'(2)] b'(1) show ?case by auto
qed simp

lemma append_seq_nonempty:
  assumes "\<And>b t b'. weak b s \<Longrightarrow> \<exists>b'. append1 b t = Inr b' \<and> repr b' (s @ upto_NUL t)"
    "weak b s" "ts \<noteq> []"
  shows "\<exists>b'. append_seq b ts = Inr b' \<and> repr b' (s @ concat (map upto_NUL ts))"
proof (cases ts)
  case (Cons t us)
  from assms(1) [OF assms(2), of t] obtain b' where b': "append1 b t = Inr b'"
    "repr b' (s @ upto_NUL t)" by blast
  from append_seq_repr [OF b'(2), of us] Cons b'(1) show ?thesis by auto
qed (use assms(3) in simp)

end

definition append_cstr :: "long_string \<Rightarrow> string \<Rightarrow> ub + long_string" where
  "append_cstr str t = map_sum id fst (LongStringAppend str t (-1))"

lemma append_cstr_ok:
  "ls_buf str s \<Longrightarrow> \<exists>str'. append_cstr str t = Inr str' \<and> ls_repr str' (s @ upto_NUL t)"
  by (rule append_str_ok [of str s t]) (auto simp: append_cstr_def LongStringAppend_def)

interpretation longstr: text_buffer ls_repr append_cstr
  by unfold_locales (rule append_cstr_ok, simp add: ls_repr_def)

lemma append_all_seq:
  "map_sum id fst (append_all str pe ts) = longstr.append_seq str ts"
proof (induction ts arbitrary: str pe)
  case (Cons t ts)
  show ?case
    by (cases "LongStringAppend str t (-1)")
      (auto simp: Cons.IH longstr.append_seq.simps append_cstr_def [of _ t] simp flip: id_def)
qed simp

section \<open>Trimming\<close>

definition trimmed :: "string \<Rightarrow> string \<Rightarrow> string" where
  "trimmed pat s = rev (dropWhile (in_pat pat) (rev (dropWhile (in_pat pat) s)))"

lemma load_repr:
  assumes "take n b = map Some s" "n \<le> length b" "i < n"
  shows "load b i = Inr (s ! i)"
proof -
  have "length s = n" using arg_cong [OF assms(1), of length] assms(2) by simp
  then have "map Some s ! i = Some (s ! i)" using assms(3) by simp
  moreover have "b ! i = take n b ! i" using assms(3) by simp
  ultimately have "b ! i = Some (s ! i)" using assms(1) by simp
  then show ?thesis using assms by (simp add: load_def)
qed

lemma skip_leading_ok:
  assumes "take (length s + 1) b = map Some (s @ [NUL])" "length s < length b" "NUL \<notin> set s" "i \<le> length s"
  shows "skip_leading pat b i = Inr (length s - length (dropWhile (in_pat pat) (drop i s)))"
  using assms
proof (induction pat b i rule: skip_leading.induct)
  case (1 pat b i)
  have ld: "load b i = Inr ((s @ [NUL]) ! i)"
    using "1.prems" by (intro load_repr [of "length s + 1"]) simp_all
  show ?case
  proof (cases "i = length s")
    case True
    then show ?thesis using ld "1.prems"(2) by (subst skip_leading.simps) simp
  next
    case False
    then have i: "i < length s" using "1.prems" by simp
    then have "s ! i \<noteq> NUL" using "1.prems"(3) nth_mem by metis
    moreover have "drop i s = s ! i # drop (Suc i) s" using i by (simp add: Cons_nth_drop_Suc)
    ultimately show ?thesis using i ld "1.prems" "1.IH" [of "s ! i"]
      by (subst skip_leading.simps) (simp add: nth_append)
  qed
qed

lemma skip_trailing_ok:
  assumes "take (length s) b = map Some s" "length s \<le> length b" "pbeg + i < length s"
    "\<not> in_pat pat (s ! pbeg)"
  shows "\<exists>j. skip_trailing pat b pbeg i = Inr j \<and> pbeg + j < length s \<and>
    take (Suc j) (drop pbeg s) = rev (dropWhile (in_pat pat) (rev (take (Suc i) (drop pbeg s))))"
  using assms(3)
proof (induction i)
  case 0
  then show ?case using assms(4) by (simp add: take_Suc_conv_app_nth)
next
  case (Suc i)
  have "load b (pbeg + Suc i) = Inr (s ! (pbeg + Suc i))"
    using assms(1,2) Suc.prems by (intro load_repr) simp_all
  with Suc show ?case by (auto simp: take_Suc_conv_app_nth)
qed

lemma ls_repr_block:
  assumes "ls_repr str s" "buf str = Some b"
  shows "take (length s + 1) b = map Some (s @ [NUL])" "take (length s) b = map Some s"
    "length s < length b" "length b = allocated str" "len str = length s" "slot_size str > 0"
  using assms by (auto simp: ls_repr_def ls_buf_def take_Suc_conv_app_nth)

lemma trim_middle:
  assumes "ls_repr str s" "buf str = Some b" "NUL \<notin> set s"
    "pbeg = length s - length (dropWhile (in_pat pat) s)"
  shows "\<exists>n. (if len str < pbeg + 1 then Inr 0
       else sbind (skip_trailing pat b pbeg (len str - 1 - pbeg)) (\<lambda>i. Inr (i + 1))) = Inr n \<and>
     pbeg + n \<le> length s \<and> take n (drop pbeg s) = trimmed pat s"
proof -
  note r = ls_repr_block [OF assms(1,2)]
  have d: "drop pbeg s = dropWhile (in_pat pat) s"
    using assms(4) by (metis append_eq_conv_conj diff_diff_cancel dropWhile_eq_drop length_drop
        length_takeWhile_le length_append add_diff_cancel_right' takeWhile_dropWhile_id)
  show ?thesis
  proof (cases "dropWhile (in_pat pat) s = []")
    case True
    moreover from this have "pbeg = length s" using assms(4) by (metis diff_zero list.size(3))
    ultimately show ?thesis using r(5) unfolding trimmed_def by (intro exI [of _ 0]) (simp del: dropWhile_eq_Nil_conv)
  next
    case False
    then have p: "pbeg < length s" using d by (metis drop_all linorder_not_le)
    have "s ! pbeg = hd (dropWhile (in_pat pat) s)" using p d by (metis hd_drop_conv_nth)
    then have np: "\<not> in_pat pat (s ! pbeg)" using False by (simp add: hd_dropWhile)
    have "pbeg + (len str - 1 - pbeg) < length s" using p r by simp
    from skip_trailing_ok [OF r(2) _ this np] r(3) obtain j where
      "skip_trailing pat b pbeg (len str - 1 - pbeg) = Inr j" "pbeg + j < length s"
      "take (Suc j) (drop pbeg s) =
        rev (dropWhile (in_pat pat) (rev (take (Suc (len str - 1 - pbeg)) (drop pbeg s))))"
      by auto
    moreover have "take (Suc (length s - Suc pbeg)) (dropWhile (in_pat pat) s) = dropWhile (in_pat pat) s"
      using p arg_cong [OF d, of length] by (intro take_all) simp
    ultimately show ?thesis using p r by (simp add: d trimmed_def)
  qed
qed

lemma LongStringTrim_ok:
  assumes "ls_repr str s" "buf str \<noteq> None" "NUL \<notin> set s"
  obtains str' where "LongStringTrim str pat = Inr (str', True)"
    "ls_repr str' (trimmed (case pat of None \<Rightarrow> default_trim | Some p \<Rightarrow> p) s)"
proof -
  obtain b where b: "buf str = Some b" using assms(2) by blast
  note r = ls_repr_block [OF assms(1) b]
  define pt where "pt = (case pat of None \<Rightarrow> default_trim | Some p \<Rightarrow> p)"
  define pbeg where "pbeg = length s - length (dropWhile (in_pat pt) s)"
  have l: "skip_leading pt b 0 = Inr pbeg"
    using skip_leading_ok [OF r(1,3) assms(3), of 0 pt] by (simp add: pbeg_def)
  from trim_middle [OF assms(1) b assms(3) pbeg_def] obtain n where
    n: "(if len str < pbeg + 1 then Inr 0
       else sbind (skip_trailing pt b pbeg (len str - 1 - pbeg)) (\<lambda>i. Inr (i + 1))) = Inr n"
    "pbeg + n \<le> length s" "take n (drop pbeg s) = trimmed pt s" by blast
  have ln: "length (trimmed pt s) = n" using n(2,3) by (metis add.commute diff_add_inverse2 length_drop
        length_take min.absorb2 nat_le_linear le_diff_conv2 add_leD1 add_le_imp_le_diff)
  define b2 where "b2 = (if pbeg > 0 then take n (drop pbeg b) @ drop n b else b)"
  have m: "(if pbeg > 0 then block_memmove b pbeg n else Inr b) = Inr b2"
    using n(2) r(3) by (simp add: b2_def block_memmove_def)
  have "take n (drop pbeg b) = take n (drop pbeg (take (length s) b))"
    using n(2) by (simp add: drop_take min_def)
  also have "\<dots> = map Some (trimmed pt s)" using n(3) by (simp add: r(2) drop_map take_map)
  finally have t: "take n (drop pbeg b) = map Some (trimmed pt s)" .
  have b2: "length b2 = length b" "take n b2 = map Some (trimmed pt s)"
    using n(2) r(3) t ln by (auto simp: b2_def)
  define str' where "str' = str\<lparr>buf := Some (b2[n := Some NUL]), len := n\<rparr>"
  have "n < length b2" using n(2) r(3) b2 by simp
  then have "LongStringTrim str pat = Inr (str', True)"
    using l n(1) m b by (simp add: LongStringTrim_def Let_def pt_def [symmetric] store_def str'_def
        del: sbind_Inr_iff)
  moreover have "ls_repr str' (trimmed pt s)"
    using assms(1) b b2 r ln n(2) by (simp add: ls_repr_def ls_buf_def str'_def)
  ultimately show thesis unfolding pt_def by (rule that)
qed

section \<open>Reading lines\<close>

definition line_text :: "string \<Rightarrow> string" where
  "line_text fp = filter (\<lambda>c. c \<noteq> CR) (takeWhile (\<lambda>c. c \<noteq> LF) fp)"

definition line_rest :: "string \<Rightarrow> string" where
  "line_rest fp = drop (Suc (length (takeWhile (\<lambda>c. c \<noteq> LF) fp))) fp"

lemma line_simps [simp]:
  "line_text [] = []" "line_rest [] = []"
  "line_text (c # fp) = (if c = LF then [] else if c = CR then line_text fp else c # line_text fp)"
  "line_rest (c # fp) = (if c = LF then fp else line_rest fp)"
  by (simp_all add: line_text_def line_rest_def)

text \<open>One round of the inner loop either reaches the end of the line or fills the buffer.\<close>

lemma fgets_loop_ok:
  assumes "int po + s + 1 = int (length b)" "0 \<le> s"
  shows "\<exists>b' po' s' c' fp'. fgets_loop b po s c fp = Inr (b', po', s', c', fp') \<and>
    length b' = length b \<and> int po' + s' + 1 = int (length b) \<and> 0 \<le> s' \<and>
    (if s' \<noteq> 0
     then take po' b' = take po b @ map Some (line_text fp) \<and> po' = po + length (line_text fp) \<and>
       fp' = line_rest fp \<and> (c' = None \<longleftrightarrow> LF \<notin> set fp)
     else (\<exists>t. fp = t @ fp' \<and> LF \<notin> set t \<and> (s > 0 \<longrightarrow> t \<noteq> []) \<and>
       take po' b' = take po b @ map Some (line_text t) \<and> po' = po + length (line_text t)))"
  using assms
proof (induction fp arbitrary: b po s c)
  case (Cons x fp)
  consider "s = 0" | "s > 0" "x = LF" | "s > 0" "x = CR" | "s > 0" "x \<noteq> LF" "x \<noteq> CR"
    using Cons.prems(2) by linarith
  then show ?case
  proof cases
    case 3
    from Cons.IH [OF Cons.prems, of "Some x"] obtain b' po' s' c' fp' where
      r: "fgets_loop b po s (Some x) fp = Inr (b', po', s', c', fp')"
        "length b' = length b" "int po' + s' + 1 = int (length b)" "0 \<le> s'"
      and t: "if s' \<noteq> 0
     then take po' b' = take po b @ map Some (line_text fp) \<and> po' = po + length (line_text fp) \<and>
       fp' = line_rest fp \<and> (c' = None \<longleftrightarrow> LF \<notin> set fp)
     else (\<exists>t. fp = t @ fp' \<and> LF \<notin> set t \<and> (s > 0 \<longrightarrow> t \<noteq> []) \<and>
       take po' b' = take po b @ map Some (line_text t) \<and> po' = po + length (line_text t))"
      by blast
    have f: "fgets_loop b po s c (x # fp) = Inr (b', po', s', c', fp')"
      using 3 r(1) by simp
    show ?thesis
    proof (cases "s' = 0")
      case False
      with t 3 f r show ?thesis by (intro exI [of _ b'] exI [of _ po'] exI [of _ s'] exI [of _ c'] exI [of _ fp']) auto
    next
      case True
      with t obtain u where u: "fp = u @ fp'" "LF \<notin> set u"
        "take po' b' = take po b @ map Some (line_text u)" "po' = po + length (line_text u)" by auto
      then have "x # fp = (x # u) @ fp'" "LF \<notin> set (x # u)"
        "take po' b' = take po b @ map Some (line_text (x # u))" "po' = po + length (line_text (x # u))"
        using 3 by auto
      with True f r show ?thesis
        by (intro exI [of _ b'] exI [of _ po'] exI [of _ s'] exI [of _ c'] exI [of _ fp']) (auto intro!: exI [of _ "x # u"])
    qed
  next
    case 4
    have "int (po + 1) + (s - 1) + 1 = int (length (b[po := Some x]))" "0 \<le> s - 1"
      using Cons.prems 4 by simp_all
    from Cons.IH [OF this, of "Some x"] obtain b' po' s' c' fp' where
      r: "fgets_loop (b[po := Some x]) (po + 1) (s - 1) (Some x) fp = Inr (b', po', s', c', fp')"
        "length b' = length b" "int po' + s' + 1 = int (length b)" "0 \<le> s'"
      and t: "if s' \<noteq> 0
     then take po' b' = take (po + 1) (b[po := Some x]) @ map Some (line_text fp) \<and>
       po' = po + 1 + length (line_text fp) \<and> fp' = line_rest fp \<and> (c' = None \<longleftrightarrow> LF \<notin> set fp)
     else (\<exists>t. fp = t @ fp' \<and> LF \<notin> set t \<and> (s - 1 > 0 \<longrightarrow> t \<noteq> []) \<and>
       take po' b' = take (po + 1) (b[po := Some x]) @ map Some (line_text t) \<and>
       po' = po + 1 + length (line_text t))"
      by auto
    have tk: "take (po + 1) (b[po := Some x]) = take po b @ [Some x]"
      using Cons.prems 4 by (simp add: take_store_snoc)
    have f: "fgets_loop b po s c (x # fp) = Inr (b', po', s', c', fp')"
      using 4 Cons.prems r(1) by (simp add: store_def)
    show ?thesis
    proof (cases "s' = 0")
      case False
      with t tk 4 f r show ?thesis by (intro exI [of _ b'] exI [of _ po'] exI [of _ s'] exI [of _ c'] exI [of _ fp']) auto
    next
      case True
      with t obtain u where u: "fp = u @ fp'" "LF \<notin> set u"
        "take po' b' = take (po + 1) (b[po := Some x]) @ map Some (line_text u)"
        "po' = po + 1 + length (line_text u)" by auto
      have "x # fp = (x # u) @ fp'" "LF \<notin> set (x # u)"
        "take po' b' = take po b @ map Some (line_text (x # u))" "po' = po + length (line_text (x # u))"
        using u 4 tk by auto
      with True f r show ?thesis
        by (intro exI [of _ b'] exI [of _ po'] exI [of _ s'] exI [of _ c'] exI [of _ fp']) (auto intro!: exI [of _ "x # u"])
    qed
  qed (use Cons.prems in auto)
qed auto

lemma line_text_append: "LF \<notin> set t \<Longrightarrow> line_text (t @ fp) = line_text t @ line_text fp"
  by (induction t) auto

lemma line_rest_append: "LF \<notin> set t \<Longrightarrow> line_rest (t @ fp) = line_rest fp"
  by (induction t) auto

lemma fgets_outer_ok:
  assumes "slot > 0" "int po + s + 1 = int (length b)" "0 \<le> s" "length fp + (if s = 0 then 1 else 0) < n"
  shows "\<exists>al b' c'. fgets_outer n slot (length b) b po s c fp =
      Inr (al, b', po + length (line_text fp), c', line_rest fp) \<and>
    length b' = al \<and> po + length (line_text fp) < al \<and>
    take (po + length (line_text fp)) b' = take po b @ map Some (line_text fp) \<and>
    (c' = None \<longleftrightarrow> LF \<notin> set fp)"
  using assms
proof (induction n arbitrary: b po s c fp)
  case (Suc n)
  from fgets_loop_ok [OF Suc.prems(2,3), of c fp] obtain b' po' s' c' fp' where
    r: "fgets_loop b po s c fp = Inr (b', po', s', c', fp')" "length b' = length b"
      "int po' + s' + 1 = int (length b)" "0 \<le> s'"
    and t: "if s' \<noteq> 0
     then take po' b' = take po b @ map Some (line_text fp) \<and> po' = po + length (line_text fp) \<and>
       fp' = line_rest fp \<and> (c' = None \<longleftrightarrow> LF \<notin> set fp)
     else (\<exists>t. fp = t @ fp' \<and> LF \<notin> set t \<and> (s > 0 \<longrightarrow> t \<noteq> []) \<and>
       take po' b' = take po b @ map Some (line_text t) \<and> po' = po + length (line_text t))"
    by blast
  show ?case
  proof (cases "s' = 0")
    case False
    with t r show ?thesis by auto
  next
    case True
    with t obtain u where u: "fp = u @ fp'" "LF \<notin> set u" "s > 0 \<longrightarrow> u \<noteq> []"
      "take po' b' = take po b @ map Some (line_text u)" "po' = po + length (line_text u)" by auto
    define b2 where "b2 = block_realloc b' (length b + slot)"
    have b2: "length b2 = length b + slot" "take po' b2 = take po' b'"
      unfolding b2_def using r(2,3,4) by (subst block_realloc_grow; simp)+
    define s2 where "s2 = int (length b + slot) - int po' - 1"
    have "int po' + s2 + 1 = int (length b2)" "0 \<le> s2" "s2 \<noteq> 0"
      using b2 r(3) True Suc.prems(1) by (simp_all add: s2_def)
    moreover have "length fp' < n" using Suc.prems(3,4) u(1,3) by (cases u) (auto split: if_splits)
    ultimately obtain al b3 c3 where
      "fgets_outer n slot (length b2) b2 po' s2 c' fp' =
        Inr (al, b3, po' + length (line_text fp'), c3, line_rest fp')"
      "length b3 = al" "po' + length (line_text fp') < al"
      "take (po' + length (line_text fp')) b3 = take po' b2 @ map Some (line_text fp')"
      "c3 = None \<longleftrightarrow> LF \<notin> set fp'"
      using Suc.IH [OF Suc.prems(1), of po' s2 b2 fp' c'] by auto
    moreover have "fgets_outer (Suc n) slot (length b) b po s c fp =
        fgets_outer n slot (length b2) b2 po' s2 c' fp'"
      unfolding b2(1) using r(1) True by (simp add: b2_def s2_def)
    ultimately show ?thesis
      using u(1,2,4,5) b2(2) unfolding u(1)
      by (intro exI [of _ al] exI [of _ b3] exI [of _ c3])
        (simp add: line_text_append line_rest_append add.assoc del: fgets_outer.simps)
  qed
qed simp

lemma LongStringFgets_ok:
  assumes "ls_buf str s"
  obtains str' where
    "LongStringFgets str fp = Inr (str', \<not> (LF \<notin> set fp \<and> line_text fp = []), line_rest fp)"
    "ls_repr str' (line_text fp)"
proof -
  define u where "u = (case buf str of
      None \<Rightarrow> str\<lparr>allocated := slot_size str, buf := Some (block_alloc (slot_size str))\<rparr>
    | Some b \<Rightarrow> str)"
  obtain b where u: "buf u = Some b" "length b = allocated u" "length s < length b" "slot_size u > 0"
    using assms by (auto simp: u_def ls_buf_def block_alloc_def split: option.splits)
  have "int 0 + (int (allocated u) - 1) + 1 = int (length b)" "0 \<le> int (allocated u) - 1"
    "length fp + (if int (allocated u) - 1 = 0 then 1 else 0) < length fp + 2"
    using u by auto
  from fgets_outer_ok [OF u(4) this, of None] obtain al b' c' where
    l: "fgets_outer (length fp + 2) (slot_size u) (allocated u) b 0 (int (allocated u) - 1) None fp =
      Inr (al, b', length (line_text fp), c', line_rest fp)"
    "length b' = al" "length (line_text fp) < al"
    "take (length (line_text fp)) b' = map Some (line_text fp)" "c' = None \<longleftrightarrow> LF \<notin> set fp"
    using u(2) by auto
  define str' where "str' = u\<lparr>allocated := al, buf := Some (b'[length (line_text fp) := Some NUL]),
    len := length (line_text fp)\<rparr>"
  have "\<not> (c' = None \<and> length (line_text fp) = 0) \<longleftrightarrow> \<not> (LF \<notin> set fp \<and> line_text fp = [])"
    using l(5) by simp
  then have "LongStringFgets str fp = Inr (str', \<not> (LF \<notin> set fp \<and> line_text fp = []), line_rest fp)"
    using l(1-4) u(1) by (simp add: LongStringFgets_def u_def [symmetric] store_def str'_def
        del: fgets_outer.simps sbind_Inr_iff not_None_eq de_Morgan_conj)
  moreover have "ls_repr str' (line_text fp)"
    using l u by (simp add: ls_repr_def ls_buf_def str'_def)
  ultimately show thesis by (rule that)
qed

section \<open>Splitting\<close>

text \<open>The fields of a text, and where they start and how long they are.\<close>

fun fields_of :: "char \<Rightarrow> string \<Rightarrow> string list" where
  "fields_of sep [] = [[]]"
| "fields_of sep (c # s) =
     (if c = sep then [] # fields_of sep s
      else (c # hd (fields_of sep s)) # tl (fields_of sep s))"

fun fields_at :: "char \<Rightarrow> nat \<Rightarrow> nat \<Rightarrow> string \<Rightarrow> (nat \<times> nat) list" where
  "fields_at sep st p [] = [(st, p - st)]"
| "fields_at sep st p (c # s) =
     (if c = sep then (st, p - st) # fields_at sep (p + 1) (p + 1) s
      else fields_at sep st (p + 1) s)"

lemma fields_of_ne [simp]: "fields_of sep s \<noteq> []"
  by (cases s) auto

lemma length_fields_at: "length (fields_at sep st p s) = length (fields_of sep s)"
  by (induction sep st p s rule: fields_at.induct) auto

lemma length_fields_of: "length (fields_of sep s) \<le> length s + 1"
  by (induction s) auto

lemma hd_Cons_tl_fields: "hd (fields_of sep s) # tl (fields_of sep s) = fields_of sep s"
  by simp

lemma fields_at_slices:
  assumes "u = x @ s" "st \<le> length x"
  shows "map (\<lambda>(i, n). take n (drop i u)) (fields_at sep st (length x) s) =
    (drop st x @ hd (fields_of sep s)) # tl (fields_of sep s)"
  using assms
proof (induction s arbitrary: st x)
  case (Cons c s)
  have u: "u = (x @ [c]) @ s" using Cons.prems by simp
  show ?case
  proof (cases "c = sep")
    case True
    with Cons.IH [OF u, of "length x + 1"] Cons.prems show ?thesis by simp
  next
    case False
    with Cons.IH [OF u, of st] Cons.prems show ?thesis by simp
  qed
qed simp

lemma fields_at_text: "map (\<lambda>(i, n). take n (drop i s)) (fields_at sep 0 0 s) = fields_of sep s"
  using fields_at_slices [of s "[]" s 0 sep] by simp

lemma fields_at_bound:
  "st \<le> p \<Longrightarrow> (i, n) \<in> set (fields_at sep st p s) \<Longrightarrow> i + n \<le> p + length s"
  by (induction sep st p s rule: fields_at.induct) (auto split: if_splits)

text \<open>With the separators overwritten, each field is the C string at its start.\<close>

definition cut :: "char \<Rightarrow> string \<Rightarrow> string" where
  "cut sep s = map (\<lambda>c. if c = sep then NUL else c) s"

lemma cut_simps [simp]:
  "cut sep [] = []" "cut sep (c # s) = (if c = sep then NUL else c) # cut sep s"
  "length (cut sep s) = length s"
  by (simp_all add: cut_def)

lemma upto_NUL_cut: "NUL \<notin> set s \<Longrightarrow> upto_NUL (cut sep s) = hd (fields_of sep s)"
  by (induction s) auto

lemma upto_NUL_append: "NUL \<notin> set x \<Longrightarrow> upto_NUL (x @ s) = x @ upto_NUL s"
  by (induction x) auto

lemma fields_at_cut:
  assumes "u = x @ cut sep s" "st \<le> length x" "NUL \<notin> set (drop st x)" "NUL \<notin> set s"
  shows "map (\<lambda>(i, n). upto_NUL (drop i u)) (fields_at sep st (length x) s) =
    (drop st x @ hd (fields_of sep s)) # tl (fields_of sep s)"
  using assms
proof (induction s arbitrary: st x)
  case (Cons c s)
  show ?case
  proof (cases "c = sep")
    case True
    have "u = (x @ [NUL]) @ cut sep s" using Cons.prems True by simp
    from Cons.IH [OF this, of "length x + 1"] Cons.prems True show ?thesis
      by (simp add: upto_NUL_append)
  next
    case False
    have "u = (x @ [c]) @ cut sep s" using Cons.prems False by simp
    from Cons.IH [OF this, of st] Cons.prems False show ?thesis by auto
  qed
qed (simp add: upto_NUL_append)

text \<open>The loop without a limit on the number of fields.\<close>

lemma aset_take:
  assumes "i < length a"
  shows "aset a i x = Inr (a[i := Some x])" "take (Suc i) (a[i := Some x]) = take i a @ [Some x]"
  using assms by (simp_all add: aset_def take_Suc_conv_app_nth)

definition fields_ok :: "split_state \<Rightarrow> bool" where
  "fields_ok st \<longleftrightarrow> length (sp_value st) = sp_alloc st \<and> length (sp_size st) = sp_alloc st \<and>
     sp_cou st < sp_alloc st"

lemma grow_fields_ok:
  assumes "fields_ok st" "sp_cou st + 16 < 65536"
  shows "fields_ok (grow_fields st)" "sp_cou st + 1 < sp_alloc (grow_fields st)"
    "sp_mem (grow_fields st) = sp_mem st" "sp_cou (grow_fields st) = sp_cou st"
    "take (Suc (sp_cou st)) (sp_value (grow_fields st)) = take (Suc (sp_cou st)) (sp_value st)"
    "take (sp_cou st) (sp_size (grow_fields st)) = take (sp_cou st) (sp_size st)"
  using assms by (auto simp: fields_ok_def grow_fields_def arealloc_def FIELD_POINTER_SLOT_SIZE_def Let_def)

lemma put_size_ok:
  assumes "fields_ok st" "sp_value st ! sp_cou st = Some q"
  shows "put_size p st = Inr (st\<lparr>sp_size := (sp_size st)[sp_cou st :=
      Some (word_of_int (int p - int (fptr_offset q)))]\<rparr>)"
  using assms by (simp add: put_size_def aget_def aset_def fields_ok_def)

lemma next_field_ok:
  assumes "fields_ok st" "sp_cou st + 16 < 65536" "sp_value st ! sp_cou st = Some (mk i)"
    "fptr_offset (mk i) = i" "i \<le> p" "p < length (sp_mem st)"
  shows "\<exists>st'. next_field mk d p st = Inr st' \<and> fields_ok st' \<and> sp_cou st' = sp_cou st + 1 \<and>
    sp_mem st' = (if d then (sp_mem st)[p := Some NUL] else sp_mem st) \<and>
    take (sp_cou st' + 1) (sp_value st') =
      take (sp_cou st) (sp_value st) @ [Some (mk i), Some (mk (p + 1))] \<and>
    take (sp_cou st') (sp_size st') = take (sp_cou st) (sp_size st) @ [Some (word_of_nat (p - i))]"
proof -
  define m where "m = (if d then (sp_mem st)[p := Some NUL] else sp_mem st)"
  have mm: "(if d then store (sp_mem st) p NUL else Inr (sp_mem st)) = Inr m"
    using assms(6) by (simp add: m_def store_def)
  define g where "g = grow_fields (st\<lparr>sp_mem := m\<rparr>)"
  have ok: "fields_ok (st\<lparr>sp_mem := m\<rparr>)" using assms(1) by (simp add: fields_ok_def)
  have c: "sp_cou (st\<lparr>sp_mem := m\<rparr>) + 16 < 65536" using assms(2) by simp
  note g = grow_fields_ok [OF ok c, folded g_def, simplified]
  have q: "sp_value g ! sp_cou g = Some (mk i)"
    using g(4,5) assms(3) by (metis lessI nth_take)
  define st' where "st' = g\<lparr>sp_size := (sp_size g)[sp_cou g := Some (word_of_int (int p - int i))],
    sp_value := (sp_value g)[sp_cou g + 1 := Some (mk (p + 1))], sp_cou := sp_cou g + 1\<rparr>"
  have lens: "sp_cou st + 1 < length (sp_value g)" "sp_cou st < length (sp_size g)"
    using g by (simp_all add: fields_ok_def)
  have "next_field mk d p st = Inr st'"
    using put_size_ok [OF g(1) q] assms(4) lens g
    by (simp add: next_field_def mm g_def [symmetric] st'_def aset_def del: sbind_Inr_iff)
  moreover have "fields_ok st'" using g by (simp add: fields_ok_def st'_def)
  moreover have "take (sp_cou st' + 1) (sp_value st') =
      take (sp_cou st) (sp_value st) @ [Some (mk i), Some (mk (p + 1))]"
  proof -
    have "take (Suc (sp_cou st)) (sp_value st) = take (sp_cou st) (sp_value st) @ [Some (mk i)]"
      using assms(1,3) by (simp add: take_Suc_conv_app_nth fields_ok_def)
    then show ?thesis using aset_take(2) [OF lens(1)] g by (simp add: st'_def)
  qed
  moreover have "take (sp_cou st') (sp_size st') = take (sp_cou st) (sp_size st) @ [Some (word_of_nat (p - i))]"
    using aset_take(2) [OF lens(2)] g assms(5) by (simp add: st'_def of_nat_diff)
  ultimately show ?thesis using g by (intro exI [of _ st']) (simp add: st'_def m_def)
qed

lemma split_loop_ok:
  assumes "fields_ok st" "sp_cou st + length (fields_of sep s) + 15 < 65536"
    "sp_value st ! sp_cou st = Some (mk i)" "\<And>j. fptr_offset (mk j) = j" "i \<le> p"
    "p + length s < length (sp_mem st)"
    "take (length s + 1) (drop p (sp_mem st)) = map Some (s @ [NUL])"
    "NUL \<notin> set s" "maxfields \<le> 1"
  shows "\<exists>st' q st2. split_loop mk l n d sep maxfields p st = Inr (st', q) \<and> put_size q st' = Inr st2 \<and>
    fields_ok st2 \<and> sp_cou st2 + 1 = sp_cou st + length (fields_of sep s) \<and>
    take (sp_cou st2 + 1) (sp_value st2) =
      take (sp_cou st) (sp_value st) @ map (\<lambda>(i, k). Some (mk i)) (fields_at sep i p s) \<and>
    take (sp_cou st2 + 1) (sp_size st2) =
      take (sp_cou st) (sp_size st) @ map (\<lambda>(i, k). Some (word_of_nat k)) (fields_at sep i p s) \<and>
    length (sp_mem st2) = length (sp_mem st) \<and>
    take (p + length s + 1) (sp_mem st2) =
      take p (sp_mem st) @ map Some ((if d then cut sep s else s) @ [NUL])"
  using assms
proof (induction s arbitrary: st i p)
  case Nil
  have ld: "load (sp_mem st) p = Inr NUL" and m: "take (p + 1) (sp_mem st) = take p (sp_mem st) @ [Some NUL]"
  proof -
    have "drop p (sp_mem st) = sp_mem st ! p # drop (p + 1) (sp_mem st)"
      using Nil.prems(6) by (simp add: Cons_nth_drop_Suc)
    then have "sp_mem st ! p = Some NUL" using Nil.prems(7) by simp
    then show "load (sp_mem st) p = Inr NUL" "take (p + 1) (sp_mem st) = take p (sp_mem st) @ [Some NUL]"
      using Nil.prems(6) by (simp_all add: load_def take_Suc_conv_app_nth)
  qed
  have "split_loop mk l n d sep maxfields p st = Inr (st, p)"
    using ld Nil.prems(6) by (subst split_loop.simps) simp
  moreover have lens: "sp_cou st < length (sp_value st)" "sp_cou st < length (sp_size st)"
    using Nil.prems(1) by (simp_all add: fields_ok_def)
  ultimately show ?case
    using put_size_ok [OF Nil.prems(1,3)] Nil.prems m
    by (simp add: fields_ok_def take_Suc_conv_app_nth of_nat_diff)
next
  case (Cons c s)
  have ld: "load (sp_mem st) p = Inr c" and c: "c \<noteq> NUL"
    and dr: "take (length s + 1) (drop (p + 1) (sp_mem st)) = map Some (s @ [NUL])"
  proof -
    have "drop p (sp_mem st) = sp_mem st ! p # drop (p + 1) (sp_mem st)"
      using Cons.prems(6) by (simp add: Cons_nth_drop_Suc)
    with Cons.prems(7) show "take (length s + 1) (drop (p + 1) (sp_mem st)) = map Some (s @ [NUL])"
      "load (sp_mem st) p = Inr c" using Cons.prems(6) by (auto simp: load_def)
    show "c \<noteq> NUL" using Cons.prems(8) by auto
  qed
  show ?case
  proof (cases "c = sep")
    case False
    have "split_loop mk l n d sep maxfields p st = split_loop mk l n d sep maxfields (p + 1) st"
      using ld c False Cons.prems(6) by (subst split_loop.simps) simp
    moreover have "take (Suc p) (sp_mem st) = take p (sp_mem st) @ [Some c]"
      using ld Cons.prems(6) by (auto simp: load_def take_Suc_conv_app_nth split: option.splits)
    ultimately show ?thesis
      using Cons.IH [OF Cons.prems(1) _ Cons.prems(3,4), of "p + 1"] Cons.prems dr False by auto
  next
    case True
    define m where "m = (if d then (sp_mem st)[p := Some NUL] else sp_mem st)"
    have "sp_cou st + 16 < 65536" "p < length (sp_mem st)"
      using Cons.prems(2,6) True by (cases "fields_of sep s"; simp)+
    from next_field_ok [where mk = mk and i = i, OF Cons.prems(1) this(1) Cons.prems(3) Cons.prems(4) [of i] Cons.prems(5) this(2), of d] obtain st' where
      st': "next_field mk d p st = Inr st'" "fields_ok st'" "sp_cou st' = sp_cou st + 1" "sp_mem st' = m"
      "take (sp_cou st' + 1) (sp_value st') =
         take (sp_cou st) (sp_value st) @ [Some (mk i), Some (mk (p + 1))]"
      "take (sp_cou st') (sp_size st') = take (sp_cou st) (sp_size st) @ [Some (word_of_nat (p - i))]"
      unfolding m_def by blast
    have "split_loop mk l n d sep maxfields p st = split_loop mk l n d sep maxfields (p + 1) st'"
      using ld c True Cons.prems(6,9) st'(1,3) by (subst split_loop.simps) simp
    moreover have v: "sp_value st' ! sp_cou st' = Some (mk (p + 1))"
      "take (sp_cou st') (sp_value st') = take (sp_cou st) (sp_value st) @ [Some (mk i)]"
    proof -
      have l: "length (take (sp_cou st) (sp_value st)) = sp_cou st"
        using Cons.prems(1) by (simp add: fields_ok_def)
      have "sp_value st' ! sp_cou st' = take (sp_cou st' + 1) (sp_value st') ! sp_cou st'" by simp
      then show "sp_value st' ! sp_cou st' = Some (mk (p + 1))"
        unfolding st'(5) using l st'(3) by (simp add: nth_append)
      have "take (sp_cou st') (sp_value st') = take (sp_cou st') (take (sp_cou st' + 1) (sp_value st'))"
        by (simp add: min_def)
      then show "take (sp_cou st') (sp_value st') = take (sp_cou st) (sp_value st) @ [Some (mk i)]"
        unfolding st'(5) using l st'(3) by simp
    qed
    moreover have "take (Suc p) m = take p (sp_mem st) @ [Some (if d then NUL else sep)]"
      using ld Cons.prems(6) True
      by (auto simp: load_def m_def take_Suc_conv_app_nth split: option.splits)
    moreover have "length m = length (sp_mem st)" "drop (p + 1) m = drop (p + 1) (sp_mem st)"
      by (simp_all add: m_def)
    ultimately show ?thesis
      using Cons.IH [OF st'(2) _ v(1) Cons.prems(4), of "p + 1"] Cons.prems dr True st' by auto
  qed
qed

definition ls_fields :: "long_string \<Rightarrow> bool" where
  "ls_fields str \<longleftrightarrow> (case (field_value str, field_size str) of
     (Some v, Some a) \<Rightarrow> length v = allocated_field_pointers str \<and>
       length a = allocated_field_pointers str \<and> 0 < allocated_field_pointers str
   | _ \<Rightarrow> True)"

lemma take_map_nth:
  assumes "take n v = map f xs" "length xs = n" "i < n"
  shows "v ! i = f (xs ! i)"
  using assms by (metis nth_map nth_take)

lemma split_fields_ok:
  assumes "ls_fields str" "NUL \<notin> set s" "length s < 32768" "maxfields \<le> 1"
    "\<And>j. fptr_offset (mk j) = j" "length s < length m" "take (length s + 1) m = map Some (s @ [NUL])"
  shows "\<exists>str' m' v a. split_fields mk m str n d sep maxfields = Inr (str', m') \<and>
    buf str' = buf str \<and> len str' = len str \<and> allocated str' = allocated str \<and>
    slot_size str' = slot_size str \<and>
    field_value str' = Some v \<and> field_size str' = Some a \<and> ls_fields str' \<and>
    total_fields str' = length (fields_of sep s) \<and> length m' = length m \<and>
    take (length s + 1) m' = map Some ((if d then cut sep s else s) @ [NUL]) \<and>
    (\<forall>j < length (fields_of sep s). v ! j = Some (mk (fst (fields_at sep 0 0 s ! j))) \<and>
       a ! j = Some (word_of_nat (snd (fields_at sep 0 0 s ! j))))"
proof -
  define al where "al = (case (field_value str, field_size str) of
     (Some v, Some a) \<Rightarrow> allocated_field_pointers str | _ \<Rightarrow> FIELD_POINTER_SLOT_SIZE)"
  define v0 where "v0 = (case (field_value str, field_size str) of
     (Some v, Some a) \<Rightarrow> v | _ \<Rightarrow> replicate FIELD_POINTER_SLOT_SIZE None)"
  define a0 where "a0 = (case (field_value str, field_size str) of
     (Some v, Some a) \<Rightarrow> a | _ \<Rightarrow> replicate FIELD_POINTER_SLOT_SIZE None)"
  have tup: "(case (field_value str, field_size str) of
           (Some v, Some a) \<Rightarrow> (allocated_field_pointers str, v, a)
         | _ \<Rightarrow> (FIELD_POINTER_SLOT_SIZE, replicate FIELD_POINTER_SLOT_SIZE None,
                 replicate FIELD_POINTER_SLOT_SIZE None)) = (al, v0, a0)"
    by (auto simp: al_def v0_def a0_def split: option.split)
  have lens: "length v0 = al" "length a0 = al" "0 < al"
    using assms(1) by (auto simp: al_def v0_def a0_def ls_fields_def FIELD_POINTER_SLOT_SIZE_def split: option.splits)
  define st where "st = \<lparr>sp_mem = m, sp_value = v0[0 := Some (mk 0)], sp_size = a0, sp_alloc = al, sp_cou = 0\<rparr>"
  have "fields_ok st" using lens by (simp add: fields_ok_def st_def)
  moreover have "sp_cou st + length (fields_of sep s) + 15 < 65536"
    using length_fields_of [of sep s] assms(3) by (simp add: st_def)
  moreover have "sp_value st ! sp_cou st = Some (mk 0)" using lens by (simp add: st_def)
  ultimately obtain st' q st2 where
    r: "split_loop mk (len str) n d sep maxfields 0 st = Inr (st', q)" "put_size q st' = Inr st2"
      "fields_ok st2" "sp_cou st2 + 1 = length (fields_of sep s)"
      "take (length (fields_of sep s)) (sp_value st2) = map (\<lambda>(i, k). Some (mk i)) (fields_at sep 0 0 s)"
      "take (length (fields_of sep s)) (sp_size st2) = map (\<lambda>(i, k). Some (word_of_nat k)) (fields_at sep 0 0 s)"
      "length (sp_mem st2) = length m"
      "take (length s + 1) (sp_mem st2) = map Some ((if d then cut sep s else s) @ [NUL])"
    using split_loop_ok [of st sep s mk 0 0 maxfields "len str" n d, OF _ _ _ assms(5)] assms
    by (auto simp: st_def)
  define str' where "str' = str\<lparr>field_value := Some (sp_value st2), field_size := Some (sp_size st2),
    allocated_field_pointers := sp_alloc st2, total_fields := (sp_cou st2 + 1) mod 65536\<rparr>"
  have "split_fields mk m str n d sep maxfields = Inr (str', sp_mem st2)"
    using r(1,2) lens unfolding split_fields_def tup
    by (auto simp add: aset_def str'_def st_def [symmetric] simp del: sbind_Inr_iff)
  moreover have "ls_fields str'" using r(3) by (auto simp: ls_fields_def str'_def fields_ok_def)
  moreover have "length (fields_of sep s) mod 65536 = length (fields_of sep s)"
    using length_fields_of [of sep s] assms(3) by simp
  moreover have "\<forall>j < length (fields_of sep s). sp_value st2 ! j = Some (mk (fst (fields_at sep 0 0 s ! j))) \<and>
       sp_size st2 ! j = Some (word_of_nat (snd (fields_at sep 0 0 s ! j)))"
    using take_map_nth [OF r(5) length_fields_at] take_map_nth [OF r(6) length_fields_at]
    by (simp add: case_prod_unfold)
  ultimately show ?thesis using r(4,7,8)
    by (intro exI [of _ str'] exI [of _ "sp_mem st2"] exI [of _ "sp_value st2"] exI [of _ "sp_size st2"])
      (simp add: str'_def)
qed

lemma fields_at_small:
  assumes "j < length (fields_of sep s)" "length s < 32768"
  shows "unat (word_of_nat (snd (fields_at sep 0 0 s ! j)) :: 16 word) = snd (fields_at sep 0 0 s ! j)"
proof -
  have "fields_at sep 0 0 s ! j \<in> set (fields_at sep 0 0 s)"
    using assms(1) by (simp add: length_fields_at)
  then have "fst (fields_at sep 0 0 s ! j) + snd (fields_at sep 0 0 s ! j) \<le> length s"
    using fields_at_bound [of 0 0 "fst (fields_at sep 0 0 s ! j)" "snd (fields_at sep 0 0 s ! j)" sep s]
    by simp
  then have "snd (fields_at sep 0 0 s ! j) < 65536" using assms(2) by simp
  then show ?thesis by (simp add: unat_of_nat)
qed

section \<open>Properties\<close>

lemma ls_repr_init: "0 < n mod 65536 \<Longrightarrow> ls_repr (LongStringInit n) []"
  by (cases "n = 0") (auto simp: ls_repr_def ls_buf_def LongStringInit_def)

definition hello :: long_string where
  "hello = LongStringInit 4\<lparr>allocated := 8,
    buf := Some (map Some (''hello'' @ [NUL]) @ [None, None]), len := 5\<rparr>"

lemma hello_repr: "ls_repr hello ''hello''"
  by (simp add: ls_repr_def ls_buf_def LongStringInit_def hello_def)

text \<open>C24: \<open>append\<close> adds to the text of a string exactly the bytes asked for: those up to the NUL
  for a negative length, the given number otherwise.  It ends, for every slot size but 0, and writes
  nothing outside the block.\<close>

theorem longstr_append_text:
  assumes "ls_repr str s" "n \<le> int (length t) + 1"
  shows "\<exists>str'. LongStringAppend str t n = Inr (str', n \<noteq> 0 \<or> buf str \<noteq> None) \<and>
    ls_repr str' (s @ (if n < 0 then upto_NUL t else take (nat n) (t @ [NUL])))"
  using LongStringAppend_ok [OF assms] unfolding appended_def by blast

theorem longstr_append_text_witness:
  "\<exists>str'. LongStringAppend hello '' world'' (-1) = Inr (str', True) \<and> ls_repr str' ''hello world''"
  using longstr_append_text [OF hello_repr, of "-1" "'' world''"] by simp

text \<open>C35: A string of slot size 0 never gets longer: \<open>LongStringInit\<close> keeps 16 bits of the size it is given,
  so that for 65536 and its multiples, with an allocator that gives a block for 0 bytes too, the block
  is enlarged by nothing and \<open>append\<close> tries again for ever, with any text but the empty one.\<close>

theorem longstr_zero_slot_hangs:
  assumes "0 < k" "t \<noteq> []" "hd t \<noteq> NUL"
  shows "LongStringAppend (LongStringInit (65536 * k)) t (-1) = Inl NoReturn \<and>
    (\<forall>n. append_loop n (slot_size (LongStringInit (65536 * k))) 0 (block_alloc 0) 0 t = Inl NoReturn)"
proof -
  obtain c s where t: "t = c # s" "c \<noteq> NUL" using assms(2,3) by (cases t) auto
  have slot: "slot_size (LongStringInit (65536 * k)) = 0" using assms(1) by (simp add: LongStringInit_def)
  have loop: "append_loop n 0 0 (block_alloc 0) 0 t = Inl NoReturn" for n
    using t by (induction n) (simp_all add: at_end_def block_alloc_def block_realloc_def)
  then show ?thesis using assms(1) slot
    by (simp add: LongStringAppend_def append_str_def LongStringInit_def Let_def del: append_loop.simps)
qed

theorem longstr_zero_slot_hangs_witness:
  "LongStringAppend (LongStringInit 65536) ''a'' (-1) = Inl NoReturn"
  using longstr_zero_slot_hangs [of 1 "''a''"] by simp

text \<open>\<open>appendstrings\<close> of a list of C strings leaves the text followed by their
  concatenation.\<close>

theorem longstr_appendstrings_concat:
  assumes "ls_repr str s"
  shows "\<exists>str' p. LongStringAppendStrings str ts = Inr (str', p) \<and>
    ls_repr str' (s @ concat (map upto_NUL ts))"
proof -
  obtain str' where "longstr.append_seq str ts = Inr str'" "ls_repr str' (s @ concat (map upto_NUL ts))"
    using longstr.append_seq_repr [OF assms] by blast
  moreover from this have "map_sum id fst (append_all str False ts) = Inr str'"
    by (simp add: append_all_seq)
  ultimately show ?thesis
    by (cases "append_all str False ts") (auto simp: LongStringAppendStrings_def)
qed

theorem longstr_appendstrings_concat_witness:
  "\<exists>str' p. LongStringAppendStrings hello ['' wor'', ''ld''] = Inr (str', p) \<and>
    ls_repr str' ''hello world''"
  using longstr_appendstrings_concat [OF hello_repr, of "['' wor'', ''ld'']"] by simp

text \<open>\<open>trim\<close> removes the leading and the trailing characters of the pattern (blanks, tabs
  and line ends by default) and nothing else.\<close>

theorem longstr_trim_text:
  assumes "ls_repr str s" "buf str \<noteq> None" "NUL \<notin> set s"
  shows "\<exists>str'. LongStringTrim str pat = Inr (str', True) \<and>
    ls_repr str' (rev (dropWhile (in_pat (case pat of None \<Rightarrow> default_trim | Some p \<Rightarrow> p))
      (rev (dropWhile (in_pat (case pat of None \<Rightarrow> default_trim | Some p \<Rightarrow> p)) s))))"
  using LongStringTrim_ok [OF assms, of pat] unfolding trimmed_def by blast

theorem longstr_trim_text_witness:
  "\<exists>str'. LongStringTrim hello (Some ''oh'') = Inr (str', True) \<and> ls_repr str' ''ell''"
proof -
  have "buf hello \<noteq> None" by (simp add: hello_def)
  then show ?thesis using longstr_trim_text [OF hello_repr, of "Some ''oh''"] by (simp add: in_pat_def)
qed

text \<open>C25: \<open>fgets\<close> reads exactly one line, of any length: its text without carriage returns and
  without the line feed.  It returns NULL only at the end of the stream with nothing read (a
  last line of carriage returns counts as nothing).\<close>

theorem longstr_fgets_line:
  assumes "ls_repr str s"
  shows "\<exists>str'. LongStringFgets str fp =
      Inr (str', \<not> (LF \<notin> set fp \<and> filter (\<lambda>c. c \<noteq> CR) (takeWhile (\<lambda>c. c \<noteq> LF) fp) = []),
        drop (Suc (length (takeWhile (\<lambda>c. c \<noteq> LF) fp))) fp) \<and>
    ls_repr str' (filter (\<lambda>c. c \<noteq> CR) (takeWhile (\<lambda>c. c \<noteq> LF) fp))"
  using LongStringFgets_ok [of str s fp] assms unfolding line_text_def line_rest_def ls_repr_def by blast

theorem longstr_fgets_line_witness:
  "\<exists>str'. LongStringFgets hello (''new'' @ [CR, LF] @ ''x'') = Inr (str', True, ''x'') \<and>
    ls_repr str' ''new''"
  using longstr_fgets_line [OF hello_repr, of "''new'' @ [CR, LF] @ ''x''"] by simp

text \<open>\<open>split\<close> without a copy finds the fields of a text: as many as there are separators and
  one, each given by its start and its length.  A limit of one field is not respected: the
  text is split as if there were none.\<close>

theorem longstr_split_fields:
  assumes "ls_fields str" "NUL \<notin> set s" "length s < 32768" "maxfields \<le> 1"
  shows "\<exists>str' v a. LongStringSplit str (Some s) n False sep maxfields =
      Inr (str', length (fields_of sep s)) \<and>
    field_value str' = Some v \<and> field_size str' = Some a \<and>
    (\<forall>j < length (fields_of sep s). \<exists>i k. v ! j = Some (Arg i) \<and> a ! j = Some k \<and>
       take (unat k) (drop i s) = fields_of sep s ! j)"
proof -
  have "\<And>j. fptr_offset (Arg j) = j" by simp
  from split_fields_ok [of str s maxfields Arg, OF assms this, of "map Some (s @ [NUL])" n False sep]
  obtain str' m' v a where
    r: "split_fields Arg (map Some (s @ [NUL])) str n False sep maxfields = Inr (str', m')"
    "field_value str' = Some v" "field_size str' = Some a" "total_fields str' = length (fields_of sep s)"
    "\<forall>j < length (fields_of sep s). v ! j = Some (Arg (fst (fields_at sep 0 0 s ! j))) \<and>
       a ! j = Some (word_of_nat (snd (fields_at sep 0 0 s ! j)))" by auto
  have "take (snd (fields_at sep 0 0 s ! j)) (drop (fst (fields_at sep 0 0 s ! j)) s) = fields_of sep s ! j"
    if "j < length (fields_of sep s)" for j
    using arg_cong [OF fields_at_text [of s sep], of "\<lambda>l. l ! j"] that
    by (simp add: length_fields_at case_prod_unfold)
  with r show ?thesis
    by (intro exI [of _ str'] exI [of _ v] exI [of _ a])
      (auto simp: LongStringSplit_def fields_at_small [OF _ assms(3)] simp del: sbind_Inr_iff)
qed

theorem longstr_split_fields_witness:
  "\<exists>str'. LongStringSplit (LongStringInit 9) (Some ''a:bc:'') (-1) False CHR '':'' 1 = Inr (str', 3)"
proof -
  have "ls_fields (LongStringInit 9)" by (simp add: ls_fields_def LongStringInit_def)
  from longstr_split_fields [OF this, of "''a:bc:''" 1 "-1" "CHR '':''"] show ?thesis by auto
qed

text \<open>\<open>split\<close> of a string's own buffer makes every field a C string inside it.\<close>

theorem longstr_split_own:
  assumes "ls_repr str s" "buf str \<noteq> None" "ls_fields str" "NUL \<notin> set s" "length s < 32768" "maxfields \<le> 1"
  shows "\<exists>str' v b t. LongStringSplit str None n True sep maxfields =
      Inr (str', length (fields_of sep s)) \<and>
    field_value str' = Some v \<and> buf str' = Some b \<and> length b = allocated str' \<and>
    take (length s + 1) b = map Some (t @ [NUL]) \<and>
    (\<forall>j < length (fields_of sep s). \<exists>i. v ! j = Some (Own i) \<and>
       upto_NUL (drop i t) = fields_of sep s ! j)"
proof -
  obtain b where b: "buf str = Some b" using assms(2) by blast
  note r = ls_repr_block [OF assms(1) b]
  have "\<And>j. fptr_offset (Own j) = j" by simp
  from split_fields_ok [of str s maxfields Own, OF assms(3-6) this r(3,1), of n True sep]
  obtain str' m' v a where
    q: "split_fields Own b str n True sep maxfields = Inr (str', m')"
    "field_value str' = Some v" "total_fields str' = length (fields_of sep s)"
    "allocated str' = allocated str" "length m' = length b"
    "take (length s + 1) m' = map Some (cut sep s @ [NUL])"
    "\<forall>j < length (fields_of sep s). v ! j = Some (Own (fst (fields_at sep 0 0 s ! j)))" by auto
  have "upto_NUL (drop (fst (fields_at sep 0 0 s ! j)) (cut sep s)) = fields_of sep s ! j"
    if "j < length (fields_of sep s)" for j
    using arg_cong [OF fields_at_cut [of "cut sep s" "[]" sep s 0], of "\<lambda>l. l ! j"] that assms(4)
    by (simp add: length_fields_at case_prod_unfold)
  with q b r(4) show ?thesis
    by (intro exI [of _ "str'\<lparr>buf := Some m'\<rparr>"] exI [of _ v] exI [of _ m'] exI [of _ "cut sep s"])
      (simp add: LongStringSplit_def del: sbind_Inr_iff)
qed

theorem longstr_split_own_witness:
  "\<exists>str'. LongStringSplit hello None (-1) True CHR ''l'' 0 = Inr (str', 3)"
proof -
  have "buf hello \<noteq> None" "ls_fields hello" by (simp_all add: hello_def ls_fields_def LongStringInit_def)
  from longstr_split_own [OF hello_repr this, of 0 "-1" "CHR ''l''"] show ?thesis by auto
qed

text \<open>\<open>min\<close> shrinks the block but leaves \<open>allocated\<close> as it was: unless the block was full
  to the last byte but one, the next text that is appended is written past its end.\<close>

theorem longstr_min_append_overflow:
  assumes "ls_repr str s" "buf str \<noteq> None" "len str + 2 < allocated str" "upto_NUL t \<noteq> []"
  shows "LongStringAppend (fst (LongStringMin str)) t (-1) = Inl OutOfBounds"
proof -
  obtain b where b: "buf str = Some b" using assms(2) by blast
  note r = ls_repr_block [OF assms(1) b]
  define m where "m = fst (LongStringMin str)"
  obtain b' where m: "m = str\<lparr>buf := Some b'\<rparr>" "length b' = length s + 1"
    using b r by (simp add: m_def LongStringMin_def block_realloc_def)
  obtain c t' where t: "t = c # t'" "c \<noteq> NUL" using assms(4) by (cases t) (auto split: if_splits)
  define k where "k = len str + length t + 1"
  define b2 where "b2 = b'[length s := Some c]"
  have cl: "copy_loop b' (length s) (int (allocated str) - int (length s) - 1) t =
      (if at_end t' then Inr (b2, length s + 1, t') else Inl OutOfBounds)"
    using t m(2) assms(3) r by (cases t') (auto simp: store_def at_end_def b2_def)
  have al: "append_loop (Suc k) (slot_size str) (allocated str) b' (length s) t =
      (if at_end t' then Inr (allocated str, b2, length s + 1) else Inl OutOfBounds)"
    using cl by simp
  have "Suc k = len str + length t + 2" by (simp add: k_def)
  with al m r show ?thesis unfolding m_def [symmetric]
    by (simp add: LongStringAppend_def append_str_def store_def b2_def
        del: append_loop.simps sbind_Inl_iff)
qed

theorem longstr_min_append_overflow_witness:
  "LongStringAppend (fst (LongStringMin hello)) ''!'' (-1) = Inl OutOfBounds"
proof -
  have "buf hello \<noteq> None" "len hello + 2 < allocated hello" by (simp_all add: hello_def)
  then show ?thesis using longstr_min_append_overflow [OF hello_repr] by simp
qed

text \<open>\<open>readfile\<close> sizes the block to the file without recording it in \<open>allocated\<close>.  Appending
  bytes to a file of at least \<open>slot_size\<close> bytes shrinks the block and writes past its end.\<close>

theorem longstr_readfile_append_overflow:
  assumes "LongStringReadFile (LongStringInit k) (File n_bytes chunks) = Inr (str, p)"
    "slot_size (LongStringInit k) \<le> n_bytes" "0 < n" "n \<le> length t"
  shows "LongStringAppend str t (int n) = Inl OutOfBounds"
proof -
  obtain b where str: "str = LongStringInit k\<lparr>buf := Some b, len := n_bytes\<rparr>"
    using assms(1) by (auto simp: LongStringReadFile_def LongStringInit_def Let_def)
  then have "allocated str = 0" "buf str = Some b" "len str = n_bytes" "slot_size str \<le> n_bytes"
    using assms(2) by (simp_all add: LongStringInit_def)
  then show ?thesis using assms(3,4)
    by (auto simp: LongStringAppend_def append_mem_def block_memcpy_def store_def block_realloc_def)
qed

theorem longstr_readfile_append_overflow_witness:
  "\<exists>str. LongStringReadFile (LongStringInit 2) (File 3 [''abc'']) = Inr (str, True) \<and>
    LongStringAppend str ''d'' (int 1) = Inl OutOfBounds"
proof -
  obtain str where "LongStringReadFile (LongStringInit 2) (File 3 [''abc'']) = Inr (str, True)"
    by (auto simp: LongStringReadFile_def LongStringInit_def block_alloc_def block_memcpy_def store_def Let_def)
  moreover have "slot_size (LongStringInit 2) \<le> 3" by (simp add: LongStringInit_def)
  ultimately show ?thesis
    using longstr_readfile_append_overflow [of 2 3 "[''abc'']" str True 1 "''d''"] by simp
qed

text \<open>Copying nothing does not empty a string: the length becomes 0 but the buffer still
  holds the old text as a C string.\<close>

theorem longstr_copy_nothing_keeps_text:
  assumes "ls_repr str s" "buf str = Some b"
  shows "\<exists>str'. LongStringCopy str t 0 = Inr (str', True) \<and> len str' = 0 \<and> buf str' = Some b \<and>
    take (length s + 1) b = map Some (s @ [NUL])"
  using ls_repr_block(1) [OF assms] assms(2)
  by (simp add: LongStringCopy_def LongStringAppend_def)

theorem longstr_copy_nothing_keeps_text_witness:
  "\<exists>str' b. LongStringCopy hello [] 0 = Inr (str', True) \<and> len str' = 0 \<and> buf str' = Some b \<and>
    take 6 b = map Some (''hello'' @ [NUL])"
proof -
  have "buf hello = Some (map Some (''hello'' @ [NUL]) @ [None, None])" by (simp add: hello_def)
  from longstr_copy_nothing_keeps_text [OF hello_repr this, of "[]"] show ?thesis by fastforce
qed

text \<open>A duplicate has the text of its original in a block of its own, but \<open>dup\<close> records the
  new size of the field arrays in the original instead of the duplicate: the duplicate of a
  split string believes its arrays as large as the original's were.\<close>

theorem longstr_dup_copy:
  assumes "ls_repr str s" "buf str \<noteq> None" "field_value str = Some v" "field_size str = Some a"
    "total_fields str \<le> length v" "total_fields str \<le> length a"
  shows "\<exists>ostr str' v'. LongStringDup str = Inr (ostr, str', True) \<and> ls_repr ostr s \<and>
    field_value ostr = Some v' \<and> length v' = total_fields str \<and>
    allocated_field_pointers ostr = allocated_field_pointers str \<and>
    allocated_field_pointers str' = total_fields str"
proof -
  obtain b where b: "buf str = Some b" using assms(2) by blast
  note r = ls_repr_block [OF assms(1) b]
  have "take (length s) (take (length s + 1) b) = map Some s" "take (length s + 1) b ! length s = Some NUL"
    unfolding r(1) by (simp_all add: nth_append)
  then show ?thesis using assms b r
    by (simp add: LongStringDup_def Let_def ls_repr_def ls_buf_def nth_append)
qed

definition pair :: long_string where
  "pair = hello\<lparr>field_value := Some (map Some [Own 0, Own 3] @ replicate 13 None),
    field_size := Some (map Some [2, 2] @ replicate 13 None),
    allocated_field_pointers := 15, total_fields := 2\<rparr>"

theorem longstr_dup_copy_witness:
  "\<exists>ostr str' v'. LongStringDup pair = Inr (ostr, str', True) \<and> field_value ostr = Some v' \<and>
    length v' = 2 \<and> allocated_field_pointers ostr = 15"
proof -
  have "ls_repr pair ''hello''" by (simp add: ls_repr_def ls_buf_def pair_def hello_def LongStringInit_def)
  moreover have "buf pair \<noteq> None" by (simp add: pair_def hello_def)
  ultimately show ?thesis
    using longstr_dup_copy [of pair "''hello''" "map Some [Own 0, Own 3] @ replicate 13 None"
        "map Some [2, 2] @ replicate 13 None"] by (auto simp: pair_def)
qed

end
