(* ===== verification/Macread.thy ===== *)
theory Macread
  imports Hashtbl LongStr
begin

text \<open>
  Reading the macro definition files (\<open>macread.c\<close>): each line is cleaned of superfluous white
  space, split into the name, the parameter list and the body of a macro, and stored in a hash
  table that the preprocessor queries through \<open>paf_word\<close>.
\<close>

section \<open>Cleaning a line\<close>

text \<open>
  The function works in place: \<open>pc\<close> reads ahead of \<open>p\<close>, which writes.  The buffer is the
  string without its NUL; the result is the buffer up to the NUL written at \<open>p\<close>.
\<close>

definition at :: "string \<Rightarrow> nat \<Rightarrow> char" where
  "at bs i = (if i < length bs then bs ! i else NUL)"

function skip_ws :: "string \<Rightarrow> nat \<Rightarrow> nat" where
  "skip_ws bs pc = (if c_isspace (at bs pc) then skip_ws bs (pc + 1) else pc)"
  by pat_completeness auto
termination
  by (relation "measure (\<lambda>(bs, pc). length bs - pc)") (auto simp: at_def c_isspace_def byte_def split: if_splits)

declare skip_ws.simps [simp del]

function skip_hash :: "string \<Rightarrow> nat \<Rightarrow> nat" where
  "skip_hash bs pc =
     (if c_isspace (at bs pc) \<or> at bs pc = CHR ''#'' then skip_hash bs (pc + 1) else pc)"
  by pat_completeness auto
termination
  by (relation "measure (\<lambda>(bs, pc). length bs - pc)") (auto simp: at_def c_isspace_def byte_def split: if_splits)

declare skip_hash.simps [simp del]

lemma skip_ws_ge: "pc \<le> skip_ws bs pc"
proof (induction bs pc rule: skip_ws.induct)
  case (1 bs pc)
  then show ?case by (subst skip_ws.simps) auto
qed

text \<open>The body of the loop for a character that is kept: where it is written, where reading
  goes on, and the new bracket level.\<close>

definition unneeded_step ::
    "string \<Rightarrow> nat \<Rightarrow> nat \<Rightarrow> char \<Rightarrow> int \<Rightarrow> char \<Rightarrow> nat \<times> nat \<times> int" where
  "unneeded_step bs p pc prev_ch brac_lev c =
     (let p' = (if c_isspace prev_ch \<and> p < pc then p - 1 else p) in
      if c = CHR '')'' then (p', pc, brac_lev - 1)
      else if c = CHR ''('' \<or> c = CHR '','' then
        let brac_lev = (if c = CHR ''('' then brac_lev + 1 else brac_lev) in
        if brac_lev \<noteq> 0 then (p', skip_ws bs (pc + 1) - 1, brac_lev) else (p, pc, brac_lev)
      else (p, pc, brac_lev))"

lemma unneeded_step_ge: "unneeded_step bs p pc prev_ch lev c = (p', pc', lev') \<Longrightarrow> pc \<le> pc'"
  using skip_ws_ge [of "pc + 1" bs] by (auto simp: unneeded_step_def Let_def split: if_splits)

function unneeded_loop :: "string \<Rightarrow> nat \<Rightarrow> nat \<Rightarrow> char \<Rightarrow> int \<Rightarrow> string" where
  "unneeded_loop bs p pc prev_ch brac_lev =
     (if at bs pc = NUL then take p bs
      else
        let c = at bs pc in
        if c_isspace c \<and> c_isspace prev_ch then unneeded_loop bs p (pc + 1) prev_ch brac_lev
        else
          let c = (if c_isspace c then CHR '' '' else c);
              (p', pc', lev') = unneeded_step bs p pc prev_ch brac_lev c in
          unneeded_loop (bs[p' := c]) (p' + 1) (pc' + 1) c lev')"
  by pat_completeness auto
termination
proof (relation "measure (\<lambda>(bs, p, pc, prev_ch, brac_lev). length bs - pc)", goal_cases)
  case (3 bs p pc prev_ch lev c d s p' s' pc' lev')
  then have "pc \<le> pc'" "pc < length bs"
    using unneeded_step_ge [of bs p pc prev_ch lev d p' pc' lev'] by (auto simp: at_def split: if_splits)
  then show ?case by simp
qed (auto simp: at_def split: if_splits)

declare unneeded_loop.simps [simp del]

definition remove_unneded_chars :: "string \<Rightarrow> string" where
  "remove_unneded_chars bs = unneeded_loop bs 0 (skip_hash bs 0) NUL 0"

section \<open>Reading a line\<close>

datatype paf = PAF_WORD_DEFINE | PAF_WORD_UNDEF | PAF_WORD_REPLACE | PAF_WORD_NONE

record sMacro =
  mtyp :: paf
  mname :: string
  mparameter_list :: "string option"
  mmacro :: "string option"

text \<open>The scan of a parameter list: the list up to the bracket that closes it, and the rest.\<close>

fun scan_params :: "int \<Rightarrow> string \<Rightarrow> (string \<times> string) option" where
  "scan_params par [] = None"
| "scan_params par (c # s) =
     (let par = (if c = CHR ''('' then par + 1 else if c = CHR '')'' then par - 1 else par) in
      if par = 0 then Some ([], s)
      else map_option (\<lambda>(l, r). (c # l, r)) (scan_params par s))"

text \<open>What follows the command word.\<close>

definition read_macro :: "paf \<Rightarrow> string \<Rightarrow> (sMacro \<times> int) option" where
  "read_macro typ pc =
     (let pc = dropWhile c_isspace pc;
          name = takeWhile (\<lambda>c. \<not> c_isspace c \<and> c \<noteq> CHR ''('') pc;
          pc = dropWhile c_isspace (drop (length name) pc) in
      map_option
        (\<lambda>(params, pc).
           let pc = dropWhile c_isspace pc in
           (\<lparr>mtyp = typ, mname = name, mparameter_list = params,
             mmacro = (if pc = [] then None else Some pc)\<rparr>, int (length name)))
        (case pc of
           c # s \<Rightarrow>
             if c = CHR ''('' then map_option (\<lambda>(l, r). (Some l, r)) (scan_params 1 s)
             else Some (None, pc)
         | [] \<Rightarrow> Some (None, [])))"

definition strncmp_eq :: "string \<Rightarrow> string \<Rightarrow> bool" where
  "strncmp_eq pc word = (take (length word) pc = word)"

definition del_entry :: "string \<Rightarrow> int \<Rightarrow> 'd search_entry" where
  "del_entry k n = \<lparr>key = k, key_len = n, edata = NullData, data_len = 0, flag = 0\<rparr>"

definition f_MacroReadLine ::
    "string \<Rightarrow> sMacro search_table \<Rightarrow> ub + (sMacro \<times> int) option \<times> sMacro search_table" where
  "f_MacroReadLine pc tbl =
     (if strncmp_eq pc ''define'' then Inr (read_macro PAF_WORD_DEFINE (drop 6 pc), tbl)
      else if strncmp_eq pc ''undef'' then Inr (read_macro PAF_WORD_UNDEF (drop 5 pc), tbl)
      else if strncmp_eq pc ''replace'' then Inr (read_macro PAF_WORD_REPLACE (drop 7 pc), tbl)
      else if strncmp_eq pc ''delete'' then
        sbind (HashTableDelete tbl (del_entry (dropWhile c_isspace (drop 6 pc)) (-1)))
          (\<lambda>(tbl, r). Inr (None, tbl))
      else Inr (None, tbl))"

section \<open>Reading a file\<close>

text \<open>The buffer as a C string, and the buffer after a C string was written into it.\<close>

fun block_cstr :: "block \<Rightarrow> ub + string" where
  "block_cstr [] = Inl OutOfBounds"
| "block_cstr (None # b) = Inl Uninitialised"
| "block_cstr (Some c # b) = (if c = NUL then Inr [] else sbind (block_cstr b) (\<lambda>s. Inr (c # s)))"

definition put_cstr :: "block \<Rightarrow> string \<Rightarrow> block" where
  "put_cstr b s = map Some (s @ [NUL]) @ drop (length s + 1) b"

text \<open>The bytes of the buffer as an argument of \<open>append\<close> with a length.\<close>

definition buf_bytes :: "long_string \<Rightarrow> string" where
  "buf_bytes str = (case buf str of None \<Rightarrow> [] | Some b \<Rightarrow> map the (take (len str) b))"

text \<open>\<open>bf.buf[bf.len - 1]\<close>\<close>

definition last_char :: "long_string \<Rightarrow> ub + char" where
  "last_char str =
     (case buf str of
        None \<Rightarrow> Inl OutOfBounds
      | Some b \<Rightarrow> if len str = 0 then Inl OutOfBounds else load b (len str - 1))"

text \<open>The loop over the lines that continue a line, with one unit of fuel per line.\<close>

fun continue_loop ::
    "nat \<Rightarrow> long_string \<Rightarrow> long_string \<Rightarrow> string \<Rightarrow> ub + long_string \<times> string" where
  "continue_loop 0 bf b2 fp = Inl NoReturn"
| "continue_loop (Suc n) bf b2 fp =
     sbind (LongStringFgets b2 fp) (\<lambda>(b2, more, fp).
     if \<not> more \<or> len b2 = 0 then Inr (bf, fp)
     else
       sbind (LongStringTrim b2 None) (\<lambda>(b2, _).
       if len b2 = 0 then continue_loop n bf b2 fp
       else
         sbind (last_char b2) (\<lambda>c.
         if c = BSLASH then
           sbind (LongStringAppend bf (buf_bytes b2) (int (len b2) - 1)) (\<lambda>(bf, _).
           continue_loop n bf b2 fp)
         else
           sbind (LongStringAppend bf (buf_bytes b2) (int (len b2))) (\<lambda>(bf, _).
           Inr (bf, fp)))))"

definition sizeof_Macro :: int where "sizeof_Macro = 40"

definition macro_entry :: "sMacro \<Rightarrow> int \<Rightarrow> sMacro search_entry" where
  "macro_entry m name_len =
     \<lparr>key = mname m, key_len = name_len, edata = Obj m, data_len = sizeof_Macro, flag = 0\<rparr>"

text \<open>A macro replaces what is stored under its name.\<close>

definition store_macro ::
    "sMacro search_table \<Rightarrow> sMacro \<Rightarrow> int \<Rightarrow> ub + sMacro search_table" where
  "store_macro tbl m name_len =
     sbind (HashTableDelete tbl (macro_entry m name_len)) (\<lambda>(tbl, _).
     sbind (HashTableAdd tbl (macro_entry m name_len)) (\<lambda>(tbl, _).
     Inr tbl))"

definition process_line ::
    "long_string \<Rightarrow> sMacro search_table \<Rightarrow> ub + long_string \<times> sMacro search_table" where
  "process_line bf tbl =
     (case buf bf of
        None \<Rightarrow> Inl OutOfBounds
      | Some b \<Rightarrow>
          sbind (block_cstr b) (\<lambda>acBuffer.
          let line = remove_unneded_chars acBuffer;
              bf = bf\<lparr>buf := Some (put_cstr b line)\<rparr> in
          sbind (f_MacroReadLine line tbl) (\<lambda>(m, tbl).
          case m of
            None \<Rightarrow> Inr (bf, tbl)
          | Some (m, name_len) \<Rightarrow>
              sbind (store_macro tbl m name_len) (\<lambda>tbl. Inr (bf, tbl)))))"

fun read_lines ::
    "nat \<Rightarrow> long_string \<Rightarrow> string \<Rightarrow> sMacro search_table \<Rightarrow> ub + sMacro search_table" where
  "read_lines 0 bf fp tbl = Inl NoReturn"
| "read_lines (Suc n) bf fp tbl =
     sbind (LongStringFgets bf fp) (\<lambda>(bf, more, fp).
     if \<not> more then Inr tbl
     else
       sbind (LongStringTrim bf None) (\<lambda>(bf, _).
       sbind (case buf bf of None \<Rightarrow> Inl OutOfBounds | Some b \<Rightarrow> load b 0) (\<lambda>c.
       if c = NUL \<or> c = QUOTE then read_lines n bf fp tbl
       else
         sbind (last_char bf) (\<lambda>l.
         sbind (if l = BSLASH
                then continue_loop (length fp + 1) (bf\<lparr>len := len bf - 1\<rparr>) (LongStringInit 0) fp
                else Inr (bf, fp)) (\<lambda>(bf, fp).
         sbind (process_line bf tbl) (\<lambda>(bf, tbl).
         read_lines n bf fp tbl))))))"

text \<open>The state of the module: the table and whether \<open>Paf_Word\<close> was set.  The argument is the
  contents of the file, or \<open>None\<close> when it cannot be opened.\<close>

record macread_state =
  pbtrMacro :: "sMacro search_table option"
  Paf_Word_set :: bool

definition MacroReadFile :: "macread_state \<Rightarrow> string option \<Rightarrow> ub + macread_state" where
  "MacroReadFile st file =
     (case file of
        None \<Rightarrow> Inr st
      | Some fp \<Rightarrow>
          let tbl = (case pbtrMacro st of None \<Rightarrow> HashTableCreate 1000 True | Some t \<Rightarrow> t) in
          sbind (read_lines (length fp + 1) (LongStringInit 0) fp tbl) (\<lambda>tbl.
          if filled tbl \<noteq> 0 then Inr (st\<lparr>pbtrMacro := Some tbl, Paf_Word_set := True\<rparr>)
          else
            sbind (TableDestroy HashTableSeq tbl) (\<lambda>t.
            Inr (st\<lparr>pbtrMacro := None\<rparr>))))"

definition MacroFreeTable :: "macread_state \<Rightarrow> ub + macread_state" where
  "MacroFreeTable st =
     (case pbtrMacro st of
        None \<Rightarrow> Inr st
      | Some t \<Rightarrow> sbind (TableDestroy HashTableSeq t) (\<lambda>t. Inr (st\<lparr>pbtrMacro := None\<rparr>)))"

text \<open>The query: the kind of the macro, its parameter list and its body.\<close>

definition paf_word ::
    "macread_state \<Rightarrow> string \<Rightarrow> int \<Rightarrow> ub + paf \<times> string option \<times> string option" where
  "paf_word st word n =
     (case pbtrMacro st of
        None \<Rightarrow> Inr (PAF_WORD_NONE, None, None)
      | Some t \<Rightarrow>
          sbind (HashTableSearch t (del_entry word n)) (\<lambda>(t, found).
          case found of
            None \<Rightarrow> Inr (PAF_WORD_NONE, None, None)
          | Some i \<Rightarrow>
              sbind (get_cell t i) (\<lambda>d.
              case edata (entry d) of
                Obj m \<Rightarrow> Inr (mtyp m, mparameter_list m, mmacro m)
              | _ \<Rightarrow> Inl OutOfBounds)))"

end
