(* ===== verification/Macread_Props.thy ===== *)
theory Macread_Props
  imports Macread Hashtbl_Map LongStr_Props
begin

text \<open>
  What reading a macro definition file amounts to: the in-place cleaning of a line is a
  function on character streams, a written definition is read back, and the table answers
  \<open>paf_word\<close> with what was read.
\<close>

section \<open>Cleaning as a function on streams\<close>

text \<open>\<open>gap\<close> is the distance between reading and writing; \<open>out\<close> is the output, reversed.\<close>

definition pop_ws :: "nat \<Rightarrow> char \<Rightarrow> string \<Rightarrow> string" where
  "pop_ws gap prev out = (if c_isspace prev \<and> 0 < gap then tl out else out)"

definition pop_gap :: "nat \<Rightarrow> char \<Rightarrow> nat" where
  "pop_gap gap prev = (if c_isspace prev \<and> 0 < gap then gap + 1 else gap)"

definition map_ws :: "char \<Rightarrow> char" where
  "map_ws c = (if c_isspace c then CHR '' '' else c)"

function clean :: "nat \<Rightarrow> char \<Rightarrow> int \<Rightarrow> string \<Rightarrow> string \<Rightarrow> string" where
  "clean gap prev lev out [] = rev out"
| "clean gap prev lev out (c # s) =
     (if c = NUL then rev out
      else if c_isspace c \<and> c_isspace prev then clean (gap + 1) prev lev out s
      else
        let c = map_ws c in
        if c = CHR '')'' then clean (pop_gap gap prev) c (lev - 1) (c # pop_ws gap prev out) s
        else if c = CHR ''('' \<or> c = CHR '','' then
          let lev = (if c = CHR ''('' then lev + 1 else lev) in
          if lev \<noteq> 0 then
            clean (pop_gap gap prev + (length s - length (dropWhile c_isspace s))) c lev
              (c # pop_ws gap prev out) (dropWhile c_isspace s)
          else clean gap c lev (c # out) s
        else clean gap c lev (c # out) s)"
  by pat_completeness auto
termination
  by (relation "measure (\<lambda>(gap, prev, lev, out, s). length s)")
    (auto simp: le_imp_less_Suc length_dropWhile_le)

lemma not_space_NUL [simp]: "\<not> c_isspace NUL"
  by (simp add: c_isspace_def byte_def)

lemma skip_ws_dropWhile:
  "pc \<le> length bs \<Longrightarrow> skip_ws bs pc \<le> length bs \<and> drop (skip_ws bs pc) bs = dropWhile c_isspace (drop pc bs)"
proof (induction bs pc rule: skip_ws.induct)
  case (1 bs pc)
  show ?case
  proof (cases "pc < length bs \<and> c_isspace (bs ! pc)")
    case True
    then show ?thesis using "1.IH" by (subst (1 2) skip_ws.simps) (simp add: at_def Cons_nth_drop_Suc [symmetric])
  next
    case False
    then have "skip_ws bs pc = pc" by (subst skip_ws.simps) (auto simp: at_def)
    with False "1.prems" show ?thesis
      by (cases "pc < length bs") (simp_all add: Cons_nth_drop_Suc [symmetric])
  qed
qed

lemma skip_hash_dropWhile:
  "pc \<le> length bs \<Longrightarrow> skip_hash bs pc \<le> length bs \<and>
   drop (skip_hash bs pc) bs = dropWhile (\<lambda>c. c_isspace c \<or> c = CHR ''#'') (drop pc bs)"
proof (induction bs pc rule: skip_hash.induct)
  case (1 bs pc)
  show ?case
  proof (cases "pc < length bs \<and> (c_isspace (bs ! pc) \<or> bs ! pc = CHR ''#'')")
    case True
    then show ?thesis using "1.IH" by (subst (1 2) skip_hash.simps) (auto simp: at_def Cons_nth_drop_Suc [symmetric])
  next
    case False
    then have "skip_hash bs pc = pc" by (subst skip_hash.simps) (auto simp: at_def)
    with False "1.prems" show ?thesis
      by (cases "pc < length bs") (auto simp: Cons_nth_drop_Suc [symmetric])
  qed
qed

lemma rev_take_snoc: "p < length bs \<Longrightarrow> rev (take (p + 1) (bs[p := c])) = c # rev (take p bs)"
  by (simp add: take_Suc_conv_app_nth)

lemma tl_rev_take: "0 < p \<Longrightarrow> p \<le> length bs \<Longrightarrow> tl (rev (take p bs)) = rev (take (p - 1) bs)"
  by (cases p) (simp_all add: take_Suc_conv_app_nth)

text \<open>One step of the loop in terms of the streams.\<close>

lemma unneeded_step_streams:
  assumes "p \<le> pc" "pc < length bs" "c_isspace prev \<longrightarrow> 0 < p"
    "unneeded_step bs p pc prev lev c = (p', pc', lev')"
  shows "p' \<le> pc' \<and> pc' < length bs \<and>
    (if c = CHR '')'' then
       rev (take p' bs) = pop_ws (pc - p) prev (rev (take p bs)) \<and> pc' - p' = pop_gap (pc - p) prev \<and>
       drop (pc' + 1) bs = drop (pc + 1) bs \<and> lev' = lev - 1
     else if c = CHR ''('' \<or> c = CHR '','' then
       lev' = (if c = CHR ''('' then lev + 1 else lev) \<and>
       (if lev' \<noteq> 0 then
          rev (take p' bs) = pop_ws (pc - p) prev (rev (take p bs)) \<and>
          drop (pc' + 1) bs = dropWhile c_isspace (drop (pc + 1) bs) \<and>
          pc' - p' = pop_gap (pc - p) prev + (length (drop (pc + 1) bs) -
            length (dropWhile c_isspace (drop (pc + 1) bs)))
        else p' = p \<and> pc' = pc)
     else p' = p \<and> pc' = pc \<and> lev' = lev)"
proof -
  define q where "q = (if c_isspace prev \<and> p < pc then p - 1 else p)"
  have q: "rev (take q bs) = pop_ws (pc - p) prev (rev (take p bs))" "pc - q = pop_gap (pc - p) prev" "q \<le> pc"
    using assms(1-3) by (auto simp: q_def pop_ws_def pop_gap_def tl_rev_take)
  define k where "k = skip_ws bs (pc + 1)"
  have k: "pc + 1 \<le> k" "k \<le> length bs" "drop k bs = dropWhile c_isspace (drop (pc + 1) bs)"
    using skip_ws_ge [of "pc + 1" bs] skip_ws_dropWhile [of "pc + 1" bs] assms(2) by (simp_all add: k_def)
  have kl: "length (dropWhile c_isspace (drop (pc + 1) bs)) = length bs - k" using arg_cong [OF k(3), of length] by simp
  have "k - 1 - q = (pc - q) + (length (drop (pc + 1) bs) - length (dropWhile c_isspace (drop (pc + 1) bs)))"
    unfolding kl using k(1,2) q(3) by simp
  then show ?thesis
    using assms(1,2,4) q k unfolding unneeded_step_def q_def [symmetric] k_def [symmetric] Let_def
    by (auto split: if_splits)
qed

lemma unneeded_clean:
  assumes "p \<le> pc" "pc \<le> length bs" "c_isspace prev \<longrightarrow> 0 < p"
  shows "unneeded_loop bs p pc prev lev = clean (pc - p) prev lev (rev (take p bs)) (drop pc bs)"
  using assms
proof (induction bs p pc prev lev rule: unneeded_loop.induct)
  case (1 bs p pc prev lev)
  show ?case
  proof (cases "pc < length bs \<and> bs ! pc \<noteq> NUL")
    case False
    then have "at bs pc = NUL" by (auto simp: at_def)
    then have "unneeded_loop bs p pc prev lev = take p bs" by (subst unneeded_loop.simps) simp
    moreover have "drop pc bs = [] \<or> (\<exists>r. drop pc bs = NUL # r)"
      using False "1.prems"(2) by (cases "pc < length bs") (auto simp: Cons_nth_drop_Suc [symmetric])
    ultimately show ?thesis by auto
  next
    case True
    define c where "c = bs ! pc"
    have c: "at bs pc = c" "c \<noteq> NUL" "drop pc bs = c # drop (pc + 1) bs" "pc < length bs"
      using True by (simp_all add: at_def c_def Cons_nth_drop_Suc)
    show ?thesis
    proof (cases "c_isspace c \<and> c_isspace prev")
      case sp: True
      then have "unneeded_loop bs p pc prev lev = unneeded_loop bs p (pc + 1) prev lev"
        using c by (subst unneeded_loop.simps) simp
      also have "\<dots> = clean (pc + 1 - p) prev lev (rev (take p bs)) (drop (pc + 1) bs)"
        using "1.IH"(1) [OF _ c(1) [symmetric]] sp c "1.prems" by simp
      finally show ?thesis using sp c "1.prems"(1) by (simp add: Suc_diff_le)
    next
      case sp: False
      obtain p' pc' lev' where st: "unneeded_step bs p pc prev lev (map_ws c) = (p', pc', lev')"
        by (cases "unneeded_step bs p pc prev lev (map_ws c)")
      note u = unneeded_step_streams [OF "1.prems"(1) c(4) "1.prems"(3) st]
      have ps: "p' \<le> pc'" "pc' < length bs" using u by simp_all
      have "unneeded_loop bs p pc prev lev = unneeded_loop (bs[p' := map_ws c]) (p' + 1) (pc' + 1) (map_ws c) lev'"
        using c sp st by (subst unneeded_loop.simps) (auto simp: map_ws_def Let_def)
      also have "\<dots> = clean (pc' - p') (map_ws c) lev' (map_ws c # rev (take p' bs)) (drop (pc' + 1) bs)"
      proof -
        have "unneeded_loop (bs[p' := map_ws c]) (p' + 1) (pc' + 1) (map_ws c) lev' =
          clean (pc' + 1 - (p' + 1)) (map_ws c) lev' (rev (take (p' + 1) (bs[p' := map_ws c])))
            (drop (pc' + 1) (bs[p' := map_ws c]))"
          using "1.IH"(2) [OF _ c(1) [symmetric] sp map_ws_def refl st [symmetric] refl] c(1,2) ps
          by simp
        then show ?thesis using ps by (simp add: rev_take_snoc [simplified])
      qed
      finally have "unneeded_loop bs p pc prev lev =
        clean (pc' - p') (map_ws c) lev' (map_ws c # rev (take p' bs)) (drop (pc' + 1) bs)" .
      moreover have "(c_isspace c \<and> c_isspace prev) = False" using sp by blast
      ultimately show ?thesis using u c(2) unfolding c(3) clean.simps
        by (simp only: if_False Let_def) (simp del: One_nat_def clean.simps split: if_splits)
    qed
  qed
qed

definition ws_apart :: "char \<Rightarrow> char \<Rightarrow> bool" where
  "ws_apart a b \<longleftrightarrow> \<not> (c_isspace a \<and> c_isspace b)"

lemma ws_apart_flip: "successively (\<lambda>a b. ws_apart b a) s = successively ws_apart s"
  by (rule successively_cong) (auto simp: ws_apart_def)

lemma successively_pop:
  "successively ws_apart out \<Longrightarrow> (out \<noteq> [] \<longrightarrow> hd out = prev) \<Longrightarrow> \<not> c_isspace c \<Longrightarrow>
   successively ws_apart (c # pop_ws gap prev out)"
  by (cases out) (auto simp: pop_ws_def ws_apart_def successively_Cons split: if_splits)

lemma set_pop_ws: "set (pop_ws gap prev out) \<subseteq> set out"
  by (cases out) (auto simp: pop_ws_def)

lemma length_pop_ws: "length (pop_ws gap prev out) \<le> length out"
  by (simp add: pop_ws_def)

lemma isspace_simps [simp]:
  "c_isspace (CHR '' '')" "\<not> c_isspace (CHR '')'')" "\<not> c_isspace (CHR ''('')" "\<not> c_isspace (CHR '','')"
  by (simp_all add: c_isspace_def byte_def)

lemma map_ws_props: "c \<noteq> NUL \<Longrightarrow> map_ws c \<noteq> NUL" "c_isspace (map_ws c) \<longleftrightarrow> c_isspace c"
    "c_isspace (map_ws c) \<Longrightarrow> map_ws c = CHR '' ''"
  by (cases "c_isspace c"; simp add: map_ws_def)+

lemma bracket_not_space: "map_ws c = CHR '')'' \<or> map_ws c = CHR ''('' \<or> map_ws c = CHR '','' \<Longrightarrow> \<not> c_isspace (map_ws c)"
  by (elim disjE) simp_all

lemma clean_shape:
  assumes "successively ws_apart out" "out \<noteq> [] \<longrightarrow> hd out = prev" "\<forall>c \<in> set out. c \<noteq> NUL \<and> (c_isspace c \<longrightarrow> c = CHR '' '')"
  shows "successively ws_apart (clean gap prev lev out s) \<and>
    (\<forall>c \<in> set (clean gap prev lev out s). c \<noteq> NUL \<and> (c_isspace c \<longrightarrow> c = CHR '' '')) \<and>
    length (clean gap prev lev out s) \<le> length out + length s"
  using assms
proof (induction gap prev lev out s rule: clean.induct)
  case (1 gap prev lev out)
  then show ?case by (simp add: successively_rev ws_apart_flip)
next
  case (2 gap prev lev out c s)
  let ?d = "map_ws c"
  have base: "successively ws_apart (rev out)" using "2.prems"(1)
    by (simp add: successively_rev ws_apart_flip)
  consider (nul) "c = NUL" | (skip) "c \<noteq> NUL" "c_isspace c \<and> c_isspace prev"
    | (keep) "c \<noteq> NUL" "\<not> (c_isspace c \<and> c_isspace prev)" by blast
  then show ?case
  proof cases
    case nul
    with "2.prems"(3) base show ?thesis by simp
  next
    case skip
    then show ?thesis using "2.IH"(1) [OF skip "2.prems"] by simp
  next
    case 3: keep
    have sp: "(c_isspace c \<and> c_isspace prev) = False" "(c = NUL) = False" using 3 by blast+
    have cl: "clean gap prev lev out (c # s) =
        (if ?d = CHR '')'' then clean (pop_gap gap prev) ?d (lev - 1) (?d # pop_ws gap prev out) s
        else if ?d = CHR ''('' \<or> ?d = CHR '','' then
          if (if ?d = CHR ''('' then lev + 1 else lev) \<noteq> 0 then
            clean (pop_gap gap prev + (length s - length (dropWhile c_isspace s))) ?d
              (if ?d = CHR ''('' then lev + 1 else lev) (?d # pop_ws gap prev out) (dropWhile c_isspace s)
          else clean gap ?d (if ?d = CHR ''('' then lev + 1 else lev) (?d # out) s
        else clean gap ?d lev (?d # out) s)"
      unfolding clean.simps(2) sp if_False Let_def ..
    have d: "?d \<noteq> NUL" "c_isspace ?d \<longrightarrow> ?d = CHR '' ''"
      using map_ws_props(1) [OF 3(1)] map_ws_props(3) [of c] by simp_all
    have push: "successively ws_apart (?d # out)"
    proof (cases out)
      case (Cons a l)
      with "2.prems"(2) have "a = prev" by simp
      with Cons 3(2) "2.prems"(1) show ?thesis
        by (simp add: ws_apart_def map_ws_props(2) successively_Cons)
    qed simp
    have pushs: "\<forall>x \<in> set (?d # out). x \<noteq> NUL \<and> (c_isspace x \<longrightarrow> x = CHR '' '')"
      using d "2.prems"(3) by simp
    have pop: "successively ws_apart (?d # pop_ws gap prev out)" if "\<not> c_isspace ?d"
      by (rule successively_pop [OF "2.prems"(1,2) that])
    have pops: "\<forall>x \<in> set (?d # pop_ws gap prev out). x \<noteq> NUL \<and> (c_isspace x \<longrightarrow> x = CHR '' '')"
      using d "2.prems"(3) set_pop_ws [of gap prev out] by (simp add: subset_iff)
    note l = length_pop_ws [of gap prev out] length_dropWhile_le [of c_isspace s]
    show ?thesis
    proof (cases "?d = CHR '')''")
      case True
      then have ns: "\<not> c_isspace ?d" using bracket_not_space by blast
      show ?thesis using "2.IH"(2) [OF 3 refl True pop [OF ns] _ pops] True l
        unfolding cl by (simp del: clean.simps)
    next
      case nc: False
      show ?thesis
      proof (cases "?d = CHR ''('' \<or> ?d = CHR '',''")
        case True
        then have ns: "\<not> c_isspace ?d" using bracket_not_space by blast
        show ?thesis
        proof (cases "(if ?d = CHR ''('' then lev + 1 else lev) \<noteq> 0")
          case lv: True
          show ?thesis using "2.IH"(3) [OF 3 refl nc True refl lv pop [OF ns] _ pops] True nc lv l
            unfolding cl by (simp del: clean.simps)
        next
          case lv: False
          show ?thesis using "2.IH"(4) [OF 3 refl nc True refl lv push _ pushs] True nc lv
            unfolding cl by (simp del: clean.simps)
        qed
      next
        case False
        show ?thesis using "2.IH"(5) [OF 3 refl nc False push _ pushs] False nc
          unfolding cl by (simp del: clean.simps)
      qed
    qed
  qed
qed

lemma remove_unneded_stream:
  "remove_unneded_chars bs = clean (length bs - length (dropWhile (\<lambda>c. c_isspace c \<or> c = CHR ''#'') bs))
     NUL 0 [] (dropWhile (\<lambda>c. c_isspace c \<or> c = CHR ''#'') bs)"
proof -
  define k where "k = skip_hash bs 0"
  have k: "k \<le> length bs" "drop k bs = dropWhile (\<lambda>c. c_isspace c \<or> c = CHR ''#'') bs"
    using skip_hash_dropWhile [of 0 bs] by (simp_all add: k_def)
  have "length (dropWhile (\<lambda>c. c_isspace c \<or> c = CHR ''#'') bs) = length bs - k"
    using arg_cong [OF k(2), of length] by simp
  then show ?thesis
    using k unneeded_clean [of 0 k bs NUL 0] by (simp add: remove_unneded_chars_def k_def [symmetric])
qed

lemma remove_unneded_shape:
  "successively ws_apart (remove_unneded_chars bs) \<and>
   (\<forall>c \<in> set (remove_unneded_chars bs). c \<noteq> NUL \<and> (c_isspace c \<longrightarrow> c = CHR '' '')) \<and>
   length (remove_unneded_chars bs) \<le> length bs"
  unfolding remove_unneded_stream
  using clean_shape [of "[]" NUL "length bs - length (dropWhile (\<lambda>c. c_isspace c \<or> c = CHR ''#'') bs)" 0
      "dropWhile (\<lambda>c. c_isspace c \<or> c = CHR ''#'') bs"]
    length_dropWhile_le [of "\<lambda>c. c_isspace c \<or> c = CHR ''#''" bs]
  by auto

section \<open>Reading a definition\<close>

text \<open>A parameter list is bracketed within itself if no bracket in it closes it.\<close>

fun inside :: "int \<Rightarrow> string \<Rightarrow> bool" where
  "inside par [] \<longleftrightarrow> par = 1"
| "inside par (c # s) \<longleftrightarrow>
     (let par = (if c = CHR ''('' then par + 1 else if c = CHR '')'' then par - 1 else par) in
      par \<noteq> 0 \<and> inside par s)"

lemma scan_params_inside: "inside par ps \<Longrightarrow> scan_params par (ps @ CHR '')'' # r) = Some (ps, r)"
  by (induction par ps rule: inside.induct) (auto simp: Let_def split: if_splits)

definition is_name :: "string \<Rightarrow> bool" where
  "is_name n \<longleftrightarrow> n \<noteq> [] \<and> (\<forall>c \<in> set n. \<not> c_isspace c \<and> c \<noteq> CHR ''('' \<and> c \<noteq> NUL)"

lemma name_prefix:
  assumes "is_name n" "r = [] \<or> c_isspace (hd r) \<or> hd r = CHR ''(''"
  shows "dropWhile c_isspace (n @ r) = n @ r"
    "takeWhile (\<lambda>c. \<not> c_isspace c \<and> c \<noteq> CHR ''('') (n @ r) = n"
  using assms by (cases n; cases r; auto simp: is_name_def takeWhile_append)+

lemma dropWhile_blanks: "\<forall>c \<in> set ws. c_isspace c \<Longrightarrow> dropWhile c_isspace (ws @ r) = dropWhile c_isspace r"
  by (simp add: dropWhile_append2)

section \<open>The table of macros\<close>

lemma wf_del_entry: "NUL \<notin> set w \<Longrightarrow> wf_entry (hash_item (del_entry w (int (length w))))"
    "ekey (hash_item (del_entry w (int (length w)))) = w"
  by (simp_all add: wf_entry_def hash_item_def del_entry_def ekey_def)

definition macro_answer :: "sMacro search_entry option \<Rightarrow> ub + paf \<times> string option \<times> string option" where
  "macro_answer r =
     (case r of
        None \<Rightarrow> Inr (PAF_WORD_NONE, None, None)
      | Some e \<Rightarrow>
          (case edata e of
             Obj m \<Rightarrow> Inr (mtyp m, mparameter_list m, mmacro m)
           | _ \<Rightarrow> Inl OutOfBounds))"

lemma paf_word_lookup:
  assumes "hash_inv t" "NUL \<notin> set w" "pbtrMacro st = Some t"
  shows "paf_word st w (int (length w)) = macro_answer (hash_lookup t w)"
proof -
  note wf = wf_del_entry(1) [OF assms(2), where 'a = sMacro]
  let ?q = "del_entry w (int (length w)) :: sMacro search_entry"
  have k: "ekey (hash_item ?q) = w" by (rule wf_del_entry)
  show ?thesis
  proof (cases "hash_lookup t w")
    case None
    then have "w \<notin> ekey ` hash_entries t" using hash_lookup_None [OF assms(1)] by blast
    then have "HashTableSearch t ?q = Inr (t, None)"
      using hash_search_absent [OF assms(1) wf] by (simp add: k HashTableSearch_def depth_not_add)
    then show ?thesis using None assms(3) by (simp add: paf_word_def macro_answer_def)
  next
    case (Some e)
    then have "e \<in> hash_entries t" "ekey e = w" using hash_lookup_entries [OF assms(1)] by blast+
    then obtain i where i: "i \<in> occupied t" "entry (cell t i) = e" by (auto simp: hash_entries_def)
    then have "HashTableSearch t ?q = Inr (t, Some i)"
      using hash_search_present [OF assms(1) wf i(1)] \<open>ekey e = w\<close>
      by (simp add: k HashTableSearch_def depth_not_add)
    moreover have "get_cell t i = Inr (cell t i)"
      using i(1) by (intro get_cell_hash [OF assms(1)]) (simp add: occupied_def)
    ultimately show ?thesis using Some assms(3) i(2)
      by (simp add: paf_word_def macro_answer_def split: cdata.split)
  qed
qed

lemma macro_entry_ok:
  assumes "is_name (mname m)"
  shows "hash_accepts (macro_entry m (int (length (mname m))))"
    "hash_item (macro_entry m (int (length (mname m)))) = macro_entry m (int (length (mname m)))"
    "ekey (macro_entry m (int (length (mname m)))) = mname m"
    "hash_stored (macro_entry m (int (length (mname m)))) = macro_entry m (int (length (mname m)))"
  using assms
  by (auto simp: hash_accepts_def hash_item_def macro_entry_def wf_entry_def ekey_def is_name_def
      bad_flag_def has_flag_def hash_stored_def dup_data_def dup_key_def)

lemma store_macro_new:
  assumes "hash_inv t" "is_name (mname m)" "hash_lookup t (mname m) = None"
  shows "store_macro t m (int (length (mname m))) =
      Inr (hash_insert (macro_entry m (int (length (mname m)))) t)"
proof -
  let ?e = "macro_entry m (int (length (mname m)))"
  note ok = macro_entry_ok [OF assms(2)]
  have wf: "wf_entry (hash_item ?e)" using ok(1) by (simp add: hash_accepts_def)
  have "mname m \<notin> ekey ` hash_entries t" using hash_lookup_None [OF assms(1)] assms(3) by blast
  then have d: "HashTableDelete t ?e = Inr (t, None)"
    using hash_search_absent [OF assms(1) wf] ok by (simp add: HashTableDelete_def depth_not_add)
  obtain t' i where "HashTableAdd t ?e = Inr (t', Some i)"
    using HashTableAdd_ok [OF assms(1) ok(1)] by blast
  with d show ?thesis by (simp add: store_macro_def hash_insert_def)
qed

section \<open>Properties\<close>

text \<open>Cleaning a line in place computes what the same loop computes from a separate input:
  the writing pointer never overtakes the reading pointer.  The outcome has no NUL, no white
  space but single blanks, and is not longer than the line.\<close>

theorem remove_unneded_in_place:
  "remove_unneded_chars bs =
     clean (length bs - length (dropWhile (\<lambda>c. c_isspace c \<or> c = CHR ''#'') bs)) NUL 0 []
       (dropWhile (\<lambda>c. c_isspace c \<or> c = CHR ''#'') bs) \<and>
   successively (\<lambda>a b. \<not> (c_isspace a \<and> c_isspace b)) (remove_unneded_chars bs) \<and>
   (\<forall>c \<in> set (remove_unneded_chars bs). c \<noteq> NUL \<and> (c_isspace c \<longrightarrow> c = CHR '' '')) \<and>
   length (remove_unneded_chars bs) \<le> length bs"
proof -
  have ws: "ws_apart = (\<lambda>a b. \<not> (c_isspace a \<and> c_isspace b))" by (simp add: fun_eq_iff ws_apart_def)
  show ?thesis unfolding ws [symmetric]
    by (rule conjI [OF remove_unneded_stream remove_unneded_shape])
qed

text \<open>The bounded quantifier ranges over the characters of the result.\<close>

theorem remove_unneded_in_place_witness:
  "length (remove_unneded_chars ''# define  F ( a , b )  x'') \<le> 24 \<and>
   remove_unneded_chars ''# define  F ( a , b )  x'' = ''define F(a,b) x''"
proof -
  have "remove_unneded_chars ''# define  F ( a , b )  x'' = ''define F(a,b) x''" by code_simp
  then show ?thesis using remove_unneded_in_place [of "''# define  F ( a , b )  x''"] by simp
qed

text \<open>The blank before a bracket goes only if something was removed earlier on the line: the
  guard compares the writing pointer with the reading pointer instead of the start.\<close>

theorem remove_unneded_needs_gap:
  "remove_unneded_chars ''define F (a )'' = ''define F (a )'' \<and>
   remove_unneded_chars '' define F (a )'' = ''define F(a)''"
  by (intro conjI; code_simp)

text \<open>C26: A macro definition is read back as it is written: the name, the parameter list up to
  the bracket that closes it, and the body.  Blanks between the name and the bracket make no
  difference, unlike in C, where they would make the bracket part of the body.\<close>

theorem macro_line_function_like:
  assumes "is_name n" "inside 1 ps" "\<forall>c \<in> set ws. c_isspace c" "\<forall>c \<in> set ws'. c_isspace c"
    "r = [] \<or> \<not> c_isspace (hd r)"
  shows "f_MacroReadLine (''define '' @ n @ ws @ CHR ''('' # ps @ CHR '')'' # ws' @ r) tbl =
    Inr (Some (\<lparr>mtyp = PAF_WORD_DEFINE, mname = n, mparameter_list = Some ps,
      mmacro = (if r = [] then None else Some r)\<rparr>, int (length n)), tbl)"
proof -
  let ?r = "ws @ CHR ''('' # ps @ CHR '')'' # ws' @ r"
  have "?r = [] \<or> c_isspace (hd ?r) \<or> hd ?r = CHR ''(''" using assms(3) by (cases ws) auto
  note np = name_prefix [OF assms(1) this]
  have "dropWhile c_isspace (CHR '' '' # n @ ?r) = n @ ?r" using np(1) by simp
  moreover have "dropWhile c_isspace ?r = CHR ''('' # ps @ CHR '')'' # ws' @ r"
    using assms(3) by (simp add: dropWhile_blanks)
  moreover have "dropWhile c_isspace (ws' @ r) = r"
    using assms(4,5) by (cases r) (simp_all add: dropWhile_blanks)
  ultimately show ?thesis using np(2) scan_params_inside [OF assms(2)] assms(4,5)
    by (cases r) (simp_all add: f_MacroReadLine_def strncmp_eq_def read_macro_def Let_def)
qed

theorem macro_line_function_like_witness:
  "f_MacroReadLine ''define MAX (a,b) (a)'' (HashTableCreate 7 False) =
    Inr (Some (\<lparr>mtyp = PAF_WORD_DEFINE, mname = ''MAX'', mparameter_list = Some ''a,b'',
      mmacro = Some ''(a)''\<rparr>, 3), HashTableCreate 7 False)"
proof -
  have "is_name ''MAX''" "inside 1 ''a,b''" by code_simp+
  then show ?thesis
    using macro_line_function_like [of "''MAX''" "''a,b''" "'' ''" "'' ''" "''(a)''" "HashTableCreate 7 False"] by simp
qed

text \<open>A definition without parameters is read back as it is written, whatever its body as
  long as it does not start with a bracket.\<close>

theorem macro_line_object_like:
  assumes "is_name n" "ws \<noteq> []" "\<forall>c \<in> set ws. c_isspace c" "r \<noteq> []" "\<not> c_isspace (hd r)" "hd r \<noteq> CHR ''(''"
  shows "f_MacroReadLine (''define '' @ n @ ws @ r) tbl =
    Inr (Some (\<lparr>mtyp = PAF_WORD_DEFINE, mname = n, mparameter_list = None, mmacro = Some r\<rparr>,
      int (length n)), tbl)"
proof -
  obtain c s where r: "r = c # s" using assms(4) by (cases r) auto
  have "ws @ r = [] \<or> c_isspace (hd (ws @ r)) \<or> hd (ws @ r) = CHR ''(''" using assms(2,3) by (cases ws) auto
  note np = name_prefix [OF assms(1) this]
  have "dropWhile c_isspace (CHR '' '' # n @ ws @ r) = n @ ws @ r" using np(1) by simp
  moreover from assms(3,5) have "dropWhile c_isspace (ws @ r) = r" by (simp add: dropWhile_blanks r)
  ultimately show ?thesis using np(2) assms(5,6)
    by (simp add: f_MacroReadLine_def strncmp_eq_def read_macro_def Let_def r)
qed

theorem macro_line_object_like_witness:
  "f_MacroReadLine ''define N  1 + 2'' (HashTableCreate 7 False) =
    Inr (Some (\<lparr>mtyp = PAF_WORD_DEFINE, mname = ''N'', mparameter_list = None, mmacro = Some ''1 + 2''\<rparr>, 1), HashTableCreate 7 False)"
proof -
  have "is_name ''N''" "\<not> c_isspace (CHR ''1'')" by code_simp+
  then show ?thesis using macro_line_object_like [of "''N''" "''  ''" "''1 + 2''" "HashTableCreate 7 False"] by simp
qed

text \<open>After a new macro was stored, \<open>paf_word\<close> answers its kind, parameters and body for its
  name and the same as before for every other word.\<close>

theorem paf_word_after_store:
  assumes "hash_inv t" "is_name (mname m)" "hash_lookup t (mname m) = None" "NUL \<notin> set w"
    "pbtrMacro st = Some t"
  shows "\<exists>t'. store_macro t m (int (length (mname m))) = Inr t' \<and> hash_inv t' \<and>
    paf_word (st\<lparr>pbtrMacro := Some t'\<rparr>) w (int (length w)) =
      (if w = mname m then Inr (mtyp m, mparameter_list m, mmacro m)
       else paf_word st w (int (length w)))"
proof -
  let ?e = "macro_entry m (int (length (mname m)))"
  note ok = macro_entry_ok [OF assms(2)]
  have inv: "hash_inv (hash_insert ?e t)" by (rule hash.invar_insert [OF assms(1) ok(1)])
  have "hash_lookup (hash_insert ?e t) w = (if w = mname m then Some ?e else hash_lookup t w)"
    using hash.lookup_insert [OF assms(1) ok(1), of w] assms(3) ok by auto
  moreover have "macro_answer (Some ?e) = Inr (mtyp m, mparameter_list m, mmacro m)"
    by (simp add: macro_answer_def macro_entry_def)
  ultimately show ?thesis
    using store_macro_new [OF assms(1-3)] inv
      paf_word_lookup [OF inv assms(4), of "st\<lparr>pbtrMacro := Some (hash_insert ?e t)\<rparr>"]
      paf_word_lookup [OF assms(1,4,5)]
    by simp
qed

definition macro_N :: sMacro where
  "macro_N = \<lparr>mtyp = PAF_WORD_DEFINE, mname = ''N'', mparameter_list = None, mmacro = Some ''1''\<rparr>"

theorem paf_word_after_store_witness:
  "\<exists>t'. store_macro (HashTableCreate 1000 True) macro_N (int (length (mname macro_N))) = Inr t' \<and>
    paf_word \<lparr>pbtrMacro = Some t', Paf_Word_set = True\<rparr> ''N'' (int (length ''N'')) =
      Inr (PAF_WORD_DEFINE, None, Some ''1'')"
proof -
  have "hash_inv (HashTableCreate 1000 True :: sMacro search_table)" by (rule hash_inv_create) simp
  moreover have "is_name (mname macro_N)" "mname macro_N = ''N''" by code_simp+
  moreover have "hash_lookup (HashTableCreate 1000 True :: sMacro search_table) ''N'' = None"
    by (simp add: hash_lookup_None hash_inv_create hash_entries_create)
  ultimately show ?thesis
    using paf_word_after_store [of "HashTableCreate 1000 True" macro_N "''N''"
        "\<lparr>pbtrMacro = Some (HashTableCreate 1000 True), Paf_Word_set = True\<rparr>"]
    by (auto simp: macro_N_def)
qed

end
