(* ===== verification/Keywords.thy ===== *)
theory Keywords
  imports Cpdefines
begin

text \<open>
  The keyword table of \<open>cpkeyw.c\<close>: a hash of the first six characters selects the only entry
  a word is compared with.  An entry \<open>{ 0 }\<close> of the source is no entry here.
\<close>

section \<open>The table\<close>

definition HASH_MAX :: nat where "HASH_MAX = 273"

definition c_hash :: "nat list" where
  "c_hash =
     replicate 97 273
     @ [14, 15, 7, 35, 49, 48, 37, 22, 34, 7, 48, 44, 5, 6, 30,
        8, 11, 32, 45, 46, 40, 27, 11, 39, 30, 40]
     @ replicate 133 273"

record KYW_S =
  pcName :: string
  wLexId :: keyword
  kis_cpp :: bool
  kleng :: nat

definition kyw :: "string \<Rightarrow> keyword \<Rightarrow> bool \<Rightarrow> nat \<Rightarrow> KYW_S" where
  "kyw w k c n = \<lparr>pcName = w, wLexId = k, kis_cpp = c, kleng = n\<rparr>"

definition LexKeyWordTab :: "(nat \<times> KYW_S) list" where
  "LexKeyWordTab =
    [(64, kyw ''asm'' SN_ASM True 3),
     (65, kyw ''do'' SN_DO False 2),
     (66, kyw ''new'' SN_NEW True 3),
     (75, kyw ''char'' SN_CHAR False 4),
     (82, kyw ''if'' SN_IF False 2),
     (86, kyw ''int'' SN_INT False 3),
     (96, kyw ''catch'' SN_CATCH True 5),
     (100, kyw ''enum'' SN_ENUM False 4),
     (108, kyw ''try'' SN_TRY True 3),
     (110, kyw ''for'' SN_FOR False 3),
     (115, kyw ''case'' SN_CASE False 4),
     (116, kyw ''union'' SN_UNION False 5),
     (117, kyw ''long'' SN_LONG False 4),
     (119, kyw ''bool'' SN_BOOL True 4),
     (126, kyw ''void'' SN_VOID False 4),
     (127, kyw ''namespace'' SN_NAMESPACE True 9),
     (129, kyw ''continue'' SN_CONTINUE False 8),
     (130, kyw ''auto'' SN_AUTO False 4),
     (134, kyw ''const'' SN_CONST False 5),
     (141, kyw ''throw'' SN_THROW True 5),
     (143, kyw ''goto'' SN_GOTO False 4),
     (147, kyw ''this'' SN_THIS True 4),
     (148, kyw ''public'' SN_PUBLIC True 6),
     (155, kyw ''class'' SN_CLASS True 5),
     (158, kyw ''break'' SN_BREAK False 5),
     (160, kyw ''while'' SN_WHILE False 5),
     (161, kyw ''private'' SN_PRIVATE True 7),
     (162, kyw ''using'' SN_USING True 5),
     (165, kyw ''switch'' SN_SWITCH False 6),
     (166, kyw ''template'' SN_TEMPLATE True 8),
     (168, kyw ''unsigned'' SN_UNSIGNED False 8),
     (172, kyw ''protected'' SN_PROTECTED True 9),
     (173, kyw ''inline'' SN_INLINE True 6),
     (175, kyw ''short'' SN_SHORT False 5),
     (179, kyw ''operator'' SN_OPERATOR True 8),
     (182, kyw ''float'' SN_FLOAT False 5),
     (187, kyw ''else'' SN_ELSE False 4),
     (192, kyw ''static'' SN_STATIC False 6),
     (193, kyw ''virtual'' SN_VIRTUAL True 7),
     (195, kyw ''volatile'' SN_VOLATILE True 8),
     (204, kyw ''friend'' SN_FRIEND True 6),
     (205, kyw ''return'' SN_RETURN False 6),
     (206, kyw ''signed'' SN_SIGNED False 6),
     (212, kyw ''overload'' SN_OVERLOAD True 8),
     (213, kyw ''double'' SN_DOUBLE False 6),
     (215, kyw ''interface'' SN_INTERFACE True 9),
     (216, kyw ''struct'' SN_STRUCT False 6),
     (217, kyw ''typedef'' SN_TYPEDEF False 7),
     (221, kyw ''extern'' SN_EXTERN False 6),
     (230, kyw ''default'' SN_DEFAULT False 7),
     (243, kyw ''register'' SN_REGISTER False 8),
     (246, kyw ''sizeof'' SN_SIZEOF False 6),
     (272, kyw ''delete'' SN_DELETE True 6)]"

section \<open>Looking a word up\<close>

text \<open>The loop over the characters of an identifier: \<open>j\<close> counts them.\<close>

fun ident_hash :: "nat \<Rightarrow> nat \<Rightarrow> string \<Rightarrow> nat" where
  "ident_hash j ihash [] = ihash"
| "ident_hash j ihash (c # cs) =
     ident_hash (j + 1) (if j < 6 \<and> ihash < HASH_MAX then ihash + c_hash ! byte c else ihash) cs"

definition keyword_of :: "string \<Rightarrow> keyword \<times> bool" where
  "keyword_of yytext =
     (let ihash = ident_hash 0 0 yytext in
      if ihash < HASH_MAX then
        (case map_of LexKeyWordTab ihash of
           None \<Rightarrow> (KW_NONE, False)
         | Some k \<Rightarrow>
             if kleng k = length yytext \<and> take (length yytext) (pcName k) = yytext
             then (wLexId k, kis_cpp k) else (KW_NONE, False))
      else (KW_NONE, False))"

section \<open>The hash is perfect\<close>

lemma c_hash_letters:
  "c_hash ! byte CHR ''a'' = 14"
  "c_hash ! byte CHR ''b'' = 15"
  "c_hash ! byte CHR ''c'' = 7"
  "c_hash ! byte CHR ''d'' = 35"
  "c_hash ! byte CHR ''e'' = 49"
  "c_hash ! byte CHR ''f'' = 48"
  "c_hash ! byte CHR ''g'' = 37"
  "c_hash ! byte CHR ''h'' = 22"
  "c_hash ! byte CHR ''i'' = 34"
  "c_hash ! byte CHR ''j'' = 7"
  "c_hash ! byte CHR ''k'' = 48"
  "c_hash ! byte CHR ''l'' = 44"
  "c_hash ! byte CHR ''m'' = 5"
  "c_hash ! byte CHR ''n'' = 6"
  "c_hash ! byte CHR ''o'' = 30"
  "c_hash ! byte CHR ''p'' = 8"
  "c_hash ! byte CHR ''q'' = 11"
  "c_hash ! byte CHR ''r'' = 32"
  "c_hash ! byte CHR ''s'' = 45"
  "c_hash ! byte CHR ''t'' = 46"
  "c_hash ! byte CHR ''u'' = 40"
  "c_hash ! byte CHR ''v'' = 27"
  "c_hash ! byte CHR ''w'' = 11"
  "c_hash ! byte CHR ''x'' = 39"
  "c_hash ! byte CHR ''y'' = 30"
  "c_hash ! byte CHR ''z'' = 40"
  by (simp_all add: c_hash_def byte_def nth_append)

lemma keyword_entries:
  "list_all (\<lambda>(i, k). ident_hash 0 0 (pcName k) = i \<and> i < HASH_MAX \<and> kleng k = length (pcName k))
     LexKeyWordTab"
  by (simp add: LexKeyWordTab_def kyw_def c_hash_letters HASH_MAX_def)

lemma keyword_indices: "distinct (map fst LexKeyWordTab)"
  by (simp add: LexKeyWordTab_def)

lemma find_in_set: "find P xs = Some x \<Longrightarrow> x \<in> set xs \<and> P x"
  by (induction xs) (auto split: if_splits)

text \<open>C34: The keyword table is a perfect hash: the one entry a word is compared with is enough to
  recognise exactly the words of the table, each with its own code, and every other identifier
  is no keyword.\<close>

theorem keyword_table_perfect:
  "keyword_of w =
     (case find (\<lambda>k. pcName k = w) (map snd LexKeyWordTab) of
        Some k \<Rightarrow> (wLexId k, kis_cpp k)
      | None \<Rightarrow> (KW_NONE, False))"
proof (cases "find (\<lambda>k. pcName k = w) (map snd LexKeyWordTab)")
  case None
  have "pcName k \<noteq> w" if "map_of LexKeyWordTab i = Some k" for i k
    using None map_of_SomeD [OF that] by (force simp: find_None_iff)
  moreover have "kleng k = length (pcName k)" if "map_of LexKeyWordTab i = Some k" for i k
    using keyword_entries map_of_SomeD [OF that] by (auto simp: list_all_iff)
  ultimately show ?thesis using None by (auto simp: keyword_of_def Let_def split: option.split)
next
  case (Some k)
  then have "k \<in> set (map snd LexKeyWordTab)" "pcName k = w"
    using find_in_set by fast+
  then obtain i where k: "(i, k) \<in> set LexKeyWordTab" "pcName k = w" by auto
  then have "map_of LexKeyWordTab i = Some k" using keyword_indices by simp
  moreover have "ident_hash 0 0 w = i" "i < HASH_MAX" "kleng k = length w"
    using keyword_entries k by (auto simp: list_all_iff)
  ultimately show ?thesis using Some k(2) by (simp add: keyword_of_def)
qed

end
