(* ===== verification/Scan.thy ===== *)
theory Scan
  imports Keywords
begin

text \<open>
  Recognising one lexeme of C.  The tokenizer of macro bodies (\<open>my_TokenInput\<close> in
  \<open>macro.c\<close>) and that of source files (\<open>f_TokenInput\<close> in \<open>cplex.c\<close>) have the same code for
  numbers, identifiers and operators, up to what \<open>input\<close> and \<open>unput\<close> do at the end of the
  text, which makes no difference here: these branches read a NUL at most once and put it back.

  A position is the rest of the text, up to its NUL.  \<open>yychar = input ()\<close> is \<open>peek\<close> of the
  rest followed by going on with its tail, and \<open>unput ()\<close> is going on with the rest itself.
  The lexeme is what lies between the position it started at and the position returned.
\<close>

section \<open>Reading characters\<close>

definition peek :: "string \<Rightarrow> char" where
  "peek s = (case s of [] \<Rightarrow> NUL | c # _ \<Rightarrow> c)"

lemma peek_simps [simp]: "peek [] = NUL" "peek (c # s) = c"
  by (simp_all add: peek_def)

definition between :: "string \<Rightarrow> string \<Rightarrow> string" where
  "between s r = take (length s - length r) s"

lemma between_append [simp]: "between (w @ r) r = w"
  by (simp add: between_def)

lemma between_Cons [simp]: "between (c # w @ r) r = c # w"
  using between_append [of "c # w" r] by simp

section \<open>Numbers\<close>

abbreviation digits :: "string \<Rightarrow> string" where
  "digits \<equiv> dropWhile c_isdigit"

text \<open>The suffix of a hexadecimal number.\<close>

definition hex_suffix :: "string \<Rightarrow> lex \<times> string" where
  "hex_suffix s =
     (if peek s = CHR ''l'' \<or> peek s = CHR ''L'' then (SN_LONGconstant, tl s)
      else if peek s = CHR ''u'' \<or> peek s = CHR ''U'' then (SN_INTEGERconstant, tl s)
      else (SN_INTEGERconstant, s))"

definition number_suffix :: "bool \<Rightarrow> string \<Rightarrow> lex \<times> string" where
  "number_suffix bFloat s =
     (if peek s = CHR ''l'' \<or> peek s = CHR ''L'' then
        (if bFloat then SN_FLOATINGconstant else SN_LONGconstant, tl s)
      else if peek s = CHR ''u'' \<or> peek s = CHR ''U'' then
        (if bFloat then SN_FLOATINGconstant else SN_INTEGERconstant, tl s)
      else (if bFloat then SN_FLOATINGconstant else SN_INTEGERconstant, s))"

text \<open>What follows the letter of an exponent: a sign, digits, and digits after a point.\<close>

definition lex_exponent :: "string \<Rightarrow> string" where
  "lex_exponent s =
     (let s = (if peek s = CHR ''+'' \<or> peek s = CHR ''-'' then tl s else s);
          s = digits s in
      if peek s = CHR ''.'' then digits (tl s) else s)"

definition lex_decimal :: "string \<Rightarrow> lex \<times> string" where
  "lex_decimal s =
     (let s = digits s;
          (bFloat, s) = (if peek s = CHR ''.'' then (True, digits (tl s)) else (False, s));
          (bFloat, s) =
            (if peek s = CHR ''E'' \<or> peek s = CHR ''e'' then (True, lex_exponent (tl s))
             else (bFloat, s)) in
      number_suffix bFloat s)"

definition lex_number :: "string \<Rightarrow> lex \<times> string" where
  "lex_number s =
     (if peek s = CHR ''0'' \<and> (peek (tl s) = CHR ''X'' \<or> peek (tl s) = CHR ''x'')
      then hex_suffix (dropWhile c_isxdigit (tl (tl s)))
      else lex_decimal s)"

section \<open>Identifiers\<close>

definition ident_start :: "char \<Rightarrow> bool" where
  "ident_start c \<longleftrightarrow> c_isalpha c \<or> c = CHR ''_'' \<or> c = CHR ''$''"

definition ident_char :: "char \<Rightarrow> bool" where
  "ident_char c \<longleftrightarrow> c_isalnum c \<or> c = CHR ''_'' \<or> c = CHR ''$''"

section \<open>Operators\<close>

text \<open>
  Each of these reads on after the first character of an operator.
\<close>

definition lex_less :: "string \<Rightarrow> lex \<times> string" where
  "lex_less s =
     (if peek s = CHR ''<'' then
        (if peek (tl s) = CHR ''='' then (SN_LSassign, tl (tl s)) else (SN_LS, tl s))
      else if peek s = CHR ''='' then (SN_LE, tl s)
      else (Ch CHR ''<'', s))"

definition lex_greater :: "string \<Rightarrow> lex \<times> string" where
  "lex_greater s =
     (if peek s = CHR ''>'' then
        (if peek (tl s) = CHR ''='' then (SN_RSassign, tl (tl s)) else (SN_RS, tl s))
      else if peek s = CHR ''='' then (SN_GE, tl s)
      else (Ch CHR ''>'', s))"

definition lex_equal :: "string \<Rightarrow> lex \<times> string" where
  "lex_equal s = (if peek s = CHR ''='' then (SN_EQ, tl s) else (Ch CHR ''='', s))"

definition lex_exclam :: "string \<Rightarrow> lex \<times> string" where
  "lex_exclam s = (if peek s = CHR ''='' then (SN_NE, tl s) else (Ch CHR ''!'', s))"

definition lex_plus :: "string \<Rightarrow> lex \<times> string" where
  "lex_plus s =
     (if peek s = CHR ''+'' then (SN_ICR, tl s)
      else if peek s = CHR ''='' then (SN_PLUSassign, tl s)
      else (Ch CHR ''+'', s))"

definition lex_minus :: "string \<Rightarrow> lex \<times> string" where
  "lex_minus s =
     (if peek s = CHR ''>'' then
        (if peek (tl s) = CHR ''*'' then (SN_ARROWstar, tl (tl s)) else (SN_ARROW, tl s))
      else if peek s = CHR ''-'' then (SN_DECR, tl s)
      else if peek s = CHR ''='' then (SN_MINUSassign, tl s)
      else (Ch CHR ''-'', s))"

definition lex_star :: "string \<Rightarrow> lex \<times> string" where
  "lex_star s = (if peek s = CHR ''='' then (SN_MULTassign, tl s) else (Ch CHR ''*'', s))"

definition lex_bar :: "string \<Rightarrow> lex \<times> string" where
  "lex_bar s =
     (if peek s = CHR ''='' then (SN_ORassign, tl s)
      else if peek s = CHR ''|'' then (SN_OROR, tl s)
      else (Ch CHR ''|'', s))"

definition lex_caret :: "string \<Rightarrow> lex \<times> string" where
  "lex_caret s = (if peek s = CHR ''='' then (SN_ERassign, tl s) else (Ch CHR ''^'', s))"

definition lex_percent :: "string \<Rightarrow> lex \<times> string" where
  "lex_percent s = (if peek s = CHR ''='' then (SN_MODassign, tl s) else (Ch CHR ''%'', s))"

definition lex_amp :: "string \<Rightarrow> lex \<times> string" where
  "lex_amp s =
     (if peek s = CHR ''='' then (SN_ANDassign, tl s)
      else if peek s = CHR ''&'' then (SN_ANDAND, tl s)
      else (Ch CHR ''&'', s))"

definition lex_colon :: "string \<Rightarrow> lex \<times> string" where
  "lex_colon s = (if peek s = CHR '':'' then (SN_CLCL, tl s) else (Ch CHR '':'', s))"

text \<open>After \<open>..\<close> without a third point two characters are put back.\<close>

definition lex_dot :: "string \<Rightarrow> lex \<times> string" where
  "lex_dot s =
     (if peek s = CHR ''*'' then (SN_DOTstar, tl s)
      else if peek s = CHR ''.'' then
        (if peek (tl s) = CHR ''.'' then (SN_ELLIPSIS, tl (tl s)) else (Ch CHR ''.'', s))
      else if c_isdigit (peek s) then
        (let s = digits (tl s);
             s = (if peek s = CHR ''E'' \<or> peek s = CHR ''e'' then lex_exponent (tl s) else s) in
         (SN_FLOATINGconstant, if peek s = CHR ''l'' \<or> peek s = CHR ''L'' then tl s else s))
      else (Ch CHR ''.'', s))"

definition bracket :: "char \<Rightarrow> bool" where
  "bracket c \<longleftrightarrow> c \<in> set ''()[]{},;~?@''"

text \<open>The branches of the two switches that neither tokenizer treats in its own way.\<close>

definition lex_operator :: "char \<Rightarrow> string \<Rightarrow> (lex \<times> string) option" where
  "lex_operator c s =
     (if c = CHR ''>'' then Some (lex_greater s)
      else if c = CHR ''='' then Some (lex_equal s)
      else if c = CHR ''!'' then Some (lex_exclam s)
      else if c = CHR ''+'' then Some (lex_plus s)
      else if c = CHR ''-'' then Some (lex_minus s)
      else if c = CHR ''*'' then Some (lex_star s)
      else if c = CHR ''|'' then Some (lex_bar s)
      else if c = CHR ''^'' then Some (lex_caret s)
      else if c = CHR ''%'' then Some (lex_percent s)
      else if c = CHR ''&'' then Some (lex_amp s)
      else if c = CHR '':'' then Some (lex_colon s)
      else if c = CHR ''.'' then Some (lex_dot s)
      else if bracket c then Some (Ch c, s)
      else None)"

end
