(* ===== verification/MacroLex.thy ===== *)
theory MacroLex
  imports Scan
begin

text \<open>
  The tokenizer of macro bodies and parameter lists, \<open>my_TokenInput\<close> of \<open>macro.c\<close>.  The
  pointer \<open>yyptr\<close> is \<open>Some\<close> of the rest of the C string, or \<open>None\<close> once the terminating NUL
  was read: \<open>input ()\<close> does not stop there, so the next character is outside the string.
\<close>

section \<open>Branches\<close>

text \<open>A token as \<open>d_TokenReturn\<close> makes it; the text is what was read since \<open>yytext\<close>.  The
  fields that are not set there have the values of a new token.\<close>

definition macro_token :: "lex \<Rightarrow> string \<Rightarrow> string \<Rightarrow> token \<times> string option" where
  "macro_token l yytext yyptr = (mk_token l (between yytext yyptr), Some yyptr)"

definition ident_token :: "string \<Rightarrow> token \<times> string option" where
  "ident_token yytext =
     (let yyptr = dropWhile ident_char yytext;
          w = between yytext yyptr in
      ((mk_token SN_IDENTIFIER w)
         \<lparr>tkeyword := fst (keyword_of w), tis_cpp := snd (keyword_of w)\<rparr>, Some yyptr))"

text \<open>The loop of a string or character literal, after the opening quote.  A backslash
  swallows the next character, even the NUL.\<close>

fun quoted :: "char \<Rightarrow> string \<Rightarrow> ub + string option" where
  "quoted q [] = Inr None"
| "quoted q (c # s) =
     (if c = BSLASH then
        (case s of
           [] \<Rightarrow> Inl OutOfBounds
         | d # s \<Rightarrow> if d = CR \<and> peek s = LF then quoted q (tl s) else quoted q s)
      else if c = q then Inr (Some s)
      else if c = LF then Inr (Some (c # s))
      else quoted q s)"

definition literal_token :: "lex \<Rightarrow> char \<Rightarrow> string \<Rightarrow> ub + token \<times> string option" where
  "literal_token l q s =
     map_sum id
       (\<lambda>r. case r of
          None \<Rightarrow> (mk_token l (q # s @ [NUL]), None)
        | Some yyptr \<Rightarrow> macro_token l (q # s) yyptr)
       (quoted q s)"

text \<open>A comment: what follows it, or \<open>None\<close> when the NUL comes first.\<close>

fun block_comment :: "char \<Rightarrow> string \<Rightarrow> string option" where
  "block_comment yycharprev [] = None"
| "block_comment yycharprev (c # s) =
     (if c = CHR ''/'' \<and> yycharprev = CHR ''*'' then Some s else block_comment c s)"

fun line_comment :: "string \<Rightarrow> string option" where
  "line_comment [] = None"
| "line_comment (c # s) = (if c = LF then Some s else line_comment s)"

lemma block_comment_shorter: "block_comment p s = Some r \<Longrightarrow> length r < length s"
  by (induction p s rule: block_comment.induct) (auto split: if_splits)

lemma line_comment_shorter: "line_comment s = Some r \<Longrightarrow> length r < length s"
  by (induction s rule: line_comment.induct) (auto split: if_splits)

text \<open>\<open>/\<close>, \<open>/=\<close> and the two comments, of which only the rest is returned.\<close>

definition lex_slash :: "string \<Rightarrow> (lex \<times> string) + string option" where
  "lex_slash s =
     (if peek s = CHR ''='' then Inl (SN_DIVassign, tl s)
      else if peek s = CHR ''*'' then Inr (block_comment NUL (tl s))
      else if peek s = CHR ''/'' then Inr (line_comment (tl s))
      else Inl (Ch CHR ''/'', s))"

section \<open>The tokenizer\<close>

function lex_loop :: "string \<Rightarrow> ub + token \<times> string option" where
  "lex_loop [] = Inr (mk_token (Ch NUL) [], None)"
| "lex_loop (c # s) =
     (if c_isdigit c then
        (let (l, r) = lex_number (c # s) in Inr (macro_token l (c # s) r))
      else if ident_start c then Inr (ident_token (c # s))
      else if c = DQUOTE then literal_token SN_STRINGliteral c s
      else if c = QUOTE then literal_token SN_CHARACTERconstant c s
      else if c = CHR ''#'' then Inr (macro_token (Ch c) (c # s) s)
      else if c = CHR ''<'' then (let (l, r) = lex_less s in Inr (macro_token l (c # s) r))
      else if c = CHR ''/'' then
        (case lex_slash s of
           Inl (l, r) \<Rightarrow> Inr (macro_token l (c # s) r)
         | Inr None \<Rightarrow> Inl OutOfBounds
         | Inr (Some r) \<Rightarrow> lex_loop r)
      else
        (case lex_operator c s of
           Some (l, r) \<Rightarrow> Inr (macro_token l (c # s) r)
         | None \<Rightarrow> lex_loop s))"
  by pat_completeness auto
termination
  by (relation "measure length")
    (auto simp: lex_slash_def less_Suc_eq_le
      dest!: block_comment_shorter line_comment_shorter split: if_splits)

declare lex_loop.simps(2) [simp del]

definition my_TokenInput :: "string option \<Rightarrow> ub + token \<times> string option" where
  "my_TokenInput yyptr = (case yyptr of None \<Rightarrow> Inl OutOfBounds | Some s \<Rightarrow> lex_loop s)"

end
