(* ===== verification/Macro.thy ===== *)
theory Macro
  imports MacroLex Tables Macread
begin

text \<open>
  The cache of macros and their expansion (\<open>macro.c\<close>, \<open>process.c\<close>).

  A macro lives in the store \<open>mstore\<close> and its address is its index there; the cache is a hash
  table of addresses.  Macros in use are linked into rings by \<open>MacroNext\<close> and \<open>MacroPrev\<close>.
  A ring of tokens is the list of its tokens from its first one on, the null pointer the empty
  list.  \<open>Paf_Word\<close> is a parameter: the function pointer, \<open>None\<close> when it was not set.
\<close>

section \<open>Macros\<close>

datatype cpp_typ = CPP_NONE | CPP_DEFINE | CPP_MACRO | CPP_UNDEF

record smacro =
  cparameter_list :: "string option"
  cmacro :: "string option"
  ctyp :: cpp_typ
  cpaf_typ :: "paf option"
  tilt :: bool
  sStringName :: string
  mToken :: "token list"
  mTokenProcessed :: "token list"
  MacroNext :: nat
  MacroPrev :: nat

text \<open>The variables of the two files: the cache, and the three token pointers of \<open>process.c\<close>
  as the ring that is read, the number of the token read last, and the token put back.\<close>

record pstate =
  mstore :: "smacro list"
  mcache :: "nat search_table option"
  iMacroCount :: nat
  TokenProcessInput :: "token list"
  TokenProcessPos :: "nat option"
  TokenProcessUnput :: "token option"

type_synonym paf_fun = "string \<Rightarrow> int \<Rightarrow> ub + paf \<times> string option \<times> string option"

definition get_macro :: "pstate \<Rightarrow> nat \<Rightarrow> ub + smacro" where
  "get_macro st m = (if m < length (mstore st) then Inr (mstore st ! m) else Inl OutOfBounds)"

definition upd_macro :: "nat \<Rightarrow> (smacro \<Rightarrow> smacro) \<Rightarrow> pstate \<Rightarrow> pstate" where
  "upd_macro m f st = st\<lparr>mstore := (mstore st)[m := f (mstore st ! m)]\<rparr>"

definition f_MacroCreate :: "pstate \<Rightarrow> string \<Rightarrow> pstate \<times> nat" where
  "f_MacroCreate st name =
     (let m = length (mstore st) in
      (st\<lparr>mstore := mstore st @
          [\<lparr>cparameter_list = None, cmacro = None, ctyp = CPP_NONE, cpaf_typ = None, tilt = False,
            sStringName = name, mToken = [], mTokenProcessed = [], MacroNext = m, MacroPrev = m\<rparr>]\<rparr>, m))"

section \<open>Reading a macro\<close>

text \<open>The loop over the parameters leaves the number of the last one that matches.\<close>

fun mark_loop :: "nat \<Rightarrow> string list \<Rightarrow> token \<Rightarrow> token" where
  "mark_loop i [] t = t"
| "mark_loop i (p # ps) t =
     mark_loop (i + 1) ps (if p = ttext t then t\<lparr>iParameter := int i\<rparr> else t)"

text \<open>The tokens of a body, with one unit of fuel per token.\<close>

fun body_loop :: "nat \<Rightarrow> string list \<Rightarrow> string option \<Rightarrow> ub + token list" where
  "body_loop 0 params yyptr = Inl NoReturn"
| "body_loop (Suc n) params yyptr =
     sbind (my_TokenInput yyptr) (\<lambda>(t, yyptr).
     if tlex t = Ch NUL then Inr []
     else
       let t = t\<lparr>iParameter := -1\<rparr>;
           t = (if tlex t = SN_IDENTIFIER then mark_loop 0 params t else t) in
       sbind (body_loop n params yyptr) (\<lambda>ts. Inr (t # ts)))"

definition f_MacroProcess2 :: "smacro \<Rightarrow> string list \<Rightarrow> ub + smacro" where
  "f_MacroProcess2 M params =
     (case cmacro M of
        None \<Rightarrow> Inr M
      | Some s \<Rightarrow>
          sbind (body_loop (length s + 1) params (Some s)) (\<lambda>ts. Inr (M\<lparr>mToken := mToken M @ ts\<rparr>)))"

text \<open>The parameter names, \<open>None\<close> for an error.  The array has room for 100.\<close>

fun params_loop :: "nat \<Rightarrow> string list \<Rightarrow> string option \<Rightarrow> ub + string list option" where
  "params_loop 0 ps yyptr = Inl NoReturn"
| "params_loop (Suc n) ps yyptr =
     sbind (my_TokenInput yyptr) (\<lambda>(t, yyptr).
     if tlex t = SN_IDENTIFIER then
       (if length ps \<ge> 100 then Inl OutOfBounds
        else
          let ps = ps @ [ttext t] in
          sbind (my_TokenInput yyptr) (\<lambda>(t, yyptr).
          if tlex t = Ch NUL then Inr (Some ps)
          else if tlex t \<noteq> Ch CHR '','' then Inr None
          else params_loop n ps yyptr))
     else if ps = [] \<and> tlex t = Ch NUL then Inr (Some ps)
     else Inr None)"

text \<open>\<open>None\<close> is the result \<open>-1\<close>.\<close>

definition f_MacroProcess1 :: "smacro \<Rightarrow> ub + smacro option" where
  "f_MacroProcess1 M =
     (case cparameter_list M of
        None \<Rightarrow> sbind (f_MacroProcess2 M []) (\<lambda>M. Inr (Some M))
      | Some pl \<Rightarrow>
          sbind (params_loop (length pl + 1) [] (Some pl)) (\<lambda>ps.
          case ps of
            None \<Rightarrow> Inr None
          | Some ps \<Rightarrow> sbind (f_MacroProcess2 M ps) (\<lambda>M. Inr (Some M))))"

section \<open>Replacing a macro by its body\<close>

definition f_TokenDuplicate :: "token \<Rightarrow> token" where
  "f_TokenDuplicate t = t\<lparr>tmode := CPLEX_FALSE\<rparr>"

definition f_ParameterPosition :: "token list list \<Rightarrow> nat \<Rightarrow> token list" where
  "f_ParameterPosition param position = (if position < length param then param ! position else [])"

definition merge_token :: "token \<Rightarrow> token list list option \<Rightarrow> token \<Rightarrow> token list" where
  "merge_token basic param t =
     (case (iParameter t \<ge> 0, param) of
        (True, Some ps) \<Rightarrow> map f_TokenDuplicate (f_ParameterPosition ps (nat (iParameter t)))
      | _ \<Rightarrow>
          [(mk_token (tlex t) (ttext t))
             \<lparr>tkeyword := tkeyword t, tis_cpp := tis_cpp t,
              lineno_beg := lineno_beg basic, charno_beg := charno_beg basic,
              lineno_end := lineno_end basic, charno_end := charno_end basic\<rparr>])"

definition f_MacroMerge :: "smacro \<Rightarrow> token \<Rightarrow> token list list option \<Rightarrow> bool \<Rightarrow> token list" where
  "f_MacroMerge M basic param bProcessed =
     concat (map (merge_token basic param) (if bProcessed then mTokenProcessed M else mToken M))"

section \<open>Rings of macros\<close>

definition f_MacroAppend :: "nat option \<Rightarrow> nat \<Rightarrow> pstate \<Rightarrow> ub + nat option \<times> pstate" where
  "f_MacroAppend pMacroBeg1 beg2 st =
     (case pMacroBeg1 of
        None \<Rightarrow> Inr (Some beg2, st)
      | Some beg1 \<Rightarrow>
          sbind (get_macro st beg1) (\<lambda>M1.
          sbind (get_macro st beg2) (\<lambda>M2.
          let end1 = MacroPrev M1;
              end2 = MacroPrev M2;
              st = upd_macro beg1 (\<lambda>M. M\<lparr>MacroPrev := end2\<rparr>) st;
              st = upd_macro beg2 (\<lambda>M. M\<lparr>MacroPrev := end1\<rparr>) st in
          sbind (get_macro st end1) (\<lambda>_.
          sbind (get_macro st end2) (\<lambda>_.
          let st = upd_macro end1 (\<lambda>M. M\<lparr>MacroNext := beg2\<rparr>) st;
              st = upd_macro end2 (\<lambda>M. M\<lparr>MacroNext := beg1\<rparr>) st in
          Inr (pMacroBeg1, st))))))"

text \<open>
  \<open>WHILE_MACRO\<close>: the body is run for a macro, then the next one is read from that macro, until
  it is the one the loop started with.
\<close>

fun while_macro :: "nat \<Rightarrow> (nat \<Rightarrow> smacro \<Rightarrow> smacro) \<Rightarrow> nat \<Rightarrow> nat \<Rightarrow> pstate \<Rightarrow> ub + pstate" where
  "while_macro 0 body macroEnd m st = Inl NoReturn"
| "while_macro (Suc n) body macroEnd m st =
     sbind (get_macro st m) (\<lambda>M.
     let st = upd_macro m (body m) st;
         next = MacroNext (body m M) in
     if next = macroEnd then Inr st else while_macro n body macroEnd next st)"

definition set_tilt :: "nat \<Rightarrow> smacro \<Rightarrow> smacro" where
  "set_tilt m M = M\<lparr>tilt := True\<rparr>"

definition reset_tilt :: "nat \<Rightarrow> smacro \<Rightarrow> smacro" where
  "reset_tilt m M = M\<lparr>tilt := False, MacroNext := m, MacroPrev := m\<rparr>"

section \<open>Reading the tokens that are processed\<close>

definition f_ProcessTokenInput :: "pstate \<Rightarrow> ub + token option \<times> pstate" where
  "f_ProcessTokenInput st =
     (case TokenProcessUnput st of
        Some t \<Rightarrow> Inr (Some t, st\<lparr>TokenProcessUnput := None\<rparr>)
      | None \<Rightarrow>
          (case TokenProcessPos st of
             None \<Rightarrow>
               (case TokenProcessInput st of
                  [] \<Rightarrow> Inl NullPointer
                | t # _ \<Rightarrow> Inr (Some (f_TokenDuplicate t), st\<lparr>TokenProcessPos := Some 0\<rparr>))
           | Some i \<Rightarrow>
               if i + 1 = length (TokenProcessInput st) then Inr (None, st)
               else Inr (Some (f_TokenDuplicate (TokenProcessInput st ! (i + 1))),
                         st\<lparr>TokenProcessPos := Some (i + 1)\<rparr>)))"

definition f_ProcessTokenUnput :: "token option \<Rightarrow> pstate \<Rightarrow> ub + pstate" where
  "f_ProcessTokenUnput t st =
     (if TokenProcessUnput st \<noteq> None then Inl Exit else Inr (st\<lparr>TokenProcessUnput := t\<rparr>))"

section \<open>Finding and processing\<close>

definition cache_entry :: "string \<Rightarrow> nat cdata \<Rightarrow> nat search_entry" where
  "cache_entry w d =
     \<lparr>key = w, key_len = int (length w), edata = d, data_len = 0, flag = SEARCH_DUP_KEY\<rparr>"

definition cache_find :: "pstate \<Rightarrow> string \<Rightarrow> ub + nat option \<times> pstate" where
  "cache_find st w =
     (let t = (case mcache st of None \<Rightarrow> SearchTableCreate 1000 SEARCH_HASH_TABLE True | Some t \<Rightarrow> t) in
      sbind (table_search SEARCH_HASH_TABLE t (cache_entry w NullData)) (\<lambda>(t, r).
      case r of
        None \<Rightarrow> Inr (None, st\<lparr>mcache := Some t\<rparr>)
      | Some i \<Rightarrow>
          sbind (get_cell t i) (\<lambda>d.
          case edata (entry d) of
            Obj m \<Rightarrow> Inr (Some m, st\<lparr>mcache := Some t\<rparr>)
          | _ \<Rightarrow> Inl NullPointer)))"

definition cache_add :: "pstate \<Rightarrow> string \<Rightarrow> nat \<Rightarrow> ub + pstate" where
  "cache_add st w m =
     (case mcache st of
        None \<Rightarrow> Inl NullPointer
      | Some t \<Rightarrow>
          sbind (table_add SEARCH_HASH_TABLE t (cache_entry w (Obj m))) (\<lambda>(t, r).
          Inr (st\<lparr>mcache := Some t, iMacroCount := iMacroCount st + 1\<rparr>)))"

text \<open>A macro from the answer of \<open>Paf_Word\<close>; \<open>None\<close> when its text is not well formed, and then it
  is freed again: the store is the one before.\<close>

definition new_macro ::
    "pstate \<Rightarrow> string \<Rightarrow> paf \<Rightarrow> string option \<Rightarrow> string option \<Rightarrow> ub + nat option \<times> pstate" where
  "new_macro st w retval params body =
     (let (st', m) = f_MacroCreate st w;
          st' = upd_macro m (\<lambda>M. M\<lparr>cparameter_list := params, cmacro := body, cpaf_typ := Some retval,
                 ctyp := (if params = None then CPP_DEFINE else CPP_MACRO)\<rparr>) st' in
      sbind (get_macro st' m) (\<lambda>M.
      sbind (f_MacroProcess1 M) (\<lambda>r.
      case r of
        None \<Rightarrow> Inr (None, st)
      | Some M \<Rightarrow>
          sbind (cache_add (upd_macro m (\<lambda>_. M) st') w m) (\<lambda>st. Inr (Some m, st)))))"

definition undef_macro :: "pstate \<Rightarrow> string \<Rightarrow> ub + nat option \<times> pstate" where
  "undef_macro st w =
     (let (st, m) = f_MacroCreate st w;
          st = upd_macro m (\<lambda>M. M\<lparr>cpaf_typ := Some PAF_WORD_UNDEF, ctyp := CPP_UNDEF\<rparr>) st in
      sbind (cache_add st w m) (\<lambda>st. Inr (Some m, st)))"

end
