(* ===== verification/MacroLex_Props.thy ===== *)
theory MacroLex_Props
  imports Macro
begin

text \<open>
  The tokenizer of macro bodies: it moves forward, so reading a body ends; it reads back what is
  printed with blanks between the tokens; and what it does when a comment or a literal is cut
  off by the end of the body.
\<close>

section \<open>Progress\<close>

named_theorems shorter "lengths of what is left to read"

lemma length_tl_le [shorter]: "length (tl s) \<le> length s"
  by simp

lemma length_digits_le [shorter]: "length (dropWhile P s) \<le> length s"
  by (rule length_dropWhile_le)

lemma lex_exponent_shorter [shorter]: "length (lex_exponent s) \<le> length s"
proof -
  have "length (digits (tl u)) \<le> length u" for u
    using le_trans [OF length_digits_le length_tl_le] .
  moreover have "length (digits u) \<le> length s" if "u = s \<or> u = tl s" for u
    using that length_digits_le [of c_isdigit u] length_tl_le [of s] by auto
  ultimately show ?thesis unfolding lex_exponent_def Let_def by (smt (verit) le_trans)
qed

lemma number_suffix_shorter: "number_suffix b s = (l, r) \<Longrightarrow> length r \<le> length s"
  by (auto simp: number_suffix_def split: if_splits)

lemma hex_suffix_shorter: "hex_suffix s = (l, r) \<Longrightarrow> length r \<le> length s"
  by (auto simp: hex_suffix_def split: if_splits)

lemma lex_decimal_shorter:
  assumes "lex_decimal (c # s) = (l, r)" "c_isdigit c"
  shows "length r \<le> length s"
proof -
  define a where "a = digits (c # s)"
  define b where "b = (if peek a = CHR ''.'' then digits (tl a) else a)"
  define d where "d = (if peek b = CHR ''E'' \<or> peek b = CHR ''e'' then lex_exponent (tl b) else b)"
  have "length a \<le> length s" using assms(2) length_digits_le [of c_isdigit s] by (simp add: a_def)
  moreover have "length b \<le> length a"
    using le_trans [OF length_digits_le length_tl_le, of c_isdigit a] by (simp add: b_def)
  moreover have "length d \<le> length b"
    using le_trans [OF lex_exponent_shorter length_tl_le, of b] by (simp add: d_def)
  moreover have "\<exists>f. number_suffix f d = (l, r)"
    using assms(1) by (auto simp: lex_decimal_def a_def b_def d_def Let_def split: if_splits)
  then have "length r \<le> length d" using number_suffix_shorter by blast
  ultimately show ?thesis by simp
qed

lemma lex_number_shorter:
  assumes "lex_number (c # s) = (l, r)" "c_isdigit c"
  shows "length r \<le> length s"
proof (cases "c = CHR ''0'' \<and> (peek s = CHR ''X'' \<or> peek s = CHR ''x'')")
  case True
  then have "hex_suffix (dropWhile c_isxdigit (tl s)) = (l, r)" using assms by (simp add: lex_number_def)
  from hex_suffix_shorter [OF this] length_digits_le [of c_isxdigit "tl s"] length_tl_le [of s]
  show ?thesis by simp
qed (use assms lex_decimal_shorter in \<open>auto simp: lex_number_def\<close>)

lemma lex_dot_shorter: "lex_dot s = (l, r) \<Longrightarrow> length r \<le> length s"
proof -
  have d: "length (digits (tl s)) \<le> length s" using le_trans [OF length_digits_le length_tl_le] .
  have "length (lex_exponent (tl u)) \<le> length u" for u
    using le_trans [OF lex_exponent_shorter length_tl_le] .
  from le_trans [OF this d] d
  have "length (tl (lex_exponent (tl (digits (tl s))))) \<le> length s" "length (tl (digits (tl s))) \<le> length s"
    "length (lex_exponent (tl (digits (tl s)))) \<le> length s" "length (digits (tl s)) \<le> length s"
    by simp_all
  then show "lex_dot s = (l, r) \<Longrightarrow> length r \<le> length s"
    unfolding lex_dot_def Let_def by (auto split: if_splits)
qed

lemmas operator_defs = lex_less_def lex_greater_def lex_equal_def lex_exclam_def lex_plus_def
  lex_minus_def lex_star_def lex_bar_def lex_caret_def lex_percent_def lex_amp_def lex_colon_def

lemma lex_less_shorter: "lex_less s = (l, r) \<Longrightarrow> length r \<le> length s"
  by (auto simp: lex_less_def split: if_splits)

lemma lex_operator_shorter:
  assumes "lex_operator c s = Some (l, r)"
  shows "length r \<le> length s"
proof (cases "c = CHR ''.''")
  case True
  then have "lex_dot s = (l, r)" using assms by (simp add: lex_operator_def)
  then show ?thesis by (rule lex_dot_shorter)
next
  case False
  then show ?thesis using assms by (auto simp: lex_operator_def operator_defs split: if_splits)
qed

lemma lex_slash_shorter:
  "lex_slash s = Inl (l, r) \<Longrightarrow> length r \<le> length s"
  "lex_slash s = Inr (Some r) \<Longrightarrow> length r < length s"
  using length_tl_le [of s]
  by (auto simp: lex_slash_def dest!: block_comment_shorter line_comment_shorter split: if_splits)

lemma quoted_shorter: "quoted q s = Inr (Some r) \<Longrightarrow> length r \<le> length s"
proof (induction q s rule: quoted.induct)
  case (2 q c s)
  have "length (tl u) \<le> length u" for u :: string by simp
  with 2 show ?case by (fastforce split: if_splits list.splits)
qed simp

lemma literal_token_shorter: "literal_token l q s = Inr (t, Some r) \<Longrightarrow> length r \<le> length s"
  by (auto simp: literal_token_def macro_token_def dest!: quoted_shorter split: option.splits)

lemma macro_token_eq [simp]: "macro_token l s r = (t, y) \<longleftrightarrow> t = mk_token l (between s r) \<and> y = Some r"
  by (auto simp: macro_token_def)

lemma lex_loop_shorter: "lex_loop s = Inr (t, Some r) \<Longrightarrow> length r < length s"
proof (induction s arbitrary: t rule: lex_loop.induct)
  case (2 c s)
  note p = "2.prems" [unfolded lex_loop.simps]
  consider "c_isdigit c" | "ident_start c" | "c = DQUOTE" | "c = QUOTE" | "c = CHR ''#''" | "c = CHR ''<''"
    | "\<not> c_isdigit c" "\<not> ident_start c" "c \<notin> {DQUOTE, QUOTE, CHR ''#'', CHR ''<''}" "c = CHR ''/''"
    | "\<not> c_isdigit c" "\<not> ident_start c" "c \<notin> {DQUOTE, QUOTE, CHR ''#'', CHR ''<''}" "c \<noteq> CHR ''/''"
    by blast
  then show ?case
  proof cases
    case 1
    with p show ?thesis
      using lex_number_shorter [of c s] by (auto simp: less_Suc_eq_le split: prod.splits)
  next
    case 2
    then have "\<not> c_isdigit c" by (auto simp: ident_start_def bytes byte_def)
    moreover have "ident_char c" using 2 by (auto simp: ident_start_def ident_char_def c_isalnum_def)
    ultimately show ?thesis using 2 p length_dropWhile_le [of ident_char s]
      by (auto simp: ident_token_def Let_def less_Suc_eq_le)
  next
    case 3
    with p show ?thesis using literal_token_shorter [of _ c s t r]
      by (auto simp: less_Suc_eq_le bytes byte_def ident_start_def)
  next
    case 4
    with p show ?thesis using literal_token_shorter [of _ c s t r]
      by (auto simp: less_Suc_eq_le bytes byte_def ident_start_def)
  next
    case 5
    with p show ?thesis by (auto simp: bytes byte_def ident_start_def)
  next
    case 6
    with p show ?thesis using lex_less_shorter [of s]
      by (auto simp: bytes byte_def ident_start_def less_Suc_eq_le split: prod.splits)
  next
    case 7
    show ?thesis
    proof (cases "lex_slash s")
      case (Inl lr)
      then show ?thesis using p 7 lex_slash_shorter(1) [of s] by (cases lr) (auto simp: less_Suc_eq_le)
    next
      case (Inr o')
      then show ?thesis using p 7 lex_slash_shorter(2) [of s] "2.IH"(1) [OF 7(1,2)] by (cases o') force+
    qed
  next
    case 8
    show ?thesis
    proof (cases "lex_operator c s")
      case None
      with 8 p have "lex_loop s = Inr (t, Some r)" by auto
      then show ?thesis using "2.IH"(2) 8 None by (simp add: less_SucI)
    next
      case (Some lr)
      with 8 p show ?thesis using lex_operator_shorter [of c s] by (cases lr) (auto simp: less_Suc_eq_le)
    qed
  qed
qed simp


lemma my_TokenInput_shorter: "my_TokenInput (Some s) = Inr (t, Some r) \<Longrightarrow> length r < length s"
  using lex_loop_shorter by (simp add: my_TokenInput_def)

lemma lex_loop_returns: "lex_loop s \<noteq> Inl NoReturn"
proof (induction s rule: lex_loop.induct)
  case (2 c s)
  have q: "quoted q u \<noteq> Inl NoReturn" for q u
    by (induction q u rule: quoted.induct) (auto split: list.splits)
  then have l: "literal_token l q u \<noteq> Inl NoReturn" for l q u by (simp add: literal_token_def)
  show ?case
  proof
    assume "lex_loop (c # s) = Inl NoReturn"
    with 2 l show False
      by (auto simp: lex_loop.simps(2) split: if_splits prod.splits sum.splits option.splits)
  qed
qed simp

lemma body_loop_returns:
  assumes "case y of None \<Rightarrow> 0 < n | Some s \<Rightarrow> length s < n"
  shows "body_loop n ps y \<noteq> Inl NoReturn"
  using assms
proof (induction n arbitrary: y)
  case (Suc n)
  show ?case
  proof (cases y)
    case (Some s)
    show ?thesis
    proof (cases "lex_loop s")
      case (Inr tr)
      obtain t y' where tr: "tr = (t, y')" by (cases tr)
      show ?thesis
      proof (cases "tlex t = Ch NUL")
        case False
        have "case y' of None \<Rightarrow> 0 < n | Some r \<Rightarrow> length r < n"
        proof (cases y')
          case None
          then have "s \<noteq> []" using Inr tr False by (cases s) auto
          with None Suc.prems Some show ?thesis by (cases s) auto
        next
          case (Some r)
          then show ?thesis using Suc.prems \<open>y = Some s\<close> lex_loop_shorter [of s t r] Inr tr by simp
        qed
        from Suc.IH [OF this] show ?thesis using Inr tr Some False
          by (auto simp: my_TokenInput_def Let_def)
      qed (use Inr tr Some in \<open>simp add: my_TokenInput_def\<close>)
    qed (use lex_loop_returns [of s] Some in \<open>auto simp: my_TokenInput_def\<close>)
  qed (simp add: my_TokenInput_def)
qed (simp split: option.splits)

lemma params_loop_returns:
  assumes "case y of None \<Rightarrow> 0 < n | Some s \<Rightarrow> length s < n"
  shows "params_loop n ps y \<noteq> Inl NoReturn"
  using assms
proof (induction n arbitrary: y ps)
  case (Suc n)
  have step: "case y'' of None \<Rightarrow> 0 < n | Some r \<Rightarrow> length r < n"
    if in1: "my_TokenInput y = Inr (t, y')" and in2: "my_TokenInput y' = Inr (t', y'')" and nz: "tlex t' \<noteq> Ch NUL"
    for t y' t' y''
  proof -
    obtain s where y: "y = Some s" using in1 by (cases y) (auto simp: my_TokenInput_def)
    obtain r where r: "y' = Some r" using in2 by (cases y') (auto simp: my_TokenInput_def)
    have "length r < length s" using in1 y r my_TokenInput_shorter by auto
    moreover have "r \<noteq> []" using in2 nz r by (auto simp: my_TokenInput_def)
    moreover have "length u < length r" if "y'' = Some u" for u
      using that in2 r my_TokenInput_shorter by auto
    ultimately show ?thesis using Suc.prems y by (cases y'') fastforce+
  qed
  have m: "my_TokenInput y \<noteq> Inl NoReturn" for y
    using lex_loop_returns by (simp add: my_TokenInput_def split: option.split)
  show ?case
  proof
    assume "params_loop (Suc n) ps y = Inl NoReturn"
    with m obtain t y' t' y'' where
      "my_TokenInput y = Inr (t, y')" "tlex t = SN_IDENTIFIER" "my_TokenInput y' = Inr (t', y'')"
      "tlex t' \<noteq> Ch NUL" "params_loop n (ps @ [ttext t]) y'' = Inl NoReturn"
      by (auto simp: Let_def split: if_splits)
    with Suc.IH step show False by blast
  qed
qed (simp split: option.splits)

section \<open>Lexemes\<close>

definition operators :: "(string \<times> lex) list" where
  "operators =
    [(''<'', Ch CHR ''<''), (''<<'', SN_LS), (''<<='', SN_LSassign), (''<='', SN_LE),
     (''>'', Ch CHR ''>''), (''>>'', SN_RS), (''>>='', SN_RSassign), (''>='', SN_GE),
     (''='', Ch CHR ''=''), (''=='', SN_EQ), (''!'', Ch CHR ''!''), (''!='', SN_NE),
     (''+'', Ch CHR ''+''), (''++'', SN_ICR), (''+='', SN_PLUSassign), (''-'', Ch CHR ''-''),
     (''--'', SN_DECR), (''-='', SN_MINUSassign), (''->'', SN_ARROW), (''->*'', SN_ARROWstar),
     (''*'', Ch CHR ''*''), (''*='', SN_MULTassign), (''/'', Ch CHR ''/''), (''/='', SN_DIVassign),
     (''|'', Ch CHR ''|''), (''||'', SN_OROR), (''|='', SN_ORassign), (''^'', Ch CHR ''^''),
     (''^='', SN_ERassign), (''%'', Ch CHR ''%''), (''%='', SN_MODassign), (''&'', Ch CHR ''&''),
     (''&&'', SN_ANDAND), (''&='', SN_ANDassign), ('':'', Ch CHR '':''), (''::'', SN_CLCL),
     (''.'', Ch CHR ''.''), (''.*'', SN_DOTstar), (''...'', SN_ELLIPSIS), (''('', Ch CHR ''(''),
     ('')'', Ch CHR '')''), (''['', Ch CHR ''[''), ('']'', Ch CHR '']''), (''{'', Ch CHR ''{''),
     (''}'', Ch CHR ''}''), ('','', Ch CHR '',''), ('';'', Ch CHR '';''), (''~'', Ch CHR ''~''),
     (''?'', Ch CHR ''?''), (''@'', Ch CHR ''@''), (''#'', Ch CHR ''#'')]"

definition sign_chars :: "string list" where
  "sign_chars = ['''', ''+'', ''-'']"

definition suffixes :: "string list" where
  "suffixes = ['''', ''l'', ''L'', ''u'', ''U'']"

definition fraction :: "string \<Rightarrow> bool" where
  "fraction f \<longleftrightarrow> f = [] \<or> hd f = CHR ''.'' \<and> list_all c_isdigit (tl f)"

definition exponent :: "string \<Rightarrow> bool" where
  "exponent x \<longleftrightarrow> x = [] \<or> (\<exists>e g ds. x = e # g @ ds \<and> e \<in> {CHR ''e'', CHR ''E''} \<and> g \<in> set sign_chars \<and> list_all c_isdigit ds)"

text \<open>The text of a literal up to its closing quote: a backslash goes with the character behind it.\<close>

fun literal_text :: "char \<Rightarrow> string \<Rightarrow> bool" where
  "literal_text q [] \<longleftrightarrow> True"
| "literal_text q (c # s) \<longleftrightarrow>
     (if c = BSLASH then (case s of [] \<Rightarrow> False | d # s \<Rightarrow> d \<noteq> CR \<and> literal_text q s)
      else c \<noteq> q \<and> c \<noteq> LF \<and> literal_text q s)"

text \<open>Behind a number at most one letter is read; what C allows besides (\<open>10UL\<close>, \<open>1.5f\<close>) is not one lexeme here.\<close>

inductive lexeme :: "lex \<Rightarrow> string \<Rightarrow> bool" where
  lx_ident: "ident_start c \<Longrightarrow> \<forall>x \<in> set w. ident_char x \<Longrightarrow> lexeme SN_IDENTIFIER (c # w)"
| lx_number: "c_isdigit d \<Longrightarrow> list_all c_isdigit ds \<Longrightarrow> fraction f \<Longrightarrow> exponent x \<Longrightarrow> u \<in> set suffixes \<Longrightarrow>
    lexeme (if f \<noteq> [] \<or> x \<noteq> [] then SN_FLOATINGconstant else if u = ''l'' \<or> u = ''L'' then SN_LONGconstant
      else SN_INTEGERconstant) (d # ds @ f @ x @ u)"
| lx_hex: "c = CHR ''x'' \<or> c = CHR ''X'' \<Longrightarrow> list_all c_isxdigit ds \<Longrightarrow> u \<in> set suffixes \<Longrightarrow>
    lexeme (if u = ''l'' \<or> u = ''L'' then SN_LONGconstant else SN_INTEGERconstant) (CHR ''0'' # c # ds @ u)"
| lx_point: "c_isdigit d \<Longrightarrow> list_all c_isdigit ds \<Longrightarrow> exponent x \<Longrightarrow> u \<in> {'''', ''l'', ''L''} \<Longrightarrow>
    lexeme SN_FLOATINGconstant (CHR ''.'' # d # ds @ x @ u)"
| lx_string: "literal_text DQUOTE s \<Longrightarrow> lexeme SN_STRINGliteral (DQUOTE # s @ [DQUOTE])"
| lx_char: "literal_text QUOTE s \<Longrightarrow> lexeme SN_CHARACTERconstant (QUOTE # s @ [QUOTE])"
| lx_operator: "(w, l) \<in> set operators \<Longrightarrow> lexeme l w"

definition lexeme_token :: "lex \<Rightarrow> string \<Rightarrow> token" where
  "lexeme_token l w =
     (if l = SN_IDENTIFIER
      then (mk_token l w)\<lparr>tkeyword := fst (keyword_of w), tis_cpp := snd (keyword_of w)\<rparr>
      else mk_token l w)"

text \<open>What is read after a lexeme that a blank follows.\<close>

lemma dropWhile_blank:
  assumes "\<forall>x \<in> set w. P x" "\<not> P (CHR '' '')"
  shows "dropWhile P (w @ CHR '' '' # r) = CHR '' '' # r"
  using assms by (simp add: dropWhile_append2)

lemma blank_no_char [simp]:
  "\<not> c_isdigit (CHR '' '')" "\<not> c_isxdigit (CHR '' '')" "\<not> ident_char (CHR '' '')" "\<not> ident_start (CHR '' '')"
  by (simp_all add: bytes byte_def ident_char_def ident_start_def)

lemma not_digits [simp]: "\<not> c_isdigit (CHR ''u'')" "\<not> c_isdigit (CHR ''U'')" "\<not> c_isdigit (CHR ''l'')"
  "\<not> c_isdigit (CHR ''L'')" "\<not> c_isdigit (CHR ''.'')" "\<not> c_isdigit (CHR ''e'')" "\<not> c_isdigit (CHR ''E'')"
  "\<not> c_isdigit (CHR ''+'')" "\<not> c_isdigit (CHR ''-'')" "\<not> c_isdigit (CHR ''x'')" "\<not> c_isdigit (CHR ''X'')"
  "\<not> c_isdigit (CHR ''*'')" "\<not> c_isxdigit (CHR ''u'')" "\<not> c_isxdigit (CHR ''U'')"
  "\<not> c_isxdigit (CHR ''l'')" "\<not> c_isxdigit (CHR ''L'')"
  by (simp_all add: bytes byte_def)

text \<open>The letter behind a number and the blank.\<close>

lemma suffix_cases:
  assumes "u \<in> set suffixes"
  obtains c s where "u @ CHR '' '' # r = c # s" "c \<in> {CHR '' '', CHR ''l'', CHR ''L'', CHR ''u'', CHR ''U''}"
  using assms by (auto simp: suffixes_def)

lemma digits_stop:
  assumes "list_all P ds" "s \<noteq> []" "\<not> P (hd s)"
  shows "dropWhile P (ds @ s) = s"
  using assms by (cases s) (simp_all add: dropWhile_append2 list_all_iff)

lemma suffix_hd:
  assumes "u \<in> set suffixes"
  shows "u @ CHR '' '' # r \<noteq> []" "\<not> c_isdigit (hd (u @ CHR '' '' # r))" "\<not> c_isxdigit (hd (u @ CHR '' '' # r))"
    "peek (u @ CHR '' '' # r) \<notin> {CHR ''.'', CHR ''e'', CHR ''E'', CHR ''x'', CHR ''X'', CHR ''+'', CHR ''-''}"
  using assms by (auto elim!: suffix_cases [where r = r])

lemma peek_digits:
  assumes "list_all c_isdigit ds" "peek s \<notin> C" "\<forall>c \<in> C. \<not> c_isdigit c"
  shows "peek (ds @ s) \<notin> C"
  using assms by (cases ds) auto

lemma exponent_read:
  assumes "g \<in> set sign_chars" "list_all c_isdigit ds" "u \<in> set suffixes"
  shows "lex_exponent (g @ ds @ u @ CHR '' '' # r) = u @ CHR '' '' # r"
proof -
  note h = suffix_hd [OF assms(3), of r]
  have d: "dropWhile c_isdigit (ds @ u @ CHR '' '' # r) = u @ CHR '' '' # r"
    using digits_stop [OF assms(2) h(1,2)] .
  have "peek (ds @ u @ CHR '' '' # r) \<notin> {CHR ''+'', CHR ''-''}"
    using h(4) by (intro peek_digits [OF assms(2)]) auto
  then show ?thesis using assms(1) d h(4) by (auto simp: lex_exponent_def Let_def sign_chars_def)
qed

lemma suffix_read:
  assumes "u \<in> set suffixes"
  shows "number_suffix b (u @ CHR '' '' # r) =
    (if b then SN_FLOATINGconstant else if u = ''l'' \<or> u = ''L'' then SN_LONGconstant else SN_INTEGERconstant, CHR '' '' # r)"
    and "hex_suffix (u @ CHR '' '' # r) =
    (if u = ''l'' \<or> u = ''L'' then SN_LONGconstant else SN_INTEGERconstant, CHR '' '' # r)"
  using assms by (auto simp: number_suffix_def hex_suffix_def suffixes_def)

lemma exponent_cases:
  assumes "exponent x" "u \<in> set suffixes"
  obtains "x = []" | e y where "x @ u @ CHR '' '' # r = e # y" "e = CHR ''e'' \<or> e = CHR ''E''" "x \<noteq> []"
    "lex_exponent y = u @ CHR '' '' # r"
  using assms exponent_read unfolding exponent_def by fastforce

lemma exponent_hd:
  assumes "exponent x" "u \<in> set suffixes"
  shows "x @ u @ CHR '' '' # r \<noteq> []" "\<not> c_isdigit (hd (x @ u @ CHR '' '' # r))"
    "peek (x @ u @ CHR '' '' # r) \<notin> {CHR ''.'', CHR ''x'', CHR ''X''}"
  using assms(1) suffix_hd [OF assms(2), of r] by (auto simp: exponent_def)

lemma lex_decimal_number:
  assumes "c_isdigit d" "list_all c_isdigit ds" "fraction f" "exponent x" "u \<in> set suffixes"
  shows "lex_number (d # ds @ f @ x @ u @ CHR '' '' # r) =
    (if f \<noteq> [] \<or> x \<noteq> [] then SN_FLOATINGconstant else if u = ''l'' \<or> u = ''L'' then SN_LONGconstant
     else SN_INTEGERconstant, CHR '' '' # r)"
proof -
  let ?t = "x @ u @ CHR '' '' # r"
  note h = exponent_hd [OF assms(4,5), of r]
  have f: "f @ ?t \<noteq> []" "\<not> c_isdigit (hd (f @ ?t))" "peek (f @ ?t) \<notin> {CHR ''x'', CHR ''X''}"
    using assms(3) h by (cases f; auto simp: fraction_def)+
  have "peek (ds @ f @ ?t) \<notin> {CHR ''x'', CHR ''X''}" using f(3) by (intro peek_digits [OF assms(2)]) auto
  then have n: "lex_number (d # ds @ f @ ?t) = lex_decimal (d # ds @ f @ ?t)" by (auto simp: lex_number_def)
  have ds: "dropWhile c_isdigit (d # ds @ f @ ?t) = f @ ?t"
    using assms(1) digits_stop [OF assms(2) f(1,2)] by simp
  have e: "(if peek ?t = CHR ''E'' \<or> peek ?t = CHR ''e'' then (True, lex_exponent (tl ?t)) else (b, ?t)) =
      (b \<or> x \<noteq> [], u @ CHR '' '' # r)" for b
    by (rule exponent_cases [OF assms(4,5), where r = r]) (use suffix_hd(4) [OF assms(5), of r] in auto)
  show ?thesis
  proof (cases f)
    case Nil
    then show ?thesis using n ds h(3) e [of False] suffix_read(1) [OF assms(5), where b = "x \<noteq> []" and r = r]
      by (simp add: lex_decimal_def Let_def)
  next
    case (Cons c fs)
    then have c: "c = CHR ''.''" "dropWhile c_isdigit (fs @ ?t) = ?t"
      using assms(3) digits_stop [of c_isdigit fs ?t, OF _ h(1,2)] by (auto simp: fraction_def)
    then show ?thesis using n ds Cons e [of True] suffix_read(1) [OF assms(5), where b = True and r = r]
      by (simp add: lex_decimal_def Let_def)
  qed
qed

lemma lex_hex_number:
  assumes "c = CHR ''x'' \<or> c = CHR ''X''" "list_all c_isxdigit ds" "u \<in> set suffixes"
  shows "lex_number (CHR ''0'' # c # ds @ u @ CHR '' '' # r) =
    (if u = ''l'' \<or> u = ''L'' then SN_LONGconstant else SN_INTEGERconstant, CHR '' '' # r)"
  using assms(1) digits_stop [OF assms(2) suffix_hd(1,3) [OF assms(3), of r]] suffix_read(2) [OF assms(3), where r = r]
  by (auto simp: lex_number_def)

lemma lex_point_number:
  assumes "c_isdigit d" "list_all c_isdigit ds" "exponent x" "u \<in> {'''', ''l'', ''L''}"
  shows "lex_dot (d # ds @ x @ u @ CHR '' '' # r) = (SN_FLOATINGconstant, CHR '' '' # r)"
proof -
  let ?t = "x @ u @ CHR '' '' # r"
  have u: "u \<in> set suffixes" using assms(4) by (auto simp: suffixes_def)
  have d: "d \<noteq> CHR ''*''" "d \<noteq> CHR ''.''" using assms(1) by auto
  have "dropWhile c_isdigit (ds @ ?t) = ?t" using digits_stop [OF assms(2) exponent_hd(1,2) [OF assms(3) u]] .
  moreover have "(if peek ?t = CHR ''E'' \<or> peek ?t = CHR ''e'' then lex_exponent (tl ?t) else ?t) = u @ CHR '' '' # r"
    by (rule exponent_cases [OF assms(3) u, where r = r]) (use suffix_hd(4) [OF u, of r] in auto)
  ultimately show ?thesis using d assms(1,4) by (auto simp: lex_dot_def Let_def)
qed

lemma lex_loop_digit:
  assumes "c_isdigit d" "lex_number (d # w @ CHR '' '' # r) = (l, CHR '' '' # r)"
  shows "lex_loop (d # w @ CHR '' '' # r) = Inr (mk_token l (d # w), Some (CHR '' '' # r))"
  using assms by (simp add: lex_loop.simps(2))

lemma quoted_literal:
  assumes "literal_text q s" "q \<noteq> BSLASH" "q \<noteq> LF"
  shows "quoted q (s @ q # r) = Inr (Some r)"
  using assms
proof (induction q s rule: literal_text.induct)
  case (2 q c s)
  note p = "2.prems"
  show ?case
  proof (cases "c = BSLASH")
    case True
    then obtain d t where d: "s = d # t" "d \<noteq> CR" "literal_text q t"
      using p(1) by (auto split: list.splits)
    from "2.IH"(1) [OF True d(1) d(3) p(2,3)] True d p(2) show ?thesis by (auto split: if_splits)
  next
    case False
    with p have "c \<noteq> q" "c \<noteq> LF" "literal_text q s" by auto
    with "2.IH"(2) [OF False] p(2,3) False show ?thesis by auto
  qed
qed simp

lemma lex_operators:
  "\<forall>(w, l) \<in> set operators.
     lex_loop (w @ CHR '' '' # r) = Inr (mk_token l w, Some (CHR '' '' # r)) \<and> l \<noteq> SN_IDENTIFIER"
  by (simp add: operators_def lex_loop.simps(2) operator_defs lex_operator_def lex_dot_def lex_slash_def
      bracket_def bytes byte_def ident_start_def between_def)

lemma lex_loop_lexeme:
  assumes "lexeme l w"
  shows "lex_loop (w @ CHR '' '' # r) = Inr (lexeme_token l w, Some (CHR '' '' # r))"
  using assms
proof cases
  case (lx_ident c v)
  then have c: "\<not> c_isdigit c" "ident_char c"
    by (auto simp: ident_start_def ident_char_def bytes byte_def)
  have "dropWhile ident_char (v @ CHR '' '' # r) = CHR '' '' # r" using lx_ident(4) by (intro dropWhile_blank) simp_all
  with c lx_ident show ?thesis
    by (simp add: lex_loop.simps(2) ident_token_def lexeme_token_def Let_def)
next
  case (lx_number d ds f x u)
  from lex_loop_digit [OF lx_number(3), of "ds @ f @ x @ u" r] lex_decimal_number [OF lx_number(3-7), of r] lx_number
  show ?thesis by (simp add: lexeme_token_def)
next
  case (lx_hex c ds u)
  have "c_isdigit (CHR ''0'')" by (simp add: bytes byte_def)
  from lex_loop_digit [OF this, of "c # ds @ u" r] lex_hex_number [OF lx_hex(3-5), of r] lx_hex
  show ?thesis by (simp add: lexeme_token_def)
next
  case (lx_point d ds x u)
  then show ?thesis using lex_point_number [OF lx_point(3-6), of r]
    by (simp add: lex_loop.simps(2) lex_operator_def lexeme_token_def ident_start_def bytes byte_def between_def)
next
  case (lx_string s)
  then show ?thesis using quoted_literal [of DQUOTE s "CHR '' '' # r"]
    by (simp add: lex_loop.simps(2) literal_token_def lexeme_token_def bytes byte_def ident_start_def between_def)
next
  case (lx_char s)
  then show ?thesis using quoted_literal [of QUOTE s "CHR '' '' # r"]
    by (simp add: lex_loop.simps(2) literal_token_def lexeme_token_def bytes byte_def ident_start_def between_def)
next
  case lx_operator
  then show ?thesis using lex_operators [of r] by (auto simp: lexeme_token_def)
qed

definition body_text :: "(lex \<times> string) list \<Rightarrow> string" where
  "body_text ts = concat (map (\<lambda>(l, w). w @ '' '') ts)"

definition body_token :: "string list \<Rightarrow> lex \<times> string \<Rightarrow> token" where
  "body_token ps = (\<lambda>(l, w).
     if l = SN_IDENTIFIER then mark_loop 0 ps (lexeme_token l w) else lexeme_token l w)"

lemma lexeme_nonempty: "lexeme l w \<Longrightarrow> w \<noteq> []"
  by (cases rule: lexeme.cases) (auto simp: operators_def)

lemma lexeme_not_NUL: "lexeme l w \<Longrightarrow> l \<noteq> Ch NUL"
  by (cases rule: lexeme.cases) (auto simp: operators_def split: if_splits)

lemma lexeme_token_simps [simp]:
  "tlex (lexeme_token l w) = l" "ttext (lexeme_token l w) = w" "iParameter (lexeme_token l w) = -1"
  by (simp_all add: lexeme_token_def)

lemma iParameter_fresh [simp]: "(lexeme_token l w)\<lparr>iParameter := -1\<rparr> = lexeme_token l w"
  by (rule token.equality) simp_all

lemma lex_loop_blank: "lex_loop (CHR '' '' # s) = lex_loop s"
  by (simp add: lex_loop.simps(2) lex_operator_def bracket_def)

lemma body_loop_append:
  assumes "\<forall>(l, w) \<in> set ts. lexeme l w" "my_TokenInput y = lex_loop (body_text ts @ u)"
  shows "body_loop (length ts + k) ps y =
    sbind (body_loop k ps (Some u)) (\<lambda>us. Inr (map (body_token ps) ts @ us))"
  using assms
proof (induction ts arbitrary: y)
  case Nil
  have "body_loop k ps y = body_loop k ps (Some u)"
    using Nil(2) by (cases k) (simp_all add: my_TokenInput_def body_text_def)
  then show ?case by (cases "body_loop k ps (Some u)") simp_all
next
  case (Cons lw ts)
  obtain l w where lw: "lw = (l, w)" by (cases lw)
  have x: "lexeme l w" using Cons.prems(1) lw by simp
  have "my_TokenInput y = Inr (lexeme_token l w, Some (CHR '' '' # body_text ts @ u))"
    using Cons.prems(2) lex_loop_lexeme [OF x, of "body_text ts @ u"] by (simp add: body_text_def lw)
  moreover have "body_loop (length ts + k) ps (Some (CHR '' '' # body_text ts @ u)) =
      sbind (body_loop k ps (Some u)) (\<lambda>us. Inr (map (body_token ps) ts @ us))"
    using Cons.prems(1) by (intro Cons.IH) (simp_all add: my_TokenInput_def lex_loop_blank)
  ultimately show ?case using lexeme_not_NUL [OF x]
    by (simp add: body_token_def lw Let_def sbind_assoc)
qed

lemma body_loop_text:
  assumes "\<forall>(l, w) \<in> set ts. lexeme l w" "length ts < n"
  shows "body_loop n ps (Some (body_text ts)) = Inr (map (body_token ps) ts)"
proof -
  obtain k where "n = length ts + Suc k" using less_imp_Suc_add [OF assms(2)] by auto
  then show ?thesis
    using body_loop_append [OF assms(1), of "Some (body_text ts)" "[]" "Suc k" ps]
    by (simp add: my_TokenInput_def)
qed

lemma length_body_text: "\<forall>(l, w) \<in> set ts. lexeme l w \<Longrightarrow> length ts \<le> length (body_text ts)"
  by (induction ts) (auto simp: body_text_def)

section \<open>Properties\<close>

text \<open>C29: The tokenizer of macro bodies reads back what is printed: from the spellings of any sequence of
  lexemes, a blank behind each, it makes exactly these tokens, with keywords recognised and identifiers
  that name a parameter marked with its number.  The lexemes are identifiers; decimal numbers
  with an optional fraction and exponent, numbers that begin with the point, and hexadecimal ones, with
  at most one of the letters \<open>l L u U\<close> behind (not \<open>10UL\<close> or \<open>1.5f\<close>, which come apart); string and character
  literals with escapes, but no carriage return behind a backslash; and all operators.\<close>

theorem macro_body_roundtrip:
  assumes "\<forall>(l, w) \<in> set ts. lexeme l w" "cmacro M = Some (body_text ts)"
  shows "f_MacroProcess2 M ps = Inr (M\<lparr>mToken := mToken M @ map (body_token ps) ts\<rparr>)"
proof -
  have "body_loop (length (body_text ts) + 1) ps (Some (body_text ts)) = Inr (map (body_token ps) ts)"
    using length_body_text [OF assms(1)] by (intro body_loop_text [OF assms(1)]) simp
  then show ?thesis by (simp add: f_MacroProcess2_def assms(2) del: body_loop.simps)
qed

definition macro_max :: smacro where
  "macro_max = \<lparr>cparameter_list = Some ''a,b'', cmacro = Some ''a << 0x1F + f ( b ) '', ctyp = CPP_MACRO,
     cpaf_typ = Some PAF_WORD_DEFINE, tilt = False, sStringName = ''M'', mToken = [],
     mTokenProcessed = [], MacroNext = 0, MacroPrev = 0\<rparr>"

theorem macro_body_roundtrip_witness:
  "f_MacroProcess2 macro_max [''a'', ''b''] =
     Inr (macro_max\<lparr>mToken := map (body_token [''a'', ''b''])
       [(SN_IDENTIFIER, ''a''), (SN_LS, ''<<''), (SN_INTEGERconstant, ''0x1F''), (Ch CHR ''+'', ''+''),
        (SN_IDENTIFIER, ''f''), (Ch CHR ''('', ''(''), (SN_IDENTIFIER, ''b''), (Ch CHR '')'', '')'')]\<rparr>)"
proof -
  have i: "lexeme SN_IDENTIFIER [c]" if "ident_start c" for c using lx_ident [of c "[]"] that by simp
  have "lexeme SN_IDENTIFIER ''a''" "lexeme SN_IDENTIFIER ''f''" "lexeme SN_IDENTIFIER ''b''"
    by (simp_all add: i bytes byte_def ident_start_def)
  moreover have "lexeme SN_INTEGERconstant ''0x1F''"
    using lx_hex [of "CHR ''x''" "''1F''" "[]"] by (simp add: suffixes_def bytes byte_def)
  moreover have "lexeme SN_LS ''<<''" "lexeme (Ch CHR ''+'') ''+''" "lexeme (Ch CHR ''('') ''(''"
    "lexeme (Ch CHR '')'') '')''"
    by (rule lx_operator; simp add: operators_def)+
  ultimately have "\<forall>(l, w) \<in> set [(SN_IDENTIFIER, ''a''), (SN_LS, ''<<''), (SN_INTEGERconstant, ''0x1F''),
      (Ch CHR ''+'', ''+''), (SN_IDENTIFIER, ''f''), (Ch CHR ''('', ''(''), (SN_IDENTIFIER, ''b''),
      (Ch CHR '')'', '')'')]. lexeme l w"
    by simp
  from macro_body_roundtrip [OF this, of macro_max "[''a'', ''b'']"] show ?thesis
    by (simp add: macro_max_def body_text_def)
qed

text \<open>C's suffixes of floating and of long unsigned constants are not read: \<open>1.5f\<close> becomes \<open>1.5\<close> and the
  identifier \<open>f\<close>, \<open>10UL\<close> becomes \<open>10U\<close> and \<open>L\<close>.\<close>

theorem macro_suffix_split:
  assumes "c_isdigit d" "list_all c_isdigit ds" "cmacro M = Some (d # ds @ ''UL '')"
  shows "f_MacroProcess2 M [] = Inr (M\<lparr>mToken := mToken M @ [mk_token SN_INTEGERconstant (d # ds @ ''U''),
    lexeme_token SN_IDENTIFIER ''L'']\<rparr>)"
proof -
  let ?r = "''L ''"
  have h: "?r \<noteq> []" "\<not> c_isdigit (hd ?r)" by simp_all
  have stop: "dropWhile c_isdigit (ds @ ''UL '') = ''UL ''" by (rule digits_stop [OF assms(2)]) simp_all
  have p: "peek (ds @ ''UL '') \<notin> {CHR ''x'', CHR ''X''}" by (rule peek_digits [OF assms(2)]) simp_all
  have "lex_number (d # ds @ ''UL '') = (SN_INTEGERconstant, ?r)"
    using assms(1) stop p by (simp add: lex_number_def lex_decimal_def number_suffix_def)
  moreover have "between (d # ds @ ''UL '') ?r = d # ds @ ''U''" by (simp add: between_def)
  ultimately have one: "lex_loop (d # ds @ ''UL '') = Inr (mk_token SN_INTEGERconstant (d # ds @ ''U''), Some ?r)"
    using assms(1) by (simp add: lex_loop.simps(2))
  have "lexeme SN_IDENTIFIER ''L''" using lx_ident [of "CHR ''L''" "[]"] by (simp add: ident_start_def bytes byte_def)
  from lex_loop_lexeme [OF this, of "[]"] have two: "lex_loop ?r = Inr (lexeme_token SN_IDENTIFIER ''L'', Some '' '')" by simp
  have three: "lex_loop '' '' = Inr (mk_token (Ch NUL) [], None)" using lex_loop_blank [of "[]"] by simp
  have m: "mark_loop 0 [] t = t" for t by (cases t) simp
  have n: "length (d # ds @ ''UL '') + 1 = Suc (Suc (Suc (length ds + 2)))" by simp
  have "body_loop (length (d # ds @ ''UL '') + 1) [] (Some (d # ds @ ''UL '')) =
      Inr [mk_token SN_INTEGERconstant (d # ds @ ''U''), lexeme_token SN_IDENTIFIER ''L'']"
    unfolding n using one two three m by (simp add: my_TokenInput_def Let_def del: lex_loop.simps(1))
  then show ?thesis by (simp add: f_MacroProcess2_def assms(3) del: body_loop.simps)
qed

theorem macro_suffix_split_witness:
  "f_MacroProcess2 (macro_max\<lparr>cmacro := Some ''10UL ''\<rparr>) [] =
     Inr (macro_max\<lparr>cmacro := Some ''10UL '', mToken := [mk_token SN_INTEGERconstant ''10U'', lexeme_token SN_IDENTIFIER ''L'']\<rparr>)"
  using macro_suffix_split [of "CHR ''1''" "''0''" "macro_max\<lparr>cmacro := Some ''10UL ''\<rparr>"]
  by (simp add: bytes byte_def macro_max_def)

text \<open>A comment that the end of a macro body cuts off makes the tokenizer read past the
  terminating NUL: always for \<open>//\<close>, since a definition is one line, and for \<open>/*\<close> when it is
  not closed.\<close>

theorem macro_comment_overrun:
  assumes "\<forall>(l, w) \<in> set ts. lexeme l w" "LF \<notin> set c" "block_comment NUL d = None"
  shows "(cmacro M = Some (body_text ts @ ''//'' @ c) \<longrightarrow> f_MacroProcess2 M ps = Inl OutOfBounds) \<and>
    (cmacro M = Some (body_text ts @ ''/*'' @ d) \<longrightarrow> f_MacroProcess2 M ps = Inl OutOfBounds)"
proof -
  have "line_comment c = None" using assms(2) by (induction c) auto
  then have l: "lex_loop (''//'' @ c) = Inl OutOfBounds"
    by (simp add: lex_loop.simps(2) lex_slash_def bytes byte_def ident_start_def)
  have b: "lex_loop (''/*'' @ d) = Inl OutOfBounds"
    using assms(3) by (simp add: lex_loop.simps(2) lex_slash_def bytes byte_def ident_start_def)
  have "body_loop (length (body_text ts @ u) + 1) ps (Some (body_text ts @ u)) = Inl OutOfBounds"
    if "lex_loop u = Inl OutOfBounds" for u
  proof -
    have "\<exists>k. length (body_text ts @ u) + 1 = length ts + Suc k"
      using length_body_text [OF assms(1)] by (intro exI [of _ "length (body_text ts @ u) - length ts"]) simp
    then obtain k where "length (body_text ts @ u) + 1 = length ts + Suc k" ..
    moreover have "body_loop (Suc k) ps (Some u) = Inl OutOfBounds" using that by (simp add: my_TokenInput_def)
    ultimately show ?thesis
      using body_loop_append [OF assms(1), of "Some (body_text ts @ u)" u "Suc k" ps]
      by (simp add: my_TokenInput_def del: body_loop.simps)
  qed
  from this [OF l] this [OF b] show ?thesis by (simp add: f_MacroProcess2_def del: body_loop.simps)
qed

theorem macro_comment_overrun_witness:
  "f_MacroProcess2 (macro_max\<lparr>cmacro := Some ''// bits''\<rparr>) [] = Inl OutOfBounds"
  using macro_comment_overrun [of "[]" "'' bits''" "''''" "macro_max\<lparr>cmacro := Some ''// bits''\<rparr>" "[]"]
  by (simp add: body_text_def)

text \<open>C30: Reading the parameter list and the body of a macro always ends: the tokenizer moves
  forward with every token, or leaves the text.\<close>

theorem macro_read_terminates:
  "f_MacroProcess1 M \<noteq> Inl NoReturn"
proof -
  have "f_MacroProcess2 M ps \<noteq> Inl NoReturn" for ps
    using body_loop_returns [of "length s + 1" "Some s" ps for s]
    by (auto simp: f_MacroProcess2_def simp del: body_loop.simps split: option.split)
  then show ?thesis
    using params_loop_returns [of "length s + 1" "Some s" "[]" for s]
    by (auto simp: f_MacroProcess1_def simp del: params_loop.simps split: option.split)
qed

end
