(* ===== verification/Process.thy ===== *)
theory Process
  imports Macro
begin

text \<open>
  Finding a macro reads and processes it when it is met for the first time (\<open>f_MacroFind\<close> in
  \<open>macro.c\<close>), and processing a body finds the macros that occur in it (\<open>process.c\<close>).  The
  functions below \<open>f_MacroFind\<close> take as \<open>mfind\<close> the calls of \<open>f_MacroFind\<close> that they make; the
  fuel bounds the depth of the calls and the rounds of the loops.

  The component \<open>mu\<close> of a result is the ring of the macros used so far (\<open>*pMacroUsed\<close>).  A
  token pointer that is returned is a list of tokens, the null pointer the empty list.
  \<open>f_ProcessParamToken\<close> returns what it wrote to \<open>*pbContinue\<close>, if anything.
\<close>

type_synonym find_fun = "pstate \<Rightarrow> string \<Rightarrow> ub + nat option \<times> pstate"

section \<open>Reading tokens and replacing macros\<close>

fun f_ProcessTokenMacroInput ::
    "find_fun \<Rightarrow> nat \<Rightarrow> pstate \<Rightarrow> nat option \<Rightarrow> ub + (token list \<times> bool) \<times> nat option \<times> pstate"
  and f_ProcessParamCreate ::
    "find_fun \<Rightarrow> nat \<Rightarrow> pstate \<Rightarrow> nat option \<Rightarrow> token list list \<Rightarrow>
     ub + token list list \<times> nat option \<times> pstate"
  and f_ProcessParamToken ::
    "find_fun \<Rightarrow> nat \<Rightarrow> pstate \<Rightarrow> nat option \<Rightarrow> int \<Rightarrow> token list \<Rightarrow>
     ub + (token list \<times> bool option) \<times> nat option \<times> pstate"
where
  "f_ProcessTokenMacroInput mfind 0 st mu = Inl NoReturn"
| "f_ProcessTokenMacroInput mfind (Suc n) st mu =
     sbind (f_ProcessTokenInput st) (\<lambda>(r, st).
     case r of
       None \<Rightarrow> Inr (([], False), mu, st)
     | Some t \<Rightarrow>
         if tlex t = SN_IDENTIFIER \<and> iParameter t = -1 then
           sbind (mfind st (ttext t)) (\<lambda>(r, st).
           case r of
             None \<Rightarrow> Inr (([t], False), mu, st)
           | Some m \<Rightarrow>
               sbind (get_macro st m) (\<lambda>M.
               if tilt M then Inr (([t], False), mu, st)
               else if ctyp M = CPP_DEFINE then
                 sbind (f_MacroAppend mu m st) (\<lambda>(mu, st).
                 Inr ((f_MacroMerge M t None False, True), mu, st))
               else if ctyp M = CPP_MACRO then
                 sbind (f_ProcessTokenInput st) (\<lambda>(r, st).
                 if map_option tlex r = Some (Ch CHR ''('') then
                   sbind (f_ProcessParamCreate mfind n st mu []) (\<lambda>(param, mu, st).
                   sbind (get_macro st m) (\<lambda>M.
                   sbind (f_MacroAppend mu m st) (\<lambda>(mu, st).
                   Inr ((f_MacroMerge M t (Some param) False, True), mu, st))))
                 else
                   sbind (f_ProcessTokenUnput r st) (\<lambda>st. Inr (([t], False), mu, st)))
               else Inr (([t], False), mu, st)))
         else Inr (([t], False), mu, st))"

| "f_ProcessParamCreate mfind 0 st mu param = Inl NoReturn"
| "f_ProcessParamCreate mfind (Suc n) st mu param =
     sbind (f_ProcessParamToken mfind n st mu 0 []) (\<lambda>((ts, bContinue), mu, st).
     if length param \<ge> 100 then Inl OutOfBounds
     else
       (case bContinue of
          None \<Rightarrow> Inl Uninitialised
        | Some c \<Rightarrow>
            if c then f_ProcessParamCreate mfind n st mu (param @ [ts])
            else Inr (param @ [ts], mu, st)))"

| "f_ProcessParamToken mfind 0 st mu p ret = Inl NoReturn"
| "f_ProcessParamToken mfind (Suc n) st mu p ret =
     sbind (f_ProcessTokenMacroInput mfind n st mu) (\<lambda>((ts, macro), mu, st).
     if macro then f_ProcessParamToken mfind n st mu p (ret @ ts)
     else if ts = [] then Inr ((ret, None), mu, st)
     else
       let l = tlex (hd ts) in
       if p = 0 \<and> l = Ch CHR '','' then Inr ((ret, Some True), mu, st)
       else if p = 0 \<and> (l = Ch CHR '')'' \<or> l = Ch NUL) then Inr ((ret, Some False), mu, st)
       else
         f_ProcessParamToken mfind n st mu
           (if l = Ch CHR ''('' then p + 1 else if l = Ch CHR '')'' then p - 1 else p) (ret @ ts))"

section \<open>Processing a macro\<close>

fun process_loop ::
    "find_fun \<Rightarrow> nat \<Rightarrow> pstate \<Rightarrow> nat option \<Rightarrow> token list \<Rightarrow> ub + token list \<times> nat option \<times> pstate"
where
  "process_loop mfind 0 st mu out = Inl NoReturn"
| "process_loop mfind (Suc n) st mu out =
     sbind (f_ProcessTokenMacroInput mfind n st mu) (\<lambda>((ts, macro), mu, st).
     if \<not> macro \<and> ts = [] then Inr (out, mu, st)
     else process_loop mfind n st mu (out @ ts))"

text \<open>\<open>__MacroProcess\<close>\<close>

definition Macro_Process ::
    "find_fun \<Rightarrow> nat \<Rightarrow> pstate \<Rightarrow> nat option \<Rightarrow> token list \<Rightarrow> ub + token list \<times> nat option \<times> pstate"
where
  "Macro_Process mfind n st mu ts =
     sbind (process_loop mfind n
         (st\<lparr>TokenProcessInput := ts, TokenProcessPos := None, TokenProcessUnput := None\<rparr>) mu [])
       (\<lambda>(out, mu, st').
       Inr (out, mu, st'\<lparr>TokenProcessInput := TokenProcessInput st,
         TokenProcessPos := TokenProcessPos st, TokenProcessUnput := TokenProcessUnput st\<rparr>))"

fun process_rounds ::
    "find_fun \<Rightarrow> nat \<Rightarrow> pstate \<Rightarrow> nat option \<Rightarrow> token list \<Rightarrow> ub + token list \<times> nat option \<times> pstate"
where
  "process_rounds mfind 0 st macroTilt ts = Inl NoReturn"
| "process_rounds mfind (Suc n) st macroTilt ts =
     sbind (Macro_Process mfind n st None ts) (\<lambda>(ts, macroUsed, st).
     case macroUsed of
       None \<Rightarrow> Inr (ts, macroTilt, st)
     | Some b \<Rightarrow>
         sbind (while_macro n set_tilt b b st) (\<lambda>st.
         sbind (f_MacroAppend macroTilt b st) (\<lambda>(macroTilt, st).
         process_rounds mfind n st macroTilt ts)))"

definition f_MacroProcess :: "find_fun \<Rightarrow> nat \<Rightarrow> pstate \<Rightarrow> nat \<Rightarrow> ub + pstate" where
  "f_MacroProcess mfind n st m =
     sbind (get_macro st m) (\<lambda>M.
     if mToken M = [] then Inr (upd_macro m (\<lambda>M. M\<lparr>mTokenProcessed := []\<rparr>) st)
     else
       sbind (process_rounds mfind n st None (mToken M)) (\<lambda>(ts, macroTilt, st).
       let st = upd_macro m (\<lambda>M. M\<lparr>mTokenProcessed := ts\<rparr>) st in
       case macroTilt of
         None \<Rightarrow> Inr st
       | Some b \<Rightarrow> while_macro n reset_tilt b b st))"

section \<open>Finding a macro\<close>

fun f_MacroFind :: "paf_fun option \<Rightarrow> nat \<Rightarrow> find_fun" where
  "f_MacroFind paf 0 st w = Inl NoReturn"
| "f_MacroFind paf (Suc n) st w =
     (case paf of
        None \<Rightarrow> Inr (None, st)
      | Some Paf_Word \<Rightarrow>
          sbind (cache_find st w) (\<lambda>(r, st).
          case r of
            Some m \<Rightarrow> Inr (Some m, st)
          | None \<Rightarrow>
              sbind (Paf_Word w (int (length w))) (\<lambda>(retval, params, body).
              if retval = PAF_WORD_DEFINE \<or> retval = PAF_WORD_REPLACE then
                sbind (new_macro st w retval params body) (\<lambda>(r, st).
                case r of
                  None \<Rightarrow> Inr (None, st)
                | Some m \<Rightarrow>
                    sbind (f_MacroProcess (f_MacroFind paf n) n st m) (\<lambda>st. Inr (Some m, st)))
              else if retval = PAF_WORD_UNDEF then undef_macro st w
              else Inr (None, st))))"

definition f_MacroFreeAll :: "pstate \<Rightarrow> ub + pstate" where
  "f_MacroFreeAll st =
     (case mcache st of
        None \<Rightarrow> Inr (st\<lparr>iMacroCount := 0\<rparr>)
      | Some t \<Rightarrow>
          sbind (TableDestroy HashTableSeq t) (\<lambda>t. Inr (st\<lparr>iMacroCount := 0, mcache := None\<rparr>)))"

end
