(* ===== verification/Process_Props.thy ===== *)
theory Process_Props
  imports Process MacroLex_Props
begin

text \<open>
  The state of the macro cache: its invariant, kept by everything that finding a macro does, and
  what expansion comes to, including the cases that go wrong.
\<close>

section \<open>Partial results\<close>

definition holds :: "ub + 'a \<Rightarrow> ('a \<Rightarrow> bool) \<Rightarrow> bool" where
  "holds r Q \<longleftrightarrow> (\<forall>x. r = Inr x \<longrightarrow> Q x)"

lemma holds_simps [simp]: "holds (Inl e) Q" "holds (Inr x) Q \<longleftrightarrow> Q x"
  by (simp_all add: holds_def)

lemma holds_bind:
  assumes "holds m P" "\<And>x. P x \<Longrightarrow> holds (f x) Q"
  shows "holds (sbind m f) Q"
  using assms by (cases m) auto

lemma holds_mono: "holds r P \<Longrightarrow> (\<And>x. P x \<Longrightarrow> Q x) \<Longrightarrow> holds r Q"
  by (auto simp: holds_def)

lemma holdsD: "holds r Q \<Longrightarrow> r = Inr x \<Longrightarrow> Q x"
  by (simp add: holds_def)

section \<open>The cache\<close>

definition cache_ok :: "nat search_table option \<Rightarrow> bool" where
  "cache_ok c \<longleftrightarrow>
     (\<forall>t. c = Some t \<longrightarrow> hash_inv t \<and> (\<forall>e \<in> hash_entries t. \<exists>m. edata e = Obj m))"

text \<open>The address stored for a word.\<close>

definition cached :: "nat search_table option \<Rightarrow> string \<Rightarrow> nat option" where
  "cached c w =
     (case c of
        None \<Rightarrow> None
      | Some t \<Rightarrow>
          (case hash_lookup t w of
             None \<Rightarrow> None
           | Some e \<Rightarrow> (case edata e of Obj m \<Rightarrow> Some m | _ \<Rightarrow> None)))"

lemma wf_cache_entry: "NUL \<notin> set w \<Longrightarrow> wf_entry (hash_item (cache_entry w d))"
  by (auto simp: wf_entry_def hash_item_def cache_entry_def)

lemma ekey_cache_entry [simp]: "ekey (hash_item (cache_entry w d)) = w"
  by (auto simp: ekey_def hash_item_def cache_entry_def)

lemma cache_search:
  assumes "hash_inv t" "NUL \<notin> set w"
  shows "case hash_lookup t w of
      None \<Rightarrow> HashTableSearch t (cache_entry w d) = Inr (t, None)
    | Some e \<Rightarrow> \<exists>i c. HashTableSearch t (cache_entry w d) = Inr (t, Some i) \<and>
        get_cell t i = Inr c \<and> entry c = e"
proof (cases "hash_lookup t w")
  case None
  then have "w \<notin> ekey ` hash_entries t" using hash_lookup_None [OF assms(1)] by blast
  then show ?thesis using None hash_search_absent [OF assms(1) wf_cache_entry [OF assms(2)], of d]
    by (simp add: HashTableSearch_def depth_not_add)
next
  case (Some e)
  then have "e \<in> hash_entries t" "ekey e = w" using hash_lookup_entries [OF assms(1)] by blast+
  then obtain i where i: "i \<in> occupied t" "entry (cell t i) = e" by (auto simp: hash_entries_def)
  then have "HashTableSearch t (cache_entry w d) = Inr (t, Some i)"
    using hash_search_present [OF assms(1) wf_cache_entry [OF assms(2)] i(1)] \<open>ekey e = w\<close>
    by (simp add: HashTableSearch_def depth_not_add)
  moreover have "get_cell t i = Inr (cell t i)"
    by (rule get_cell_hash [OF assms(1)]) (use i in \<open>simp add: occupied_def\<close>)
  ultimately show ?thesis using Some i(2) by auto
qed

lemma table_1000:
  "hash_inv (HashTableCreate 1000 True :: nat search_table)"
  "hash_entries (HashTableCreate 1000 True :: nat search_table) = {}"
  by (simp_all add: hash_inv_create hash_entries_create)

lemma cache_find_ok:
  assumes "cache_ok (mcache st)" "NUL \<notin> set w"
  obtains t where "cache_find st w = Inr (cached (mcache st) w, st\<lparr>mcache := Some t\<rparr>)"
    "cache_ok (Some t)" "cached (Some t) = cached (mcache st)" "mcache st = None \<or> mcache st = Some t"
proof -
  define t where "t = (case mcache st of None \<Rightarrow> HashTableCreate 1000 True | Some t \<Rightarrow> t)"
  have ok: "cache_ok (Some t)" using assms(1) table_1000
    by (auto simp: t_def cache_ok_def split: option.splits)
  have "hash_lookup (HashTableCreate 1000 True :: nat search_table) k = None" for k
    using hash_lookup_None [OF table_1000(1)] table_1000(2) by simp
  then have c: "cached (Some t) = cached (mcache st)"
    by (auto simp: t_def cached_def fun_eq_iff split: option.split)
  have inv: "hash_inv t" using ok by (simp add: cache_ok_def)
  have "cache_find st w = Inr (cached (Some t) w, st\<lparr>mcache := Some t\<rparr>)"
  proof (cases "hash_lookup t w")
    case None
    then show ?thesis using cache_search [OF inv assms(2), of NullData]
      by (simp add: cache_find_def SearchTableCreate_def table_search_def cached_def flip: t_def cong: option.case_cong)
  next
    case (Some e)
    then have "e \<in> hash_entries t" using hash_lookup_entries [OF inv] by blast
    then obtain m where "edata e = Obj m" using ok by (auto simp: cache_ok_def)
    then show ?thesis using Some cache_search [OF inv assms(2), of NullData]
      by (auto simp: cache_find_def SearchTableCreate_def table_search_def cached_def simp flip: t_def cong: option.case_cong)
  qed
  with ok c that show thesis by (auto simp: t_def split: option.splits)
qed

lemma cache_add_ok:
  assumes "cache_ok (mcache st)" "NUL \<notin> set w" "mcache st = Some t" "cached (mcache st) w = None"
  obtains t' where "cache_add st w m = Inr (st\<lparr>mcache := Some t', iMacroCount := iMacroCount st + 1\<rparr>)"
    "cache_ok (Some t')" "cached (Some t') = (cached (mcache st))(w := Some m)"
proof -
  let ?e = "cache_entry w (Obj m)"
  have inv: "hash_inv t" using assms(1,3) by (simp add: cache_ok_def)
  have a: "hash_accepts ?e" using wf_cache_entry [OF assms(2)]
    by (simp add: hash_accepts_def cache_entry_def has_flag_def bad_flag_def search_flags)
  obtain t' i where t': "HashTableAdd t ?e = Inr (t', Some i)" by (rule HashTableAdd_ok [OF inv a]) blast
  then have i: "hash_insert ?e t = t'" by (simp add: hash_insert_def)
  have n: "hash_lookup t w = None"
  proof (rule ccontr)
    assume "hash_lookup t w \<noteq> None"
    then obtain e where e: "hash_lookup t w = Some e" by blast
    then have "e \<in> hash_entries t" using hash_lookup_entries [OF inv] by blast
    then obtain m where "edata e = Obj m" using assms(1,3) by (auto simp: cache_ok_def)
    with e assms(3,4) show False by (simp add: cached_def)
  qed
  have s: "edata (hash_stored ?e) = Obj m"
    by (simp add: hash_stored_def cache_entry_def hash_item_def dup_data_def dup_key_def has_flag_def search_flags)
  have l: "hash_lookup t' k = (if k = w then Some (hash_stored ?e) else hash_lookup t k)" for k
    using hash.lookup_insert [OF inv a, of k] n i by auto
  have inv': "hash_inv t'" using hash.invar_insert [OF inv a] i by simp
  have "\<exists>m. edata e = Obj m" if "e \<in> hash_entries t'" for e
  proof -
    have "hash_lookup t' (ekey e) = Some e" using that hash_lookup_entries [OF inv'] by blast
    with l s have "edata e = Obj m \<or> hash_lookup t (ekey e) = Some e" by (auto split: if_splits)
    then show ?thesis using assms(1,3) hash_lookup_entries [OF inv] by (auto simp: cache_ok_def)
  qed
  with inv' have "cache_ok (Some t')" by (simp add: cache_ok_def)
  moreover have "cached (Some t') = (cached (mcache st))(w := Some m)"
    using l s assms(3) by (auto simp: cached_def fun_eq_iff)
  ultimately show thesis using that t' assms(3) by (simp add: cache_add_def table_add_def)
qed

section \<open>The invariant of the state\<close>

text \<open>
  The cache maps a word to the macro of that name in the store; the links of the rings stay in the
  store; identifiers among the tokens have a NUL-free text.
\<close>

definition ident_ok :: "token \<Rightarrow> bool" where
  "ident_ok t \<longleftrightarrow> (tlex t = SN_IDENTIFIER \<longrightarrow> NUL \<notin> set (ttext t))"

definition macro_ok :: "nat \<Rightarrow> smacro \<Rightarrow> bool" where
  "macro_ok n M \<longleftrightarrow> MacroNext M < n \<and> MacroPrev M < n \<and>
     list_all ident_ok (mToken M) \<and> list_all ident_ok (mTokenProcessed M)"

definition input_ok :: "pstate \<Rightarrow> bool" where
  "input_ok st \<longleftrightarrow> list_all ident_ok (TokenProcessInput st) \<and>
     (\<forall>i. TokenProcessPos st = Some i \<longrightarrow> i < length (TokenProcessInput st)) \<and>
     (\<forall>t. TokenProcessUnput st = Some t \<longrightarrow> ident_ok t)"

definition store_find :: "smacro list \<Rightarrow> string \<Rightarrow> nat option" where
  "store_find ms w =
     (let m = length (takeWhile (\<lambda>M. sStringName M \<noteq> w) ms) in if m < length ms then Some m else None)"

definition macro_inv :: "pstate \<Rightarrow> bool" where
  "macro_inv st \<longleftrightarrow> cache_ok (mcache st) \<and> cached (mcache st) = store_find (mstore st) \<and>
     list_all (macro_ok (length (mstore st))) (mstore st) \<and> input_ok st"

lemma store_find_Some:
  assumes "store_find ms w = Some m"
  shows "m < length ms" "sStringName (ms ! m) = w"
  using assms nth_length_takeWhile [of "\<lambda>M. sStringName M \<noteq> w" ms]
  by (auto simp: store_find_def Let_def split: if_splits)

lemma store_find_names:
  assumes "map sStringName ms' = map sStringName ms"
  shows "store_find ms' = store_find ms"
proof -
  have "length (takeWhile (\<lambda>M. sStringName M \<noteq> w) ms) = length (takeWhile (\<lambda>n. n \<noteq> w) (map sStringName ms))"
    for w and ms :: "smacro list" by (simp add: takeWhile_map comp_def)
  then show ?thesis using assms map_eq_imp_length_eq [OF assms]
    by (simp add: store_find_def fun_eq_iff Let_def)
qed

lemma store_find_None: "store_find ms w = None \<longleftrightarrow> (\<forall>M \<in> set ms. sStringName M \<noteq> w)"
proof -
  have "length (takeWhile P xs) < length xs \<longleftrightarrow> (\<exists>x \<in> set xs. \<not> P x)" for P and xs :: "smacro list"
    by (induction xs) auto
  then show ?thesis by (auto simp: store_find_def Let_def)
qed

lemma store_find_snoc:
  assumes "store_find ms (sStringName M) = None"
  shows "store_find (ms @ [M]) = (store_find ms)(sStringName M := Some (length ms))"
proof
  fix w
  show "store_find (ms @ [M]) w = ((store_find ms)(sStringName M := Some (length ms))) w"
  proof (cases "store_find ms w")
    case None
    then have "takeWhile (\<lambda>M. sStringName M \<noteq> w) ms = ms"
      by (simp add: store_find_None takeWhile_eq_all_conv)
    then show ?thesis using None by (simp add: store_find_def takeWhile_append)
  next
    case (Some m)
    then have "\<exists>M \<in> set ms. sStringName M = w" using store_find_None [of ms w] by auto
    then have "takeWhile (\<lambda>M. sStringName M \<noteq> w) (ms @ [M]) = takeWhile (\<lambda>M. sStringName M \<noteq> w) ms"
      by (auto simp: takeWhile_append1)
    moreover have "w \<noteq> sStringName M" using assms Some by auto
    ultimately show ?thesis using Some by (auto simp: store_find_def Let_def split: if_splits)
  qed
qed

text \<open>How a state may follow another: macros are only added.\<close>

definition grows :: "pstate \<Rightarrow> pstate \<Rightarrow> bool" where
  "grows st st' \<longleftrightarrow> (\<exists>xs. map sStringName (mstore st') = map sStringName (mstore st) @ xs)"

definition same_input :: "pstate \<Rightarrow> pstate \<Rightarrow> bool" where
  "same_input st st' \<longleftrightarrow> TokenProcessInput st' = TokenProcessInput st \<and>
     TokenProcessPos st' = TokenProcessPos st \<and> TokenProcessUnput st' = TokenProcessUnput st"

definition ptr_ok :: "nat option \<Rightarrow> pstate \<Rightarrow> bool" where
  "ptr_ok mu st \<longleftrightarrow> (\<forall>m. mu = Some m \<longrightarrow> m < length (mstore st))"

lemma grows_refl [simp]: "grows st st"
  by (simp add: grows_def)

lemma grows_trans: "grows st st' \<Longrightarrow> grows st' st'' \<Longrightarrow> grows st st''"
  by (auto simp: grows_def)

lemma grows_length:
  assumes "grows st st'"
  shows "length (mstore st) \<le> length (mstore st')"
proof -
  obtain xs where "map sStringName (mstore st') = map sStringName (mstore st) @ xs"
    using assms by (auto simp: grows_def)
  from arg_cong [OF this, of length] show ?thesis by simp
qed

lemma grows_name:
  assumes "grows st st'" "m < length (mstore st)"
  shows "m < length (mstore st')" "sStringName (mstore st' ! m) = sStringName (mstore st ! m)"
proof -
  show l: "m < length (mstore st')" using assms grows_length by (meson order_less_le_trans)
  obtain xs where x: "map sStringName (mstore st') = map sStringName (mstore st) @ xs"
    using assms(1) by (auto simp: grows_def)
  have "map sStringName (mstore st') ! m = map sStringName (mstore st) ! m"
    unfolding x using assms(2) by (simp add: nth_append)
  then show "sStringName (mstore st' ! m) = sStringName (mstore st ! m)" using l assms(2) by simp
qed

lemma ptr_grows: "ptr_ok mu st \<Longrightarrow> grows st st' \<Longrightarrow> ptr_ok mu st'"
  using grows_name(1) by (auto simp: ptr_ok_def)

lemma ptr_None [simp]: "ptr_ok None st"
  by (simp add: ptr_ok_def)

lemma ptr_Some [simp]: "ptr_ok (Some m) st \<longleftrightarrow> m < length (mstore st)"
  by (simp add: ptr_ok_def)

lemma same_input_refl [simp]: "same_input st st"
  by (simp add: same_input_def)

lemma same_input_trans: "same_input st st' \<Longrightarrow> same_input st' st'' \<Longrightarrow> same_input st st''"
  by (simp add: same_input_def)

lemma upd_macro_simps [simp]:
  "length (mstore (upd_macro m f st)) = length (mstore st)"
  "mcache (upd_macro m f st) = mcache st"
  "same_input st (upd_macro m f st)" "input_ok (upd_macro m f st) = input_ok st"
  by (simp_all add: upd_macro_def same_input_def input_ok_def)

lemma upd_macro_nth:
  "i < length (mstore st) \<Longrightarrow> mstore (upd_macro m f st) ! i = (if i = m then f (mstore st ! m) else mstore st ! i)"
  by (simp add: upd_macro_def nth_list_update)

lemma macro_inv_macro: "macro_inv st \<Longrightarrow> m < length (mstore st) \<Longrightarrow> macro_ok (length (mstore st)) (mstore st ! m)"
  by (simp add: macro_inv_def list_all_length)

lemma upd_macro_inv:
  assumes "macro_inv st" "m < length (mstore st)"
    "sStringName (f (mstore st ! m)) = sStringName (mstore st ! m)"
    "macro_ok (length (mstore st)) (f (mstore st ! m))"
  shows "macro_inv (upd_macro m f st)" "grows st (upd_macro m f st)"
proof -
  have names: "map sStringName (mstore (upd_macro m f st)) = map sStringName (mstore st)"
    using assms(3) by (intro nth_equalityI) (auto simp: upd_macro_nth)
  then show "grows st (upd_macro m f st)" by (simp add: grows_def)
  have "macro_ok (length (mstore st)) (mstore (upd_macro m f st) ! i)" if "i < length (mstore st)" for i
    using that assms macro_inv_macro by (simp add: upd_macro_nth)
  moreover have "store_find (mstore (upd_macro m f st)) = store_find (mstore st)"
    by (rule store_find_names [OF names])
  ultimately show "macro_inv (upd_macro m f st)" using assms(1)
    by (auto simp: macro_inv_def list_all_length)
qed

definition kept :: "pstate \<Rightarrow> pstate \<Rightarrow> bool" where
  "kept st st' \<longleftrightarrow> macro_inv st' \<and> grows st st' \<and> same_input st st'"

lemma kept_refl: "macro_inv st \<Longrightarrow> kept st st"
  by (simp add: kept_def)

lemma kept_trans: "kept st st' \<Longrightarrow> kept st' st'' \<Longrightarrow> kept st st''"
  using grows_trans same_input_trans by (auto simp: kept_def)

lemma keptD: "kept st st' \<Longrightarrow> macro_inv st'" "kept st st' \<Longrightarrow> grows st st'"
  by (simp_all add: kept_def)

lemma kept_upd:
  assumes "macro_inv st" "m < length (mstore st)"
    "sStringName (f (mstore st ! m)) = sStringName (mstore st ! m)"
    "macro_ok (length (mstore st)) (f (mstore st ! m))"
  shows "kept st (upd_macro m f st)"
  using upd_macro_inv [of st m f] assms by (simp add: kept_def)

lemma get_macro_inv: "m < length (mstore st) \<Longrightarrow> get_macro st m = Inr (mstore st ! m)"
  by (simp add: get_macro_def)

lemma f_MacroAppend_ok:
  assumes "macro_inv st" "ptr_ok mu st" "b < length (mstore st)"
  shows "holds (f_MacroAppend mu b st) (\<lambda>(mu', st'). kept st st' \<and> ptr_ok mu' st' \<and> mu' \<noteq> None)"
proof (cases mu)
  case None
  then show ?thesis using assms by (simp add: f_MacroAppend_def kept_refl)
next
  case (Some a)
  then have a: "a < length (mstore st)" using assms(2) by simp
  define e1 e2 where e: "e1 = MacroPrev (mstore st ! a)" "e2 = MacroPrev (mstore st ! b)"
  define s1 where "s1 = upd_macro a (\<lambda>M. M\<lparr>MacroPrev := e2\<rparr>) st"
  define s2 where "s2 = upd_macro b (\<lambda>M. M\<lparr>MacroPrev := e1\<rparr>) s1"
  define s3 where "s3 = upd_macro e1 (\<lambda>M. M\<lparr>MacroNext := b\<rparr>) s2"
  define s4 where "s4 = upd_macro e2 (\<lambda>M. M\<lparr>MacroNext := a\<rparr>) s3"
  note m = macro_inv_macro [unfolded macro_ok_def]
  have l: "length (mstore s1) = length (mstore st)" "length (mstore s2) = length (mstore st)"
    "length (mstore s3) = length (mstore st)" "length (mstore s4) = length (mstore st)"
    by (simp_all add: s1_def s2_def s3_def s4_def)
  have e': "e1 < length (mstore st)" "e2 < length (mstore st)"
    using m [OF assms(1)] a assms(3) by (simp_all add: e)
  have k1: "kept st s1" unfolding s1_def
    using m [OF assms(1) a] e' by (intro kept_upd assms a) (simp_all add: macro_ok_def)
  have k2: "kept s1 s2" unfolding s2_def
    using m [OF keptD(1) [OF k1], of b] e' assms(3) l by (intro kept_upd keptD(1) [OF k1]) (simp_all add: macro_ok_def)
  have k3: "kept s2 s3" unfolding s3_def
    using m [OF keptD(1) [OF k2], of e1] e' assms(3) l by (intro kept_upd keptD(1) [OF k2]) (simp_all add: macro_ok_def)
  have k4: "kept s3 s4" unfolding s4_def
    using m [OF keptD(1) [OF k3], of e2] e' a l by (intro kept_upd keptD(1) [OF k3]) (simp_all add: macro_ok_def)
  have "f_MacroAppend mu b st = Inr (mu, s4)"
    using Some a assms(3) e' l by (simp add: f_MacroAppend_def get_macro_inv Let_def flip: e s1_def s2_def s3_def s4_def)
  then show ?thesis using kept_trans [OF kept_trans [OF kept_trans [OF k1 k2] k3] k4] Some a l by simp
qed

lemma while_macro_ok:
  assumes "\<And>m M n. macro_ok n M \<Longrightarrow> m < n \<Longrightarrow> macro_ok n (body m M) \<and> sStringName (body m M) = sStringName M"
    "macro_inv st" "m < length (mstore st)"
  shows "holds (while_macro k body e m st) (kept st)"
  using assms(2,3)
proof (induction k arbitrary: m st)
  case (Suc k)
  let ?st = "upd_macro m (body m) st"
  have ok: "macro_ok (length (mstore st)) (mstore st ! m)" by (rule macro_inv_macro [OF Suc.prems])
  have k: "kept st ?st" using assms(1) [OF ok Suc.prems(2)] by (intro kept_upd Suc.prems) simp_all
  have "MacroNext (body m (mstore st ! m)) < length (mstore st)"
    using assms(1) [OF ok Suc.prems(2)] by (simp add: macro_ok_def)
  then have "holds (while_macro k body e (MacroNext (body m (mstore st ! m))) ?st) (kept ?st)"
    by (intro Suc.IH keptD(1) [OF k]) simp
  then have "holds (while_macro k body e (MacroNext (body m (mstore st ! m))) ?st) (kept st)"
    by (rule holds_mono) (rule kept_trans [OF k])
  then show ?case using k by (simp add: get_macro_inv Suc.prems(2) Let_def)
qed simp

section \<open>The invariant is kept\<close>

definition adv :: "pstate \<Rightarrow> pstate \<Rightarrow> bool" where
  "adv st st' \<longleftrightarrow> macro_inv st' \<and> grows st st'"

lemma adv_refl: "macro_inv st \<Longrightarrow> adv st st"
  by (simp add: adv_def)

lemma adv_trans: "adv st st' \<Longrightarrow> adv st' st'' \<Longrightarrow> adv st st''"
  using grows_trans by (auto simp: adv_def)

lemma kept_adv: "kept st st' \<Longrightarrow> adv st st'"
  by (simp add: kept_def adv_def)

lemma advD: "adv st st' \<Longrightarrow> macro_inv st'" "adv st st' \<Longrightarrow> ptr_ok mu st \<Longrightarrow> ptr_ok mu st'"
  using ptr_grows by (auto simp: adv_def)

lemma keptD_ptr: "kept st st' \<Longrightarrow> ptr_ok mu st \<Longrightarrow> ptr_ok mu st'"
  using ptr_grows by (auto simp: kept_def)

lemma ident_ok_duplicate [simp]: "ident_ok (f_TokenDuplicate t) = ident_ok t"
  by (simp add: ident_ok_def f_TokenDuplicate_def)

lemma macro_inv_input:
  assumes "macro_inv st" "input_ok st'" "mstore st' = mstore st" "mcache st' = mcache st"
  shows "adv st st'"
  using assms by (simp add: adv_def macro_inv_def grows_def)

lemma f_ProcessTokenInput_ok:
  assumes "macro_inv st"
  shows "holds (f_ProcessTokenInput st) (\<lambda>(r, st'). adv st st' \<and> (\<forall>t. r = Some t \<longrightarrow> ident_ok t))"
proof (cases "TokenProcessUnput st")
  case (Some t)
  have i: "input_ok st" using assms by (simp add: macro_inv_def)
  then have "input_ok (st\<lparr>TokenProcessUnput := None\<rparr>)" "ident_ok t" using Some by (auto simp: input_ok_def)
  then show ?thesis using Some macro_inv_input [OF assms] by (simp add: f_ProcessTokenInput_def)
next
  case None
  have i: "input_ok st" using assms by (simp add: macro_inv_def)
  show ?thesis
  proof (cases "TokenProcessPos st")
    case n: None
    show ?thesis
    proof (cases "TokenProcessInput st")
      case (Cons t ts)
      then have "input_ok (st\<lparr>TokenProcessPos := Some 0\<rparr>)" "ident_ok t" using i by (auto simp: input_ok_def)
      then show ?thesis using None n Cons macro_inv_input [OF assms]
        by (simp add: f_ProcessTokenInput_def)
    qed (use None n in \<open>simp add: f_ProcessTokenInput_def\<close>)
  next
    case (Some j)
    show ?thesis
    proof (cases "j + 1 = length (TokenProcessInput st)")
      case False
      then have l: "j + 1 < length (TokenProcessInput st)" using i Some by (fastforce simp: input_ok_def)
      then have "input_ok (st\<lparr>TokenProcessPos := Some (j + 1)\<rparr>)" "ident_ok (TokenProcessInput st ! (j + 1))"
        using i by (auto simp: input_ok_def list_all_length)
      then show ?thesis using None Some l macro_inv_input [OF assms]
        by (simp add: f_ProcessTokenInput_def)
    qed (use None Some assms in \<open>simp add: f_ProcessTokenInput_def adv_refl\<close>)
  qed
qed

lemma f_ProcessTokenUnput_ok:
  assumes "macro_inv st" "\<forall>t. r = Some t \<longrightarrow> ident_ok t"
  shows "holds (f_ProcessTokenUnput r st) (adv st)"
proof -
  have "input_ok (st\<lparr>TokenProcessUnput := r\<rparr>)"
    using assms by (auto simp: macro_inv_def input_ok_def)
  then show ?thesis using macro_inv_input [OF assms(1)] by (simp add: f_ProcessTokenUnput_def)
qed

lemma f_MacroMerge_ok:
  assumes "macro_ok n M" "\<forall>ps. param = Some ps \<longrightarrow> list_all (list_all ident_ok) ps"
  shows "list_all ident_ok (f_MacroMerge M t param b)"
proof -
  have "list_all ident_ok (merge_token t param u)" if "ident_ok u" for u
  proof (cases "iParameter u \<ge> 0 \<and> param \<noteq> None")
    case True
    then obtain ps where p: "param = Some ps" by auto
    have "list_all ident_ok (f_ParameterPosition ps k)" for k
      using assms(2) p by (auto simp: f_ParameterPosition_def list_all_length)
    then show ?thesis using True p by (simp add: merge_token_def list_all_iff)
  next
    case False
    then show ?thesis using that by (auto simp: merge_token_def ident_ok_def split: option.split bool.split)
  qed
  moreover have "\<forall>u \<in> set (if b then mTokenProcessed M else mToken M). ident_ok u"
    using assms(1) by (auto simp: macro_ok_def list_all_iff)
  ultimately show ?thesis unfolding f_MacroMerge_def list_all_iff by fastforce
qed

text \<open>Rules to go through the model of a function from its first statement on, with \<open>s0\<close> the
  state it started in.\<close>

named_theorems walk "rules for the statements of a function"

lemma walk_bind [walk]: "holds m (\<lambda>x. holds (f x) Q) \<Longrightarrow> holds (sbind m f) Q"
  by (cases m) auto

lemma walk_if [walk]: "(b \<Longrightarrow> holds x Q) \<Longrightarrow> (\<not> b \<Longrightarrow> holds y Q) \<Longrightarrow> holds (if b then x else y) Q"
  by simp

lemma walk_Inr [walk]: "Q x \<Longrightarrow> holds (Inr x) Q"
  by simp

lemma walk_Inl [walk]: "holds (Inl e) Q"
  by simp

lemma walk_option [walk]:
  "(r = None \<Longrightarrow> holds x Q) \<Longrightarrow> (\<And>a. r = Some a \<Longrightarrow> holds (f a) Q) \<Longrightarrow>
     holds (case r of None \<Rightarrow> x | Some a \<Rightarrow> f a) Q"
  by (cases r) auto

lemma walk_prod [walk]: "(\<And>a b. p = (a, b) \<Longrightarrow> holds (f a b) Q) \<Longrightarrow> holds (case p of (a, b) \<Rightarrow> f a b) Q"
  by (cases p) auto

lemma walk_sum [walk]:
  "(\<And>a. r = Inl a \<Longrightarrow> holds (f a) Q) \<Longrightarrow> (\<And>a. r = Inr a \<Longrightarrow> holds (g a) Q) \<Longrightarrow>
     holds (case r of Inl a \<Rightarrow> f a | Inr a \<Rightarrow> g a) Q"
  by (cases r) auto

lemma walk_prod2 [walk]: "(\<And>a b. p = (a, b) \<Longrightarrow> holds (f a b c) Q) \<Longrightarrow> holds ((case p of (a, b) \<Rightarrow> f a b) c) Q"
  by (cases p) auto

lemma walk_get_macro:
  "adv s0 s \<Longrightarrow> m < length (mstore s) \<Longrightarrow>
     (macro_ok (length (mstore s)) (mstore s ! m) \<Longrightarrow> Q (mstore s ! m)) \<Longrightarrow> holds (get_macro s m) Q"
  using macro_inv_macro advD(1) by (auto simp: get_macro_def)

lemma walk_adv:
  assumes "macro_inv s \<Longrightarrow> holds r P" "adv s0 s" "\<And>x. P x \<Longrightarrow> adv s (h x)"
    "\<And>x. P x \<Longrightarrow> adv s0 (h x) \<Longrightarrow> length (mstore s) \<le> length (mstore (h x)) \<Longrightarrow> Q x"
  shows "holds r Q"
proof (rule holds_mono [OF assms(1)])
  show "macro_inv s" by (rule advD(1) [OF assms(2)])
  fix x
  assume "P x"
  note a = assms(3) [OF this]
  from a have "grows s (h x)" by (simp add: adv_def)
  from assms(4) [OF \<open>P x\<close> adv_trans [OF assms(2) a] grows_length [OF this]] show "Q x" .
qed

lemma walk_input:
  assumes "adv s0 s"
    "\<And>r s'. adv s0 s' \<Longrightarrow> length (mstore s) \<le> length (mstore s') \<Longrightarrow>
       (\<And>t. r = Some t \<Longrightarrow> ident_ok t) \<Longrightarrow> Q (r, s')"
  shows "holds (f_ProcessTokenInput s) Q"
  by (rule walk_adv [OF f_ProcessTokenInput_ok assms(1), where h = snd]) (auto intro: assms(2))

lemma walk_unput:
  assumes "adv s0 s" "\<And>t. r = Some t \<Longrightarrow> ident_ok t"
    "\<And>s'. adv s0 s' \<Longrightarrow> length (mstore s) \<le> length (mstore s') \<Longrightarrow> Q s'"
  shows "holds (f_ProcessTokenUnput r s) Q"
  by (rule walk_adv [OF f_ProcessTokenUnput_ok assms(1), where h = id]) (auto intro: assms(2,3))

lemma walk_append:
  assumes "adv s0 s" "ptr_ok mu s" "b < length (mstore s)"
    "\<And>mu' s'. adv s0 s' \<Longrightarrow> length (mstore s) \<le> length (mstore s') \<Longrightarrow> ptr_ok mu' s' \<Longrightarrow>
       mu' \<noteq> None \<Longrightarrow> same_input s s' \<Longrightarrow> Q (mu', s')"
  shows "holds (f_MacroAppend mu b s) Q"
  by (rule walk_adv [OF f_MacroAppend_ok assms(1), where h = snd])
    (auto intro: assms kept_adv simp: kept_def)

section \<open>Expanding the tokens of a body\<close>

definition find_ok :: "find_fun \<Rightarrow> bool" where
  "find_ok mfind \<longleftrightarrow>
     (\<forall>st w. macro_inv st \<longrightarrow> NUL \<notin> set w \<longrightarrow>
        holds (mfind st w) (\<lambda>(r, st'). kept st st' \<and>
          (\<forall>m. r = Some m \<longrightarrow> store_find (mstore st') w = Some m)))"

lemma walk_find:
  assumes "find_ok mfind" "adv s0 s" "NUL \<notin> set w"
    "\<And>r s'. adv s0 s' \<Longrightarrow> length (mstore s) \<le> length (mstore s') \<Longrightarrow>
       (\<And>m. r = Some m \<Longrightarrow> m < length (mstore s')) \<Longrightarrow> Q (r, s')"
  shows "holds (mfind s w) Q"
proof -
  have f: "macro_inv s \<Longrightarrow> holds (mfind s w) (\<lambda>(r, st'). kept s st' \<and>
          (\<forall>m. r = Some m \<longrightarrow> store_find (mstore st') w = Some m))"
    using assms(1,3) by (simp add: find_ok_def)
  show ?thesis
    by (rule walk_adv [OF f assms(2), where h = snd]) (auto intro!: assms(4) intro: kept_adv store_find_Some)
qed

definition tokens_ok :: "pstate \<Rightarrow> token list \<times> nat option \<times> pstate \<Rightarrow> bool" where
  "tokens_ok st = (\<lambda>(ts, mu, st'). adv st st' \<and> ptr_ok mu st' \<and> list_all ident_ok ts)"

lemma ptr_length: "ptr_ok mu st \<Longrightarrow> length (mstore st) \<le> length (mstore st') \<Longrightarrow> ptr_ok mu st'"
  by (auto simp: ptr_ok_def)

lemma ident_ok_text: "ident_ok t \<Longrightarrow> tlex t = SN_IDENTIFIER \<Longrightarrow> NUL \<notin> set (ttext t)"
  by (simp add: ident_ok_def)

lemma merge_ident_ok:
  "macro_ok n M \<Longrightarrow> list_all ident_ok (f_MacroMerge M t None b)"
  "macro_ok n M \<Longrightarrow> list_all (list_all ident_ok) ps \<Longrightarrow> list_all ident_ok (f_MacroMerge M t (Some ps) b)"
  using f_MacroMerge_ok by simp_all

lemma macro_input_ok:
  assumes "find_ok mfind"
  shows "adv s0 s \<Longrightarrow> ptr_ok mu s \<Longrightarrow>
      holds (f_ProcessTokenMacroInput mfind n s mu) (\<lambda>((ts, b), mu', s'). tokens_ok s0 (ts, mu', s') \<and>
        length (mstore s) \<le> length (mstore s'))"
    and "adv s0 s \<Longrightarrow> ptr_ok mu s \<Longrightarrow> list_all (list_all ident_ok) param \<Longrightarrow>
      holds (f_ProcessParamCreate mfind n s mu param) (\<lambda>(ps, mu', s').
        adv s0 s' \<and> ptr_ok mu' s' \<and> list_all (list_all ident_ok) ps \<and> length (mstore s) \<le> length (mstore s'))"
    and "adv s0 s \<Longrightarrow> ptr_ok mu s \<Longrightarrow> list_all ident_ok ret \<Longrightarrow>
      holds (f_ProcessParamToken mfind n s mu p ret) (\<lambda>((ts, b), mu', s'). tokens_ok s0 (ts, mu', s') \<and>
        length (mstore s) \<le> length (mstore s'))"
proof (induction n arbitrary: s mu param p ret)
  case (Suc n)
  note w = walk walk_find [OF assms, where ?s0.0 = s0] walk_get_macro [where ?s0.0 = s0]
    walk_input [where ?s0.0 = s0] walk_unput [where ?s0.0 = s0] walk_append [where ?s0.0 = s0]
  {
    case 1
    note w = w holds_mono [OF Suc.IH(2)]
    from 1 show ?case unfolding f_ProcessTokenMacroInput.simps
      by (intro w) (auto simp: tokens_ok_def merge_ident_ok ident_ok_text intro: ptr_length)
  next
    case 2
    note w = w holds_mono [OF Suc.IH(2)] holds_mono [OF Suc.IH(3)]
    from 2 show ?case unfolding f_ProcessParamCreate.simps
      by (intro w) (auto simp: tokens_ok_def merge_ident_ok ident_ok_text intro: ptr_length)
  next
    case 3
    note w = w holds_mono [OF Suc.IH(1)] holds_mono [OF Suc.IH(3)]
    from 3 show ?case unfolding f_ProcessParamToken.simps Let_def
      by (intro w) (auto simp: tokens_ok_def merge_ident_ok ident_ok_text intro: ptr_length)
  }
qed simp_all

lemma process_loop_ok:
  assumes "find_ok mfind"
  shows "adv s0 s \<Longrightarrow> ptr_ok mu s \<Longrightarrow> list_all ident_ok out \<Longrightarrow>
    holds (process_loop mfind n s mu out) (\<lambda>(ts, mu', s'). tokens_ok s0 (ts, mu', s') \<and>
      length (mstore s) \<le> length (mstore s'))"
proof (induction n arbitrary: s mu out)
  case (Suc n)
  note w = walk holds_mono [OF macro_input_ok(1) [OF assms]] holds_mono [OF Suc.IH]
  from Suc.prems show ?case unfolding process_loop.simps
    by (intro w) (auto simp: tokens_ok_def)
qed simp

text \<open>The tokens of the caller are put back at the end.\<close>

lemma Macro_Process_ok:
  assumes "find_ok mfind" "macro_inv s" "list_all ident_ok ts"
  shows "holds (Macro_Process mfind n s None ts) (\<lambda>(ts', mu, s'). kept s s' \<and> ptr_ok mu s' \<and>
    list_all ident_ok ts')"
proof -
  let ?s = "s\<lparr>TokenProcessInput := ts, TokenProcessPos := None, TokenProcessUnput := None\<rparr>"
  have "input_ok ?s" using assms(3) by (simp add: input_ok_def)
  then have a: "adv s ?s" by (intro macro_inv_input [OF assms(2)]) simp_all
  have i: "input_ok s" using assms(2) by (simp add: macro_inv_def)
  have restored: "kept s (s'\<lparr>TokenProcessInput := TokenProcessInput s, TokenProcessPos := TokenProcessPos s,
      TokenProcessUnput := TokenProcessUnput s\<rparr>)" if "adv s s'" for s'
    using that i by (simp add: kept_def adv_def macro_inv_def grows_def same_input_def input_ok_def)
  show ?thesis unfolding Macro_Process_def
    using a by (intro walk holds_mono [OF process_loop_ok [OF assms(1), where ?s0.0 = s]])
      (auto simp: tokens_ok_def ptr_ok_def intro: restored)
qed

lemma kept_length: "kept s s' \<Longrightarrow> m < length (mstore s) \<Longrightarrow> m < length (mstore s')"
  using grows_name(1) by (auto simp: kept_def)

lemma process_rounds_ok:
  assumes "find_ok mfind"
  shows "macro_inv s \<Longrightarrow> ptr_ok mt s \<Longrightarrow> list_all ident_ok ts \<Longrightarrow>
    holds (process_rounds mfind n s mt ts) (\<lambda>(ts', mt', s'). kept s s' \<and> ptr_ok mt' s' \<and> list_all ident_ok ts')"
proof (induction n arbitrary: s mt ts)
  case (Suc n)
  have tilt: "macro_ok n M \<Longrightarrow> macro_ok n (set_tilt m M) \<and> sStringName (set_tilt m M) = sStringName M" for n m M
    by (simp add: macro_ok_def set_tilt_def)
  note w = walk holds_mono [OF Macro_Process_ok [OF assms]] holds_mono [OF while_macro_ok]
    holds_mono [OF f_MacroAppend_ok] holds_mono [OF Suc.IH]
  from Suc.prems show ?case unfolding process_rounds.simps
    by (intro w) (auto simp: tilt dest: keptD(1) keptD_ptr intro: kept_trans kept_length)
qed simp

lemma f_MacroProcess_ok:
  assumes "find_ok mfind" "macro_inv s" "m < length (mstore s)"
  shows "holds (f_MacroProcess mfind n s m) (kept s)"
proof -
  have reset: "macro_ok n M \<Longrightarrow> m < n \<Longrightarrow> macro_ok n (reset_tilt m M) \<and> sStringName (reset_tilt m M) = sStringName M"
    for n m M by (simp add: macro_ok_def reset_tilt_def)
  have stored: "kept s (upd_macro m (\<lambda>M. M\<lparr>mTokenProcessed := ts\<rparr>) s')"
    if "kept s s'" "list_all ident_ok ts" for s' ts
    using macro_inv_macro [OF keptD(1) [OF that(1)] kept_length [OF that(1) assms(3)]] that(2)
    by (intro kept_trans [OF that(1)] kept_upd keptD(1) [OF that(1)] kept_length [OF that(1) assms(3)])
      (simp_all add: macro_ok_def)
  have "macro_ok (length (mstore s)) (mstore s ! m)" by (rule macro_inv_macro [OF assms(2,3)])
  then have t: "list_all ident_ok (mToken (mstore s ! m))" by (simp add: macro_ok_def)
  note w = walk holds_mono [OF process_rounds_ok [OF assms(1)]]
    holds_mono [OF while_macro_ok [where body = reset_tilt]]
  show ?thesis unfolding f_MacroProcess_def get_macro_inv [OF assms(3)] sbind_simps Let_def
    using assms t reset
    by (intro w) (auto intro: stored keptD(1) [OF stored] kept_refl kept_trans [OF stored] dest: keptD(1))
qed

section \<open>New macros\<close>

lemma ident_token_ok: "ident_ok (fst (ident_token s))"
proof -
  have "between s (dropWhile ident_char s) = takeWhile ident_char s" for s
    using between_append [of "takeWhile ident_char s" "dropWhile ident_char s"] by simp
  moreover have "NUL \<notin> set (takeWhile ident_char s)" for s
    by (auto dest!: set_takeWhileD simp: ident_char_def c_isalnum_def bytes byte_def)
  ultimately show ?thesis by (simp add: ident_token_def ident_ok_def Let_def del: dropWhile.simps)
qed

lemma number_not_ident: "lex_number s = (l, r) \<Longrightarrow> l \<noteq> SN_IDENTIFIER"
  by (auto simp: lex_number_def hex_suffix_def lex_decimal_def number_suffix_def Let_def split: if_splits)

lemma operator_not_ident: "lex_operator c s = Some (l, r) \<Longrightarrow> l \<noteq> SN_IDENTIFIER"
  by (auto simp: lex_operator_def operator_defs lex_dot_def Let_def split: if_splits)

lemma less_not_ident: "lex_less s = (l, r) \<Longrightarrow> l \<noteq> SN_IDENTIFIER"
  by (auto simp: lex_less_def split: if_splits)

lemma slash_not_ident: "lex_slash s = Inl (l, r) \<Longrightarrow> l \<noteq> SN_IDENTIFIER"
  by (auto simp: lex_slash_def split: if_splits)

lemma literal_not_ident:
  "l \<noteq> SN_IDENTIFIER \<Longrightarrow> holds (literal_token l q s) (\<lambda>(t, y). ident_ok t)"
  by (auto simp: literal_token_def macro_token_def mk_token_def ident_ok_def holds_def split: option.splits)

lemma lex_loop_ident_ok: "holds (lex_loop s) (\<lambda>(t, y). ident_ok t)"
proof (induction s rule: lex_loop.induct)
  case (2 c s)
  have tok: "l \<noteq> SN_IDENTIFIER \<Longrightarrow> case macro_token l u v of (t, y) \<Rightarrow> ident_ok t" for l u v
    by (simp add: macro_token_def mk_token_def ident_ok_def)
  have id: "case ident_token (c # s) of (t, y) \<Rightarrow> ident_ok t"
    using ident_token_ok [of "c # s"] by (simp add: case_prod_beta)
  show ?case unfolding lex_loop.simps(2) Let_def
    by (intro walk literal_not_ident tok id)
      (simp_all add: number_not_ident less_not_ident slash_not_ident operator_not_ident "2.IH")
qed (auto simp: ident_ok_def mk_token_def)

lemma input_ident_ok: "holds (my_TokenInput y) (\<lambda>(t, y). ident_ok t)"
  by (cases y) (simp_all add: my_TokenInput_def lex_loop_ident_ok)

lemma mark_loop_same: "tlex (mark_loop i ps t) = tlex t \<and> ttext (mark_loop i ps t) = ttext t"
  by (induction i ps t rule: mark_loop.induct) auto

lemma body_loop_ident_ok: "holds (body_loop n ps y) (list_all ident_ok)"
proof (induction n arbitrary: y)
  case (Suc n)
  have "ident_ok t \<Longrightarrow> ident_ok ((if b then mark_loop i ps else id) (t\<lparr>iParameter := k\<rparr>))" for t i b k
    by (simp add: ident_ok_def mark_loop_same)
  then show ?case unfolding body_loop.simps Let_def
    by (intro walk holds_mono [OF input_ident_ok] holds_mono [OF Suc.IH]) (auto simp: ident_ok_def mark_loop_same)
qed simp

lemma f_MacroProcess1_ok:
  "macro_ok n M \<Longrightarrow> holds (f_MacroProcess1 M) (\<lambda>r. \<forall>M'. r = Some M' \<longrightarrow> macro_ok n M' \<and> sStringName M' = sStringName M)"
proof -
  assume M: "macro_ok n M"
  have b: "holds (f_MacroProcess2 M ps) (\<lambda>M'. macro_ok n M' \<and> sStringName M' = sStringName M)" for ps
    unfolding f_MacroProcess2_def using M
    by (intro walk holds_mono [OF body_loop_ident_ok]) (auto simp: macro_ok_def)
  have p: "holds (params_loop n ps y) (\<lambda>_. True)" for n ps y by (simp add: holds_def)
  then show ?thesis unfolding f_MacroProcess1_def
    by (intro walk holds_mono [OF b] holds_mono [OF p]) auto
qed

text \<open>A macro that is put into the store under a new name, and into the cache.\<close>

definition with_macro :: "smacro \<Rightarrow> pstate \<Rightarrow> pstate" where
  "with_macro M st = st\<lparr>mstore := mstore st @ [M]\<rparr>"

lemma with_macro_simps [simp]:
  "mstore (with_macro M st) = mstore st @ [M]" "mcache (with_macro M st) = mcache st"
  "iMacroCount (with_macro M st) = iMacroCount st"
  by (simp_all add: with_macro_def)

lemma upd_with_macro [simp]: "upd_macro (length (mstore st)) f (with_macro M st) = with_macro (f M) st"
  by (simp add: upd_macro_def with_macro_def)

lemma get_with_macro [simp]: "get_macro (with_macro M st) (length (mstore st)) = Inr M"
  by (simp add: get_macro_def with_macro_def)

definition fresh_macro :: "nat \<Rightarrow> string \<Rightarrow> smacro" where
  "fresh_macro m w = \<lparr>cparameter_list = None, cmacro = None, ctyp = CPP_NONE, cpaf_typ = None,
     tilt = False, sStringName = w, mToken = [], mTokenProcessed = [], MacroNext = m, MacroPrev = m\<rparr>"

lemma f_MacroCreate_with:
  "f_MacroCreate st w = (with_macro (fresh_macro (length (mstore st)) w) st, length (mstore st))"
  by (simp add: f_MacroCreate_def with_macro_def fresh_macro_def Let_def)

lemma cache_add_kept:
  assumes "macro_inv s" "mcache s \<noteq> None" "store_find (mstore s) w = None" "NUL \<notin> set w"
    "macro_ok (Suc (length (mstore s))) M" "sStringName M = w"
  obtains t where "cache_add (with_macro M s) w (length (mstore s)) =
      Inr (with_macro M s\<lparr>mcache := Some t, iMacroCount := iMacroCount s + 1\<rparr>)"
    "kept s (with_macro M s\<lparr>mcache := Some t, iMacroCount := iMacroCount s + 1\<rparr>)"
proof -
  let ?s = "with_macro M s"
  obtain t where t: "mcache ?s = Some t" using assms(2) by auto
  have c: "cache_ok (mcache ?s)" "cached (mcache ?s) = store_find (mstore s)"
    using assms(1) by (simp_all add: macro_inv_def)
  have "cached (mcache ?s) w = None" using c(2) assms(3) by simp
  from cache_add_ok [OF c(1) assms(4) t this, of "length (mstore s)"] obtain t' where
    t': "cache_add ?s w (length (mstore s)) = Inr (?s\<lparr>mcache := Some t', iMacroCount := iMacroCount s + 1\<rparr>)"
    "cache_ok (Some t')" "cached (Some t') = (store_find (mstore s))(w := Some (length (mstore s)))"
    using c(2) by (auto simp: with_macro_simps)
  have "macro_ok n M \<Longrightarrow> macro_ok (Suc n) M" for n M by (auto simp: macro_ok_def)
  then have "kept s (?s\<lparr>mcache := Some t', iMacroCount := iMacroCount s + 1\<rparr>)"
    using assms t'(2,3) store_find_snoc [of "mstore s" M]
    by (auto simp: kept_def macro_inv_def grows_def same_input_def input_ok_def with_macro_def list_all_iff)
  with t'(1) that show thesis by blast
qed

lemma undef_macro_ok:
  assumes "macro_inv s" "mcache s \<noteq> None" "store_find (mstore s) w = None" "NUL \<notin> set w"
  shows "holds (undef_macro s w) (\<lambda>(r, s'). kept s s' \<and> r = store_find (mstore s') w)"
proof -
  define M where "M = (fresh_macro (length (mstore s)) w)\<lparr>cpaf_typ := Some PAF_WORD_UNDEF, ctyp := CPP_UNDEF\<rparr>"
  have "macro_ok (Suc (length (mstore s))) M" "sStringName M = w" by (simp_all add: M_def fresh_macro_def macro_ok_def)
  from cache_add_kept [OF assms this] obtain t where
    "cache_add (with_macro M s) w (length (mstore s)) =
      Inr (with_macro M s\<lparr>mcache := Some t, iMacroCount := iMacroCount s + 1\<rparr>)"
    "kept s (with_macro M s\<lparr>mcache := Some t, iMacroCount := iMacroCount s + 1\<rparr>)" .
  then show ?thesis using \<open>sStringName M = w\<close> assms(3) store_find_snoc [of "mstore s" M]
    by (simp add: undef_macro_def f_MacroCreate_with flip: M_def)
qed

lemma new_macro_ok:
  assumes "macro_inv s" "mcache s \<noteq> None" "store_find (mstore s) w = None" "NUL \<notin> set w"
  shows "holds (new_macro s w retval ps body) (\<lambda>(r, s'). kept s s' \<and> r = store_find (mstore s') w)"
proof -
  define M where "M = (fresh_macro (length (mstore s)) w)\<lparr>cparameter_list := ps, cmacro := body,
      cpaf_typ := Some retval, ctyp := (if ps = None then CPP_DEFINE else CPP_MACRO)\<rparr>"
  have M: "macro_ok (Suc (length (mstore s))) M" "sStringName M = w" by (simp_all add: M_def fresh_macro_def macro_ok_def)
  have u: "new_macro s w retval ps body = sbind (f_MacroProcess1 M) (\<lambda>r.
      case r of None \<Rightarrow> Inr (None, s) | Some M \<Rightarrow>
        sbind (cache_add (with_macro M s) w (length (mstore s))) (\<lambda>st. Inr (Some (length (mstore s)), st)))"
    unfolding new_macro_def f_MacroCreate_with Let_def prod.case upd_with_macro get_with_macro sbind_simps M_def ..
  have "holds (cache_add (with_macro M' s) w (length (mstore s)))
      (\<lambda>s'. kept s s' \<and> Some (length (mstore s)) = store_find (mstore s') w)"
    if M': "macro_ok (Suc (length (mstore s))) M'" "sStringName M' = w" for M'
    using cache_add_kept [OF assms M'] store_find_snoc [of "mstore s" M'] assms(3) M'(2) by fastforce
  then show ?thesis unfolding u using M(2) assms(3) kept_refl [OF assms(1)]
    by (intro walk holds_mono [OF f_MacroProcess1_ok [OF M(1)]]) (auto elim!: holds_mono intro!: walk)
qed

section \<open>Finding a macro\<close>

lemma store_find_kept: "kept s s' \<Longrightarrow> store_find (mstore s) w = Some m \<Longrightarrow> store_find (mstore s') w = Some m"
proof -
  assume k: "kept s s'" and f: "store_find (mstore s) w = Some m"
  obtain xs where xs: "map sStringName (mstore s') = map sStringName (mstore s) @ xs"
    using k by (auto simp: kept_def grows_def)
  have t: "takeWhile (\<lambda>M. sStringName M \<noteq> w) ms = take (length (takeWhile (\<lambda>n. n \<noteq> w) (map sStringName ms))) ms"
    for ms :: "smacro list"
    by (induction ms) auto
  have l: "length (takeWhile (\<lambda>M. sStringName M \<noteq> w) ms) = length (takeWhile (\<lambda>n. n \<noteq> w) (map sStringName ms))"
    for ms :: "smacro list" by (simp add: takeWhile_map comp_def)
  have "w \<in> set (map sStringName (mstore s))" using store_find_Some [OF f] by force
  then have "takeWhile (\<lambda>n. n \<noteq> w) (map sStringName (mstore s) @ xs) = takeWhile (\<lambda>n. n \<noteq> w) (map sStringName (mstore s))"
    by (auto simp: takeWhile_append1)
  then show ?thesis using f xs kept_length [OF k] store_find_Some(1) [OF f]
    by (simp add: store_find_def Let_def l split: if_splits)
qed

lemma f_MacroFind_ok: "find_ok (f_MacroFind paf n)"
proof (induction n)
  case (Suc n)
  show ?case unfolding find_ok_def
  proof (intro allI impI)
    fix st w
    assume st: "macro_inv st" and w: "NUL \<notin> set w"
    have c: "cache_ok (mcache st)" "cached (mcache st) = store_find (mstore st)" using st by (simp_all add: macro_inv_def)
    from cache_find_ok [OF c(1) w] obtain t where t:
      "cache_find st w = Inr (store_find (mstore st) w, st\<lparr>mcache := Some t\<rparr>)" "cache_ok (Some t)"
      "cached (Some t) = store_find (mstore st)" unfolding c(2) .
    let ?st = "st\<lparr>mcache := Some t\<rparr>"
    have k: "kept st ?st" using st t(2,3)
      by (simp add: kept_def macro_inv_def grows_def same_input_def input_ok_def)
    show "holds (f_MacroFind paf (Suc n) st w) (\<lambda>(r, st'). kept st st' \<and>
          (\<forall>m. r = Some m \<longrightarrow> store_find (mstore st') w = Some m))"
    proof (cases paf)
      case (Some p)
      have p: "holds (p w (int (length w))) (\<lambda>_. True)" by (simp add: holds_def)
      show ?thesis unfolding f_MacroFind.simps Some option.case t(1) sbind_simps
        using k t st w
        by (intro walk holds_mono [OF p] holds_mono [OF new_macro_ok] holds_mono [OF undef_macro_ok]
            holds_mono [OF f_MacroProcess_ok [OF Suc.IH [unfolded Some]]])
          (auto intro: kept_trans [OF k] kept_trans [OF k kept_trans] store_find_kept store_find_Some(1) keptD(1) sym)
    qed (simp add: st kept_refl)
  qed
qed (simp add: find_ok_def)

end
