(* ===== verification/Process_Spec.thy ===== *)
theory Process_Spec
  imports Process_Props
begin

text \<open>
  What finding a macro promises: that each macro is read and processed once, when its name is met
  for the first time.  The specification has no cache and looks the name up in the store; the
  model of the code computes the same.
\<close>

section \<open>The specification\<close>

definition spec_new ::
    "pstate \<Rightarrow> string \<Rightarrow> paf \<Rightarrow> string option \<Rightarrow> string option \<Rightarrow> ub + nat option \<times> pstate" where
  "spec_new st w retval params body =
     sbind (f_MacroProcess1 ((fresh_macro (length (mstore st)) w)
         \<lparr>cparameter_list := params, cmacro := body, cpaf_typ := Some retval,
          ctyp := (if params = None then CPP_DEFINE else CPP_MACRO)\<rparr>)) (\<lambda>r.
     case r of
       None \<Rightarrow> Inr (None, st)
     | Some M \<Rightarrow>
         Inr (Some (length (mstore st)), with_macro M st\<lparr>iMacroCount := iMacroCount st + 1\<rparr>))"

definition spec_undef :: "pstate \<Rightarrow> string \<Rightarrow> ub + nat option \<times> pstate" where
  "spec_undef st w =
     (let M = (fresh_macro (length (mstore st)) w)\<lparr>cpaf_typ := Some PAF_WORD_UNDEF, ctyp := CPP_UNDEF\<rparr> in
      Inr (Some (length (mstore st)), with_macro M st\<lparr>iMacroCount := iMacroCount st + 1\<rparr>))"

fun spec_find :: "paf_fun option \<Rightarrow> nat \<Rightarrow> find_fun" where
  "spec_find paf 0 st w = Inl NoReturn"
| "spec_find paf (Suc n) st w =
     (case paf of
        None \<Rightarrow> Inr (None, st)
      | Some p \<Rightarrow>
          (case store_find (mstore st) w of
             Some m \<Rightarrow> Inr (Some m, st)
           | None \<Rightarrow>
               sbind (p w (int (length w))) (\<lambda>(retval, params, body).
               if retval = PAF_WORD_DEFINE \<or> retval = PAF_WORD_REPLACE then
                 sbind (spec_new st w retval params body) (\<lambda>(r, st).
                 case r of
                   None \<Rightarrow> Inr (None, st)
                 | Some m \<Rightarrow>
                     sbind (f_MacroProcess (spec_find paf n) n st m) (\<lambda>st. Inr (Some m, st)))
               else if retval = PAF_WORD_UNDEF then spec_undef st w
               else Inr (None, st))))"

section \<open>Two runs at once\<close>

definition both :: "('a \<Rightarrow> 'b \<Rightarrow> bool) \<Rightarrow> ub + 'a \<Rightarrow> ub + 'b \<Rightarrow> bool" where
  "both R r r' \<longleftrightarrow>
     (case r of Inl e \<Rightarrow> r' = Inl e | Inr x \<Rightarrow> (\<exists>x'. r' = Inr x' \<and> R x x'))"

named_theorems pair_walk "rules for the statements of two runs"

lemma both_Inr [pair_walk]: "R x x' \<Longrightarrow> both R (Inr x) (Inr x')"
  by (simp add: both_def)

lemma both_Inl [pair_walk]: "both R (Inl e) (Inl e)"
  by (simp add: both_def)

lemma both_bind [pair_walk]: "both (\<lambda>x x'. both R (f x) (f' x')) r r' \<Longrightarrow> both R (sbind r f) (sbind r' f')"
  by (cases r) (auto simp: both_def split: sum.splits)

lemma both_if [pair_walk]:
  "(b \<longleftrightarrow> b') \<Longrightarrow> (b \<Longrightarrow> both R x x') \<Longrightarrow> (\<not> b \<Longrightarrow> both R y y') \<Longrightarrow>
     both R (if b then x else y) (if b' then x' else y')"
  by simp

lemma both_option [pair_walk]:
  "(r = None \<Longrightarrow> both R x x') \<Longrightarrow> (\<And>a. r = Some a \<Longrightarrow> both R (f a) (f' a)) \<Longrightarrow>
     both R (case r of None \<Rightarrow> x | Some a \<Rightarrow> f a) (case r of None \<Rightarrow> x' | Some a \<Rightarrow> f' a)"
  by (cases r) auto

lemma both_prod [pair_walk]:
  "both R (f a b) (f' a' b') \<Longrightarrow> both R (case (a, b) of (a, b) \<Rightarrow> f a b) (case (a', b') of (a, b) \<Rightarrow> f' a b)"
  "both R (g a b c) (g' a' b' c') \<Longrightarrow>
     both R ((case (a, b) of (a, b) \<Rightarrow> g a b) c) ((case (a', b') of (a, b) \<Rightarrow> g' a b) c')"
  by simp_all

lemma both_mono: "both R r r' \<Longrightarrow> (\<And>x x'. R x x' \<Longrightarrow> R' x x') \<Longrightarrow> both R' r r'"
  by (auto simp: both_def split: sum.splits)

lemma both_same: "r' = map_sum id h r \<Longrightarrow> holds r (\<lambda>x. R x (h x)) \<Longrightarrow> both R r r'"
  by (cases r) (auto simp: both_def)

section \<open>Forgetting the cache\<close>

definition forget :: "pstate \<Rightarrow> pstate" where
  "forget st = st\<lparr>mcache := None\<rparr>"

lemma forget_simps [simp]:
  "mstore (forget st) = mstore st" "iMacroCount (forget st) = iMacroCount st"
  "TokenProcessInput (forget st) = TokenProcessInput st" "TokenProcessPos (forget st) = TokenProcessPos st"
  "TokenProcessUnput (forget st) = TokenProcessUnput st" "get_macro (forget st) m = get_macro st m"
  "forget (st\<lparr>mcache := c\<rparr>) = forget st" "forget (forget st) = forget st"
  by (simp_all add: forget_def get_macro_def)

lemma forget_upd: "upd_macro m f (forget st) = forget (upd_macro m f st)"
  by (simp add: forget_def upd_macro_def)

lemma forget_input_eq: "f_ProcessTokenInput (forget s) = map_sum id (\<lambda>(r, s). (r, forget s)) (f_ProcessTokenInput s)"
  by (auto simp: f_ProcessTokenInput_def forget_def split: option.split list.split)

lemma forget_unput_eq: "f_ProcessTokenUnput r (forget s) = map_sum id forget (f_ProcessTokenUnput r s)"
  by (auto simp: f_ProcessTokenUnput_def forget_def)

lemma get_macro_cases: "get_macro s m = Inr (mstore s ! m) \<or> get_macro s m = Inl OutOfBounds"
  by (simp add: get_macro_def)

lemma forget_append_eq:
  "f_MacroAppend mu b (forget s) = map_sum id (\<lambda>(mu, s). (mu, forget s)) (f_MacroAppend mu b s)"
proof -
  have g: "get_macro (upd_macro m f s) k = (if k < length (mstore s) then Inr (mstore (upd_macro m f s) ! k) else Inl OutOfBounds)"
    for m f k s by (simp add: get_macro_def)
  show ?thesis by (auto simp: f_MacroAppend_def get_macro_def forget_upd Let_def split: option.split)
qed

lemma forget_while_eq: "while_macro k body e m (forget s) = map_sum id forget (while_macro k body e m s)"
proof (induction k arbitrary: m s)
  case (Suc k)
  show ?case using Suc.IH get_macro_cases [of s m] by (auto simp: Let_def forget_upd)
qed simp

lemma both_get [pair_walk]:
  assumes "adv s0 s" "m < length (mstore s)"
    "macro_ok (length (mstore s)) (mstore s ! m) \<Longrightarrow> R (mstore s ! m) (mstore s ! m)"
  shows "both R (get_macro s m) (get_macro (forget s) m)"
  using assms macro_inv_macro [OF advD(1)] by (auto simp: get_macro_def both_def)

lemma both_input:
  assumes "adv s0 s"
    "\<And>r s'. adv s0 s' \<Longrightarrow> length (mstore s) \<le> length (mstore s') \<Longrightarrow>
       (\<And>t. r = Some t \<Longrightarrow> ident_ok t) \<Longrightarrow> R (r, s') (r, forget s')"
  shows "both R (f_ProcessTokenInput s) (f_ProcessTokenInput (forget s))"
  by (rule both_same [OF forget_input_eq]) (rule walk_input [OF assms(1)], simp add: assms(2))

lemma both_unput:
  assumes "adv s0 s" "\<And>t. r = Some t \<Longrightarrow> ident_ok t"
    "\<And>s'. adv s0 s' \<Longrightarrow> length (mstore s) \<le> length (mstore s') \<Longrightarrow> R s' (forget s')"
  shows "both R (f_ProcessTokenUnput r s) (f_ProcessTokenUnput r (forget s))"
  by (rule both_same [OF forget_unput_eq]) (rule walk_unput [OF assms(1)], simp_all add: assms(2,3))

lemma both_append:
  assumes "adv s0 s" "ptr_ok mu s" "b < length (mstore s)"
    "\<And>mu' s'. adv s0 s' \<Longrightarrow> length (mstore s) \<le> length (mstore s') \<Longrightarrow> ptr_ok mu' s' \<Longrightarrow>
       mu' \<noteq> None \<Longrightarrow> same_input s s' \<Longrightarrow> R (mu', s') (mu', forget s')"
  shows "both R (f_MacroAppend mu b s) (f_MacroAppend mu b (forget s))"
  by (rule both_same [OF forget_append_eq]) (rule walk_append [OF assms(1-3)], simp add: assms(4))

section \<open>The expansion does not look at the cache\<close>

definition find_refines :: "find_fun \<Rightarrow> find_fun \<Rightarrow> bool" where
  "find_refines mfind mspec \<longleftrightarrow>
     (\<forall>st w. macro_inv st \<longrightarrow> NUL \<notin> set w \<longrightarrow>
        both (\<lambda>(r, s) x'. x' = (r, forget s) \<and> kept st s \<and> (\<forall>m. r = Some m \<longrightarrow> store_find (mstore s) w = Some m))
          (mfind st w) (mspec (forget st) w))"

lemma both_find:
  assumes "find_refines mfind mspec" "adv s0 s" "NUL \<notin> set w"
    "\<And>r s'. adv s0 s' \<Longrightarrow> length (mstore s) \<le> length (mstore s') \<Longrightarrow>
       (\<And>m. r = Some m \<Longrightarrow> m < length (mstore s')) \<Longrightarrow> R (r, s') (r, forget s')"
  shows "both R (mfind s w) (mspec (forget s) w)"
proof -
  have b: "both (\<lambda>(r, s') x'. x' = (r, forget s') \<and> kept s s' \<and>
      (\<forall>m. r = Some m \<longrightarrow> store_find (mstore s') w = Some m)) (mfind s w) (mspec (forget s) w)"
    using assms(1,3) advD(1) [OF assms(2)] by (simp add: find_refines_def)
  have "R (r, s') (r, forget s')" if k: "kept s s'" "\<And>m. r = Some m \<Longrightarrow> store_find (mstore s') w = Some m" for r s'
    using k(2) store_find_Some(1)
    by (intro assms(4) adv_trans [OF assms(2) kept_adv [OF k(1)]] grows_length [OF keptD(2) [OF k(1)]]) auto
  then show ?thesis by (intro both_mono [OF b]) auto
qed

definition tokens_same :: "pstate \<Rightarrow> pstate \<Rightarrow> (token list \<times> 'a) \<times> nat option \<times> pstate \<Rightarrow>
    (token list \<times> 'a) \<times> nat option \<times> pstate \<Rightarrow> bool" where
  "tokens_same s0 s = (\<lambda>((ts, b), mu, s') x'. x' = ((ts, b), mu, forget s') \<and>
     tokens_ok s0 (ts, mu, s') \<and> length (mstore s) \<le> length (mstore s'))"

lemma both_tokens:
  assumes "both (tokens_same s0 s) r r'"
    "\<And>ts b mu s'. tokens_ok s0 (ts, mu, s') \<Longrightarrow> length (mstore s) \<le> length (mstore s') \<Longrightarrow>
       R ((ts, b), mu, s') ((ts, b), mu, forget s')"
  shows "both R r r'"
  by (rule both_mono [OF assms(1)]) (auto simp: tokens_same_def intro: assms(2))

lemma both_params:
  assumes "both (\<lambda>(ps, mu, s') x'. x' = (ps, mu, forget s') \<and> adv s0 s' \<and> ptr_ok mu s' \<and>
      list_all (list_all ident_ok) ps \<and> length (mstore s) \<le> length (mstore s')) r r'"
    "\<And>ps mu s'. adv s0 s' \<Longrightarrow> ptr_ok mu s' \<Longrightarrow> list_all (list_all ident_ok) ps \<Longrightarrow>
       length (mstore s) \<le> length (mstore s') \<Longrightarrow> R (ps, mu, s') (ps, mu, forget s')"
  shows "both R r r'"
  by (rule both_mono [OF assms(1)]) (auto intro: assms(2))

lemma macro_input_same:
  assumes "find_refines mfind mspec"
  shows "adv s0 s \<Longrightarrow> ptr_ok mu s \<Longrightarrow>
      both (tokens_same s0 s) (f_ProcessTokenMacroInput mfind n s mu)
        (f_ProcessTokenMacroInput mspec n (forget s) mu)"
    and "adv s0 s \<Longrightarrow> ptr_ok mu s \<Longrightarrow> list_all (list_all ident_ok) param \<Longrightarrow>
      both (\<lambda>(ps, mu, s') x'. x' = (ps, mu, forget s') \<and> adv s0 s' \<and> ptr_ok mu s' \<and>
          list_all (list_all ident_ok) ps \<and> length (mstore s) \<le> length (mstore s'))
        (f_ProcessParamCreate mfind n s mu param) (f_ProcessParamCreate mspec n (forget s) mu param)"
    and "adv s0 s \<Longrightarrow> ptr_ok mu s \<Longrightarrow> list_all ident_ok ret \<Longrightarrow>
      both (tokens_same s0 s) (f_ProcessParamToken mfind n s mu p ret)
        (f_ProcessParamToken mspec n (forget s) mu p ret)"
proof (induction n arbitrary: s mu param p ret)
  case (Suc n)
  note w = pair_walk both_find [OF assms, where ?s0.0 = s0] both_get [where ?s0.0 = s0]
    both_input [where ?s0.0 = s0] both_unput [where ?s0.0 = s0] both_append [where ?s0.0 = s0]
  {
    case 1
    note w = w both_params [OF Suc.IH(2)]
    from 1 show ?case unfolding f_ProcessTokenMacroInput.simps
      by (intro w) (auto simp: tokens_same_def tokens_ok_def merge_ident_ok ident_ok_text intro: ptr_length)
  next
    case 2
    note w = w both_params [OF Suc.IH(2)] both_tokens [OF Suc.IH(3)]
    from 2 show ?case unfolding f_ProcessParamCreate.simps
      by (intro w) (auto simp: tokens_same_def tokens_ok_def)
  next
    case 3
    note w = w both_tokens [OF Suc.IH(1)] both_tokens [OF Suc.IH(3)]
    from 3 show ?case unfolding f_ProcessParamToken.simps Let_def
      by (intro w) (auto simp: tokens_same_def tokens_ok_def)
  }
qed (simp_all add: both_Inl)

lemma process_loop_same:
  assumes "find_refines mfind mspec"
  shows "adv s0 s \<Longrightarrow> ptr_ok mu s \<Longrightarrow> list_all ident_ok out \<Longrightarrow>
    both (\<lambda>(ts, mu', s') x'. x' = (ts, mu', forget s') \<and> tokens_ok s0 (ts, mu', s'))
      (process_loop mfind n s mu out) (process_loop mspec n (forget s) mu out)"
proof (induction n arbitrary: s mu out)
  case (Suc n)
  note w = pair_walk both_tokens [OF macro_input_same(1) [OF assms]] both_mono [OF Suc.IH]
  from Suc.prems show ?case unfolding process_loop.simps
    by (intro w) (auto simp: tokens_ok_def)
qed (simp add: both_Inl)

definition kept_same :: "pstate \<Rightarrow> token list \<times> nat option \<times> pstate \<Rightarrow> token list \<times> nat option \<times> pstate \<Rightarrow> bool" where
  "kept_same s = (\<lambda>(ts, mu, s') x'. x' = (ts, mu, forget s') \<and> kept s s' \<and> ptr_ok mu s' \<and> list_all ident_ok ts)"

lemma both_kept:
  assumes "both (kept_same s) r r'"
    "\<And>ts mu s'. kept s s' \<Longrightarrow> ptr_ok mu s' \<Longrightarrow> list_all ident_ok ts \<Longrightarrow> R (ts, mu, s') (ts, mu, forget s')"
  shows "both R r r'"
  by (rule both_mono [OF assms(1)]) (auto simp: kept_same_def intro: assms(2))

lemma Macro_Process_same:
  assumes "find_refines mfind mspec" "macro_inv s" "list_all ident_ok ts"
  shows "both (kept_same s) (Macro_Process mfind n s None ts) (Macro_Process mspec n (forget s) None ts)"
proof -
  let ?s = "s\<lparr>TokenProcessInput := ts, TokenProcessPos := None, TokenProcessUnput := None\<rparr>"
  let ?restore = "\<lambda>s'. s'\<lparr>TokenProcessInput := TokenProcessInput s, TokenProcessPos := TokenProcessPos s,
      TokenProcessUnput := TokenProcessUnput s\<rparr>"
  have "input_ok ?s" using assms(3) by (simp add: input_ok_def)
  then have a: "adv s ?s" by (intro macro_inv_input [OF assms(2)]) simp_all
  have i: "input_ok s" using assms(2) by (simp add: macro_inv_def)
  have restored: "kept s (?restore s')" if "adv s s'" for s'
    using that i by (simp add: kept_def adv_def macro_inv_def grows_def same_input_def input_ok_def)
  have f: "forget s\<lparr>TokenProcessInput := ts, TokenProcessPos := None, TokenProcessUnput := None\<rparr> = forget ?s"
    "?restore (forget s') = forget (?restore s')" for s'
    by (simp_all add: forget_def)
  have "both (kept_same s) (sbind (process_loop mfind n ?s None []) (\<lambda>(out, mu, st'). Inr (out, mu, ?restore st')))
      (sbind (process_loop mspec n (forget ?s) None []) (\<lambda>(out, mu, st'). Inr (out, mu, ?restore st')))"
    using a by (intro both_bind both_mono [OF process_loop_same [OF assms(1), where ?s0.0 = s]])
      (auto simp: tokens_ok_def ptr_ok_def both_def kept_same_def f intro: restored)
  then show ?thesis by (simp add: Macro_Process_def f)
qed

lemma both_while:
  assumes "\<And>m M n. macro_ok n M \<Longrightarrow> m < n \<Longrightarrow> macro_ok n (body m M) \<and> sStringName (body m M) = sStringName M"
    "macro_inv s" "m < length (mstore s)" "s'' = forget s" "\<And>s'. kept s s' \<Longrightarrow> R s' (forget s')"
  shows "both R (while_macro k body e m s) (while_macro k body e m s'')"
  unfolding assms(4)
  by (rule both_same [OF forget_while_eq]) (rule holds_mono [OF while_macro_ok [OF assms(1-3)]], auto intro: assms(5))

lemma both_ring:
  assumes "macro_inv s" "ptr_ok mu s" "b < length (mstore s)"
    "\<And>mu' s'. kept s s' \<Longrightarrow> ptr_ok mu' s' \<Longrightarrow> R (mu', s') (mu', forget s')"
  shows "both R (f_MacroAppend mu b s) (f_MacroAppend mu b (forget s))"
  by (rule both_same [OF forget_append_eq]) (rule holds_mono [OF f_MacroAppend_ok [OF assms(1-3)]], auto intro: assms(4))

lemma set_tilt_ok: "macro_ok n M \<Longrightarrow> macro_ok n (set_tilt m M) \<and> sStringName (set_tilt m M) = sStringName M"
  by (simp add: macro_ok_def set_tilt_def)

lemma reset_tilt_ok: "macro_ok n M \<Longrightarrow> m < n \<Longrightarrow> macro_ok n (reset_tilt m M) \<and> sStringName (reset_tilt m M) = sStringName M"
  by (simp add: macro_ok_def reset_tilt_def)

lemma process_rounds_same:
  assumes "find_refines mfind mspec"
  shows "macro_inv s \<Longrightarrow> ptr_ok mt s \<Longrightarrow> list_all ident_ok ts \<Longrightarrow>
    both (kept_same s) (process_rounds mfind n s mt ts) (process_rounds mspec n (forget s) mt ts)"
proof (induction n arbitrary: s mt ts)
  case (Suc n)
  note w = pair_walk both_kept [OF Macro_Process_same [OF assms]] both_while both_ring both_kept [OF Suc.IH]
  from Suc.prems show ?case unfolding process_rounds.simps
    by (intro w) (auto simp: set_tilt_ok kept_same_def dest: keptD(1) keptD_ptr intro: kept_trans kept_length)
qed (simp add: both_Inl)

lemma f_MacroProcess_same:
  assumes "find_refines mfind mspec" "macro_inv s" "m < length (mstore s)"
  shows "both (\<lambda>s' x'. x' = forget s' \<and> kept s s') (f_MacroProcess mfind n s m) (f_MacroProcess mspec n (forget s) m)"
proof -
  have stored: "kept s (upd_macro m (\<lambda>M. M\<lparr>mTokenProcessed := ts\<rparr>) s')"
    if "kept s s'" "list_all ident_ok ts" for s' ts
    using macro_inv_macro [OF keptD(1) [OF that(1)] kept_length [OF that(1) assms(3)]] that(2)
    by (intro kept_trans [OF that(1)] kept_upd keptD(1) [OF that(1)] kept_length [OF that(1) assms(3)])
      (simp_all add: macro_ok_def)
  have "macro_ok (length (mstore s)) (mstore s ! m)" by (rule macro_inv_macro [OF assms(2,3)])
  then have t: "list_all ident_ok (mToken (mstore s ! m))" by (simp add: macro_ok_def)
  note w = pair_walk both_kept [OF process_rounds_same [OF assms(1)]] both_while [where body = reset_tilt]
  show ?thesis
    unfolding f_MacroProcess_def forget_simps get_macro_inv [OF assms(3)] sbind_simps Let_def forget_upd
    using assms t
    by (intro w) (auto intro: stored keptD(1) [OF stored] kept_refl kept_trans [OF stored]
        simp: reset_tilt_ok forget_upd dest: keptD(1))
qed

section \<open>The code refines the specification\<close>

lemma new_macro_spec:
  assumes "macro_inv s" "mcache s \<noteq> None" "store_find (mstore s) w = None" "NUL \<notin> set w"
  shows "both (\<lambda>(r, s') x'. x' = (r, forget s') \<and> kept s s' \<and> (\<forall>m. r = Some m \<longrightarrow> store_find (mstore s') w = Some m))
    (new_macro s w retval ps body) (spec_new (forget s) w retval ps body)"
proof -
  define M where "M = (fresh_macro (length (mstore s)) w)\<lparr>cparameter_list := ps, cmacro := body,
      cpaf_typ := Some retval, ctyp := (if ps = None then CPP_DEFINE else CPP_MACRO)\<rparr>"
  have M: "macro_ok (Suc (length (mstore s))) M" "sStringName M = w" by (simp_all add: M_def fresh_macro_def macro_ok_def)
  have u: "new_macro s w retval ps body = sbind (f_MacroProcess1 M) (\<lambda>r.
      case r of None \<Rightarrow> Inr (None, s) | Some M \<Rightarrow>
        sbind (cache_add (with_macro M s) w (length (mstore s))) (\<lambda>st. Inr (Some (length (mstore s)), st)))"
    unfolding new_macro_def f_MacroCreate_with Let_def prod.case upd_with_macro get_with_macro sbind_simps M_def ..
  have v: "spec_new (forget s) w retval ps body = sbind (f_MacroProcess1 M) (\<lambda>r.
      case r of None \<Rightarrow> Inr (None, forget s) | Some M \<Rightarrow>
        Inr (Some (length (mstore s)), with_macro M (forget s)\<lparr>iMacroCount := iMacroCount s + 1\<rparr>))"
    unfolding spec_new_def M_def forget_simps ..
  have a: "\<exists>t. cache_add (with_macro M' s) w (length (mstore s)) = Inr t \<and> kept s t \<and>
      forget t = with_macro M' (forget s)\<lparr>iMacroCount := iMacroCount s + 1\<rparr> \<and>
      store_find (mstore t) w = Some (length (mstore s))"
    if M': "macro_ok (Suc (length (mstore s))) M'" "sStringName M' = w" for M'
    using cache_add_kept [OF assms M'] store_find_snoc [of "mstore s" M'] assms(3) M'(2)
    by (fastforce simp: forget_def with_macro_def)
  show ?thesis
  proof (cases "f_MacroProcess1 M")
    case (Inr r)
    show ?thesis
    proof (cases r)
      case None
      then show ?thesis using Inr by (simp add: u v both_def kept_refl [OF assms(1)])
    next
      case (Some M')
      then have "macro_ok (Suc (length (mstore s))) M'" "sStringName M' = w"
        using holdsD [OF f_MacroProcess1_ok [OF M(1)] Inr] M(2) by simp_all
      from a [OF this] show ?thesis using Some Inr by (auto simp: u v both_def)
    qed
  qed (simp add: u v both_Inl)
qed

lemma undef_macro_spec:
  assumes "macro_inv s" "mcache s \<noteq> None" "store_find (mstore s) w = None" "NUL \<notin> set w"
  shows "both (\<lambda>(r, s') x'. x' = (r, forget s') \<and> kept s s' \<and> (\<forall>m. r = Some m \<longrightarrow> store_find (mstore s') w = Some m))
    (undef_macro s w) (spec_undef (forget s) w)"
proof -
  define M where "M = (fresh_macro (length (mstore s)) w)\<lparr>cpaf_typ := Some PAF_WORD_UNDEF, ctyp := CPP_UNDEF\<rparr>"
  have "macro_ok (Suc (length (mstore s))) M" "sStringName M = w" by (simp_all add: M_def fresh_macro_def macro_ok_def)
  from cache_add_kept [OF assms this] obtain t where
    "cache_add (with_macro M s) w (length (mstore s)) =
      Inr (with_macro M s\<lparr>mcache := Some t, iMacroCount := iMacroCount s + 1\<rparr>)"
    "kept s (with_macro M s\<lparr>mcache := Some t, iMacroCount := iMacroCount s + 1\<rparr>)" .
  moreover have "undef_macro s w = sbind (cache_add (with_macro M s) w (length (mstore s)))
      (\<lambda>st. Inr (Some (length (mstore s)), st))"
    by (simp add: undef_macro_def f_MacroCreate_with M_def)
  moreover have "spec_undef (forget s) w =
      Inr (Some (length (mstore s)), with_macro M (forget s)\<lparr>iMacroCount := iMacroCount s + 1\<rparr>)"
    by (simp add: spec_undef_def M_def Let_def)
  ultimately show ?thesis using \<open>sStringName M = w\<close> assms(3) store_find_snoc [of "mstore s" M]
    by (simp add: both_def forget_def with_macro_def)
qed

lemma f_MacroFind_refines: "find_refines (f_MacroFind paf n) (spec_find paf n)"
proof (induction n)
  case (Suc n)
  show ?case unfolding find_refines_def
  proof (intro allI impI)
    fix st w
    assume st: "macro_inv st" and w: "NUL \<notin> set w"
    have c: "cache_ok (mcache st)" "cached (mcache st) = store_find (mstore st)" using st by (simp_all add: macro_inv_def)
    from cache_find_ok [OF c(1) w] obtain t where t:
      "cache_find st w = Inr (store_find (mstore st) w, st\<lparr>mcache := Some t\<rparr>)" "cache_ok (Some t)"
      "cached (Some t) = store_find (mstore st)" unfolding c(2) .
    let ?st = "st\<lparr>mcache := Some t\<rparr>"
    have k: "kept st ?st" using st t(2,3)
      by (simp add: kept_def macro_inv_def grows_def same_input_def input_ok_def)
    have f: "forget st = forget ?st" by simp
    show "both (\<lambda>(r, s) x'. x' = (r, forget s) \<and> kept st s \<and> (\<forall>m. r = Some m \<longrightarrow> store_find (mstore s) w = Some m))
        (f_MacroFind paf (Suc n) st w) (spec_find paf (Suc n) (forget st) w)"
    proof (cases paf)
      case (Some p)
      show ?thesis
      proof (cases "store_find (mstore st) w")
        case None
        note IH = Suc.IH [unfolded Some]
        have m: "both (\<lambda>(r, s) x'. x' = (r, forget s) \<and> kept st s \<and> (\<forall>m. r = Some m \<longrightarrow> store_find (mstore s) w = Some m))
            (case r of None \<Rightarrow> Inr (None, s)
               | Some m \<Rightarrow> sbind (f_MacroProcess (f_MacroFind (Some p) n) n s m) (\<lambda>st. Inr (Some m, st)))
            (case r of None \<Rightarrow> Inr (None, forget s)
               | Some m \<Rightarrow> sbind (f_MacroProcess (spec_find (Some p) n) n (forget s) m) (\<lambda>st. Inr (Some m, st)))"
          if s: "kept ?st s" "\<forall>m. r = Some m \<longrightarrow> store_find (mstore s) w = Some m" for r s
        proof (intro pair_walk both_mono [OF f_MacroProcess_same [OF IH]], goal_cases)
          case (1)
          then show ?case using kept_trans [OF k s(1)] by simp
        next
          case (2 m)
          then show ?case using keptD(1) [OF s(1)] by simp
        next
          case (3 m)
          then show ?case using s(2) store_find_Some(1) by simp
        next
          case (4 m x x')
          then show ?case using kept_trans [OF kept_trans [OF k s(1)]] store_find_kept s(2)
            by (auto simp: both_def)
        qed
        show ?thesis
        proof (cases "p w (int (length w))")
          case (Inr r)
          obtain retval params body where r: "r = (retval, params, body)" by (cases r)
          show ?thesis
            unfolding f_MacroFind.simps spec_find.simps Some option.case t(1) None forget_simps sbind_simps
              prod.case Inr r
            using keptD(1) [OF k] None w kept_refl [OF st] k
            by (auto intro!: pair_walk both_mono [OF new_macro_spec [of ?st, unfolded forget_simps]]
               both_mono [OF undef_macro_spec [of ?st, unfolded forget_simps]] m intro: kept_trans [OF k])
        qed (simp add: Some t(1) None both_Inl)
      next
        case (Some m)
        then show ?thesis using \<open>paf = Some p\<close> t(1) k by (simp add: both_Inr)
      qed
    qed (simp add: st kept_refl both_Inr)
  qed
qed (simp add: find_refines_def both_Inl)

end
