(* ===== verification/Macro_Run.thy ===== *)
theory Macro_Run
  imports Process_Spec
begin

text \<open>
  Runs of the macro processor: what is promised of every call of \<open>f_MacroFind\<close>, and runs in which
  the rings of macros make it go wrong.
\<close>

section \<open>Every call\<close>

text \<open>C28: Finding a macro keeps the state of the macro processor consistent, however macros are
  nested: the cache still maps every word to the one macro of that name, the links of the rings
  stay inside the store, macros are only added, and the tokens the caller was reading and his
  position in them are the ones from before.\<close>

theorem macro_find_invariant:
  assumes "macro_inv st" "NUL \<notin> set w" "f_MacroFind paf n st w = Inr (r, st')"
  shows "macro_inv st' \<and> grows st st' \<and> same_input st st' \<and>
    (\<forall>m. r = Some m \<longrightarrow> store_find (mstore st') w = Some m \<and> sStringName (mstore st' ! m) = w)"
proof -
  have "kept st st' \<and> (\<forall>m. r = Some m \<longrightarrow> store_find (mstore st') w = Some m)"
    using f_MacroFind_ok [of paf n] assms by (auto simp: find_ok_def dest!: holdsD)
  then show ?thesis using store_find_Some(2) by (auto simp: kept_def)
qed

text \<open>C27: The cache of macros cannot be observed: finding a macro is the specification that looks
  the name up in the store of all macros made so far, and reads and processes a macro only when
  there is none of this name; the hash table is equal to this for every word and every answer of
  \<open>Paf_Word\<close>.\<close>

theorem macro_cache_refines:
  assumes "macro_inv st" "NUL \<notin> set w"
  shows "map_sum id (\<lambda>(r, st). (r, forget st)) (f_MacroFind paf n st w) = spec_find paf n (forget st) w"
proof -
  have "both (\<lambda>(r, s) x'. x' = (r, forget s) \<and> kept st s \<and> (\<forall>m. r = Some m \<longrightarrow> store_find (mstore s) w = Some m))
      (f_MacroFind paf n st w) (spec_find paf n (forget st) w)"
    using f_MacroFind_refines [of paf n] assms by (simp add: find_refines_def)
  then show ?thesis by (auto simp: both_def split: sum.splits)
qed

section \<open>Macros without macros\<close>

text \<open>The state while the tokens \<open>ts\<close> are processed and \<open>i\<close> of them were read.\<close>

definition reading :: "pstate \<Rightarrow> token list \<Rightarrow> nat \<Rightarrow> pstate" where
  "reading st ts i = st\<lparr>TokenProcessInput := ts, TokenProcessUnput := None,
     TokenProcessPos := (case i of 0 \<Rightarrow> None | Suc j \<Rightarrow> Some j)\<rparr>"

lemma reading_input:
  assumes "i < length ts"
  shows "f_ProcessTokenInput (reading st ts i) = Inr (Some (f_TokenDuplicate (ts ! i)), reading st ts (Suc i))"
  using assms by (cases i; cases ts) (auto simp: f_ProcessTokenInput_def reading_def)

lemma reading_end:
  "ts \<noteq> [] \<Longrightarrow> f_ProcessTokenInput (reading st ts (length ts)) = Inr (None, reading st ts (length ts))"
  by (cases ts) (auto simp: f_ProcessTokenInput_def reading_def)

lemma process_loop_plain:
  assumes "ts \<noteq> []"
    "\<And>i t. t \<in> set ts \<Longrightarrow> tlex t = SN_IDENTIFIER \<Longrightarrow>
       mfind (reading st ts i) (ttext t) = Inr (None, reading st ts i)"
  shows "i \<le> length ts \<Longrightarrow> length ts + 1 < n + i \<Longrightarrow>
    process_loop mfind n (reading st ts i) mu out =
      Inr (out @ map f_TokenDuplicate (drop i ts), mu, reading st ts (length ts))"
proof (induction "length ts - i" arbitrary: i n out)
  case 0
  then have "i = length ts" "1 < n" by simp_all
  then obtain k where "n = Suc (Suc k)" using less_imp_Suc_add [of 1 n] by auto
  then show ?case using \<open>i = length ts\<close> reading_end [OF assms(1)] by simp
next
  case (Suc d)
  then have i: "i < length ts" and "1 < n" by simp_all
  then obtain k where n: "n = Suc (Suc k)" using less_imp_Suc_add [of 1 n] by auto
  let ?t = "f_TokenDuplicate (ts ! i)"
  have "mfind (reading st ts (Suc i)) (ttext ?t) = Inr (None, reading st ts (Suc i))" if "tlex ?t = SN_IDENTIFIER"
    using that assms(2) [of "ts ! i" "Suc i"] i by (simp add: f_TokenDuplicate_def)
  then have "f_ProcessTokenMacroInput mfind (Suc k) (reading st ts i) mu = Inr (([?t], False), mu, reading st ts (Suc i))"
    by (simp add: reading_input [OF i])
  moreover have "process_loop mfind (Suc k) (reading st ts (Suc i)) mu (out @ [?t]) =
      Inr ((out @ [?t]) @ map f_TokenDuplicate (drop (Suc i) ts), mu, reading st ts (length ts))"
    using Suc.hyps(2) Suc.prems n i by (intro Suc.hyps(1)) simp_all
  moreover have "process_loop mfind (Suc (Suc k)) (reading st ts i) mu out =
      process_loop mfind (Suc k) (reading st ts (Suc i)) mu (out @ [?t])"
    unfolding process_loop.simps(2) [of mfind "Suc k"] calculation(1) by simp
  ultimately show ?case using n by (simp add: Cons_nth_drop_Suc [OF i, symmetric] del: process_loop.simps)
qed

lemma duplicate_body_token [simp]: "f_TokenDuplicate (body_token [] lw) = body_token [] lw"
  by (cases lw) (simp add: f_TokenDuplicate_def body_token_def lexeme_token_def mk_token_def)

lemma body_token_simps [simp]:
  "tlex (body_token [] (l, w)) = l" "ttext (body_token [] (l, w)) = w"
  by (simp_all add: body_token_def lexeme_token_def)

lemma f_MacroProcess_plain:
  assumes "m < length (mstore st)" "mToken (mstore st ! m) = ts" "length ts + 3 < n"
    "\<And>i t. t \<in> set ts \<Longrightarrow> tlex t = SN_IDENTIFIER \<Longrightarrow>
       mfind (reading st ts i) (ttext t) = Inr (None, reading st ts i)"
  shows "f_MacroProcess mfind n st m =
    Inr (upd_macro m (\<lambda>M. M\<lparr>mTokenProcessed := map f_TokenDuplicate ts\<rparr>) st)"
proof (cases "ts = []")
  case False
  obtain k where n: "n = Suc k" using assms(3) by (cases n) simp_all
  have "process_loop mfind k (reading st ts 0) None [] =
      Inr ([] @ map f_TokenDuplicate (drop 0 ts), None, reading st ts (length ts))"
    using assms(3) n by (intro process_loop_plain False assms(4)) simp_all
  moreover have "st\<lparr>TokenProcessInput := ts, TokenProcessPos := None, TokenProcessUnput := None\<rparr> = reading st ts 0"
    by (simp add: reading_def)
  moreover have "reading st ts i\<lparr>TokenProcessInput := TokenProcessInput st, TokenProcessPos := TokenProcessPos st,
      TokenProcessUnput := TokenProcessUnput st\<rparr> = st" for i
    by (simp add: reading_def)
  ultimately have "Macro_Process mfind k st None ts = Inr (map f_TokenDuplicate ts, None, st)"
    by (simp add: Macro_Process_def)
  then show ?thesis using False assms(1,2) n by (simp add: f_MacroProcess_def get_macro_def Let_def)
qed (use assms(1,2) in \<open>simp add: f_MacroProcess_def get_macro_def\<close>)

lemma spec_find_plain:
  assumes "\<forall>(l, w) \<in> set ts. lexeme l w" "p w (int (length w)) = Inr (PAF_WORD_DEFINE, None, Some (body_text ts))"
    "store_find (mstore st) w = None" "length ts + 4 < n"
    "\<forall>v. (SN_IDENTIFIER, v) \<in> set ts \<longrightarrow> store_find (mstore st) v = None \<and>
       p v (int (length v)) = Inr (PAF_WORD_NONE, None, None)"
  shows "\<exists>st'. spec_find (Some p) n st w = Inr (Some (length (mstore st)), st') \<and>
    length (mstore st') = Suc (length (mstore st)) \<and>
    mTokenProcessed (mstore st' ! length (mstore st)) = map (body_token []) ts"
proof -
  define M where "M = (fresh_macro (length (mstore st)) w)\<lparr>cparameter_list := None, cmacro := Some (body_text ts),
      cpaf_typ := Some PAF_WORD_DEFINE, ctyp := CPP_DEFINE\<rparr>"
  define M' where "M' = M\<lparr>mToken := map (body_token []) ts\<rparr>"
  define s where "s = with_macro M' st\<lparr>iMacroCount := iMacroCount st + 1\<rparr>"
  have b: "body_loop (length (body_text ts) + 1) [] (Some (body_text ts)) = Inr (map (body_token []) ts)"
    using length_body_text [OF assms(1)] by (intro body_loop_text [OF assms(1)]) simp
  have "f_MacroProcess1 M = Inr (Some M')"
    using b by (simp add: f_MacroProcess1_def f_MacroProcess2_def M_def M'_def fresh_macro_def del: body_loop.simps)
  then have new: "spec_new st w PAF_WORD_DEFINE None (Some (body_text ts)) = Inr (Some (length (mstore st)), s)"
    by (simp add: spec_new_def M_def s_def)
  obtain k where n: "n = Suc (Suc k)" using less_imp_Suc_add [of 1 n] assms(4) by auto
  have "spec_find (Some p) (Suc k) (reading s (map (body_token []) ts) i) v = Inr (None, reading s (map (body_token []) ts) i)"
    if v: "(SN_IDENTIFIER, v) \<in> set ts" for i v
  proof -
    have "v \<noteq> w" using v assms(2,5) by force
    then have "store_find (mstore s) v = None" using assms(3,5) v store_find_snoc [of "mstore st" M']
      by (simp add: s_def M'_def M_def fresh_macro_def)
    then show ?thesis using assms(5) v by (simp add: reading_def)
  qed
  then have "f_MacroProcess (spec_find (Some p) (Suc k)) (Suc k) s (length (mstore st)) =
      Inr (upd_macro (length (mstore st)) (\<lambda>M. M\<lparr>mTokenProcessed := map f_TokenDuplicate (map (body_token []) ts)\<rparr>) s)"
    using assms(4) n by (intro f_MacroProcess_plain) (auto simp: s_def M'_def simp del: spec_find.simps)
  then show ?thesis using n assms(2,3) new
    by (auto simp: s_def upd_macro_nth comp_def simp del: spec_find.simps simp add: spec_find.simps(2) [of _ "Suc k"])
qed

text \<open>A macro whose body names no macro is found, whatever was found before, and its processed
  text is its body: the tokens of the body come out once, in order and unchanged, and the fuel
  that is needed is the length of the body and a constant.\<close>

theorem macro_find_plain:
  assumes "macro_inv st" "NUL \<notin> set w" "\<forall>(l, w) \<in> set ts. lexeme l w"
    "Paf w (int (length w)) = Inr (PAF_WORD_DEFINE, None, Some (body_text ts))"
    "\<forall>v. (SN_IDENTIFIER, v) \<in> set ts \<longrightarrow> store_find (mstore st) v = None \<and>
       Paf v (int (length v)) = Inr (PAF_WORD_NONE, None, None)"
    "store_find (mstore st) w = None" "length ts + 4 < n"
  shows "\<exists>st'. f_MacroFind (Some Paf) n st w = Inr (Some (length (mstore st)), st') \<and>
    length (mstore st') = Suc (length (mstore st)) \<and>
    mTokenProcessed (mstore st' ! length (mstore st)) = map (body_token []) ts"
proof -
  obtain s where s: "spec_find (Some Paf) n (forget st) w = Inr (Some (length (mstore st)), s)"
    "length (mstore s) = Suc (length (mstore st))"
    "mTokenProcessed (mstore s ! length (mstore st)) = map (body_token []) ts"
    using spec_find_plain [of ts Paf w "forget st" n] assms(3-7) by auto
  show ?thesis
    using f_MacroFind_refines [of "Some Paf" n, unfolded find_refines_def, rule_format, OF assms(1,2)] s
    by (cases "f_MacroFind (Some Paf) n st w") (auto simp: both_def)
qed

section \<open>Runs from the start\<close>

definition start :: pstate where
  "start = \<lparr>mstore = [], mcache = None, iMacroCount = 0, TokenProcessInput = [],
     TokenProcessPos = None, TokenProcessUnput = None\<rparr>"

lemma start_inv: "macro_inv start"
  by (simp add: macro_inv_def start_def cache_ok_def cached_def store_find_def input_ok_def fun_eq_iff)

text \<open>A \<open>Paf_Word\<close> from a list of definitions.\<close>

definition defs :: "(string \<times> string option \<times> string) list \<Rightarrow> paf_fun" where
  "defs ds w n =
     (case map_of ds w of
        None \<Rightarrow> Inr (PAF_WORD_NONE, None, None)
      | Some (ps, body) \<Rightarrow> Inr (PAF_WORD_DEFINE, ps, Some body))"

text \<open>The text of a macro after processing, when others were met before it.\<close>

fun expand_after :: "find_fun \<Rightarrow> pstate \<Rightarrow> string list \<Rightarrow> string \<Rightarrow> ub + string list option" where
  "expand_after mfind st [] w =
     sbind (mfind st w) (\<lambda>(r, st).
     case r of
       None \<Rightarrow> Inr None
     | Some m \<Rightarrow> sbind (get_macro st m) (\<lambda>M. Inr (Some (map ttext (mTokenProcessed M)))))"
| "expand_after mfind st (v # vs) w = sbind (mfind st v) (\<lambda>(_, st). expand_after mfind st vs w)"

lemma expand_after_spec:
  assumes "macro_inv st" "list_all (\<lambda>v. NUL \<notin> set v) (w # vs)"
  shows "expand_after (f_MacroFind paf n) st vs w = expand_after (spec_find paf n) (forget st) vs w"
  using assms
proof (induction vs arbitrary: st)
  case Nil
  note r = f_MacroFind_refines [of paf n, unfolded find_refines_def, rule_format, OF Nil(1), of w]
  then show ?case using Nil(2)
    by (cases "f_MacroFind paf n st w") (auto simp: both_def get_macro_def split: option.split)
next
  case (Cons v vs)
  note r = f_MacroFind_refines [of paf n, unfolded find_refines_def, rule_format, OF Cons.prems(1), of v]
  show ?case using Cons.IH r Cons.prems(2) keptD(1)
    by (cases "f_MacroFind paf n st v") (auto simp: both_def)
qed

lemma expand_start:
  "list_all (\<lambda>v. NUL \<notin> set v) (w # vs) \<Longrightarrow>
     expand_after (f_MacroFind paf n) start vs w = expand_after (spec_find paf n) start vs w"
  using expand_after_spec [OF start_inv] by (simp add: start_def forget_def)

text \<open>Programs.\<close>

definition prog_calls :: paf_fun where
  "prog_calls = defs [(''F'', Some ''x'', ''x + x''), (''G'', None, ''F ( F(N) ) N''), (''N'', None, ''2''),
     (''H'', None, ''F(1''), (''E'', None, []), (''E2'', None, ''E''), (''R'', None, ''R 1'')]"

text \<open>Nested calls in a macro body are replaced from the inside out, arguments first, until no
  macro is left.  Three bodies come to no good end: a call whose closing bracket is missing reads
  the uninitialised variable \<open>bContinue\<close>, a body that becomes empty makes the next round read
  through a null pointer, and a body that names its own macro is replaced by itself once.\<close>

theorem macro_bodies_run:
  "expand_after (f_MacroFind (Some prog_calls) 20) start [] ''G'' =
     Inr (Some [''2'', ''+'', ''2'', ''+'', ''2'', ''+'', ''2'', ''2'']) \<and>
   expand_after (f_MacroFind (Some prog_calls) 20) start [] ''H'' = Inl Uninitialised \<and>
   expand_after (f_MacroFind (Some prog_calls) 20) start [] ''E2'' = Inl NullPointer \<and>
   expand_after (f_MacroFind (Some prog_calls) 20) start [] ''R'' = Inr (Some [''R'', ''1'', ''1''])"
proof -
  have "expand_after (spec_find (Some prog_calls) 20) start [] ''G'' =
     Inr (Some [''2'', ''+'', ''2'', ''+'', ''2'', ''+'', ''2'', ''2''])" by code_simp
  moreover have "expand_after (spec_find (Some prog_calls) 20) start [] ''H'' = Inl Uninitialised" by code_simp
  moreover have "expand_after (spec_find (Some prog_calls) 20) start [] ''E2'' = Inl NullPointer" by code_simp
  moreover have "expand_after (spec_find (Some prog_calls) 20) start [] ''R'' = Inr (Some [''R'', ''1'', ''1''])" by code_simp
  ultimately show ?thesis by (simp add: expand_start del: expand_after.simps)
qed

text \<open>
  After the rounds the loop \<open>WHILE_MACRO\<close> resets \<open>tilt\<close> and links each macro of the ring to itself,
  but it reads the link it goes on with from the macro it just reset.
\<close>

definition prog_tilt :: paf_fun where
  "prog_tilt = defs [(''A'', None, ''B C''), (''B'', None, ''1''), (''C'', None, ''2''), (''D'', None, ''C'')]"

text \<open>At the end of \<open>f_MacroProcess\<close> only the first macro of the ring is reset, whatever the
  ring is.  The others stay tilted, and a macro that is tilted is not replaced any more: with
  \<open>A\<close> defined as \<open>B C\<close>, \<open>C\<close> as \<open>2\<close> and \<open>D\<close> as \<open>C\<close>, \<open>D\<close> stands for \<open>2\<close> when it is met first, and
  for \<open>C\<close> once \<open>A\<close> was met.\<close>

theorem macro_cleanup_resets_one:
  "while_macro (Suc n) reset_tilt b b st = sbind (get_macro st b) (\<lambda>_. Inr (upd_macro b (reset_tilt b) st)) \<and>
   expand_after (f_MacroFind (Some prog_tilt) 20) start [] ''D'' = Inr (Some [''2'']) \<and>
   expand_after (f_MacroFind (Some prog_tilt) 20) start [''A''] ''D'' = Inr (Some [''C''])"
proof -
  have "while_macro (Suc n) reset_tilt b b st = sbind (get_macro st b) (\<lambda>_. Inr (upd_macro b (reset_tilt b) st))"
    by (simp add: reset_tilt_def Let_def)
  moreover have "expand_after (spec_find (Some prog_tilt) 20) start [] ''D'' = Inr (Some [''2''])" by code_simp
  moreover have "expand_after (spec_find (Some prog_tilt) 20) start [''A''] ''D'' = Inr (Some [''C''])" by code_simp
  ultimately show ?thesis by (simp add: expand_start del: expand_after.simps while_macro.simps)
qed

definition prog_ring :: paf_fun where
  "prog_ring = defs [(''A'', None, ''K M L X''), (''K'', None, ''1''), (''M'', None, ''2''),
     (''L'', None, ''3''), (''X'', None, ''M'')]"

lemma while_macro_self:
  assumes "m < length (mstore st)" "MacroNext (mstore st ! m) = m" "m \<noteq> e"
  shows "while_macro k set_tilt e m st = Inl NoReturn"
  using assms
proof (induction k arbitrary: st)
  case (Suc k)
  then show ?case using Suc.IH [of "upd_macro m (set_tilt m) st"]
    by (simp add: get_macro_def Let_def set_tilt_def upd_macro_nth)
qed simp

lemma prog_ring_large:
  "spec_find (Some prog_ring) (Suc (Suc (Suc (Suc (Suc (Suc (Suc (Suc (Suc (Suc (Suc (Suc k))))))))))))
     start ''A'' = Inl NoReturn"
  apply code_simp
  apply (simp add: while_macro_self)
  done

lemma prog_ring_small: "n < 12 \<Longrightarrow> spec_find (Some prog_ring) n start ''A'' = Inl NoReturn"
proof -
  have "list_all (\<lambda>n. spec_find (Some prog_ring) n start ''A'' = Inl NoReturn) [0..<12]" by code_simp
  then show "n < 12 \<Longrightarrow> ?thesis" by (simp add: list_all_iff)
qed

text \<open>C33: The links of a ring can be cut while the ring is in use, and then the processing never
  ends: \<open>A\<close> is \<open>K M L X\<close> with plain macros \<open>K\<close>, \<open>M\<close>, \<open>L\<close> and a macro \<open>X\<close> that stands for \<open>M\<close>.
  Meeting \<open>X\<close> for the first time processes it, which uses \<open>M\<close> and resets its links, while
  \<open>M\<close> is in the ring of the macros that \<open>A\<close> has used; the loop over that ring comes to \<open>M\<close> and
  stays there.\<close>

theorem macro_ring_hangs:
  "f_MacroFind (Some prog_ring) n start ''A'' = Inl NoReturn"
proof -
  have "spec_find (Some prog_ring) n start ''A'' = Inl NoReturn"
  proof (cases "n < 12")
    case False
    then obtain k where "n = 12 + k" using le_Suc_ex [of 12 n] by auto
    then have "n = Suc (Suc (Suc (Suc (Suc (Suc (Suc (Suc (Suc (Suc (Suc (Suc k)))))))))))" by simp
    then show ?thesis using prog_ring_large [of k] by (simp only:)
  qed (rule prog_ring_small)
  moreover have "forget start = start" by (simp add: start_def forget_def)
  ultimately show ?thesis
    using f_MacroFind_refines [of "Some prog_ring" n, unfolded find_refines_def, rule_format, OF start_inv, of "''A''"]
    by (cases "f_MacroFind (Some prog_ring) n start ''A''") (auto simp: both_def)
qed

section \<open>Witnesses\<close>

lemma run_G: "\<exists>st. f_MacroFind (Some prog_calls) 20 start ''G'' = Inr (Some 0, st)"
proof -
  have "map_sum id fst (spec_find (Some prog_calls) 20 start ''G'') = Inr (Some 0)" by code_simp
  moreover have "forget start = start" by (simp add: start_def forget_def)
  ultimately show ?thesis
    using f_MacroFind_refines [of "Some prog_calls" 20, unfolded find_refines_def, rule_format, OF start_inv, of "''G''"]
    by (cases "f_MacroFind (Some prog_calls) 20 start ''G''") (auto simp: both_def)
qed

theorem macro_find_invariant_witness:
  "\<exists>st. f_MacroFind (Some prog_calls) 20 start ''G'' = Inr (Some 0, st) \<and> macro_inv st \<and>
     sStringName (mstore st ! 0) = ''G''"
proof -
  obtain st where st: "f_MacroFind (Some prog_calls) 20 start ''G'' = Inr (Some 0, st)" using run_G by blast
  from macro_find_invariant [OF start_inv _ st] st show ?thesis by auto
qed

theorem macro_cache_refines_witness:
  "map_sum id (\<lambda>(r, st). (r, forget st)) (f_MacroFind (Some prog_calls) 20 start ''G'') =
     spec_find (Some prog_calls) 20 start ''G''"
proof -
  have "forget start = start" by (simp add: start_def forget_def)
  then show ?thesis using macro_cache_refines [OF start_inv, of "''G''" "Some prog_calls" 20] by simp
qed

theorem macro_find_plain_witness:
  "\<exists>st. f_MacroFind (Some (defs [(''N'', None, ''a << b '')])) 10 start ''N'' = Inr (Some 0, st) \<and>
     mTokenProcessed (mstore st ! 0) =
       map (body_token []) [(SN_IDENTIFIER, ''a''), (SN_LS, ''<<''), (SN_IDENTIFIER, ''b'')]"
proof -
  have i: "lexeme SN_IDENTIFIER [c]" if "ident_start c" for c using lx_ident [of c "[]"] that by simp
  have "lexeme SN_IDENTIFIER ''a''" "lexeme SN_IDENTIFIER ''b''"
    by (simp_all add: i bytes byte_def ident_start_def)
  moreover have "lexeme SN_LS ''<<''" by (rule lx_operator) (simp add: operators_def)
  ultimately have "\<forall>(l, w) \<in> set [(SN_IDENTIFIER, ''a''), (SN_LS, ''<<''), (SN_IDENTIFIER, ''b'')]. lexeme l w"
    by simp
  from macro_find_plain [OF start_inv _ this, of "''N''" "defs [(''N'', None, ''a << b '')]" 10]
  show ?thesis by (auto simp: defs_def body_text_def store_find_def start_def)
qed

end
