(* ===== verification/Ring.thy ===== *)
theory Ring
  imports Main
begin

text \<open>
  Rings: cyclic lists that are linked in both directions through the fields of the objects
  themselves.  The program has two kinds of them, of tokens (\<open>token.c\<close>) and of macros
  (\<open>macro.c\<close>), with the same code to append one ring to another.  The locale states what the
  code relies on: a link can be set, and this changes nothing else.
\<close>

locale ring_links =
  fixes nxt :: "'s \<Rightarrow> nat \<Rightarrow> nat"
    and prv :: "'s \<Rightarrow> nat \<Rightarrow> nat"
    and set_nxt :: "nat \<Rightarrow> nat \<Rightarrow> 's \<Rightarrow> 's"
    and set_prv :: "nat \<Rightarrow> nat \<Rightarrow> 's \<Rightarrow> 's"
    and alive :: "'s \<Rightarrow> nat \<Rightarrow> bool"
  assumes nxt_set_nxt: "alive s a \<Longrightarrow> nxt (set_nxt a b s) c = (if c = a then b else nxt s c)"
    and prv_set_nxt: "alive s a \<Longrightarrow> prv (set_nxt a b s) c = prv s c"
    and nxt_set_prv: "alive s a \<Longrightarrow> nxt (set_prv a b s) c = nxt s c"
    and prv_set_prv: "alive s a \<Longrightarrow> prv (set_prv a b s) c = (if c = a then b else prv s c)"
    and alive_set_nxt: "alive (set_nxt a b s) c = alive s c"
    and alive_set_prv: "alive (set_prv a b s) c = alive s c"
begin

lemmas links = nxt_set_nxt prv_set_nxt nxt_set_prv prv_set_prv alive_set_nxt alive_set_prv

text \<open>Objects that are linked one after the other.\<close>

fun linked :: "'s \<Rightarrow> nat list \<Rightarrow> bool" where
  "linked s (a # b # xs) \<longleftrightarrow> nxt s a = b \<and> prv s b = a \<and> linked s (b # xs)"
| "linked s _ \<longleftrightarrow> True"

definition ring :: "'s \<Rightarrow> nat list \<Rightarrow> bool" where
  "ring s xs \<longleftrightarrow> xs \<noteq> [] \<and> distinct xs \<and> (\<forall>a \<in> set xs. alive s a) \<and> linked s xs \<and>
     nxt s (last xs) = hd xs \<and> prv s (hd xs) = last xs"

lemma linked_append:
  "xs \<noteq> [] \<Longrightarrow> ys \<noteq> [] \<Longrightarrow>
     linked s (xs @ ys) \<longleftrightarrow> linked s xs \<and> linked s ys \<and> nxt s (last xs) = hd ys \<and> prv s (hd ys) = last xs"
proof (induction xs)
  case (Cons a xs)
  then show ?case by (cases xs; cases ys) auto
qed simp

lemma linked_frame:
  "(\<And>a. a \<in> set (butlast xs) \<Longrightarrow> nxt s' a = nxt s a) \<Longrightarrow>
   (\<And>a. a \<in> set (tl xs) \<Longrightarrow> prv s' a = prv s a) \<Longrightarrow> linked s' xs = linked s xs"
  by (induction s xs rule: linked.induct) auto

lemma not_in_butlast: "distinct xs \<Longrightarrow> xs \<noteq> [] \<Longrightarrow> a \<in> set (butlast xs) \<Longrightarrow> a \<noteq> last xs \<and> a \<in> set xs"
  by (induction xs) (auto split: if_splits dest: in_set_butlastD)

lemma not_in_tl: "distinct xs \<Longrightarrow> a \<in> set (tl xs) \<Longrightarrow> a \<noteq> hd xs \<and> a \<in> set xs"
  by (cases xs) auto

lemma linked_inner:
  assumes "distinct xs" "\<And>a. a \<in> set xs \<Longrightarrow> a \<noteq> last xs \<Longrightarrow> nxt s' a = nxt s a"
    "\<And>a. a \<in> set xs \<Longrightarrow> a \<noteq> hd xs \<Longrightarrow> prv s' a = prv s a"
  shows "linked s' xs = linked s xs"
proof (cases "xs = []")
  case False
  show ?thesis using assms(2,3) not_in_butlast [OF assms(1) False] not_in_tl [OF assms(1)]
    by (intro linked_frame) simp_all
qed simp

lemma ring_frame:
  assumes "ring s xs" "\<And>a. a \<in> set xs \<Longrightarrow> nxt s' a = nxt s a \<and> prv s' a = prv s a \<and> alive s' a"
  shows "ring s' xs"
proof -
  have "xs \<noteq> []" using assms(1) by (simp add: ring_def)
  then have "last xs \<in> set xs" "hd xs \<in> set xs" by simp_all
  moreover have "linked s' xs = linked s xs"
    using assms(2) by (intro linked_frame) (auto dest: in_set_butlastD list.set_sel(2) [OF \<open>xs \<noteq> []\<close>])
  ultimately show ?thesis using assms by (simp add: ring_def)
qed

text \<open>What the code does to append the ring of \<open>b2\<close> to that of \<open>b1\<close>.\<close>

definition join :: "nat \<Rightarrow> nat \<Rightarrow> 's \<Rightarrow> 's" where
  "join b1 b2 s =
     (let e1 = prv s b1;
          e2 = prv s b2 in
      set_nxt e2 b1 (set_nxt e1 b2 (set_prv b2 e1 (set_prv b1 e2 s))))"

lemma join_links:
  assumes "alive s b1" "alive s b2" "alive s (prv s b1)" "alive s (prv s b2)"
  shows "nxt (join b1 b2 s) c = (if c = prv s b2 then b1 else if c = prv s b1 then b2 else nxt s c)"
    "prv (join b1 b2 s) c = (if c = b2 then prv s b1 else if c = b1 then prv s b2 else prv s c)"
    "alive (join b1 b2 s) c = alive s c"
  using assms by (simp_all add: join_def Let_def links)

theorem ring_join:
  assumes "ring s xs" "ring s ys" "set xs \<inter> set ys = {}"
  shows "ring (join (hd xs) (hd ys) s) (xs @ ys)"
proof -
  let ?s = "join (hd xs) (hd ys) s"
  note x = assms(1) [unfolded ring_def]
  note y = assms(2) [unfolded ring_def]
  have e: "hd xs \<in> set xs" "last xs \<in> set xs" "hd ys \<in> set ys" "last ys \<in> set ys" using x y by simp_all
  then have ne: "hd xs \<noteq> hd ys" "last xs \<noteq> last ys" "last xs \<notin> set ys" "last ys \<notin> set xs"
    "hd xs \<notin> set ys" "hd ys \<notin> set xs" using assms(3) by auto
  have p: "prv s (hd xs) = last xs" "prv s (hd ys) = last ys" using x y by simp_all
  have j: "nxt ?s c = (if c = last ys then hd xs else if c = last xs then hd ys else nxt s c)"
    "prv ?s c = (if c = hd ys then last xs else if c = hd xs then last ys else prv s c)"
    "alive ?s c = alive s c" for c
    using x y e p join_links [of s "hd xs" "hd ys"] by auto
  have "linked ?s xs = linked s xs"
    using j x y ne by (intro linked_inner) auto
  moreover have "linked ?s ys = linked s ys"
    using j x y ne by (intro linked_inner) auto
  ultimately have "linked ?s (xs @ ys)" using x y ne by (simp add: linked_append j)
  then show ?thesis using x y j(3) assms(3) e ne by (auto simp: ring_def j)
qed

text \<open>Within one ring the same steps cut it in two.\<close>

theorem ring_split:
  assumes "ring s (xs @ ys)" "xs \<noteq> []" "ys \<noteq> []"
  shows "ring (join (hd xs) (hd ys) s) xs" "ring (join (hd xs) (hd ys) s) ys"
proof -
  let ?s = "join (hd xs) (hd ys) s"
  note r = assms(1) [unfolded ring_def linked_append [OF assms(2,3)]]
  have e: "hd xs \<in> set xs" "last xs \<in> set xs" "hd ys \<in> set ys" "last ys \<in> set ys" using assms(2,3) by simp_all
  have d: "distinct xs" "distinct ys" "set xs \<inter> set ys = {}" using r by auto
  then have ne: "hd xs \<noteq> hd ys" "last xs \<noteq> last ys" "last xs \<notin> set ys" "last ys \<notin> set xs"
    "hd xs \<notin> set ys" "hd ys \<notin> set xs" using e by auto
  have p: "prv s (hd xs) = last ys" "prv s (hd ys) = last xs" using r assms(2,3) by auto
  have j: "nxt ?s c = (if c = last xs then hd xs else if c = last ys then hd ys else nxt s c)"
    "prv ?s c = (if c = hd ys then last ys else if c = hd xs then last xs else prv s c)"
    "alive ?s c = alive s c" for c
    using r e p join_links [of s "hd xs" "hd ys"] by auto
  have "linked ?s xs = linked s xs"
    using j d ne by (intro linked_inner) auto
  moreover have "linked ?s ys = linked s ys"
    using j d ne by (intro linked_inner) auto
  ultimately show "ring ?s xs" "ring ?s ys" using r d ne assms(2,3) by (auto simp: ring_def j)
qed

text \<open>Taking one object out of a ring of several.\<close>

definition unlink :: "nat \<Rightarrow> 's \<Rightarrow> 's" where
  "unlink t s =
     (let p = prv s t;
          n = nxt s t in
      set_prv n p (set_nxt p n s))"

theorem ring_unlink:
  assumes "ring s (xs @ t # ys)" "xs @ ys \<noteq> []"
  shows "ring (unlink t s) (xs @ ys)"
proof -
  define p where "p = last (if xs = [] then ys else xs)"
  define n where "n = hd (if ys = [] then xs else ys)"
  note r = assms(1) [unfolded ring_def]
  have t: "nxt s t = n" "prv s t = p"
    using r assms(2) linked_append [of xs "t # ys" s] linked_append [of "[t]" ys s]
    by (cases "xs = []"; cases "ys = []"; auto simp: p_def n_def; fail)+
  have m: "p \<in> set (xs @ ys)" "n \<in> set (xs @ ys)" using assms(2) by (auto simp: p_def n_def)
  then have a: "alive s p" "alive s n" using r by auto
  have j: "nxt (unlink t s) c = (if c = p then n else nxt s c)"
    "prv (unlink t s) c = (if c = n then p else prv s c)" "alive (unlink t s) c = alive s c" for c
    using a by (simp_all add: unlink_def Let_def t links)
  have lx: "linked (unlink t s) xs"
  proof -
    have "linked s xs" using r linked_append [of xs "t # ys" s] by (cases "xs = []") simp_all
    moreover have "linked (unlink t s) xs = linked s xs" if "xs \<noteq> []"
    proof (rule linked_inner)
      have "hd ys \<notin> set xs" if "ys \<noteq> []" using r hd_in_set [OF that] by auto
      then show "\<And>a. a \<in> set xs \<Longrightarrow> a \<noteq> last xs \<Longrightarrow> nxt (unlink t s) a = nxt s a"
        "\<And>a. a \<in> set xs \<Longrightarrow> a \<noteq> hd xs \<Longrightarrow> prv (unlink t s) a = prv s a"
        using that by (auto simp: j p_def n_def)
    qed (use r in simp)
    ultimately show ?thesis by (cases "xs = []") simp_all
  qed
  have ly: "linked (unlink t s) ys"
  proof -
    have "linked s ys" using r linked_append [of xs "t # ys" s] linked_append [of "[t]" ys s]
      by (cases "xs = []"; cases "ys = []") simp_all
    moreover have "linked (unlink t s) ys = linked s ys" if "ys \<noteq> []"
    proof (rule linked_inner)
      have "last xs \<notin> set ys" if "xs \<noteq> []" using r last_in_set [OF that] by auto
      then show "\<And>a. a \<in> set ys \<Longrightarrow> a \<noteq> last ys \<Longrightarrow> nxt (unlink t s) a = nxt s a"
        "\<And>a. a \<in> set ys \<Longrightarrow> a \<noteq> hd ys \<Longrightarrow> prv (unlink t s) a = prv s a"
        using that by (auto simp: j p_def n_def)
    qed (use r in simp)
    ultimately show ?thesis by (cases "ys = []") simp_all
  qed
  have "linked (unlink t s) (xs @ ys)"
    using lx ly linked_append [of xs ys "unlink t s"] by (cases "xs = []"; cases "ys = []") (auto simp: j p_def n_def)
  moreover have "hd xs \<noteq> hd ys \<and> last xs \<noteq> last ys" if "xs \<noteq> []" "ys \<noteq> []"
    using r hd_in_set [OF that(1)] hd_in_set [OF that(2)] last_in_set [OF that(1)] last_in_set [OF that(2)] by auto
  then have "nxt (unlink t s) (last (xs @ ys)) = hd (xs @ ys)" "prv (unlink t s) (hd (xs @ ys)) = last (xs @ ys)"
    using r assms(2) by (cases "xs = []"; cases "ys = []"; simp add: j p_def n_def)+
  ultimately show ?thesis using r assms(2) by (auto simp: ring_def j)
qed

end

end
