(* ===== verification/Token.thy ===== *)
theory Token
  imports Cpdefines Ring Macro
begin

text \<open>
  Tokens as objects (\<open>token.c\<close>): blocks of 1000 from \<open>ckalloc\<close>, handed out one by one, put on a
  free list when they are released, and linked into rings.

  The address of a token is its index in \<open>tstore\<close>, which the blocks fill one after the other;
  \<open>tdead\<close> is the number of those in blocks that were given back.  Fields that \<open>f_TokenCreate\<close> does
  not set are those of the object's last use, and those of \<open>blank_cell\<close> when it has had none.
\<close>

section \<open>State\<close>

record tcell =
  cval :: token
  is_free :: bool
  pcValue :: "string option"
  TokenNext :: nat
  TokenPrev :: nat
  TokenFreeNext :: "nat option"

record tok_state =
  tstore :: "tcell list"
  tdead :: nat
  TokenFree_m :: "nat option"
  iTokenFree_m :: int
  iTokenFreeMallocArray :: nat
  iTokenFreeMalloc :: nat
  iTokenAll_m :: int
  iTokenFromMalloc_m :: int

definition blank_cell :: tcell where
  "blank_cell = \<lparr>cval = mk_token (Ch NUL) [], is_free = False, pcValue = None,
     TokenNext = 0, TokenPrev = 0, TokenFreeNext = None\<rparr>"

definition token_start :: tok_state where
  "token_start = \<lparr>tstore = [], tdead = 0, TokenFree_m = None, iTokenFree_m = 0,
     iTokenFreeMallocArray = 0, iTokenFreeMalloc = 0, iTokenAll_m = 0, iTokenFromMalloc_m = 0\<rparr>"

text \<open>Following a pointer.\<close>

definition valid :: "tok_state \<Rightarrow> nat \<Rightarrow> bool" where
  "valid st t \<longleftrightarrow> tdead st \<le> t \<and> t < length (tstore st)"

definition tok :: "tok_state \<Rightarrow> nat \<Rightarrow> tcell" where
  "tok st t = tstore st ! t"

definition get_tok :: "tok_state \<Rightarrow> nat \<Rightarrow> ub + tcell" where
  "get_tok st t = (if valid st t then Inr (tok st t) else Inl UseAfterFree)"

definition upd_tok :: "nat \<Rightarrow> (tcell \<Rightarrow> tcell) \<Rightarrow> tok_state \<Rightarrow> tok_state" where
  "upd_tok t f st = st\<lparr>tstore := (tstore st)[t := f (tstore st ! t)]\<rparr>"

section \<open>Operations\<close>

text \<open>The fields that a new token gets, from the free list or from a block.\<close>

definition init_tok :: "nat \<Rightarrow> tcell \<Rightarrow> tcell" where
  "init_tok t c = c\<lparr>cval := (cval c)\<lparr>tkeyword := KW_NONE, iParameter := -1\<rparr>, is_free := False,
     pcValue := None, TokenNext := t, TokenPrev := t, TokenFreeNext := None\<rparr>"

definition token_block :: "tok_state \<Rightarrow> ub + tok_state" where
  "token_block st =
     (if iTokenFreeMallocArray st \<ge> 100 then Inl OutOfBounds
      else Inr (st\<lparr>iTokenFreeMalloc := 1000, tstore := tstore st @ replicate 1000 blank_cell,
          iTokenFreeMallocArray := iTokenFreeMallocArray st + 1,
          iTokenAll_m := iTokenAll_m st + 1000, iTokenFree_m := iTokenFree_m st + 1000\<rparr>))"

text \<open>\<open>TokenFreeMalloc\<close> is the newest block, the last 1000 tokens of the store.\<close>

definition f_TokenCreate :: "tok_state \<Rightarrow> ub + nat \<times> tok_state" where
  "f_TokenCreate st =
     (case TokenFree_m st of
        Some t \<Rightarrow>
          sbind (get_tok st t) (\<lambda>c.
          let st = st\<lparr>TokenFree_m := TokenFreeNext c, iTokenFree_m := iTokenFree_m st - 1\<rparr> in
          Inr (t, upd_tok t (init_tok t) st))
      | None \<Rightarrow>
          sbind (if iTokenFreeMalloc st = 0 then token_block st else Inr st) (\<lambda>st.
          let t = length (tstore st) - 1000 + (iTokenFreeMalloc st - 1);
              st = st\<lparr>iTokenFreeMalloc := iTokenFreeMalloc st - 1,
                iTokenFromMalloc_m := iTokenFromMalloc_m st + 1, iTokenFree_m := iTokenFree_m st - 1\<rparr> in
          Inr (t, upd_tok t (init_tok t) st)))"

text \<open>Releasing a token twice is noticed: a message, and a write through the null pointer.\<close>

definition f_TokenFree :: "nat \<Rightarrow> tok_state \<Rightarrow> ub + tok_state" where
  "f_TokenFree t st =
     sbind (get_tok st t) (\<lambda>c.
     if is_free c then Inl NullPointer
     else
       let st' = upd_tok t (\<lambda>c. c\<lparr>is_free := True, pcValue := None, TokenFreeNext := TokenFree_m st\<rparr>) st in
       Inr (st'\<lparr>TokenFree_m := Some t, iTokenFree_m := iTokenFree_m st + 1\<rparr>))"

definition free_token_buffers :: "tok_state \<Rightarrow> tok_state" where
  "free_token_buffers st = st\<lparr>tdead := length (tstore st), iTokenFreeMallocArray := 0, iTokenFreeMalloc := 0\<rparr>"

text \<open>\<open>WHILE_TOKEN\<close>: here the next token is read before the body is run.\<close>

fun while_token :: "nat \<Rightarrow> (nat \<Rightarrow> tok_state \<Rightarrow> ub + tok_state) \<Rightarrow> nat \<Rightarrow> nat \<Rightarrow> tok_state \<Rightarrow> ub + tok_state" where
  "while_token 0 body TokenEnd t st = Inl NoReturn"
| "while_token (Suc n) body TokenEnd t st =
     sbind (get_tok st t) (\<lambda>c.
     let next = TokenNext c in
     sbind (body t st) (\<lambda>st.
     if next = TokenEnd then Inr st else while_token n body TokenEnd next st))"

definition f_TokenFreeAll :: "nat \<Rightarrow> nat option \<Rightarrow> tok_state \<Rightarrow> ub + tok_state" where
  "f_TokenFreeAll n t st =
     (case t of None \<Rightarrow> Inr st | Some t \<Rightarrow> while_token n f_TokenFree t t st)"

definition f_TokenAppend :: "nat option \<Rightarrow> nat option \<Rightarrow> tok_state \<Rightarrow> ub + nat option \<times> tok_state" where
  "f_TokenAppend beg1 beg2 st =
     (case beg1 of
        None \<Rightarrow> Inr (beg2, st)
      | Some b1 \<Rightarrow>
          sbind (get_tok st b1) (\<lambda>c1.
          case beg2 of
            None \<Rightarrow> Inl NullPointer
          | Some b2 \<Rightarrow>
              sbind (get_tok st b2) (\<lambda>c2.
              let e1 = TokenPrev c1;
                  e2 = TokenPrev c2;
                  st = upd_tok b1 (\<lambda>c. c\<lparr>TokenPrev := e2\<rparr>) st;
                  st = upd_tok b2 (\<lambda>c. c\<lparr>TokenPrev := e1\<rparr>) st in
              sbind (get_tok st e1) (\<lambda>_.
              sbind (get_tok st e2) (\<lambda>_.
              let st = upd_tok e1 (\<lambda>c. c\<lparr>TokenNext := b2\<rparr>) st;
                  st = upd_tok e2 (\<lambda>c. c\<lparr>TokenNext := b1\<rparr>) st in
              Inr (beg1, st))))))"

definition f_TokenDelete :: "nat \<Rightarrow> tok_state \<Rightarrow> ub + tok_state" where
  "f_TokenDelete t st =
     sbind (get_tok st t) (\<lambda>c.
     sbind (get_tok st (TokenPrev c)) (\<lambda>_.
     let st = upd_tok (TokenPrev c) (\<lambda>p. p\<lparr>TokenNext := TokenNext c\<rparr>) st in
     sbind (get_tok st (TokenNext c)) (\<lambda>_.
     Inr (upd_tok (TokenNext c) (\<lambda>n. n\<lparr>TokenPrev := TokenPrev c\<rparr>) st))))"

text \<open>The mode of a token is not copied: that of the object's last use stays.\<close>

definition duplicate_fields :: "token \<Rightarrow> token \<Rightarrow> token" where
  "duplicate_fields t r =
     r\<lparr>tlex := tlex t, ttext := ttext t, tkeyword := tkeyword t, tis_cpp := tis_cpp t,
       iParameter := iParameter t, lineno_beg := lineno_beg t, charno_beg := charno_beg t,
       lineno_end := lineno_end t, charno_end := charno_end t\<rparr>"

definition duplicate_object :: "nat \<Rightarrow> tok_state \<Rightarrow> ub + nat \<times> tok_state" where
  "duplicate_object t st =
     sbind (f_TokenCreate st) (\<lambda>(r, st).
     sbind (get_tok st t) (\<lambda>c.
     Inr (r, upd_tok r (\<lambda>d. d\<lparr>cval := duplicate_fields (cval c) (cval d)\<rparr>) st)))"

end
