(* ===== verification/Token_Props.thy ===== *)
theory Token_Props
  imports Token Process_Props
begin

text \<open>
  Tokens that are handed out are not in use, a ring that is appended, cut or released behaves as
  the list of its objects, and where the allocation of tokens breaks down.
\<close>

section \<open>Rings of tokens and of macros\<close>

lemma valid_upd [simp]: "valid (upd_tok t f st) u = valid st u"
  by (simp add: valid_def upd_tok_def)

lemma tok_upd: "valid st t \<Longrightarrow> tok (upd_tok t f st) u = (if u = t then f (tok st t) else tok st u)"
  by (simp add: tok_def upd_tok_def valid_def)

interpretation token_ring: ring_links
  "\<lambda>st t. TokenNext (tok st t)" "\<lambda>st t. TokenPrev (tok st t)"
  "\<lambda>t u. upd_tok t (\<lambda>c. c\<lparr>TokenNext := u\<rparr>)" "\<lambda>t u. upd_tok t (\<lambda>c. c\<lparr>TokenPrev := u\<rparr>)" valid
  by unfold_locales (auto simp: tok_upd)

interpretation macro_ring: ring_links
  "\<lambda>st m. MacroNext (mstore st ! m)" "\<lambda>st m. MacroPrev (mstore st ! m)"
  "\<lambda>m u. upd_macro m (\<lambda>M. M\<lparr>MacroNext := u\<rparr>)" "\<lambda>m u. upd_macro m (\<lambda>M. M\<lparr>MacroPrev := u\<rparr>)"
  "\<lambda>st m. m < length (mstore st)"
  by unfold_locales (auto simp: upd_macro_def nth_list_update)

lemma ring_pointers:
  assumes "token_ring.ring st xs"
  shows "valid st (hd xs)" "valid st (TokenPrev (tok st (hd xs)))" "TokenPrev (tok st (hd xs)) = last xs"
  using assms by (auto simp: token_ring.ring_def)

lemma f_TokenAppend_join:
  assumes "token_ring.ring st xs" "valid st (hd ys)" "valid st (TokenPrev (tok st (hd ys)))"
  shows "f_TokenAppend (Some (hd xs)) (Some (hd ys)) st = Inr (Some (hd xs), token_ring.join (hd xs) (hd ys) st)"
  using ring_pointers [OF assms(1)] assms(2,3)
  by (simp add: f_TokenAppend_def get_tok_def token_ring.join_def Let_def tok_upd)

lemma f_MacroAppend_join:
  assumes "macro_ring.ring st xs" "b < length (mstore st)" "MacroPrev (mstore st ! b) < length (mstore st)"
  shows "f_MacroAppend (Some (hd xs)) b st = Inr (Some (hd xs), macro_ring.join (hd xs) b st)"
  using assms
  by (auto simp: f_MacroAppend_def get_macro_def macro_ring.join_def macro_ring.ring_def Let_def)

text \<open>C32: Appending one ring of tokens to another is concatenation: the result begins with the first
  token of the first ring and holds the tokens of both in order, linked both ways, and a ring that
  has no token in common with them is not touched.\<close>

theorem token_append_concat:
  assumes "token_ring.ring st xs" "token_ring.ring st ys" "set xs \<inter> set ys = {}"
    "token_ring.ring st zs" "set zs \<inter> set (xs @ ys) = {}"
  shows "\<exists>st'. f_TokenAppend (Some (hd xs)) (Some (hd ys)) st = Inr (Some (hd xs), st') \<and>
    token_ring.ring st' (xs @ ys) \<and> token_ring.ring st' zs"
proof -
  let ?st = "token_ring.join (hd xs) (hd ys) st"
  have ne: "xs \<noteq> []" "ys \<noteq> []" using assms by (auto simp: token_ring.ring_def)
  note px = ring_pointers [OF assms(1)]
  note py = ring_pointers [OF assms(2)]
  have "token_ring.ring ?st zs"
  proof (rule token_ring.ring_frame [OF assms(4)])
    fix a
    assume "a \<in> set zs"
    then have "a \<notin> {hd xs, hd ys, last xs, last ys}" "valid st a" using assms(4,5) ne by (auto simp: token_ring.ring_def)
    then show "TokenNext (tok ?st a) = TokenNext (tok st a) \<and> TokenPrev (tok ?st a) = TokenPrev (tok st a) \<and> valid ?st a"
      using px py token_ring.join_links [of st "hd xs" "hd ys"] by simp
  qed
  then show ?thesis using f_TokenAppend_join [OF assms(1) py(1,2)] token_ring.ring_join [OF assms(1-3)] by blast
qed

text \<open>Appending a ring of macros is concatenation when the two rings have no macro in common.
  A macro that is met again while it is in the ring already, and does not begin it, cuts the ring
  instead: the part from this macro on is lost to the caller.\<close>

theorem macro_append_cuts:
  assumes "if b \<in> set xs then xs = us @ b # vs \<and> us \<noteq> [] else ys = b # vs \<and> macro_ring.ring st ys \<and> set xs \<inter> set ys = {}"
    "macro_ring.ring st xs"
  shows "\<exists>st'. f_MacroAppend (Some (hd xs)) b st = Inr (Some (hd xs), st') \<and>
    (if b \<in> set xs then macro_ring.ring st' us \<and> macro_ring.ring st' (b # vs) else macro_ring.ring st' (xs @ ys))"
proof (cases "b \<in> set xs")
  case True
  then have x: "xs = us @ b # vs" "us \<noteq> []" using assms(1) by auto
  then have "MacroPrev (mstore st ! b) = last us" "last us \<in> set xs"
    using assms(2) macro_ring.linked_append [of us "b # vs"] by (auto simp: macro_ring.ring_def)
  then have "b < length (mstore st)" "MacroPrev (mstore st ! b) < length (mstore st)"
    using assms(2) True by (simp_all add: macro_ring.ring_def)
  from f_MacroAppend_join [OF assms(2) this] show ?thesis
    using macro_ring.ring_split [OF assms(2) [unfolded x(1)] x(2)] x True by simp
next
  case False
  then have y: "ys = b # vs" "macro_ring.ring st ys" "set xs \<inter> set ys = {}" using assms(1) by auto
  then have "b < length (mstore st)" "MacroPrev (mstore st ! b) < length (mstore st)"
    by (auto simp: macro_ring.ring_def)
  from f_MacroAppend_join [OF assms(2) this] show ?thesis
    using macro_ring.ring_join [OF assms(2) y(2,3)] y(1) False by simp
qed

section \<open>The free list\<close>

text \<open>The tokens of the newest block that were not handed out yet.\<close>

definition unused :: "tok_state \<Rightarrow> nat \<Rightarrow> bool" where
  "unused st t \<longleftrightarrow> length (tstore st) - 1000 \<le> t \<and> t < length (tstore st) - 1000 + iTokenFreeMalloc st"

definition live :: "tok_state \<Rightarrow> nat \<Rightarrow> bool" where
  "live st t \<longleftrightarrow> valid st t \<and> \<not> unused st t \<and> \<not> is_free (tok st t)"

fun free_path :: "tok_state \<Rightarrow> nat option \<Rightarrow> nat list \<Rightarrow> bool" where
  "free_path st p [] \<longleftrightarrow> p = None"
| "free_path st p (t # ts) \<longleftrightarrow> p = Some t \<and> free_path st (TokenFreeNext (tok st t)) ts"

definition tok_inv :: "tok_state \<Rightarrow> nat list \<Rightarrow> bool" where
  "tok_inv st fs \<longleftrightarrow> free_path st (TokenFree_m st) fs \<and> distinct fs \<and>
     set fs = {t. valid st t \<and> \<not> unused st t \<and> is_free (tok st t)} \<and>
     iTokenFree_m st = int (length fs + iTokenFreeMalloc st) \<and> iTokenFreeMalloc st \<le> 1000 \<and>
     length (tstore st) = tdead st + 1000 * iTokenFreeMallocArray st \<and>
     (iTokenFreeMallocArray st = 0 \<longrightarrow> iTokenFreeMalloc st = 0) \<and> iTokenFreeMallocArray st \<le> 100"

lemma free_path_frame:
  "(\<And>t. t \<in> set ts \<Longrightarrow> TokenFreeNext (tok st' t) = TokenFreeNext (tok st t)) \<Longrightarrow>
     free_path st' p ts = free_path st p ts"
  by (induction ts arbitrary: p) auto

lemma upd_tok_simps [simp]:
  "TokenFree_m (upd_tok t f st) = TokenFree_m st" "iTokenFree_m (upd_tok t f st) = iTokenFree_m st"
  "iTokenFreeMalloc (upd_tok t f st) = iTokenFreeMalloc st" "tdead (upd_tok t f st) = tdead st"
  "iTokenFreeMallocArray (upd_tok t f st) = iTokenFreeMallocArray st"
  "length (tstore (upd_tok t f st)) = length (tstore st)" "unused (upd_tok t f st) u = unused st u"
  by (simp_all add: upd_tok_def unused_def)

lemma tok_more [simp]:
  "tok (st\<lparr>TokenFree_m := p\<rparr>) u = tok st u" "tok (st\<lparr>iTokenFree_m := k\<rparr>) u = tok st u"
  "tok (st\<lparr>iTokenFreeMalloc := n\<rparr>) u = tok st u" "tok (st\<lparr>iTokenFromMalloc_m := k\<rparr>) u = tok st u"
  "valid (st\<lparr>TokenFree_m := p\<rparr>) u = valid st u" "valid (st\<lparr>iTokenFree_m := k\<rparr>) u = valid st u"
  "valid (st\<lparr>iTokenFreeMalloc := n\<rparr>) u = valid st u" "valid (st\<lparr>iTokenFromMalloc_m := k\<rparr>) u = valid st u"
  "unused (st\<lparr>TokenFree_m := p\<rparr>) u = unused st u" "unused (st\<lparr>iTokenFree_m := k\<rparr>) u = unused st u"
  "unused (st\<lparr>iTokenFromMalloc_m := k\<rparr>) u = unused st u"
  by (simp_all add: tok_def valid_def unused_def)

lemma init_tok_simps [simp]:
  "\<not> is_free (init_tok t c)" "TokenNext (init_tok t c) = t" "TokenPrev (init_tok t c) = t"
  by (simp_all add: init_tok_def)

text \<open>What is promised of the token \<open>t\<close> that \<open>f_TokenCreate\<close> returns in the state \<open>st'\<close>.\<close>

definition fresh_token :: "tok_state \<Rightarrow> nat \<Rightarrow> tok_state \<Rightarrow> bool" where
  "fresh_token st t st' \<longleftrightarrow> \<not> live st t \<and> token_ring.ring st' [t] \<and>
     (\<forall>u. live st' u \<longleftrightarrow> live st u \<or> u = t) \<and> (\<forall>u. live st u \<longrightarrow> tok st' u = tok st u \<and> valid st' u)"

lemma fresh_tokenI:
  assumes "\<not> live st t" "valid s t" "\<not> unused s t"
    "\<And>u. u \<noteq> t \<Longrightarrow> valid s u \<and> \<not> unused s u \<and> \<not> is_free (tok s u) \<longleftrightarrow> live st u"
    "\<And>u. live st u \<Longrightarrow> tok s u = tok st u"
  shows "fresh_token st t (upd_tok t (init_tok t) s)"
proof -
  have "live (upd_tok t (init_tok t) s) u \<longleftrightarrow> live st u \<or> u = t" for u
    using assms(2-4) by (auto simp: live_def [of "upd_tok t (init_tok t) s"] tok_upd)
  moreover have "token_ring.ring (upd_tok t (init_tok t) s) [t]"
    using assms(2) by (simp add: token_ring.ring_def tok_upd)
  moreover have "tok (upd_tok t (init_tok t) s) u = tok st u \<and> valid s u" if "live st u" for u
    using that assms by (cases "u = t") (auto simp: tok_upd)
  ultimately show ?thesis using assms(1) by (simp add: fresh_token_def)
qed

lemma create_from_list:
  assumes "tok_inv st (t # fs)"
  shows "\<exists>st'. f_TokenCreate st = Inr (t, st') \<and> fresh_token st t st' \<and> tok_inv st' fs"
proof -
  note i = assms [unfolded tok_inv_def free_path.simps]
  have t: "valid st t" "\<not> unused st t" "is_free (tok st t)" using i by auto
  define s where "s = st\<lparr>TokenFree_m := TokenFreeNext (tok st t), iTokenFree_m := iTokenFree_m st - 1\<rparr>"
  have s: "valid s u = valid st u" "unused s u = unused st u" "tok s u = tok st u" for u by (simp_all add: s_def)
  have "f_TokenCreate st = Inr (t, upd_tok t (init_tok t) s)"
    using i t by (simp add: f_TokenCreate_def get_tok_def s_def)
  moreover have "fresh_token st t (upd_tok t (init_tok t) s)"
    by (rule fresh_tokenI) (use t in \<open>auto simp: live_def s\<close>)
  moreover have "tok_inv (upd_tok t (init_tok t) s) fs"
    unfolding tok_inv_def
  proof (intro conjI)
    have "free_path (upd_tok t (init_tok t) s) (TokenFreeNext (tok st t)) fs = free_path st (TokenFreeNext (tok st t)) fs"
      using i t(1) by (intro free_path_frame) (auto simp: tok_upd s)
    then show "free_path (upd_tok t (init_tok t) s) (TokenFree_m (upd_tok t (init_tok t) s)) fs"
      using i by (simp add: s_def)
    show "set fs = {u. valid (upd_tok t (init_tok t) s) u \<and> \<not> unused (upd_tok t (init_tok t) s) u \<and>
        is_free (tok (upd_tok t (init_tok t) s) u)}"
      using i t(1) by (auto simp: tok_upd s split: if_splits)
  qed (use i in \<open>simp_all add: s_def\<close>)
  ultimately show ?thesis by blast
qed

lemma block_ok:
  assumes "tok_inv st []" "iTokenFreeMalloc st = 0" "iTokenFreeMallocArray st < 100"
  obtains s where "token_block st = Inr s" "tok_inv s []" "iTokenFreeMalloc s = 1000"
    "\<And>u. live s u = live st u" "\<And>u. live st u \<Longrightarrow> tok s u = tok st u" "TokenFree_m s = None"
    "iTokenFreeMallocArray s = iTokenFreeMallocArray st + 1"
proof -
  note i = assms(1) [unfolded tok_inv_def]
  define s where "s = st\<lparr>iTokenFreeMalloc := 1000, tstore := tstore st @ replicate 1000 blank_cell,
      iTokenFreeMallocArray := iTokenFreeMallocArray st + 1,
      iTokenAll_m := iTokenAll_m st + 1000, iTokenFree_m := iTokenFree_m st + 1000\<rparr>"
  have u: "\<not> unused st u" for u using assms(2) by (auto simp: unused_def)
  have v: "valid s u \<and> \<not> unused s u \<longleftrightarrow> valid st u" for u
    using i by (auto simp: s_def valid_def unused_def)
  have t: "tok s u = tok st u" if "valid st u" for u using that by (simp add: s_def tok_def valid_def nth_append)
  have "{u. valid st u \<and> is_free (tok st u)} = {}" using i u by auto
  moreover have "valid s u \<and> \<not> unused s u \<and> is_free (tok s u) \<longleftrightarrow> valid st u \<and> is_free (tok st u)" for u
    using v [of u] t [of u] by auto
  ultimately have e: "{u. valid s u \<and> \<not> unused s u \<and> is_free (tok s u)} = {}" by simp
  have "tok_inv s []" unfolding tok_inv_def
    using i assms(2,3) e by (simp add: s_def)
  moreover have "live s u = live st u" for u using u v [of u] t [of u] by (auto simp: live_def)
  moreover have "live st u \<Longrightarrow> tok s u = tok st u" for u using t by (simp add: live_def)
  moreover have "token_block st = Inr s" using assms(3) by (simp add: token_block_def s_def)
  moreover have "TokenFree_m s = None" using i by (simp add: s_def)
  ultimately show thesis using that by (simp add: s_def)
qed

lemma create_from_unused:
  assumes "tok_inv st []" "iTokenFreeMalloc st > 0"
  shows "\<exists>t st'. f_TokenCreate st = Inr (t, st') \<and> fresh_token st t st' \<and> tok_inv st' [] \<and>
    iTokenFreeMalloc st' = iTokenFreeMalloc st - 1 \<and> iTokenFreeMallocArray st' = iTokenFreeMallocArray st"
proof -
  note i = assms(1) [unfolded tok_inv_def]
  define t where "t = length (tstore st) - 1000 + (iTokenFreeMalloc st - 1)"
  define s where "s = st\<lparr>iTokenFreeMalloc := iTokenFreeMalloc st - 1,
      iTokenFromMalloc_m := iTokenFromMalloc_m st + 1, iTokenFree_m := iTokenFree_m st - 1\<rparr>"
  have "1 \<le> iTokenFreeMallocArray st" using i assms(2) by auto
  then have l: "1000 \<le> length (tstore st)" "tdead st \<le> length (tstore st) - 1000" using i by auto
  have t: "unused st t" "valid st t" using l i assms(2) by (auto simp: t_def unused_def valid_def)
  have s: "valid s u = valid st u" "tok s u = tok st u" "unused s u \<longleftrightarrow> unused st u \<and> u \<noteq> t" for u
    using assms(2) by (auto simp: s_def unused_def t_def)
  have "f_TokenCreate st = Inr (t, upd_tok t (init_tok t) s)"
    using i assms(2) by (simp add: f_TokenCreate_def Let_def s_def t_def)
  moreover have "fresh_token st t (upd_tok t (init_tok t) s)"
    by (rule fresh_tokenI) (use t in \<open>auto simp: live_def s\<close>)
  moreover have "tok_inv (upd_tok t (init_tok t) s) []"
    unfolding tok_inv_def
  proof (intro conjI)
    show "set [] = {u. valid (upd_tok t (init_tok t) s) u \<and> \<not> unused (upd_tok t (init_tok t) s) u \<and>
        is_free (tok (upd_tok t (init_tok t) s) u)}"
      using i t by (auto simp: tok_upd s split: if_splits)
  qed (use i assms(2) in \<open>auto simp: s_def\<close>)
  ultimately show ?thesis by (force simp: s_def)
qed

text \<open>How many tokens can still be taken from blocks.\<close>

definition room :: "tok_state \<Rightarrow> nat" where
  "room st = iTokenFreeMalloc st + 1000 * (100 - iTokenFreeMallocArray st)"

lemma create_exhausted:
  assumes "tok_inv st []" "room st = 0"
  shows "f_TokenCreate st = Inl OutOfBounds"
  using assms by (simp add: f_TokenCreate_def token_block_def tok_inv_def room_def)

lemma create_from_block:
  assumes "tok_inv st []" "room st > 0"
  shows "\<exists>t st'. f_TokenCreate st = Inr (t, st') \<and> fresh_token st t st' \<and> tok_inv st' [] \<and> room st' = room st - 1"
proof (cases "iTokenFreeMalloc st > 0")
  case True
  then show ?thesis using create_from_unused [OF assms(1)] by (auto simp: room_def)
next
  case False
  then have st: "tok_inv st []" "iTokenFreeMalloc st = 0" "iTokenFreeMallocArray st < 100"
    using assms by (auto simp: room_def)
  obtain s where s: "token_block st = Inr s" "tok_inv s []" "iTokenFreeMalloc s = 1000"
    "\<And>u. live s u = live st u" "\<And>u. live st u \<Longrightarrow> tok s u = tok st u" "TokenFree_m s = None"
    "iTokenFreeMallocArray s = iTokenFreeMallocArray st + 1"
    by (rule block_ok [OF st]) blast
  obtain t st' where t: "f_TokenCreate s = Inr (t, st')" "fresh_token s t st'" "tok_inv st' []"
    "iTokenFreeMalloc st' = iTokenFreeMalloc s - 1" "iTokenFreeMallocArray st' = iTokenFreeMallocArray s"
    using create_from_unused [OF s(2)] s(3) by auto
  have "f_TokenCreate st = f_TokenCreate s"
    using st s by (simp add: f_TokenCreate_def tok_inv_def)
  moreover have "room st' = room st - 1" using t(4,5) s(3,7) st(2,3) by (simp add: room_def)
  moreover have "fresh_token st t st'" using t(2) s(4,5) by (simp add: fresh_token_def)
  ultimately show ?thesis using t by auto
qed

text \<open>C31: A token from \<open>f_TokenCreate\<close> is one that nobody holds: it was not in use, it is a ring of
  its own, every token that was in use still is and has its contents, and the bookkeeping is
  right, with the free list losing its first token if it had one.  It fails only when the free
  list is empty and all of 100 blocks are handed out.\<close>

theorem token_create_fresh:
  assumes "tok_inv st fs" "fs \<noteq> [] \<or> room st > 0"
  shows "\<exists>t st'. f_TokenCreate st = Inr (t, st') \<and> \<not> live st t \<and> token_ring.ring st' [t] \<and>
    (\<forall>u. live st' u \<longleftrightarrow> live st u \<or> u = t) \<and> (\<forall>u. live st u \<longrightarrow> tok st' u = tok st u) \<and> tok_inv st' (tl fs)"
proof (cases fs)
  case (Cons t ts)
  then show ?thesis using create_from_list [of st t ts] assms(1) by (auto simp: fresh_token_def)
next
  case Nil
  then show ?thesis using create_from_block [of st] assms by (auto simp: fresh_token_def)
qed

section \<open>The limit\<close>

fun create_many :: "nat \<Rightarrow> tok_state \<Rightarrow> ub + tok_state" where
  "create_many 0 st = Inr st"
| "create_many (Suc n) st = sbind (f_TokenCreate st) (\<lambda>(t, st). create_many n st)"

lemma create_many_room:
  "tok_inv st [] \<Longrightarrow> (if n \<le> room st then \<exists>st'. create_many n st = Inr st' else create_many n st = Inl OutOfBounds)"
proof (induction n arbitrary: st)
  case (Suc n)
  show ?case
  proof (cases "room st")
    case 0
    then show ?thesis using create_exhausted [OF Suc.prems] by simp
  next
    case (Suc k)
    then obtain t st' where "f_TokenCreate st = Inr (t, st')" "tok_inv st' []" "room st' = k"
      using create_from_block [OF Suc.prems] by auto
    then show ?thesis using Suc.IH [of st'] \<open>room st = Suc k\<close> by simp
  qed
qed simp

lemma start_tok_inv: "tok_inv token_start []"
  by (auto simp: tok_inv_def token_start_def valid_def)

text \<open>The program can hold at most 100000 tokens: creating tokens without releasing any works
  that often, and the next one writes behind the array of the blocks.\<close>

theorem token_limit:
  "if n \<le> 100000 then \<exists>st. create_many n token_start = Inr st else create_many n token_start = Inl OutOfBounds"
  using create_many_room [OF start_tok_inv, of n] by (simp add: room_def token_start_def)

section \<open>Releasing\<close>

lemma f_TokenFree_ok:
  assumes "tok_inv st fs" "live st t"
  shows "\<exists>st'. f_TokenFree t st = Inr st' \<and> tok_inv st' (t # fs) \<and>
    (\<forall>u. live st' u \<longleftrightarrow> live st u \<and> u \<noteq> t) \<and> (\<forall>u. TokenNext (tok st' u) = TokenNext (tok st u))"
proof -
  note i = assms(1) [unfolded tok_inv_def]
  have t: "valid st t" "\<not> unused st t" "\<not> is_free (tok st t)" using assms(2) by (simp_all add: live_def)
  then have n: "t \<notin> set fs" using i by auto
  define s where "s = upd_tok t (\<lambda>c. c\<lparr>is_free := True, pcValue := None, TokenFreeNext := TokenFree_m st\<rparr>) st"
  define st' where "st' = s\<lparr>TokenFree_m := Some t, iTokenFree_m := iTokenFree_m st + 1\<rparr>"
  have r: "f_TokenFree t st = Inr st'" using t by (simp add: f_TokenFree_def get_tok_def st'_def s_def)
  have c: "tok st' u = (if u = t then (tok st t)\<lparr>is_free := True, pcValue := None, TokenFreeNext := TokenFree_m st\<rparr> else tok st u)"
    "valid st' u = valid st u" "unused st' u = unused st u" for u
    using t(1) by (simp_all add: st'_def s_def tok_upd)
  have "tok_inv st' (t # fs)" unfolding tok_inv_def
  proof (intro conjI)
    have "free_path st' (TokenFree_m st) fs = free_path st (TokenFree_m st) fs"
      using n by (intro free_path_frame) (auto simp: c)
    then show "free_path st' (TokenFree_m st') (t # fs)" using i by (simp add: c) (simp add: st'_def)
    show "set (t # fs) = {u. valid st' u \<and> \<not> unused st' u \<and> is_free (tok st' u)}"
      using i t by (auto simp: c)
  qed (use i n in \<open>simp_all add: st'_def s_def\<close>)
  moreover have "live st' u \<longleftrightarrow> live st u \<and> u \<noteq> t" for u by (auto simp: live_def c)
  moreover have "TokenNext (tok st' u) = TokenNext (tok st u)" for u by (simp add: c)
  ultimately show ?thesis using r by blast
qed

fun chain :: "tok_state \<Rightarrow> nat list \<Rightarrow> nat \<Rightarrow> bool" where
  "chain st [] e \<longleftrightarrow> True"
| "chain st (t # ts) e \<longleftrightarrow> TokenNext (tok st t) = (case ts of [] \<Rightarrow> e | u # _ \<Rightarrow> u) \<and> chain st ts e"

lemma ring_chain:
  assumes "token_ring.ring st xs"
  shows "chain st xs (hd xs)"
proof -
  have "token_ring.linked st xs \<Longrightarrow> xs \<noteq> [] \<Longrightarrow> TokenNext (tok st (last xs)) = e \<Longrightarrow> chain st xs e" for e
    by (induction st xs rule: token_ring.linked.induct) auto
  then show ?thesis using assms by (simp add: token_ring.ring_def)
qed

lemma chain_frame: "(\<And>u. TokenNext (tok st' u) = TokenNext (tok st u)) \<Longrightarrow> chain st' ts e = chain st ts e"
  by (induction ts) (auto split: list.split)

lemma while_free:
  assumes "tok_inv st fs" "chain st (t # ts) e" "distinct (t # ts)" "e \<notin> set ts" "\<forall>u \<in> set (t # ts). live st u"
  shows "\<exists>st'. while_token (Suc (length ts)) f_TokenFree e t st = Inr st' \<and> tok_inv st' (rev (t # ts) @ fs) \<and>
    (\<forall>u. live st' u \<longleftrightarrow> live st u \<and> u \<notin> set (t # ts))"
  using assms
proof (induction ts arbitrary: t st fs)
  case Nil
  then have "live st t" by simp
  from f_TokenFree_ok [OF Nil(1) this] obtain st' where s: "f_TokenFree t st = Inr st'" "tok_inv st' (t # fs)"
    "\<forall>u. live st' u \<longleftrightarrow> live st u \<and> u \<noteq> t" by blast
  then show ?case using Nil by (simp add: get_tok_def live_def [of st t])
next
  case (Cons u us)
  then have l: "live st t" by simp
  from f_TokenFree_ok [OF Cons.prems(1) l] obtain s where s: "f_TokenFree t st = Inr s" "tok_inv s (t # fs)"
    "\<forall>u. live s u \<longleftrightarrow> live st u \<and> u \<noteq> t" "\<forall>u. TokenNext (tok s u) = TokenNext (tok st u)" by blast
  have n: "TokenNext (tok st t) = u" "u \<noteq> e" using Cons.prems(2,4) by auto
  have "\<exists>st'. while_token (Suc (length us)) f_TokenFree e u s = Inr st' \<and> tok_inv st' (rev (u # us) @ t # fs) \<and>
    (\<forall>v. live st' v \<longleftrightarrow> live s v \<and> v \<notin> set (u # us))"
    using Cons.prems chain_frame [OF s(4) [rule_format]] s(3,4) by (intro Cons.IH s(2)) auto
  then obtain st' where w: "while_token (Suc (length us)) f_TokenFree e u s = Inr st'"
    "tok_inv st' (rev (u # us) @ t # fs)" "\<forall>v. live st' v \<longleftrightarrow> live s v \<and> v \<notin> set (u # us)" by blast
  have "while_token (Suc (length (u # us))) f_TokenFree e t st = Inr st'"
    using n s(1) w(1) l by (simp add: get_tok_def live_def [of st t])
  then show ?case using w(2,3) s(3) by auto
qed

text \<open>Releasing a ring of tokens in use releases each of them once, although the links are read
  while the tokens are released: afterwards they are first on the free list, last one first, and
  exactly these are no longer in use.  Releasing the ring again is detected.  After the blocks
  were given back the free list is not: the next token that is asked for is one of a block that
  no longer exists.\<close>

theorem token_free_ring:
  assumes "tok_inv st fs" "token_ring.ring st xs" "\<forall>t \<in> set xs. live st t"
  shows "\<exists>st'. f_TokenFreeAll (length xs) (Some (hd xs)) st = Inr st' \<and> tok_inv st' (rev xs @ fs) \<and>
    (\<forall>t. live st' t \<longleftrightarrow> live st t \<and> t \<notin> set xs) \<and>
    f_TokenFreeAll (length xs) (Some (hd xs)) st' = Inl NullPointer \<and>
    f_TokenCreate (free_token_buffers st') = Inl UseAfterFree"
proof -
  obtain t ts where xs: "xs = t # ts" using assms(2) by (cases xs) (auto simp: token_ring.ring_def)
  have d: "distinct (t # ts)" using assms(2) xs by (simp add: token_ring.ring_def)
  obtain st' where s: "while_token (Suc (length ts)) f_TokenFree t t st = Inr st'" "tok_inv st' (rev (t # ts) @ fs)"
    "\<forall>u. live st' u \<longleftrightarrow> live st u \<and> u \<notin> set (t # ts)"
    using while_free [OF assms(1), of t ts t] ring_chain [OF assms(2)] d assms(3) xs by auto
  have "t \<in> set (rev (t # ts) @ fs)" by simp
  then have "valid st' t" "is_free (tok st' t)" using s(2) unfolding tok_inv_def by auto
  then have again: "f_TokenFreeAll (length xs) (Some (hd xs)) st' = Inl NullPointer"
    by (simp add: xs f_TokenFreeAll_def get_tok_def f_TokenFree_def)
  obtain u us where u: "rev (t # ts) @ fs = u # us" by (cases "rev (t # ts) @ fs") auto
  then have "free_path st' (TokenFree_m st') (u # us)" "set (u # us) = {t. valid st' t \<and> \<not> unused st' t \<and> is_free (tok st' t)}"
    using s(2) unfolding u tok_inv_def by blast+
  then have "TokenFree_m st' = Some u" "valid st' u" by auto
  then have "f_TokenCreate (free_token_buffers st') = Inl UseAfterFree"
    by (simp add: f_TokenCreate_def free_token_buffers_def get_tok_def valid_def)
  with again s xs show ?thesis by (auto simp: f_TokenFreeAll_def)
qed

lemma f_TokenDelete_unlink:
  assumes "token_ring.ring st xs" "t \<in> set xs"
  shows "f_TokenDelete t st = Inr (token_ring.unlink t st)"
proof -
  obtain us vs where "xs = us @ t # vs" using split_list [OF assms(2)] by blast
  then have "TokenPrev (tok st t) \<in> set xs \<and> TokenNext (tok st t) \<in> set xs"
    using assms(1) token_ring.linked_append [of us "t # vs" st] token_ring.linked_append [of "[t]" vs st]
    by (cases "us = []"; cases "vs = []") (auto simp: token_ring.ring_def)
  then show ?thesis using assms
    by (auto simp: f_TokenDelete_def get_tok_def token_ring.unlink_def token_ring.ring_def Let_def)
qed

text \<open>Deleting a token from a ring of several leaves the ring of the others.\<close>

theorem token_delete_others:
  assumes "token_ring.ring st (xs @ t # ys)" "xs @ ys \<noteq> []"
  shows "\<exists>st'. f_TokenDelete t st = Inr st' \<and> token_ring.ring st' (xs @ ys)"
  using f_TokenDelete_unlink [OF assms(1)] token_ring.ring_unlink [OF assms] by simp

section \<open>Witnesses\<close>

definition three_tokens :: tok_state where
  "three_tokens = token_start\<lparr>tstore := map (\<lambda>t. init_tok t blank_cell) [0, 1, 2]\<rparr>"

theorem token_append_concat_witness:
  "\<exists>st. f_TokenAppend (Some 0) (Some 1) three_tokens = Inr (Some 0, st) \<and>
     token_ring.ring st [0, 1] \<and> token_ring.ring st [2]"
proof -
  have "token_ring.ring three_tokens [0]" "token_ring.ring three_tokens [1]" "token_ring.ring three_tokens [2]"
    unfolding token_ring.ring_def token_ring.linked.simps by (simp_all add: three_tokens_def valid_def tok_def token_start_def)
  from token_append_concat [OF this(1,2) _ this(3)] show ?thesis by auto
qed

definition two_macros :: pstate where
  "two_macros = \<lparr>mstore = [(fresh_macro 0 ''A'')\<lparr>MacroNext := 1, MacroPrev := 1\<rparr>, fresh_macro 0 ''B''],
     mcache = None, iMacroCount = 0, TokenProcessInput = [], TokenProcessPos = None, TokenProcessUnput = None\<rparr>"

theorem macro_append_cuts_witness:
  "\<exists>st. f_MacroAppend (Some 0) 1 two_macros = Inr (Some 0, st) \<and> macro_ring.ring st [0] \<and> macro_ring.ring st [1]"
proof -
  have "macro_ring.ring two_macros [0, 1]"
    by (simp add: macro_ring.ring_def two_macros_def fresh_macro_def)
  from macro_append_cuts [of 1 "[0, 1]" "[0]" "[]" "[]" two_macros, OF _ this] show ?thesis by simp
qed

theorem token_create_fresh_witness:
  "\<exists>t st. f_TokenCreate token_start = Inr (t, st) \<and> live st t \<and> tok_inv st []"
proof -
  have "room token_start > 0" by (simp add: room_def token_start_def)
  then show ?thesis using token_create_fresh [OF start_tok_inv] by auto
qed

theorem token_free_ring_witness:
  "\<exists>t st st'. token_ring.ring st [t] \<and> live st t \<and> f_TokenFreeAll 1 (Some t) st = Inr st' \<and>
     tok_inv st' [t] \<and> f_TokenFreeAll 1 (Some t) st' = Inl NullPointer"
proof -
  have "room token_start > 0" by (simp add: room_def token_start_def)
  then obtain t st where t: "fresh_token token_start t st" "tok_inv st []"
    using create_from_block [OF start_tok_inv] by blast
  then have "token_ring.ring st [t]" "live st t" by (auto simp: fresh_token_def)
  then show ?thesis using token_free_ring [OF t(2), of "[t]"] by fastforce
qed

end
