(* ===== verification/Cplex.thy ===== *)
theory Cplex
  imports Process Expr
begin

text \<open>
  The lexer of source files (\<open>cplex.c\<close>): tokens with their positions, and the token that was put
  back.  The preprocessor directives are in the theory that follows.

  The text that is left to read is the string \<open>yyptr\<close>.  At its end \<open>input\<close> delivers NULs, counting
  them in \<open>yyeof\<close>, and \<open>unput\<close> takes them back before it moves the pointer; the first section
  shows that this is a text with NULs without end, in which \<open>unput\<close> undoes \<open>input\<close>.
\<close>

section \<open>Reading and putting back characters\<close>

record cursor =
  cbuf :: string
  cpos :: nat
  yyeof :: nat

definition c_input :: "cursor \<Rightarrow> char \<times> cursor" where
  "c_input c =
     (if cpos c < length (cbuf c) then (cbuf c ! cpos c, c\<lparr>cpos := cpos c + 1\<rparr>)
      else (NUL, c\<lparr>yyeof := yyeof c + 1\<rparr>))"

definition c_unput :: "cursor \<Rightarrow> cursor" where
  "c_unput c =
     (if cpos c < length (cbuf c) then c\<lparr>cpos := cpos c - 1\<rparr>
      else if yyeof c > 0 then c\<lparr>yyeof := yyeof c - 1\<rparr>
      else c\<lparr>cpos := cpos c - 1\<rparr>)"

definition cursor_ok :: "cursor \<Rightarrow> bool" where
  "cursor_ok c \<longleftrightarrow> cpos c \<le> length (cbuf c) \<and> (yyeof c > 0 \<longrightarrow> cpos c = length (cbuf c))"

lemma cursor_unput:
  assumes "cursor_ok c"
  shows "c_unput (snd (c_input c)) = c" "cursor_ok (snd (c_input c))"
    "fst (c_input c) = peek (drop (cpos c) (cbuf c))"
    "drop (cpos (snd (c_input c))) (cbuf c) = tl (drop (cpos c) (cbuf c))"
proof -
  have "cpos c < length (cbuf c) \<or> cpos c = length (cbuf c)" using assms by (auto simp: cursor_ok_def)
  then show "c_unput (snd (c_input c)) = c" "cursor_ok (snd (c_input c))"
    "fst (c_input c) = peek (drop (cpos c) (cbuf c))"
    "drop (cpos (snd (c_input c))) (cbuf c) = tl (drop (cpos c) (cbuf c))"
    using assms by (auto simp: c_input_def c_unput_def cursor_ok_def peek_def tl_drop drop_Suc
        Cons_nth_drop_Suc [symmetric] split: list.split)
qed

section \<open>State\<close>

datatype lex_mode = LEX_MODE_NORMAL | LEX_MODE_PP | LEX_MODE_INCLUDE

text \<open>What is written for the highlighting of the editor, and the comments that are saved with
  their line, column and the length that is given for their text.\<close>

datatype lex_event =
    Key int int int int
  | Rem int int int int
  | Comment int int string int

record lstate =
  yyptr :: string
  yylineno :: int
  yycharno :: int
  lexmode :: lex_mode
  token_in_line_count :: int
  TokenUnput :: "token option"
  hig_fp :: bool
  events :: "lex_event list"
  pcValue_define :: "string option"
  macros :: pstate

text \<open>\<open>pcValue_define\<close> is the field \<open>pcValue\<close> of the token that was made for the last \<open>#define\<close>; no other
  token of the lexer has one.  The variables that change while characters are read; \<open>pleng\<close> is \<open>yyleng\<close>.\<close>

record rpos =
  prest :: string
  pline :: int
  pchar :: int
  pleng :: nat

definition start_pos :: "lstate \<Rightarrow> rpos" where
  "start_pos st = \<lparr>prest = yyptr st, pline = yylineno st, pchar = yycharno st, pleng = 0\<rparr>"

definition set_pos :: "rpos \<Rightarrow> lstate \<Rightarrow> lstate" where
  "set_pos p st = st\<lparr>yyptr := prest p, yylineno := pline p, yycharno := pchar p\<rparr>"

definition p_input :: "rpos \<Rightarrow> rpos" where
  "p_input p = p\<lparr>prest := tl (prest p), pchar := pchar p + 1, pleng := pleng p + 1\<rparr>"

definition p_newline :: "rpos \<Rightarrow> rpos" where
  "p_newline p = p\<lparr>pline := pline p + 1, pchar := 0\<rparr>"

text \<open>A line feed after a carriage return: it is read, and put back if it is something else.\<close>

definition p_skip_lf :: "rpos \<Rightarrow> rpos" where
  "p_skip_lf p = (if peek (prest p) = LF then p_input p else p)"

text \<open>Reading on within the line up to the rest \<open>r\<close>.\<close>

definition p_to :: "string \<Rightarrow> rpos \<Rightarrow> rpos" where
  "p_to r p = p\<lparr>prest := r, pchar := pchar p + int (length (prest p) - length r),
     pleng := pleng p + (length (prest p) - length r)\<rparr>"

text \<open>The text that began at \<open>b\<close> and is \<open>pleng p\<close> long.  A NUL that was read at the end counts.\<close>

definition text_at :: "rpos \<Rightarrow> rpos \<Rightarrow> string" where
  "text_at b p = take (pleng p) (prest b) @ replicate (pleng p - length (prest b)) NUL"

definition token_at_pos :: "token \<Rightarrow> rpos \<Rightarrow> rpos \<Rightarrow> token" where
  "token_at_pos t b p = t\<lparr>ttext := text_at b p, lineno_beg := pline b, charno_beg := pchar b,
     lineno_end := pline p, charno_end := pchar p\<rparr>"

definition d_TokenReturn :: "lex \<Rightarrow> rpos \<Rightarrow> rpos \<Rightarrow> lstate \<Rightarrow> token option \<times> lstate" where
  "d_TokenReturn x b p st =
     (Some (token_at_pos (mk_token x []) b p),
      (set_pos p st)\<lparr>token_in_line_count := token_in_line_count st + 1\<rparr>)"

definition event :: "lex_event \<Rightarrow> lstate \<Rightarrow> lstate" where
  "event e st = st\<lparr>events := events st @ [e]\<rparr>"

section \<open>Branches of the lexer\<close>

text \<open>A backslash: the next character is swallowed, and the end of a line counts.\<close>

definition p_escape :: "rpos \<Rightarrow> rpos" where
  "p_escape p =
     (let p' = p_input p in
      if peek (prest p) = CR then p_newline (p_skip_lf p')
      else if peek (prest p) = LF then p_newline p'
      else p')"

lemma p_escape_shorter: "length (prest (p_escape p)) \<le> length (prest p) - 1"
  by (auto simp: p_escape_def Let_def p_input_def p_newline_def p_skip_lf_def intro: diff_le_mono2)

text \<open>String literals, character constants and file names in angle brackets, after their first
  character \<open>q\<close>.  Only a string literal goes on over the end of a line.\<close>

function quoted_text :: "char \<Rightarrow> rpos \<Rightarrow> rpos" where
  "quoted_text q p =
     (case prest p of
        [] \<Rightarrow> p_input p
      | c # s \<Rightarrow>
          if c = BSLASH then quoted_text q (p_escape (p_input p))
          else if c = (if q = CHR ''<'' then CHR ''>'' else q) then p_input p
          else if q = DQUOTE \<and> c = CR then quoted_text q (p_newline (p_skip_lf (p_input p)))
          else if q = DQUOTE \<and> c = LF then quoted_text q (p_newline (p_input p))
          else if c = LF then p
          else quoted_text q (p_input p))"
  by pat_completeness auto
termination
  by (relation "measure (\<lambda>(q, p). length (prest p))")
    (auto simp: p_input_def p_newline_def p_skip_lf_def less_Suc_eq_le
      intro: order_trans [OF p_escape_shorter])

declare quoted_text.simps [simp del]

function comment_text :: "char \<Rightarrow> rpos \<Rightarrow> rpos" where
  "comment_text yycharprev p =
     (case prest p of
        [] \<Rightarrow> p_input p
      | c # s \<Rightarrow>
          if c = CHR ''/'' \<and> yycharprev = CHR ''*'' then p_input p
          else if c = CR then comment_text (peek s) (p_newline (p_skip_lf (p_input p)))
          else if c = LF then comment_text c (p_newline (p_input p))
          else comment_text c (p_input p))"
  by pat_completeness auto
termination
  by (relation "measure (\<lambda>(c, p). length (prest p))")
    (auto simp: p_input_def p_newline_def p_skip_lf_def less_Suc_eq_le)

declare comment_text.simps [simp del]

text \<open>A comment to the end of the line: where it ends, and if there was an end of the line.\<close>

function line_comment_text :: "rpos \<Rightarrow> rpos \<times> bool" where
  "line_comment_text p =
     (case prest p of
        [] \<Rightarrow> (p_input p, False)
      | c # s \<Rightarrow> if c = LF then (p_newline (p_input p), True) else line_comment_text (p_input p))"
  by pat_completeness auto
termination by (relation "measure (\<lambda>p. length (prest p))") (auto simp: p_input_def)

declare line_comment_text.simps [simp del]

text \<open>The end of a comment of either kind.  \<open>drop_len\<close> is what is taken off its length.\<close>

definition end_comment :: "int \<Rightarrow> rpos \<Rightarrow> rpos \<Rightarrow> lstate \<Rightarrow> lstate" where
  "end_comment drop_len b p st =
     (let st = set_pos p st;
          st = (if hig_fp st then event (Rem (pline b) (pchar b) (pline p) (pchar p)) st else st);
          n = int (pleng p) - drop_len in
      event (Comment (pline b) (pchar b + 2) (take (nat n) (drop 2 (text_at b p))) n) st)"

definition lex_newline :: "rpos \<Rightarrow> rpos \<Rightarrow> lstate \<Rightarrow> token option \<times> lstate" where
  "lex_newline b p st =
     (let p = p_newline p in
      if lexmode st = LEX_MODE_PP then d_TokenReturn SN_NEWLINE b p (st\<lparr>token_in_line_count := -1\<rparr>)
      else (None, (set_pos p st)\<lparr>token_in_line_count := 0\<rparr>))"

definition lex_ident :: "rpos \<Rightarrow> lstate \<Rightarrow> token option \<times> lstate" where
  "lex_ident b st =
     (let p = p_to (dropWhile ident_char (prest b)) b;
          w = text_at b p;
          (kw, is_cpp) = keyword_of w;
          st = (set_pos p st)\<lparr>token_in_line_count := token_in_line_count st + 1\<rparr>;
          st = (if kw \<noteq> KW_NONE \<and> hig_fp st
                then event (Key (pline b) (pchar b) (pline p) (pchar p)) st else st) in
      (Some (token_at_pos ((mk_token SN_IDENTIFIER [])\<lparr>tkeyword := kw, tis_cpp := is_cpp\<rparr>) b p), st))"

definition lex_slash_at :: "rpos \<Rightarrow> lstate \<Rightarrow> token option \<times> lstate" where
  "lex_slash_at b st =
     (let p = p_input b;
          c = peek (prest p) in
      if c = CHR ''='' then d_TokenReturn SN_DIVassign b (p_input p) st
      else if c = CHR ''*'' then
        let p = comment_text NUL (p_input p) in (None, end_comment 4 b p st)
      else if c = CHR ''/'' then
        let (p, eol) = line_comment_text (p_input p) in
        if eol \<and> lexmode st = LEX_MODE_PP then
          d_TokenReturn SN_NEWLINE b p (st\<lparr>token_in_line_count := -1\<rparr>)
        else
          let st = (if eol then st\<lparr>token_in_line_count := 0\<rparr> else st) in (None, end_comment 3 b p st)
      else d_TokenReturn (Ch CHR ''/'') b p st)"

text \<open>\<open>lex_step\<close> is one round of the loop of \<open>f_TokenInput\<close>: a token, or \<open>None\<close> to go on.  \<open>pp\<close> is
  \<open>f_Preprocessor\<close>.\<close>

definition lex_step ::
    "(lstate \<Rightarrow> ub + token option \<times> lstate) \<Rightarrow> lstate \<Rightarrow> ub + token option \<times> lstate" where
  "lex_step pp st =
     (let b = start_pos st in
      case prest b of
        [] \<Rightarrow> Inr (d_TokenReturn (Ch NUL) b ((p_input b)\<lparr>pleng := 0\<rparr>) st)
      | c # s \<Rightarrow>
          if c_isdigit c then
            (let (l, r) = lex_number (prest b) in Inr (d_TokenReturn l b (p_to r b) st))
          else if ident_start c then Inr (lex_ident b st)
          else if c = CHR '' '' \<or> c = TAB then Inr (None, set_pos (p_input b) st)
          else if c = CR then Inr (lex_newline b (p_skip_lf (p_input b)) st)
          else if c = LF then Inr (lex_newline b (p_input b) st)
          else if c = BSLASH then Inr (None, set_pos (p_escape (p_input b)) st)
          else if c = DQUOTE then Inr (d_TokenReturn SN_STRINGliteral b (quoted_text c (p_input b)) st)
          else if c = QUOTE then Inr (d_TokenReturn SN_CHARACTERconstant b (quoted_text c (p_input b)) st)
          else if c = CHR ''#'' then
            (if token_in_line_count st = 0 then pp (set_pos (p_input b) st)
             else Inr (None, set_pos (p_input b) st))
          else if c = CHR ''<'' then
            (if lexmode st = LEX_MODE_INCLUDE
             then Inr (d_TokenReturn SN_INCLUDEliteral b (quoted_text c (p_input b)) st)
             else let (l, r) = lex_less s in Inr (d_TokenReturn l b (p_to r b) st))
          else if c = CHR ''/'' then Inr (lex_slash_at b st)
          else
            (case lex_operator c s of
               Some (l, r) \<Rightarrow> Inr (d_TokenReturn l b (p_to r b) st)
             | None \<Rightarrow> Inr (None, set_pos (p_input b) st)))"

fun input_loop ::
    "(lstate \<Rightarrow> ub + token option \<times> lstate) \<Rightarrow> nat \<Rightarrow> lstate \<Rightarrow> ub + token \<times> lstate" where
  "input_loop pp 0 st = Inl NoReturn"
| "input_loop pp (Suc n) st =
     sbind (lex_step pp st) (\<lambda>(r, st).
     case r of Some t \<Rightarrow> Inr (t, st) | None \<Rightarrow> input_loop pp n st)"

definition token_input ::
    "(lstate \<Rightarrow> ub + token option \<times> lstate) \<Rightarrow> nat \<Rightarrow> lstate \<Rightarrow> ub + token \<times> lstate" where
  "token_input pp n st =
     (case TokenUnput st of
        Some t \<Rightarrow> Inr (t, st\<lparr>TokenUnput := None\<rparr>)
      | None \<Rightarrow> input_loop pp n st)"

definition f_TokenUnput :: "token \<Rightarrow> lstate \<Rightarrow> ub + lstate" where
  "f_TokenUnput t st =
     (if TokenUnput st \<noteq> None then Inl Exit else Inr (st\<lparr>TokenUnput := Some t\<rparr>))"

text \<open>The state after \<open>f_ReadFile\<close> has read \<open>content\<close>; the text ends at its first NUL.\<close>

definition f_ReadFile :: "string \<Rightarrow> lstate \<Rightarrow> lstate" where
  "f_ReadFile content st = st\<lparr>yyptr := takeWhile (\<lambda>c. c \<noteq> NUL) content, yylineno := 1,
     yycharno := 0, token_in_line_count := 0, lexmode := LEX_MODE_NORMAL\<rparr>"

end
