(* ===== verification/Directives.thy ===== *)
theory Directives
  imports Cplex LongStr
begin

text \<open>
  Macro calls in source files, and the preprocessor directives (\<open>cplex.c\<close> from \<open>f_ParamCreate\<close>
  on).  These functions and \<open>f_TokenInput\<close> call each other.  Here they take as \<open>tin\<close> the calls of
  \<open>f_TokenInput\<close> and as \<open>mfind\<close> those of \<open>f_MacroFind\<close>; the last section ties the knot, with the
  fuel for the depth of the calls and the rounds of the loops.

  A token pointer is the list of the tokens of its ring, the null pointer the empty list.
\<close>

type_synonym input_fun = "lstate \<Rightarrow> ub + token \<times> lstate"
type_synonym lookup_fun = "lstate \<Rightarrow> string \<Rightarrow> ub + nat option \<times> lstate"

definition macro_at :: "lstate \<Rightarrow> nat \<Rightarrow> ub + smacro" where
  "macro_at st m = get_macro (macros st) m"

section \<open>Macro calls\<close>

fun f_TokenMacroInput ::
    "input_fun \<Rightarrow> lookup_fun \<Rightarrow> nat \<Rightarrow> lstate \<Rightarrow> token \<Rightarrow> ub + (token list \<times> bool) \<times> lstate"
  and f_ParamCreate ::
    "input_fun \<Rightarrow> lookup_fun \<Rightarrow> nat \<Rightarrow> lstate \<Rightarrow> token list list \<Rightarrow> ub + token list list \<times> lstate"
  and f_ParamToken ::
    "input_fun \<Rightarrow> lookup_fun \<Rightarrow> nat \<Rightarrow> lstate \<Rightarrow> int \<Rightarrow> token list \<Rightarrow> ub + (token list \<times> bool) \<times> lstate"
where
  "f_TokenMacroInput tin mfind 0 st t = Inl NoReturn"
| "f_TokenMacroInput tin mfind (Suc n) st t =
     sbind (mfind st (ttext t)) (\<lambda>(r, st).
     case r of
       None \<Rightarrow> Inr (([t], False), st)
     | Some m \<Rightarrow>
         sbind (macro_at st m) (\<lambda>M.
         if ctyp M = CPP_DEFINE then Inr ((f_MacroMerge M t None True, True), st)
         else if ctyp M = CPP_MACRO then
           sbind (tin st) (\<lambda>(TokenNext, st).
           if tlex TokenNext = Ch CHR ''('' then
             sbind (f_ParamCreate tin mfind n st []) (\<lambda>(param, st).
             sbind (macro_at st m) (\<lambda>M. Inr ((f_MacroMerge M t (Some param) True, True), st)))
           else sbind (f_TokenUnput TokenNext st) (\<lambda>st. Inr (([t], True), st)))
         else Inr (([t], False), st)))"

| "f_ParamCreate tin mfind 0 st param = Inl NoReturn"
| "f_ParamCreate tin mfind (Suc n) st param =
     sbind (f_ParamToken tin mfind n st 0 []) (\<lambda>((ts, bContinue), st).
     if length param \<ge> 100 then Inl OutOfBounds
     else if bContinue then f_ParamCreate tin mfind n st (param @ [ts])
     else Inr (param @ [ts], st))"

| "f_ParamToken tin mfind 0 st p ret = Inl NoReturn"
| "f_ParamToken tin mfind (Suc n) st p ret =
     sbind (tin st) (\<lambda>(t, st).
     sbind (if tlex t = SN_IDENTIFIER then f_TokenMacroInput tin mfind n st t
            else Inr (([t], False), st)) (\<lambda>((ts, macro), st).
     if ts = [] then f_ParamToken tin mfind n st p ret
     else if macro then f_ParamToken tin mfind n st p (ret @ ts)
     else
       let l = tlex (hd ts) in
       if p = 0 \<and> l = Ch CHR '','' then Inr ((ret, True), st)
       else if p = 0 \<and> (l = Ch CHR '')'' \<or> l = Ch NUL) then Inr ((ret, False), st)
       else
         f_ParamToken tin mfind n st
           (if l = Ch CHR ''('' then p + 1 else if l = Ch CHR '')'' then p - 1 else p) (ret @ ts)))"

section \<open>Conditions\<close>

definition f_IsDefined :: "lookup_fun \<Rightarrow> lstate \<Rightarrow> string \<Rightarrow> ub + cplex_mode \<times> lstate" where
  "f_IsDefined mfind st w =
     sbind (mfind st w) (\<lambda>(r, st).
     case r of
       None \<Rightarrow> Inr (CPLEX_UNDEF, st)
     | Some m \<Rightarrow>
         sbind (macro_at st m) (\<lambda>M.
         if cpaf_typ M \<noteq> Some PAF_WORD_REPLACE
         then Inr (if ctyp M = CPP_UNDEF then CPLEX_FALSE else CPLEX_TRUE, st)
         else Inr (CPLEX_UNDEF, st)))"

text \<open>\<open>defined X\<close> and \<open>defined (X)\<close> after the word \<open>defined\<close>.\<close>

definition defined_token :: "input_fun \<Rightarrow> lookup_fun \<Rightarrow> lstate \<Rightarrow> ub + token \<times> lstate" where
  "defined_token tin mfind st =
     (let set_lex = (\<lambda>mode t. t\<lparr>tlex :=
          (case mode of CPLEX_UNDEF \<Rightarrow> SN_UNDEF | CPLEX_TRUE \<Rightarrow> SN_TRUE | CPLEX_FALSE \<Rightarrow> SN_FALSE)\<rparr>) in
      sbind (tin st) (\<lambda>(t, st).
      if tlex t = Ch CHR ''('' then
        sbind (tin st) (\<lambda>(t, st).
        sbind (f_IsDefined mfind st (ttext t)) (\<lambda>(mode, st).
        sbind (tin st) (\<lambda>(_, st).
        Inr (set_lex mode t, st))))
      else
        sbind (f_IsDefined mfind st (ttext t)) (\<lambda>(mode, st). Inr (set_lex mode t, st))))"

definition f_TokenSpecMacroInput ::
    "input_fun \<Rightarrow> lookup_fun \<Rightarrow> nat \<Rightarrow> lstate \<Rightarrow> ub + (token list \<times> bool) \<times> lstate" where
  "f_TokenSpecMacroInput tin mfind n st =
     sbind (tin st) (\<lambda>(t, st).
     if tlex t = SN_IDENTIFIER then
       sbind (f_StringCompare (ttext t) ''defined'') (\<lambda>cmp.
       if cmp = 0 then sbind (defined_token tin mfind st) (\<lambda>(t, st). Inr (([t], False), st))
       else f_TokenMacroInput tin mfind n st t)
     else Inr (([t], False), st))"

fun f_TokenReadToNewline ::
    "input_fun \<Rightarrow> lookup_fun \<Rightarrow> nat \<Rightarrow> lstate \<Rightarrow> token list \<Rightarrow> ub + token list \<times> lstate" where
  "f_TokenReadToNewline tin mfind 0 st ret = Inl NoReturn"
| "f_TokenReadToNewline tin mfind (Suc n) st ret =
     sbind (f_TokenSpecMacroInput tin mfind n st) (\<lambda>((ts, macro), st).
     if ts = [] then f_TokenReadToNewline tin mfind n st ret
     else if \<not> macro \<and> (tlex (hd ts) = SN_NEWLINE \<or> tlex (hd ts) = Ch NUL) then Inr (ret @ ts, st)
     else f_TokenReadToNewline tin mfind n st (ret @ ts))"

section \<open>Skipping\<close>

fun f_TokenSkipToNewline :: "input_fun \<Rightarrow> nat \<Rightarrow> lstate \<Rightarrow> ub + lstate" where
  "f_TokenSkipToNewline tin 0 st = Inl NoReturn"
| "f_TokenSkipToNewline tin (Suc n) st =
     sbind (tin st) (\<lambda>(t, st).
     if tlex t = SN_NEWLINE \<or> tlex t = Ch NUL then Inr st else f_TokenSkipToNewline tin n st)"

text \<open>The words of a qualified name after a \<open>#define\<close>, which the value of the macro may be.\<close>

definition name_part :: "token \<Rightarrow> bool" where
  "name_part t \<longleftrightarrow> (tlex t = SN_IDENTIFIER \<and> tkeyword t = KW_NONE) \<or> tlex t = SN_CLCL"

definition skip_rest :: "input_fun \<Rightarrow> nat \<Rightarrow> token \<Rightarrow> lstate \<Rightarrow> ub + lstate" where
  "skip_rest tin n t st =
     (if tlex t \<noteq> SN_NEWLINE \<and> tlex t \<noteq> Ch NUL then f_TokenSkipToNewline tin n st else Inr st)"

definition append_name :: "long_string \<Rightarrow> token \<Rightarrow> ub + long_string" where
  "append_name lstr t = map_sum id fst (LongStringAppend lstr (ttext t) (int (length (ttext t))))"

fun name_loop ::
    "input_fun \<Rightarrow> nat \<Rightarrow> lstate \<Rightarrow> long_string \<Rightarrow> lex \<Rightarrow> ub + long_string \<times> lstate" where
  "name_loop tin 0 st lstr lex_last = Inl NoReturn"
| "name_loop tin (Suc n) st lstr lex_last =
     sbind (tin st) (\<lambda>(t, st).
     if name_part t \<and> tlex t \<noteq> lex_last then
       sbind (append_name lstr t) (\<lambda>lstr. name_loop tin n st lstr (tlex t))
     else sbind (skip_rest tin n t st) (\<lambda>st. Inr (lstr, st)))"

text \<open>The result is the buffer, read as a C string, or the null pointer.\<close>

definition buf_string :: "block \<Rightarrow> string" where
  "buf_string b = map the (takeWhile (\<lambda>c. c \<noteq> Some NUL) b)"

definition f_TokenSkipToNewlineByDefine ::
    "input_fun \<Rightarrow> nat \<Rightarrow> lstate \<Rightarrow> ub + string option \<times> lstate" where
  "f_TokenSkipToNewlineByDefine tin n st =
     sbind (tin st) (\<lambda>(t, st).
     if name_part t then
       sbind (append_name (LongStringInit 0) t) (\<lambda>lstr.
       sbind (name_loop tin n st lstr (tlex t)) (\<lambda>(lstr, st).
       Inr (map_option buf_string (buf lstr), st)))
     else sbind (skip_rest tin n t st) (\<lambda>st. Inr (None, st)))"

section \<open>Directives\<close>

definition pp_token :: "lex \<Rightarrow> cplex_mode \<Rightarrow> token" where
  "pp_token l mode = (mk_token l [])\<lparr>tmode := mode\<rparr>"

definition pp_define :: "input_fun \<Rightarrow> nat \<Rightarrow> lstate \<Rightarrow> ub + token option \<times> lstate" where
  "pp_define tin n st =
     sbind (tin st) (\<lambda>(t, st).
     if tlex t = SN_IDENTIFIER then
       sbind (f_TokenSkipToNewlineByDefine tin n st) (\<lambda>(v, st).
       Inr (Some (t\<lparr>tlex := SN_PP_DEFINE\<rparr>), st\<lparr>pcValue_define := v\<rparr>))
     else sbind (f_TokenSkipToNewline tin n st) (\<lambda>st. Inr (None, st)))"

definition pp_include :: "input_fun \<Rightarrow> nat \<Rightarrow> lstate \<Rightarrow> ub + token option \<times> lstate" where
  "pp_include tin n st =
     (let lex_mode_save = lexmode st in
      sbind (tin (st\<lparr>lexmode := LEX_MODE_INCLUDE\<rparr>)) (\<lambda>(t, st).
      sbind (f_TokenSkipToNewline tin n (st\<lparr>lexmode := lex_mode_save\<rparr>)) (\<lambda>st.
      if tlex t = SN_STRINGliteral \<or> tlex t = SN_INCLUDEliteral
      then Inr (Some (t\<lparr>tlex := SN_PP_INCLUDE\<rparr>), st)
      else Inr (None, st))))"

definition pp_condition ::
    "lex \<Rightarrow> input_fun \<Rightarrow> lookup_fun \<Rightarrow> nat \<Rightarrow> lstate \<Rightarrow> ub + token option \<times> lstate" where
  "pp_condition l tin mfind n st =
     sbind (f_TokenReadToNewline tin mfind n st []) (\<lambda>(ts, st).
     sbind (ConstantExpression ts) (\<lambda>mode. Inr (Some (pp_token l mode), st)))"

definition pp_ifdef ::
    "(cplex_mode \<Rightarrow> cplex_mode) \<Rightarrow> input_fun \<Rightarrow> lookup_fun \<Rightarrow> nat \<Rightarrow> lstate \<Rightarrow> ub + token option \<times> lstate" where
  "pp_ifdef f tin mfind n st =
     sbind (tin st) (\<lambda>(t, st).
     sbind (f_TokenSkipToNewline tin n st) (\<lambda>st.
     sbind (f_IsDefined mfind st (ttext t)) (\<lambda>(mode, st).
     Inr (Some (pp_token SN_PP_IF (f mode)), st))))"

definition not_mode :: "cplex_mode \<Rightarrow> cplex_mode" where
  "not_mode mode =
     (case mode of CPLEX_TRUE \<Rightarrow> CPLEX_FALSE | CPLEX_FALSE \<Rightarrow> CPLEX_TRUE | CPLEX_UNDEF \<Rightarrow> CPLEX_UNDEF)"

definition pp_plain :: "lex \<Rightarrow> input_fun \<Rightarrow> nat \<Rightarrow> lstate \<Rightarrow> ub + token option \<times> lstate" where
  "pp_plain l tin n st =
     sbind (f_TokenSkipToNewline tin n st) (\<lambda>st. Inr (Some (pp_token l CPLEX_FALSE), st))"

text \<open>The comparisons with the names of the directives, one after the other.\<close>

fun pp_select :: "string \<Rightarrow> (string \<times> ('s \<Rightarrow> ub + 'a)) list \<Rightarrow> ('s \<Rightarrow> ub + 'a) \<Rightarrow> 's \<Rightarrow> ub + 'a" where
  "pp_select w [] other st = other st"
| "pp_select w ((name, act) # acts) other st =
     sbind (f_StringCompare w name) (\<lambda>cmp. if cmp = 0 then act st else pp_select w acts other st)"

text \<open>\<open>__Preprocessor\<close>\<close>

definition Preprocessor :: "input_fun \<Rightarrow> lookup_fun \<Rightarrow> nat \<Rightarrow> lstate \<Rightarrow> ub + token option \<times> lstate" where
  "Preprocessor tin mfind n st =
     sbind (tin st) (\<lambda>(t, st).
     pp_select (ttext t)
       [(''define'', pp_define tin n),
        (''include'', pp_include tin n),
        (''if'', pp_condition SN_PP_IF tin mfind n),
        (''ifdef'', pp_ifdef id tin mfind n),
        (''ifndef'', pp_ifdef not_mode tin mfind n),
        (''else'', pp_plain SN_PP_ELSE tin n),
        (''elif'', pp_condition SN_PP_ELIF tin mfind n),
        (''endif'', pp_plain SN_PP_ENDIF tin n)]
       (\<lambda>st. if tlex t = SN_NEWLINE then Inr (None, st)
             else sbind (f_TokenSkipToNewline tin n st) (\<lambda>st. Inr (None, st))) st)"

definition f_Preprocessor :: "input_fun \<Rightarrow> lookup_fun \<Rightarrow> nat \<Rightarrow> lstate \<Rightarrow> ub + token option \<times> lstate" where
  "f_Preprocessor tin mfind n st =
     (let lex_mode_save = lexmode st in
      sbind (Preprocessor tin mfind n (st\<lparr>lexmode := LEX_MODE_PP\<rparr>)) (\<lambda>(r, st).
      Inr (r, st\<lparr>lexmode := lex_mode_save\<rparr>)))"

section \<open>The lexer\<close>

definition macro_lookup :: "paf_fun option \<Rightarrow> nat \<Rightarrow> lookup_fun" where
  "macro_lookup paf n st w =
     sbind (f_MacroFind paf n (macros st) w) (\<lambda>(r, ms). Inr (r, st\<lparr>macros := ms\<rparr>))"

fun f_TokenInput :: "paf_fun option \<Rightarrow> nat \<Rightarrow> input_fun" where
  "f_TokenInput paf 0 st = Inl NoReturn"
| "f_TokenInput paf (Suc n) st =
     token_input (f_Preprocessor (f_TokenInput paf n) (macro_lookup paf n) n) n st"

text \<open>The next token of the source with macros replaced, as the ring that \<open>f_MacroMerge\<close> makes; a
  macro that is replaced by nothing is skipped.\<close>

fun yylex :: "paf_fun option \<Rightarrow> nat \<Rightarrow> lstate \<Rightarrow> ub + token list \<times> lstate" where
  "yylex paf 0 st = Inl NoReturn"
| "yylex paf (Suc n) st =
     sbind (f_TokenInput paf n st) (\<lambda>(t, st).
     if tlex t = SN_IDENTIFIER then
       sbind (f_TokenMacroInput (f_TokenInput paf n) (macro_lookup paf n) n st t) (\<lambda>((ts, macro), st).
       if ts = [] then yylex paf n st else Inr (ts, st))
     else Inr ([t], st))"

end
