(* ===== verification/Cplex_Keeps.thy ===== *)
theory Cplex_Keeps
  imports Directives Macro_Run
begin

text \<open>
  What one round of the lexer keeps is kept by all of \<open>cplex.c\<close>: the interface between the lexer
  proper and the functions for macro calls and directives, which call it and each other.
\<close>

text \<open>A state before the first file: no macros are known and nothing is written for the editor.\<close>

definition lex_start :: lstate where
  "lex_start = \<lparr>yyptr = [], yylineno = 0, yycharno = 0, lexmode = LEX_MODE_NORMAL, token_in_line_count = 0,
     TokenUnput = None, hig_fp = False, events = [], pcValue_define = None, macros = start\<rparr>"

section \<open>What every function of the lexer keeps\<close>

text \<open>A property of the text that is left and of the line number, which one round of the lexer
  keeps if the directives do, is kept by the whole lexer, however its functions call each other.\<close>

lemma holds_any: "(\<And>x. Q x) \<Longrightarrow> holds r Q"
  by (simp add: holds_def)

locale lexer_keeps =
  fixes P :: "lstate \<Rightarrow> bool"
  assumes same_place: "yyptr s' = yyptr s \<Longrightarrow> yylineno s' = yylineno s \<Longrightarrow> P s' = P s"
    and step_keeps: "P s \<Longrightarrow> (\<And>s. P s \<Longrightarrow> holds (pp s) (\<lambda>(r, s). P s)) \<Longrightarrow>
      holds (lex_step pp s) (\<lambda>(r, s). P s)"
begin

definition keeps :: "(lstate \<Rightarrow> ub + 'a \<times> lstate) \<Rightarrow> bool" where
  "keeps f \<longleftrightarrow> (\<forall>s. P s \<longrightarrow> holds (f s) (\<lambda>(r, s). P s))"

lemma keepsD: "keeps f \<Longrightarrow> P s \<Longrightarrow> (\<And>r s'. P s' \<Longrightarrow> Q (r, s')) \<Longrightarrow> holds (f s) Q"
  unfolding keeps_def by (blast intro: holds_mono)

lemma same [simp]: "P (s\<lparr>lexmode := m\<rparr>) = P s" "P (s\<lparr>TokenUnput := u\<rparr>) = P s"
  "P (s\<lparr>macros := ms\<rparr>) = P s" "P (s\<lparr>pcValue_define := v\<rparr>) = P s"
  by (rule same_place; simp)+

lemma loop_keeps: "keeps pp \<Longrightarrow> keeps (input_loop pp n)"
proof (induction n)
  case (Suc n)
  have s: "P s \<Longrightarrow> holds (lex_step pp s) (\<lambda>(r, s). P s)" for s
    using Suc.prems step_keeps unfolding keeps_def by blast
  show ?case unfolding keeps_def input_loop.simps
    by (intro allI impI walk) (rule holds_mono [OF s]; auto intro!: walk keepsD [OF Suc.IH [OF Suc.prems]])
qed (simp add: keeps_def)

lemma token_keeps: "keeps pp \<Longrightarrow> keeps (token_input pp n)"
  using loop_keeps unfolding keeps_def token_input_def by (auto split: option.split)

lemmas pure = holds_any [where r = "macro_at s m" for s m]
  holds_any [where r = "f_StringCompare w n" for w n] holds_any [where r = "append_name l t" for l t]
  holds_any [where r = "ConstantExpression ts" for ts]

lemma unput_keeps: "P s \<Longrightarrow> (\<And>s'. P s' \<Longrightarrow> Q s') \<Longrightarrow> holds (f_TokenUnput t s) Q"
  by (simp add: f_TokenUnput_def)

lemma lookup_keeps: "keeps (\<lambda>s. macro_lookup paf n s w)"
  unfolding keeps_def macro_lookup_def by (auto simp: holds_def sbind_Inr_iff)

lemma macro_calls_keep:
  assumes "keeps tin" "\<And>w. keeps (\<lambda>s. mfind s w)"
  shows "P s \<Longrightarrow> holds (f_TokenMacroInput tin mfind n s t) (\<lambda>(r, s). P s)"
    and "P s \<Longrightarrow> holds (f_ParamCreate tin mfind n s param) (\<lambda>(r, s). P s)"
    and "P s \<Longrightarrow> holds (f_ParamToken tin mfind n s p ret) (\<lambda>(r, s). P s)"
proof (induction n arbitrary: s t param p ret)
  case (Suc n)
  note w = walk keepsD [OF assms(1)] keepsD [OF assms(2)] unput_keeps pure
  {
    case 1
    then show ?case unfolding f_TokenMacroInput.simps
      by (intro w holds_mono [OF Suc.IH(2)]) auto
  next
    case 2
    then show ?case unfolding f_ParamCreate.simps
      by (intro w holds_mono [OF Suc.IH(2)] holds_mono [OF Suc.IH(3)]) auto
  next
    case 3
    then show ?case unfolding f_ParamToken.simps Let_def
      by (intro w holds_mono [OF Suc.IH(1)] holds_mono [OF Suc.IH(3)]) auto
  }
qed simp_all

lemma skip_keeps: "keeps tin \<Longrightarrow> P s \<Longrightarrow> (\<And>s'. P s' \<Longrightarrow> Q s') \<Longrightarrow> holds (f_TokenSkipToNewline tin n s) Q"
proof (induction n arbitrary: s)
  case (Suc n)
  from Suc.prems show ?case unfolding f_TokenSkipToNewline.simps
    by (intro walk keepsD [OF Suc.prems(1)] Suc.IH) auto
qed simp

lemma rest_keeps: "keeps tin \<Longrightarrow> P s \<Longrightarrow> (\<And>s'. P s' \<Longrightarrow> Q s') \<Longrightarrow> holds (skip_rest tin n t s) Q"
  unfolding skip_rest_def by (auto intro: skip_keeps)

lemma names_keep: "keeps tin \<Longrightarrow> keeps (\<lambda>s. name_loop tin n s lstr l)"
proof (induction n arbitrary: lstr l)
  case (Suc n)
  show ?case unfolding keeps_def name_loop.simps
    by (intro allI impI walk pure keepsD [OF Suc.prems] rest_keeps [OF Suc.prems] keepsD [OF Suc.IH [OF Suc.prems]]) auto
qed (simp add: keeps_def)

lemma by_define_keeps: "keeps tin \<Longrightarrow> keeps (f_TokenSkipToNewlineByDefine tin n)"
proof -
  assume t: "keeps tin"
  show ?thesis unfolding keeps_def f_TokenSkipToNewlineByDefine_def
    by (intro allI impI walk pure keepsD [OF t] rest_keeps [OF t] keepsD [OF names_keep [OF t]]) auto
qed

lemma conditions_keep:
  assumes "keeps tin" "\<And>w. keeps (\<lambda>s. mfind s w)"
  shows "keeps (\<lambda>s. f_IsDefined mfind s w)" "keeps (defined_token tin mfind)"
    "keeps (f_TokenSpecMacroInput tin mfind n)" "keeps (\<lambda>s. f_TokenReadToNewline tin mfind n s ret)"
proof -
  note w = allI impI walk pure keepsD [OF assms(1)] keepsD [OF assms(2)]
  show d: "keeps (\<lambda>s. f_IsDefined mfind s w)" for w
    unfolding keeps_def f_IsDefined_def by (intro w) auto
  show e: "keeps (defined_token tin mfind)"
    unfolding keeps_def defined_token_def Let_def by (intro w keepsD [OF d]) auto
  show r: "keeps (f_TokenSpecMacroInput tin mfind n)" for n
    unfolding keeps_def f_TokenSpecMacroInput_def
    by (intro w keepsD [OF e] macro_calls_keep [OF assms]) auto
  show "keeps (\<lambda>s. f_TokenReadToNewline tin mfind n s ret)"
  proof (induction n arbitrary: ret)
    case (Suc n)
    show ?case unfolding keeps_def f_TokenReadToNewline.simps by (intro w keepsD [OF r] keepsD [OF Suc]) auto
  qed (simp add: keeps_def)
qed

lemma select_keeps: "(\<And>n f. (n, f) \<in> set acts \<Longrightarrow> keeps f) \<Longrightarrow> keeps other \<Longrightarrow> keeps (pp_select w acts other)"
proof (induction acts)
  case (Cons a acts)
  then have "keeps (pp_select w acts other)" "keeps (snd a)" by (auto simp: keeps_def) (metis prod.collapse)
  then show ?case unfolding keeps_def by (cases a) (auto intro!: walk_bind pure)
qed (simp add: keeps_def)

lemma directives_keep:
  assumes "keeps tin" "\<And>w. keeps (\<lambda>s. mfind s w)"
  shows "keeps (f_Preprocessor tin mfind n)"
proof -
  note w = allI impI walk pure keepsD [OF assms(1)] skip_keeps [OF assms(1)]
    keepsD [OF by_define_keeps [OF assms(1)]] keepsD [OF conditions_keep(1) [OF assms]]
    keepsD [OF conditions_keep(4) [OF assms]]
  note d = pp_define_def pp_include_def pp_condition_def pp_ifdef_def pp_plain_def
  have "keeps (pp_define tin n)" "keeps (pp_include tin n)" "\<And>l. keeps (pp_condition l tin mfind n)"
    "\<And>f. keeps (pp_ifdef f tin mfind n)" "\<And>l. keeps (pp_plain l tin n)"
    unfolding keeps_def d Let_def by (intro w; auto)+
  moreover have "keeps (\<lambda>s. if b then Inr (None, s) else sbind (f_TokenSkipToNewline tin n s) (\<lambda>s. Inr (None, s)))" for b
    unfolding keeps_def by (intro w) auto
  ultimately have "keeps (pp_select v
       [(''define'', pp_define tin n), (''include'', pp_include tin n), (''if'', pp_condition SN_PP_IF tin mfind n),
        (''ifdef'', pp_ifdef id tin mfind n), (''ifndef'', pp_ifdef not_mode tin mfind n),
        (''else'', pp_plain SN_PP_ELSE tin n), (''elif'', pp_condition SN_PP_ELIF tin mfind n),
        (''endif'', pp_plain SN_PP_ENDIF tin n)]
       (\<lambda>s. if b then Inr (None, s) else sbind (f_TokenSkipToNewline tin n s) (\<lambda>s. Inr (None, s))))" for v b
    by (intro select_keeps) auto
  note p = keepsD [OF this]
  have "keeps (Preprocessor tin mfind n)"
    unfolding keeps_def Preprocessor_def by (intro w p) auto
  note p = keepsD [OF this]
  show ?thesis unfolding keeps_def f_Preprocessor_def Let_def by (intro w p) auto
qed

lemma input_keeps: "keeps (f_TokenInput paf n)"
proof (induction n)
  case (Suc n)
  have "keeps (token_input (f_Preprocessor (f_TokenInput paf n) (macro_lookup paf n) n) n)"
    by (rule token_keeps [OF directives_keep [OF Suc lookup_keeps]])
  then show ?case by (simp add: keeps_def)
qed (simp add: keeps_def)

lemma yylex_keeps: "keeps (yylex paf n)"
proof (induction n)
  case (Suc n)
  show ?case unfolding keeps_def yylex.simps
    by (intro allI impI walk keepsD [OF input_keeps] holds_mono [OF macro_calls_keep(1) [OF input_keeps lookup_keeps]]
        keepsD [OF Suc]) auto
qed (simp add: keeps_def)

end

end
