(* ===== verification/Cplex_Total.thy ===== *)
theory Cplex_Total
  imports Cplex_Keeps MacroLex_Props Expr_Props
begin

text \<open>
  The lexer returns.  Each call of it reads at least one character or delivers the end of the file,
  and so do the loops of the directives; the fuel that is needed is the length of the text and a
  constant.  No macros are known here: with them a call may go on for ever.
\<close>

lemma pred_if: "(b \<Longrightarrow> P x) \<Longrightarrow> (\<not> b \<Longrightarrow> P y) \<Longrightarrow> P (if b then x else y)"
  by simp

section \<open>Results that are reached\<close>

definition rets :: "ub + 'a \<Rightarrow> ('a \<Rightarrow> bool) \<Rightarrow> bool" where
  "rets r Q \<longleftrightarrow> (case r of Inl e \<Rightarrow> e \<noteq> NoReturn | Inr x \<Rightarrow> Q x)"

lemma rets_simps [simp]: "rets (Inl e) Q \<longleftrightarrow> e \<noteq> NoReturn" "rets (Inr x) Q \<longleftrightarrow> Q x"
  by (simp_all add: rets_def)

named_theorems total "rules for functions that return"

lemma rets_bind [total]: "rets m (\<lambda>x. rets (f x) Q) \<Longrightarrow> rets (sbind m f) Q"
  by (cases m) auto

lemma rets_if [total]: "(b \<Longrightarrow> rets x Q) \<Longrightarrow> (\<not> b \<Longrightarrow> rets y Q) \<Longrightarrow> rets (if b then x else y) Q"
  by simp

lemma rets_prod [total]: "(\<And>a b. p = (a, b) \<Longrightarrow> rets (f a b) Q) \<Longrightarrow> rets (case p of (a, b) \<Rightarrow> f a b) Q"
  by (cases p) auto

lemma rets_option [total]:
  "(r = None \<Longrightarrow> rets x Q) \<Longrightarrow> (\<And>a. r = Some a \<Longrightarrow> rets (f a) Q) \<Longrightarrow>
     rets (case r of None \<Rightarrow> x | Some a \<Rightarrow> f a) Q"
  by (cases r) auto

lemma rets_Inr [total]: "Q x \<Longrightarrow> rets (Inr x) Q"
  by simp

lemma rets_mono: "rets r P \<Longrightarrow> (\<And>x. P x \<Longrightarrow> Q x) \<Longrightarrow> rets r Q"
  by (auto simp: rets_def split: sum.splits)

lemma rets_pure: "r \<noteq> Inl NoReturn \<Longrightarrow> (\<And>x. Q x) \<Longrightarrow> rets r Q"
  by (auto simp: rets_def split: sum.splits)

section \<open>Progress\<close>

text \<open>What a function has left to read after a call, and what it has after one that made progress.\<close>

definition rest_le :: "nat \<Rightarrow> lstate \<Rightarrow> bool" where
  "rest_le k s \<longleftrightarrow> TokenUnput s = None \<and> length (yyptr s) \<le> k"

definition token_step :: "nat \<Rightarrow> token \<times> lstate \<Rightarrow> bool" where
  "token_step k = (\<lambda>(t, s). rest_le k s \<and> (tlex t = Ch NUL \<or> length (yyptr s) < k))"

lemma p_input_shorter [simp]: "length (prest (p_input p)) = length (prest p) - 1"
  by (simp add: p_input_def)

lemma p_newline_rest [simp]: "prest (p_newline p) = prest p"
  by (simp add: p_newline_def)

lemma skip_lf_shorter: "length (prest (p_skip_lf p)) \<le> length (prest p)"
  by (simp add: p_skip_lf_def)

lemma quoted_text_shorter: "length (prest (quoted_text q p)) \<le> length (prest p)"
proof (induction q p rule: quoted_text.induct)
  case (1 q p)
  show ?case
  proof (cases "prest p")
    case Nil
    then show ?thesis by (simp add: quoted_text.simps)
  next
    case (Cons c s)
    have e: "length (prest (p_escape (p_input p))) \<le> length s" 
      using p_escape_shorter [of "p_input p"] Cons by (simp add: p_input_def)
    have l: "length (prest (p_skip_lf (p_input p))) \<le> length s"
      using skip_lf_shorter [of "p_input p"] Cons by (simp add: p_input_def)
    show ?thesis unfolding quoted_text.simps [of q p] Cons list.case
      by (intro pred_if [where P = "\<lambda>r. length (prest r) \<le> length (c # s)"];
          ((rule order_trans [OF "1.IH"(1) [OF Cons]], assumption)
           | (rule order_trans [OF "1.IH"(2) [OF Cons]], assumption, assumption, assumption)
           | (rule order_trans [OF "1.IH"(3) [OF Cons]], assumption, assumption, assumption, assumption)
           | (rule order_trans [OF "1.IH"(4) [OF Cons]], assumption, assumption, assumption, assumption, assumption))?;
          use e l in \<open>simp add: Cons\<close>)
  qed
qed

lemma comment_text_shorter: "length (prest (comment_text y p)) \<le> length (prest p)"
proof (induction y p rule: comment_text.induct)
  case (1 y p)
  show ?case
  proof (cases "prest p")
    case (Cons c s)
    have l: "length (prest (p_skip_lf (p_input p))) \<le> length s"
      using skip_lf_shorter [of "p_input p"] Cons by (simp add: p_input_def)
    show ?thesis using "1.IH" [OF Cons] l by (subst comment_text.simps) (auto simp: Cons)
  qed (simp add: comment_text.simps)
qed

lemma line_comment_text_shorter: "length (prest (fst (line_comment_text p))) \<le> length (prest p)"
proof (induction p rule: line_comment_text.induct)
  case (1 p)
  show ?case
  proof (cases "prest p")
    case (Cons c s)
    show ?thesis using "1.IH" [OF Cons] by (subst line_comment_text.simps) (auto simp: Cons)
  qed (simp add: line_comment_text.simps)
qed

definition step_result :: "nat \<Rightarrow> token option \<times> lstate \<Rightarrow> bool" where
  "step_result k = (\<lambda>(r, s).
     case r of Some t \<Rightarrow> token_step k (t, s) | None \<Rightarrow> rest_le k s \<and> length (yyptr s) < k)"

lemma set_pos_simps [simp]: "yyptr (set_pos p s) = prest p" "TokenUnput (set_pos p s) = TokenUnput s"
  "token_in_line_count (set_pos p s) = token_in_line_count s" "lexmode (set_pos p s) = lexmode s"
  by (simp_all add: set_pos_def)

lemma event_simps [simp]: "yyptr (event e s) = yyptr s" "TokenUnput (event e s) = TokenUnput s"
  by (simp_all add: event_def)

lemma p_to_rest [simp]: "prest (p_to r p) = r"
  by (simp add: p_to_def)

lemma result_return [simp]:
  "step_result k (d_TokenReturn l b p s) \<longleftrightarrow>
     TokenUnput s = None \<and> (length (prest p) < k \<or> l = Ch NUL \<and> length (prest p) \<le> k)"
  by (auto simp: step_result_def d_TokenReturn_def token_step_def rest_le_def token_at_pos_def mk_token_def)

lemma end_comment_place [simp]: "yyptr (end_comment n b p s) = prest p" "TokenUnput (end_comment n b p s) = TokenUnput s"
  by (simp_all add: end_comment_def Let_def)

lemma result_None [simp]: "step_result k (None, s) \<longleftrightarrow> TokenUnput s = None \<and> length (yyptr s) < k"
  by (auto simp: step_result_def rest_le_def)

lemma result_newline: "TokenUnput s = None \<Longrightarrow> length (prest p) < k \<Longrightarrow> step_result k (lex_newline b p s)"
  by (simp add: lex_newline_def Let_def)

lemma result_ident:
  assumes "TokenUnput s = None" "prest b = c # t" "ident_start c" "length t < k"
  shows "step_result k (lex_ident b s)"
proof -
  have "ident_char c" using assms(3) by (auto simp: ident_start_def ident_char_def c_isalnum_def)
  then have "length (dropWhile ident_char (prest b)) < k"
    using assms(2,4) length_dropWhile_le [of ident_char t] by simp
  then show ?thesis using assms(1)
    by (auto simp: lex_ident_def Let_def step_result_def token_step_def rest_le_def split: prod.splits)
qed

lemma result_slash:
  assumes "TokenUnput s = None" "length (prest b) - 1 < k"
  shows "step_result k (lex_slash_at b s)"
proof -
  have i: "length (prest (p_input b)) < k" using assms(2) by simp
  then have "length (prest (comment_text NUL (p_input (p_input b)))) < k"
    using comment_text_shorter [of NUL "p_input (p_input b)"] by simp
  moreover have "length (prest (fst (line_comment_text (p_input (p_input b))))) < k"
    using i line_comment_text_shorter [of "p_input (p_input b)"] by simp
  ultimately show ?thesis using i assms(1)
    by (auto simp: lex_slash_at_def Let_def split: prod.splits)
qed

lemma step_total:
  assumes "rest_le k s" "\<And>j s. j < k \<Longrightarrow> rest_le j s \<Longrightarrow> rets (pp s) (\<lambda>(r, s). rest_le j s)"
  shows "rets (lex_step pp s) (step_result k)"
proof -
  have u: "TokenUnput s = None" "length (prest (start_pos s)) \<le> k" using assms(1) by (simp_all add: rest_le_def start_pos_def)
  show ?thesis
  proof (cases "prest (start_pos s)")
    case Nil
    then show ?thesis using u by (simp add: lex_step_def Let_def)
  next
    case (Cons c t)
    have t: "length t < k" using u Cons by simp
    have q: "length (prest (quoted_text x (p_input (start_pos s)))) < k" for x
      using quoted_text_shorter [of x "p_input (start_pos s)"] t Cons by simp
    have e: "length (prest (p_escape (p_input (start_pos s)))) < k"
      using p_escape_shorter [of "p_input (start_pos s)"] t Cons by simp
    have l: "length (prest (p_skip_lf (p_input (start_pos s)))) < k"
      using skip_lf_shorter [of "p_input (start_pos s)"] t Cons by simp
    have pp: "rets (pp (set_pos (p_input (start_pos s)) s)) (step_result k)"
    proof (rule rets_mono [OF assms(2)])
      show "length t < k" by (rule t)
      show "rest_le (length t) (set_pos (p_input (start_pos s)) s)" using u Cons by (simp add: rest_le_def)
    qed (use t in \<open>auto simp: step_result_def token_step_def rest_le_def split: option.splits\<close>)
    have r: "lex_number (c # t) = (x, r) \<Longrightarrow> c_isdigit c \<Longrightarrow> length r < k" "lex_less t = (x, r) \<Longrightarrow> length r < k"
      "lex_operator d t = Some (x, r) \<Longrightarrow> length r < k" for d x r
      using t lex_number_shorter lex_less_shorter lex_operator_shorter le_less_trans by blast+
    show ?thesis
      unfolding lex_step_def Let_def Cons list.case
      by (intro total) (auto simp: t Cons pp u q e l intro!: result_newline result_ident result_slash dest: r)
  qed
qed

section \<open>The directives\<close>

definition tin_ok :: "nat \<Rightarrow> input_fun \<Rightarrow> bool" where
  "tin_ok k tin \<longleftrightarrow> (\<forall>j s. j \<le> k \<longrightarrow> rest_le j s \<longrightarrow> rets (tin s) (token_step j))"

lemma tin_okD: "tin_ok k tin \<Longrightarrow> j \<le> k \<Longrightarrow> rest_le j s \<Longrightarrow> (\<And>t s'. token_step j (t, s') \<Longrightarrow> Q (t, s')) \<Longrightarrow> rets (tin s) Q"
  unfolding tin_ok_def by (rule rets_mono [of _ "token_step j"]) auto

lemma tin_ok_mono: "tin_ok k tin \<Longrightarrow> j \<le> k \<Longrightarrow> tin_ok j tin"
  by (auto simp: tin_ok_def)

definition no_macros :: "lookup_fun \<Rightarrow> bool" where
  "no_macros mfind \<longleftrightarrow> (\<forall>s w. mfind s w = Inr (None, s))"

lemma rest_le_mode [simp]: "rest_le k (s\<lparr>lexmode := m\<rparr>) = rest_le k s" "rest_le k (s\<lparr>pcValue_define := v\<rparr>) = rest_le k s"
  by (simp_all add: rest_le_def)

lemma rest_le_mono: "rest_le j s \<Longrightarrow> j \<le> k \<Longrightarrow> rest_le k s"
  by (simp add: rest_le_def)

lemma token_step_le: "token_step k (t, s) \<Longrightarrow> rest_le k s"
  by (simp add: token_step_def)

lemma token_step_less: "token_step k (t, s) \<Longrightarrow> tlex t \<noteq> Ch NUL \<Longrightarrow> rest_le (k - 1) s \<and> 0 < k"
  by (auto simp: token_step_def rest_le_def)

lemma compare_returns: "f_StringCompare w v \<noteq> Inl NoReturn"
  by (simp add: f_StringCompare_def)

lemma append_name_returns: "append_name lstr t \<noteq> Inl NoReturn"
  by (auto simp: append_name_def LongStringAppend_def append_mem_def block_memcpy_def store_def Let_def
      sbind_Inl_iff map_sum_Inl_iff split: option.splits if_splits)

text \<open>A round of a loop over tokens: it goes on after a token that is not the end of the file, with
  less left to read.\<close>

lemma rest_less:
  assumes "token_step k (t, s)" "tlex t \<noteq> Ch NUL" "tin_ok k tin" "k < Suc n"
    and "\<And>j. j < k \<Longrightarrow> tin_ok j tin \<Longrightarrow> j < n \<Longrightarrow> rest_le j s \<Longrightarrow> rets r (\<lambda>x. rest_le j (g x) \<and> Q x)"
    and "\<And>x. rest_le k (g x) \<Longrightarrow> Q x \<Longrightarrow> R x"
  shows "rets r R"
proof -
  have s: "rest_le (k - 1) s" "0 < k" using token_step_less [OF assms(1,2)] by blast+
  then have "rets r (\<lambda>x. rest_le (k - 1) (g x) \<and> Q x)"
    using assms(3-5) tin_ok_mono [of k tin "k - 1"] by simp
  then show ?thesis by (rule rets_mono) (blast intro: rest_le_mono [OF _ diff_le_self] assms(6))
qed

lemma skip_total: "tin_ok k tin \<Longrightarrow> k < n \<Longrightarrow> rest_le k s \<Longrightarrow> rets (f_TokenSkipToNewline tin n s) (rest_le k)"
proof (induction n arbitrary: k s)
  case (Suc n)
  note l = rest_less [OF _ _ Suc.prems(1,2), where g = id and Q = "\<lambda>_. True"]
  have "rets (f_TokenSkipToNewline tin n s') (rest_le k)" if "token_step k (t, s')" "tlex t \<noteq> Ch NUL" for t s'
    by (rule l [OF that]) (auto intro: Suc.IH)
  then show ?case unfolding f_TokenSkipToNewline.simps
    by (intro total tin_okD [OF Suc.prems(1) order_refl Suc.prems(3)]) (auto dest: token_step_le)
qed simp

lemma rest_total:
  assumes "tin_ok k tin" "k < Suc n" "token_step k (t, s)"
  shows "rets (skip_rest tin n t s) (rest_le k)"
proof (cases "tlex t = SN_NEWLINE \<or> tlex t = Ch NUL")
  case True
  then show ?thesis using assms(3) by (auto simp: skip_rest_def dest: token_step_le)
next
  case False
  have "rets (f_TokenSkipToNewline tin n s) (rest_le k)"
    by (rule rest_less [OF assms(3) _ assms(1,2), where g = id and Q = "\<lambda>_. True"]) (use False in \<open>auto intro: skip_total\<close>)
  then show ?thesis using False by (simp add: skip_rest_def)
qed

lemma names_total:
  "tin_ok k tin \<Longrightarrow> k < n \<Longrightarrow> rest_le k s \<Longrightarrow> rets (name_loop tin n s lstr l) (\<lambda>x. rest_le k (snd x))"
proof (induction n arbitrary: k s lstr l)
  case (Suc n)
  have "rets (name_loop tin n s' lstr l) (\<lambda>x. rest_le k (snd x))"
    if "token_step k (t, s')" "name_part t" for t s' lstr l
    by (rule rest_less [OF that(1) _ Suc.prems(1,2), where g = snd and Q = "\<lambda>_. True"])
      (use that in \<open>auto simp: name_part_def intro: Suc.IH\<close>)
  moreover have "rets (skip_rest tin n t s') (\<lambda>s. rets (Inr (lstr, s)) (\<lambda>x. rest_le k (snd x)))"
    if "token_step k (t, s')" for t s' lstr
    using rest_total [OF Suc.prems(1,2) that] by (rule rets_mono) simp
  ultimately show ?case unfolding name_loop.simps
    by (intro total tin_okD [OF Suc.prems(1) order_refl Suc.prems(3)])
      (auto intro!: rets_pure [OF append_name_returns])
qed simp

lemma by_define_total:
  assumes "tin_ok k tin" "k < n" "rest_le k s"
  shows "rets (f_TokenSkipToNewlineByDefine tin n s) (\<lambda>x. rest_le k (snd x))"
proof -
  have r: "rets (skip_rest tin n t s') Q" if "token_step k (t, s')" "\<And>s. rest_le k s \<Longrightarrow> Q s" for t s' Q
    using rest_total [OF assms(1) _ that(1), of n] assms(2) that(2) by (auto elim: rets_mono)
  have l: "rets (name_loop tin n s' lstr l) Q" if "rest_le k s'" "\<And>x. rest_le k (snd x) \<Longrightarrow> Q x" for s' lstr l Q
    by (rule rets_mono [OF names_total [OF assms(1,2) that(1)] that(2)])
  show ?thesis unfolding f_TokenSkipToNewlineByDefine_def
    by (intro total tin_okD [OF assms(1) order_refl assms(3)] r l rets_pure [OF append_name_returns])
      (auto dest: token_step_le)
qed

text \<open>The tokens of a condition, to the end of the line or of the file.\<close>

lemma spec_total:
  assumes "tin_ok k tin" "no_macros mfind" "0 < n" "rest_le k s"
  shows "rets (f_TokenSpecMacroInput tin mfind n s) (\<lambda>((ts, b), s). \<exists>t. ts = [t] \<and> \<not> b \<and> token_step k (t, s))"
proof -
  note w = total tin_okD [OF assms(1)] rets_pure [OF compare_returns]
  have m: "f_TokenMacroInput tin mfind n s t = Inr (([t], False), s)" for s t
    using assms(2,3) by (cases n) (simp_all add: no_macros_def)
  have f: "f_IsDefined mfind s w = Inr (CPLEX_UNDEF, s)" for s w
    using assms(2) by (simp add: f_IsDefined_def no_macros_def)
  have d: "rets (defined_token tin mfind s') (\<lambda>(t, s''). rets (Inr (([t], False), s'')) (\<lambda>((ts, b), s). \<exists>t. ts = [t] \<and> \<not> b \<and> token_step k (t, s)))"
    if "token_step k (t, s')" "tlex t \<noteq> Ch NUL" for t s'
  proof -
    have s: "rest_le (k - 1) s'" "0 < k" using token_step_less [OF that] by blast+
    have k: "k - 1 \<le> k" by simp
    show ?thesis unfolding defined_token_def Let_def f sbind_simps prod.case
      by (intro total tin_okD [OF assms(1) k s(1)] tin_okD [OF assms(1) k token_step_le])
        (use s(2) in \<open>auto simp: token_step_def rest_le_def\<close>)
  qed
  show ?thesis unfolding f_TokenSpecMacroInput_def m
    by (intro w(1-5) tin_okD [OF assms(1) order_refl assms(4)] rets_pure [OF compare_returns])
      (auto intro!: rets_mono [OF d])
qed

lemma well_ended_snoc: "tlex t = SN_NEWLINE \<or> tlex t = Ch NUL \<Longrightarrow> well_ended (ts @ [t])"
  by (auto simp: well_ended_def)

lemma line_total:
  "tin_ok k tin \<Longrightarrow> no_macros mfind \<Longrightarrow> k + 1 < n \<Longrightarrow> rest_le k s \<Longrightarrow>
     rets (f_TokenReadToNewline tin mfind n s ret) (\<lambda>x. rest_le k (snd x) \<and> well_ended (fst x))"
proof (induction n arbitrary: k s ret)
  case (Suc n)
  have step: "rets (f_TokenSpecMacroInput tin mfind n s) (\<lambda>((ts, b), s). \<exists>t. ts = [t] \<and> \<not> b \<and> token_step k (t, s))"
    using Suc.prems by (intro spec_total) auto
  have "rets (f_TokenReadToNewline tin mfind n s' ret') (\<lambda>x. rest_le k (snd x) \<and> well_ended (fst x))"
    if "token_step k (t, s')" "tlex t \<noteq> Ch NUL" for t s' ret'
    by (rule rest_less [OF that Suc.prems(1), where g = snd and Q = "\<lambda>x. well_ended (fst x)" and n = "n"])
      (use Suc.prems in \<open>auto intro!: Suc.IH\<close>)
  then show ?case unfolding f_TokenReadToNewline.simps
    by (intro rets_bind rets_mono [OF step]) (auto intro: well_ended_snoc dest: token_step_le)
qed simp

lemma select_total:
  "(\<And>v f. (v, f) \<in> set acts \<Longrightarrow> rets (f s) Q) \<Longrightarrow> rets (other s) Q \<Longrightarrow> rets (pp_select w acts other s) Q"
proof (induction acts)
  case (Cons a acts)
  obtain v f where a: "a = (v, f)" by (cases a)
  have "rets (f s) Q" using Cons.prems(1) [of v f] a by simp
  moreover have "rets (pp_select w acts other s) Q" using Cons.prems by (intro Cons.IH) auto
  ultimately show ?case unfolding a by (auto intro!: rets_bind rets_pure [OF compare_returns])
qed simp

lemma ConstantExpression_returns: "well_ended ts \<Longrightarrow> ConstantExpression ts \<noteq> Inl NoReturn"
  using constant_expression_outcome [of ts "Suc (length ts)"] unfolding ConstantExpression_alt outcome_ok_def
  by (auto simp del: constant_expression.simps split: sum.splits)

lemma directive_total:
  assumes "tin_ok k tin" "no_macros mfind" "k + 1 < n" "rest_le k s"
  shows "rets (f_Preprocessor tin mfind n s) (\<lambda>x. rest_le k (snd x))"
proof -
  have skip: "rets (f_TokenSkipToNewline tin n s) Q" if "rest_le k s" "\<And>s. rest_le k s \<Longrightarrow> Q s" for s Q
    using assms(3) by (intro rets_mono [OF skip_total [OF assms(1) _ that(1)] that(2)]) auto
  have by_def: "rets (f_TokenSkipToNewlineByDefine tin n s) Q" if "rest_le k s" "\<And>x. rest_le k (snd x) \<Longrightarrow> Q x" for s Q
    using assms(3) by (intro rets_mono [OF by_define_total [OF assms(1) _ that(1)] that(2)]) auto
  have line: "rets (f_TokenReadToNewline tin mfind n s []) Q"
    if "rest_le k s" "\<And>x. rest_le k (snd x) \<Longrightarrow> well_ended (fst x) \<Longrightarrow> Q x" for s Q
    by (rule rets_mono [OF line_total [OF assms(1-3) that(1)]]) (auto intro: that(2))
  have f: "f_IsDefined mfind s w = Inr (CPLEX_UNDEF, s)" for s w
    using assms(2) by (simp add: f_IsDefined_def no_macros_def)
  have c: "rets (ConstantExpression ts) Q" if "well_ended ts" "\<And>x. Q x" for ts Q
    by (rule rets_pure [OF ConstantExpression_returns [OF that(1)] that(2)])
  note w = total tin_okD [OF assms(1) order_refl] skip by_def line c
  have d: "rets (pp_define tin n s) (\<lambda>x. rest_le k (snd x))" "rets (pp_include tin n s) (\<lambda>x. rest_le k (snd x))"
    "rets (pp_condition l tin mfind n s) (\<lambda>x. rest_le k (snd x))" "rets (pp_ifdef h tin mfind n s) (\<lambda>x. rest_le k (snd x))"
    "rets (pp_plain l tin n s) (\<lambda>x. rest_le k (snd x))" if "rest_le k s" for s l h
    unfolding pp_define_def pp_include_def pp_condition_def pp_ifdef_def pp_plain_def f sbind_simps prod.case Let_def
    by (intro w; (use that in \<open>auto dest: token_step_le\<close>))+
  have "rets (Preprocessor tin mfind n s) (\<lambda>x. rest_le k (snd x))" if "rest_le k s" for s
    unfolding Preprocessor_def
    by (intro rets_bind tin_okD [OF assms(1) order_refl that] rets_prod select_total)
      (auto intro!: d skip total dest: token_step_le)
  note p = rets_mono [OF this]
  show ?thesis unfolding f_Preprocessor_def Let_def
    by (intro rets_bind p) (use assms(4) in \<open>auto split: prod.splits\<close>)
qed

section \<open>The lexer\<close>

lemma loop_total:
  "(\<And>j s. j < k \<Longrightarrow> rest_le j s \<Longrightarrow> rets (pp s) (\<lambda>x. rest_le j (snd x))) \<Longrightarrow> k < n \<Longrightarrow> rest_le k s \<Longrightarrow>
     rets (input_loop pp n s) (token_step k)"
proof (induction n arbitrary: k s)
  case (Suc n)
  have pp: "j < k \<Longrightarrow> rest_le j s \<Longrightarrow> rets (pp s) (\<lambda>(r, s). rest_le j s)" for j s
    by (rule rets_mono [OF Suc.prems(1)]) auto
  have "rets (input_loop pp n s') (token_step k)" if "TokenUnput s' = None" "length (yyptr s') < k" for s'
  proof (rule rets_mono [OF Suc.IH])
    show "rest_le (k - 1) s'" "k - 1 < n" using that Suc.prems(2) by (auto simp: rest_le_def)
    show "rets (pp s) (\<lambda>x. rest_le j (snd x))" if "j < k - 1" "rest_le j s" for j s
      using Suc.prems(1) [of j s] that by simp
  qed (auto simp: token_step_def rest_le_def)
  then show ?case unfolding input_loop.simps
    by (intro rets_bind rets_mono [OF step_total [OF Suc.prems(3) pp]]) (auto simp: step_result_def rest_le_def split: option.splits)
qed simp

lemma input_total: "k + 2 < n \<Longrightarrow> rest_le k s \<Longrightarrow> rets (f_TokenInput None n s) (token_step k)"
proof (induction n arbitrary: k s)
  case (Suc n)
  have "no_macros (macro_lookup None n)" using Suc.prems(1) by (cases n) (simp_all add: no_macros_def macro_lookup_def)
  moreover have "tin_ok j (f_TokenInput None n)" if "j < k" for j
    using Suc that by (simp add: tin_ok_def)
  ultimately have "rets (f_Preprocessor (f_TokenInput None n) (macro_lookup None n) n s) (\<lambda>x. rest_le j (snd x))"
    if "j < k" "rest_le j s" for j s
    using that Suc.prems(1) by (intro directive_total) auto
  then show ?case using Suc.prems by (auto simp: token_input_def rest_le_def intro!: loop_total split: option.split)
qed simp

text \<open>C13: without macros the lexer returns: with fuel for the characters that are left, a call of
  \<open>yylex\<close> comes back, in whatever text, and it has read at least one character or is at the end of the file;
  so a file of \<open>n\<close> characters is at its end after at most \<open>n\<close> calls.\<close>

theorem lexer_terminates:
  assumes "TokenUnput s = None" "length (yyptr s) + 4 < n"
  shows "yylex None n s \<noteq> Inl NoReturn \<and>
    (\<forall>ts s'. yylex None n s = Inr (ts, s') \<longrightarrow> TokenUnput s' = None \<and>
       (\<exists>t. ts = [t] \<and> (if tlex t = Ch NUL then length (yyptr s') \<le> length (yyptr s) else length (yyptr s') < length (yyptr s))))"
proof -
  obtain m where n: "n = Suc m" using assms(2) by (cases n) auto
  have s: "rest_le (length (yyptr s)) s" "length (yyptr s) + 2 < m" "0 < m" using assms n by (auto simp: rest_le_def)
  have m: "f_TokenMacroInput tin (macro_lookup None m) m s t = Inr (([t], False), s)" for tin s t
    using s(3) by (cases m) (simp_all add: macro_lookup_def)
  have "rets (yylex None n s) (\<lambda>(ts, s'). \<exists>t. ts = [t] \<and> token_step (length (yyptr s)) (t, s'))"
    unfolding n yylex.simps m by (intro rets_bind rets_mono [OF input_total [OF s(2,1)]]) auto
  then show ?thesis by (auto simp: rets_def token_step_def rest_le_def split: sum.splits)
qed

theorem lexer_terminates_witness:
  "TokenUnput (f_ReadFile ''/* ('' lex_start) = None \<and> yylex None 10 (f_ReadFile ''/* ('' lex_start) \<noteq> Inl NoReturn"
proof -
  have "TokenUnput (f_ReadFile ''/* ('' lex_start) = None" "length (yyptr (f_ReadFile ''/* ('' lex_start)) + 4 < 10"
    by code_simp+
  from lexer_terminates [OF this] this(1) show ?thesis by blast
qed

end
