(* ===== verification/Cplex_Lines.thy ===== *)
theory Cplex_Lines
  imports Cplex_Keeps
begin

text \<open>
  The lexer counts lines right: whatever it reads, in text, comments, literals, directives and
  macro calls, each end of a line is counted once.
\<close>

section \<open>Ends of lines\<close>

text \<open>Lines end with a line feed, or with a carriage return and a line feed.\<close>

fun line_ends :: "string \<Rightarrow> bool" where
  "line_ends [] \<longleftrightarrow> True"
| "line_ends (c # s) \<longleftrightarrow> (c = CR \<longrightarrow> peek s = LF) \<and> line_ends s"

definition lf :: "string \<Rightarrow> int" where
  "lf s = int (count_list s LF)"

lemma lf_simps [simp]: "lf [] = 0" "lf (c # s) = (if c = LF then lf s + 1 else lf s)"
  "lf (w @ s) = lf w + lf s"
  by (simp_all add: lf_def)

lemma line_ends_append: "line_ends (w @ s) \<Longrightarrow> line_ends s"
  by (induction w) auto

text \<open>A rest that is reached within the line.\<close>

definition within :: "string \<Rightarrow> string \<Rightarrow> bool" where
  "within s r \<longleftrightarrow> (\<exists>w. s = w @ r \<and> LF \<notin> set w)"

lemma within_refl [simp]: "within s s"
  by (simp add: within_def)

lemma within_trans: "within s r \<Longrightarrow> within r q \<Longrightarrow> within s q"
  unfolding within_def by (metis Un_iff append.assoc set_append)

lemma within_Cons: "within s r \<Longrightarrow> c \<noteq> LF \<Longrightarrow> within (c # s) r"
  unfolding within_def by (metis append_Cons set_ConsD)

lemma within_tl: "peek s \<noteq> LF \<Longrightarrow> within s (tl s)"
  by (cases s) (auto intro: within_Cons)

lemma within_dropWhile:
  assumes "\<not> P LF"
  shows "within s (dropWhile P s)"
proof -
  have "LF \<notin> set (takeWhile P s)" using assms by (auto dest: set_takeWhileD)
  then show ?thesis unfolding within_def by (metis takeWhile_dropWhile_id)
qed

lemma LF_classes [simp]: "\<not> c_isdigit LF" "\<not> c_isxdigit LF" "\<not> ident_char LF"
  by (simp_all add: bytes byte_def ident_char_def)

lemma within_digits: "within s (digits s)" "within s (dropWhile c_isxdigit s)" "within s (dropWhile ident_char s)"
  by (simp_all add: within_dropWhile)

lemma within_exponent: "within s (lex_exponent s)"
  unfolding lex_exponent_def Let_def
  by (auto intro: within_digits within_trans [OF within_tl] within_trans [OF within_digits(1)]
      within_trans [OF within_trans [OF within_digits(1) within_tl]]
      within_trans [OF within_trans [OF within_trans [OF within_tl within_digits(1)] within_tl]])

lemma within_suffix:
  "number_suffix b s = (l, r) \<Longrightarrow> within s r" "hex_suffix s = (l, r) \<Longrightarrow> within s r"
  by (auto simp: number_suffix_def hex_suffix_def intro: within_tl split: if_splits)

lemma within_decimal:
  assumes "lex_decimal s = (l, r)"
  shows "within s r"
proof -
  define a where "a = digits s"
  define b where "b = (if peek a = CHR ''.'' then digits (tl a) else a)"
  define d where "d = (if peek b = CHR ''E'' \<or> peek b = CHR ''e'' then lex_exponent (tl b) else b)"
  have "within s a" by (simp add: a_def within_digits)
  moreover have "within a b" by (auto simp: b_def intro: within_trans [OF within_tl within_digits(1)])
  moreover have "within b d" by (auto simp: d_def intro: within_trans [OF within_tl within_exponent])
  moreover have "\<exists>f. number_suffix f d = (l, r)"
    using assms by (auto simp: lex_decimal_def a_def b_def d_def Let_def split: if_splits)
  ultimately show ?thesis using within_suffix(1) within_trans by blast
qed

lemma within_number: "lex_number s = (l, r) \<Longrightarrow> within s r"
proof (cases "peek s = CHR ''0'' \<and> (peek (tl s) = CHR ''X'' \<or> peek (tl s) = CHR ''x'')")
  case True
  assume l: "lex_number s = (l, r)"
  have "within s (tl s)" "within (tl s) (tl (tl s))" using True by (auto intro: within_tl)
  moreover have "within (tl (tl s)) (dropWhile c_isxdigit (tl (tl s)))" by (rule within_digits)
  moreover have "within (dropWhile c_isxdigit (tl (tl s))) r"
    using l True within_suffix(2) by (simp add: lex_number_def)
  ultimately show ?thesis using within_trans by blast
qed (auto simp: lex_number_def intro: within_decimal)

lemma within_less: "lex_less s = (l, r) \<Longrightarrow> within s r"
  by (auto simp: lex_less_def intro: within_tl within_trans [OF within_tl within_tl] split: if_splits)

lemma within_dot: "lex_dot s = (l, r) \<Longrightarrow> within s r"
proof -
  assume l: "lex_dot s = (l, r)"
  show ?thesis
  proof (cases "c_isdigit (peek s)")
    case True
    define a where "a = digits (tl s)"
    define b where "b = (if peek a = CHR ''E'' \<or> peek a = CHR ''e'' then lex_exponent (tl a) else a)"
    have p: "peek s \<noteq> LF" "peek s \<noteq> CHR ''*''" "peek s \<noteq> CHR ''.''" using True by (auto simp: bytes byte_def)
    have "within s (tl s)" by (rule within_tl [OF p(1)])
    moreover have "within (tl s) a" by (simp add: a_def within_digits)
    moreover have "within a b" by (auto simp: b_def intro: within_trans [OF within_tl within_exponent])
    moreover have "within b r" using l True p
      by (auto simp: lex_dot_def a_def b_def Let_def intro: within_tl split: if_splits)
    ultimately show ?thesis using within_trans by blast
  next
    case False
    then show ?thesis using l
      by (auto simp: lex_dot_def intro: within_tl within_trans [OF within_tl within_tl] split: if_splits)
  qed
qed

lemma within_operator:
  assumes "lex_operator c s = Some (l, r)"
  shows "within s r"
proof (cases "c = CHR ''.''")
  case True
  then have "lex_dot s = (l, r)" using assms by (simp add: lex_operator_def)
  then show ?thesis by (rule within_dot)
next
  case False
  then show ?thesis using assms
    by (auto simp: lex_operator_def operator_defs intro: within_tl within_trans [OF within_tl within_tl] split: if_splits)
qed

section \<open>Reading characters\<close>

text \<open>A position in \<open>src\<close>, and the number of its line.\<close>

definition lines_at :: "string \<Rightarrow> rpos \<Rightarrow> bool" where
  "lines_at src p \<longleftrightarrow> line_ends (prest p) \<and> (\<exists>w. src = w @ prest p \<and> pline p = 1 + lf w)"

lemma lines_move:
  assumes "lines_at src p" "prest p = v @ prest q" "pline q = pline p + lf v"
  shows "lines_at src q"
proof -
  obtain w where "src = w @ prest p" "pline p = 1 + lf w" using assms(1) by (auto simp: lines_at_def)
  then have "src = (w @ v) @ prest q \<and> pline q = 1 + lf (w @ v)" using assms(2,3) by simp
  moreover have "line_ends (prest q)" using assms(1,2) line_ends_append by (auto simp: lines_at_def)
  ultimately show ?thesis unfolding lines_at_def by blast
qed

lemma lines_input: "lines_at src p \<Longrightarrow> peek (prest p) \<noteq> LF \<Longrightarrow> lines_at src (p_input p)"
  by (rule lines_move [where v = "take 1 (prest p)"]; cases "prest p") (simp_all add: p_input_def)

lemma lines_LF: "lines_at src p \<Longrightarrow> peek (prest p) = LF \<Longrightarrow> lines_at src (p_newline (p_input p))"
  by (rule lines_move [where v = "take 1 (prest p)"]; cases "prest p") (simp_all add: p_input_def p_newline_def)

lemma lines_CR:
  assumes "lines_at src p" "peek (prest p) = CR"
  shows "lines_at src (p_newline (p_skip_lf (p_input p)))"
proof -
  obtain s where "prest p = CR # LF # s" using assms unfolding lines_at_def
    by (cases "prest p"; cases "tl (prest p)") auto
  then show ?thesis
    by (intro lines_move [OF assms(1), where v = "[CR, LF]"]) (simp_all add: p_input_def p_newline_def p_skip_lf_def)
qed

lemma lines_to:
  assumes "lines_at src p" "within (prest p) r"
  shows "lines_at src (p_to r p)"
proof -
  obtain w where "prest p = w @ r" "LF \<notin> set w" using assms(2) by (auto simp: within_def)
  moreover have "lf w = 0" using \<open>LF \<notin> set w\<close> by (simp add: lf_def count_list_0_iff)
  ultimately show ?thesis by (intro lines_move [OF assms(1)]) (simp_all add: p_to_def)
qed

lemma lines_escape: "lines_at src p \<Longrightarrow> lines_at src (p_escape p)"
  by (auto simp: p_escape_def Let_def intro: lines_CR lines_LF lines_input)

lemma if_split_rule: "(b \<Longrightarrow> P x) \<Longrightarrow> (\<not> b \<Longrightarrow> P y) \<Longrightarrow> P (if b then x else y)"
  by simp

lemma lines_quoted: "q \<noteq> LF \<Longrightarrow> lines_at src p \<Longrightarrow> lines_at src (quoted_text q p)"
proof (induction q p rule: quoted_text.induct)
  case (1 q p)
  show ?case
  proof (cases "prest p")
    case Nil
    then show ?thesis using lines_input [OF "1.prems"(2)] by (simp add: quoted_text.simps)
  next
    case (Cons c s)
    have i: "c \<noteq> LF \<Longrightarrow> lines_at src (p_input p)" "c = LF \<Longrightarrow> lines_at src (p_newline (p_input p))"
      "c = CR \<Longrightarrow> lines_at src (p_newline (p_skip_lf (p_input p)))"
      using Cons "1.prems" lines_input lines_LF lines_CR by simp_all
    consider "c = BSLASH" | "c \<noteq> BSLASH" "c = (if q = CHR ''<'' then CHR ''>'' else q)"
      | "c \<noteq> BSLASH" "c \<noteq> (if q = CHR ''<'' then CHR ''>'' else q)" "q = DQUOTE \<and> c = CR"
      | "c \<noteq> BSLASH" "c \<noteq> (if q = CHR ''<'' then CHR ''>'' else q)" "\<not> (q = DQUOTE \<and> c = CR)" "q = DQUOTE \<and> c = LF"
      | "c \<noteq> BSLASH" "c \<noteq> (if q = CHR ''<'' then CHR ''>'' else q)" "\<not> (q = DQUOTE \<and> c = CR)" "\<not> (q = DQUOTE \<and> c = LF)" "c = LF"
      | "c \<noteq> BSLASH" "c \<noteq> (if q = CHR ''<'' then CHR ''>'' else q)" "\<not> (q = DQUOTE \<and> c = CR)" "\<not> (q = DQUOTE \<and> c = LF)" "c \<noteq> LF"
      by blast
    then show ?thesis
    proof cases
      case 1
      then show ?thesis using "1.IH"(1) [OF Cons 1 "1.prems"(1) lines_escape [OF i(1)]] by (subst quoted_text.simps) (simp add: Cons)
    next
      case 2
      then show ?thesis using i "1.prems" by (subst quoted_text.simps) (simp add: Cons split: if_splits)
    next
      case 3
      then show ?thesis using "1.IH"(2) [OF Cons 3 "1.prems"(1) i(3)] by (subst quoted_text.simps) (simp add: Cons split: if_splits)
    next
      case 4
      then show ?thesis using "1.IH"(3) [OF Cons 4 "1.prems"(1) i(2)] by (subst quoted_text.simps) (simp add: Cons split: if_splits)
    next
      case 5
      then show ?thesis using "1.prems" by (subst quoted_text.simps) (simp add: Cons split: if_splits)
    next
      case 6
      then show ?thesis using "1.IH"(4) [OF Cons 6 "1.prems"(1) i(1)] by (subst quoted_text.simps) (auto simp: Cons split: if_splits)
    qed
  qed
qed

lemma lines_comment: "lines_at src p \<Longrightarrow> lines_at src (comment_text c p)"
proof (induction c p rule: comment_text.induct)
  case (1 prev p)
  show ?case
  proof (cases "prest p")
    case Nil
    then show ?thesis using lines_input [OF "1.prems"] by (simp add: comment_text.simps)
  next
    case (Cons c s)
    have i: "c \<noteq> LF \<Longrightarrow> lines_at src (p_input p)" "c = LF \<Longrightarrow> lines_at src (p_newline (p_input p))"
      "c = CR \<Longrightarrow> lines_at src (p_newline (p_skip_lf (p_input p)))"
      using Cons "1.prems" lines_input lines_LF lines_CR by simp_all
    show ?thesis unfolding comment_text.simps [of prev p] Cons list.case
      by (rule if_split_rule; (rule if_split_rule)?; (rule if_split_rule)?; (rule if_split_rule)?; (rule if_split_rule)?) (use i "1.IH" [OF Cons] in \<open>simp_all split: if_splits\<close>)
  qed
qed

lemma lines_line_comment: "lines_at src p \<Longrightarrow> lines_at src (fst (line_comment_text p))"
proof (induction p rule: line_comment_text.induct)
  case (1 p)
  show ?case
  proof (cases "prest p")
    case Nil
    then show ?thesis using lines_input [OF "1.prems"] by (simp add: line_comment_text.simps)
  next
    case (Cons c s)
    have i: "c \<noteq> LF \<Longrightarrow> lines_at src (p_input p)" "c = LF \<Longrightarrow> lines_at src (p_newline (p_input p))"
      using Cons "1.prems" lines_input lines_LF by simp_all
    show ?thesis unfolding line_comment_text.simps [of p] Cons list.case
      by (use i "1.IH" [OF Cons] in \<open>simp\<close>)
  qed
qed

section \<open>The lexer\<close>

definition lines_ok :: "string \<Rightarrow> lstate \<Rightarrow> bool" where
  "lines_ok src s \<longleftrightarrow> lines_at src (start_pos s)"

lemma lines_ok_place [simp]: "lines_ok src (set_pos p s) = lines_at src p"
  by (simp_all add: lines_ok_def lines_at_def set_pos_def start_pos_def)

lemma lines_ok_same [simp]: "lines_ok src (s\<lparr>token_in_line_count := n\<rparr>) = lines_ok src s"
  "lines_ok src (event e s) = lines_ok src s" "lines_at src (p\<lparr>pleng := m\<rparr>) = lines_at src p"
  by (simp_all add: lines_ok_def lines_at_def start_pos_def event_def)

lemma lines_return [simp]: "d_TokenReturn l b p s = (r, s') \<Longrightarrow> lines_ok src s' = lines_at src p"
  by (auto simp: d_TokenReturn_def)

lemma lines_end_comment [simp]: "lines_ok src (end_comment n b p s) = lines_at src p"
  by (simp add: end_comment_def Let_def)

lemma lines_newline: "lex_newline b p s = (r, s') \<Longrightarrow> lines_at src (p_newline p) \<Longrightarrow> lines_ok src s'"
  by (auto simp: lex_newline_def Let_def split: if_splits)

lemma lines_ident: "lex_ident b s = (r, s') \<Longrightarrow> lines_at src b \<Longrightarrow> lines_ok src s'"
  using lines_to [OF _ within_digits(3)]
  by (auto simp: lex_ident_def Let_def split: prod.splits if_splits)

lemma lines_slash:
  assumes "lex_slash_at b s = (r, s')" "lines_at src b" "prest b = CHR ''/'' # t"
  shows "lines_ok src s'"
proof -
  define p where "p = p_input b"
  have p: "lines_at src p" using assms(2,3) by (simp add: p_def lines_input)
  have q: "peek (prest p) \<noteq> LF \<Longrightarrow> lines_at src (p_input p)" using p by (rule lines_input)
  have c: "peek (prest p) = CHR ''*'' \<Longrightarrow> lines_at src (comment_text NUL (p_input p))" using q lines_comment by simp
  have l: "peek (prest p) = CHR ''/'' \<Longrightarrow> lines_at src (fst (line_comment_text (p_input p)))"
    using q lines_line_comment by simp
  show ?thesis using assms(1) p q c l
    by (auto simp: lex_slash_at_def Let_def p_def [symmetric] split: if_splits prod.splits)
qed

lemma lines_step:
  assumes "lines_ok src s" "\<And>s. lines_ok src s \<Longrightarrow> holds (pp s) (\<lambda>(r, s). lines_ok src s)"
  shows "holds (lex_step pp s) (\<lambda>(r, s). lines_ok src s)"
proof -
  have b: "lines_at src (start_pos s)" using assms(1) by (simp add: lines_ok_def)
  show ?thesis
  proof (cases "prest (start_pos s)")
    case Nil
    then show ?thesis using lines_input [OF b] by (auto simp: lex_step_def Let_def d_TokenReturn_def)
  next
    case (Cons c t)
    have i: "c \<noteq> LF \<Longrightarrow> lines_at src (p_input (start_pos s))" "c = LF \<Longrightarrow> lines_at src (p_newline (p_input (start_pos s)))"
      "c = CR \<Longrightarrow> lines_at src (p_newline (p_skip_lf (p_input (start_pos s))))"
      using Cons b lines_input lines_LF lines_CR by simp_all
    have w: "within t r \<Longrightarrow> c \<noteq> LF \<Longrightarrow> lines_at src (p_to r (start_pos s))" for r
      using lines_to [OF b] Cons within_Cons by metis
    have n: "lex_number (c # t) = (l, r) \<Longrightarrow> lines_at src (p_to r (start_pos s))" for l r
      using lines_to [OF b] Cons within_number by metis
    have q: "c \<noteq> LF \<Longrightarrow> lines_at src (quoted_text c (p_input (start_pos s)))" using lines_quoted i(1) by blast
    have e: "c \<noteq> LF \<Longrightarrow> lines_at src (p_escape (p_input (start_pos s)))" using lines_escape i(1) by blast
    note f = i w n q e b assms(2) Cons
    show ?thesis
      unfolding lex_step_def Let_def Cons list.case
      by (intro walk) (use f in \<open>auto dest: within_less within_operator lines_newline lines_ident lines_slash\<close>)
  qed
qed

interpretation lines: lexer_keeps "lines_ok src" for src
proof
  show "lines_ok src s' = lines_ok src s" if "yyptr s' = yyptr s" "yylineno s' = yylineno s" for s s'
    using that by (simp add: lines_ok_def lines_at_def start_pos_def)
qed (rule lines_step)

section \<open>Property\<close>

text \<open>Any number of calls of \<open>yylex\<close>, as the recognizer makes them: the tokens they return.\<close>

fun yylex_calls :: "paf_fun option \<Rightarrow> nat \<Rightarrow> nat \<Rightarrow> lstate \<Rightarrow> ub + token list list \<times> lstate" where
  "yylex_calls paf n 0 s = Inr ([], s)"
| "yylex_calls paf n (Suc k) s =
     sbind (yylex paf n s) (\<lambda>(ts, s).
     sbind (yylex_calls paf n k s) (\<lambda>(tss, s). Inr (ts # tss, s)))"

lemma calls_keep: "lines_ok src s \<Longrightarrow> holds (yylex_calls paf n k s) (\<lambda>(r, s). lines_ok src s)"
proof (induction k arbitrary: s)
  case (Suc k)
  then show ?case unfolding yylex_calls.simps
    by (intro walk lines.keepsD [OF lines.yylex_keeps] holds_mono [OF Suc.IH]) auto
qed simp

text \<open>C12: the lexer never loses a line: after any number of calls of \<open>yylex\<close>, through comments, literals
  over several lines, continued lines, directives that are skipped and calls of macros, what is left
  is a rest of the file and \<open>yylineno\<close> is one more than the ends of lines before it, whether lines end
  with a line feed or with a carriage return and a line feed.\<close>

theorem lines_counted:
  assumes "line_ends content" "NUL \<notin> set content"
    and "yylex_calls paf n k (f_ReadFile content s) = Inr (tss, s')"
  shows "\<exists>w. content = w @ yyptr s' \<and> yylineno s' = 1 + int (count_list w LF)"
proof -
  have "takeWhile (\<lambda>c. c \<noteq> NUL) content = content" using assms(2) by (auto simp: takeWhile_eq_all_conv)
  then have "yyptr (f_ReadFile content s) = content" by (simp only: f_ReadFile_def) simp
  then have "lines_ok content (f_ReadFile content s)"
    using assms(1) by (simp add: lines_ok_def lines_at_def start_pos_def) (simp add: f_ReadFile_def)
  from holdsD [OF calls_keep [OF this] assms(3)] show ?thesis
    by (auto simp: lines_ok_def lines_at_def start_pos_def lf_def)
qed

lemma lines_counted_witness:
  "line_ends (''/* a'' @ [CR, LF] @ ''b */ int'' @ [LF] @ ''x;'') \<and>
   (\<exists>tss s'. yylex_calls None 12 2 (f_ReadFile (''/* a'' @ [CR, LF] @ ''b */ int'' @ [LF] @ ''x;'') lex_start) = Inr (tss, s') \<and>
     yylineno s' = 3 \<and>
     (\<exists>w. ''/* a'' @ [CR, LF] @ ''b */ int'' @ [LF] @ ''x;'' = w @ yyptr s' \<and>
        yylineno s' = 1 + int (count_list w LF)))"
proof -
  let ?c = "''/* a'' @ [CR, LF] @ ''b */ int'' @ [LF] @ ''x;''"
  have l: "line_ends ?c" by code_simp
  have "case yylex_calls None 12 2 (f_ReadFile ?c lex_start) of Inl e \<Rightarrow> False | Inr (tss, s') \<Rightarrow> yylineno s' = 3"
    by code_simp
  then obtain tss s' where r: "yylex_calls None 12 2 (f_ReadFile ?c lex_start) = Inr (tss, s')" "yylineno s' = 3"
    by (auto split: sum.splits)
  have "NUL \<notin> set ?c" by code_simp
  from l r lines_counted [OF l this r(1)] show ?thesis by blast
qed

end
