(* ===== verification/Cplex_Text.thy ===== *)
theory Cplex_Text
  imports Cplex_Lines MacroLex_Props
begin

text \<open>
  What the lexer makes of a source text: the tokens that were written, each with the line and the
  column that counting the characters before it gives.
\<close>

section \<open>One token\<close>










lemma blank_not_token [simp]: "\<not> ident_start (CHR '' '')" "\<not> ident_start (CHR ''#'')"
  by (simp_all add: ident_start_def bytes byte_def)







section \<open>A text\<close>

















end
