(* ===== verification/Directives_Props.thy ===== *)
theory Directives_Props
  imports Cplex_Text
begin

text \<open>Macro calls of a source file, and its conditions.\<close>

section \<open>A call that is not closed\<close>

lemma input_end:
  assumes "yyptr s = []" "TokenUnput s = None"
  shows "f_TokenInput paf k s = Inl NoReturn \<or>
    (\<exists>t s'. f_TokenInput paf k s = Inr (t, s') \<and> tlex t = Ch NUL \<and> yyptr s' = [] \<and> TokenUnput s' = None)"
proof (cases k)
  case (Suc n)
  then show ?thesis using assms
    by (cases n) (auto simp: token_input_def lex_step_def Let_def start_pos_def d_TokenReturn_def token_at_pos_def
        mk_token_def set_pos_def p_input_def)
qed simp

lemma input_bracket:
  assumes "yyptr s = CHR ''('' # r" "TokenUnput s = None"
  shows "f_TokenInput paf k s = Inl NoReturn \<or>
    (\<exists>t s'. f_TokenInput paf k s = Inr (t, s') \<and> tlex t = Ch CHR ''('' \<and> yyptr s' = r \<and> TokenUnput s' = None)"
proof (cases k)
  case (Suc n)
  have "\<not> c_isdigit (CHR ''('')" "\<not> ident_start (CHR ''('')" by (simp_all add: bytes byte_def ident_start_def)
  then show ?thesis using assms Suc
    by (cases n) (auto simp: token_input_def lex_step_def Let_def start_pos_def d_TokenReturn_def token_at_pos_def
        mk_token_def set_pos_def p_to_def lex_operator_def bracket_def operator_defs)
qed simp

lemma param_end:
  assumes "yyptr s = []" "TokenUnput s = None" "p \<noteq> 0"
  shows "f_ParamToken (f_TokenInput paf k) mfind n s p ret = Inl NoReturn"
  using assms
proof (induction n arbitrary: s ret)
  case (Suc n)
  from input_end [OF Suc.prems(1,2), of paf k] show ?case
    by (elim disjE exE conjE) (simp_all add: Suc.IH Suc.prems Let_def)
qed simp

lemma param_brackets:
  assumes "yyptr s = replicate i (CHR ''('')" "TokenUnput s = None" "p + int i \<noteq> 0" "0 \<le> p"
  shows "f_ParamToken (f_TokenInput paf k) mfind n s p ret = Inl NoReturn"
  using assms
proof (induction i arbitrary: s p ret n)
  case (Suc i)
  have y: "yyptr s = CHR ''('' # replicate i (CHR ''('')" using Suc.prems(1) by simp
  show ?case
  proof (cases n)
    case (Suc m)
    from input_bracket [OF y Suc.prems(2), of paf k] show ?thesis unfolding \<open>n = Suc m\<close>
      by (elim disjE exE conjE) (use Suc.prems(3,4) in \<open>simp_all add: Suc.IH Let_def\<close>)
  qed simp
qed (simp add: param_end)

text \<open>a call of a macro with parameters in which a second bracket is open at the end of the file is
  never left: the end of the file ends an argument only outside of brackets, inside the loop takes the
  same token again and again.\<close>

theorem macro_call_eof_hangs:
  assumes "mfind s (ttext t) = Inr (Some m, s')" "macro_at s' m = Inr M" "ctyp M = CPP_MACRO"
    and "yyptr s' = replicate (i + 2) (CHR ''('')" "TokenUnput s' = None"
  shows "f_TokenMacroInput (f_TokenInput paf k) mfind n s t = Inl NoReturn"
proof (cases n)
  case (Suc n')
  have c: "f_ParamCreate (f_TokenInput paf k) mfind j s2 [] = Inl NoReturn"
    if "yyptr s2 = replicate (i + 1) (CHR ''('')" "TokenUnput s2 = None" for s2 j
  proof (cases j)
    case (Suc j')
    have "f_ParamToken (f_TokenInput paf k) mfind j' s2 0 [] = Inl NoReturn"
      using param_brackets [of s2 "i + 1" 0 paf k mfind j' "[]"] that by simp
    then show ?thesis using Suc by simp
  qed simp
  have y: "yyptr s' = CHR ''('' # replicate (i + 1) (CHR ''('')" using assms(4) by simp
  from input_bracket [OF y assms(5), of paf k] show ?thesis unfolding Suc
    by (elim disjE exE conjE) (use assms(1-3) c in simp_all)
qed simp

definition prog_call :: paf_fun where
  "prog_call = defs [(''F'', Some ''a'', ''a'')]"

definition find_call :: lookup_fun where
  "find_call st w = sbind (spec_find (Some prog_call) 9 (macros st) w) (\<lambda>(r, ms). Inr (r, st\<lparr>macros := ms\<rparr>))"

theorem macro_call_eof_hangs_witness:
  "f_TokenMacroInput (f_TokenInput (Some prog_call) 30) find_call 30 (f_ReadFile ''(('' lex_start)
     (mk_token SN_IDENTIFIER ''F'') = Inl NoReturn"
proof -
  let ?s = "f_ReadFile ''(('' lex_start"
  have "case find_call ?s ''F'' of Inr (Some m, s) \<Rightarrow>
      (case macro_at s m of Inr M \<Rightarrow> ctyp M = CPP_MACRO \<and> yyptr s = ''(('' \<and> TokenUnput s = None | Inl e \<Rightarrow> False) | _ \<Rightarrow> False"
    by code_simp
  then obtain m s where m: "find_call ?s ''F'' = Inr (Some m, s)"
    "case macro_at s m of Inr M \<Rightarrow> ctyp M = CPP_MACRO \<and> yyptr s = ''(('' \<and> TokenUnput s = None | Inl e \<Rightarrow> False"
    by (cases "find_call ?s ''F''") (auto split: option.splits)
  then obtain M where "macro_at s m = Inr M" "ctyp M = CPP_MACRO" "yyptr s = ''((''" "TokenUnput s = None"
    by (cases "macro_at s m") auto
  with m(1) show ?thesis by (intro macro_call_eof_hangs [where i = 0]) (simp_all add: numeral_2_eq_2)
qed

end
