(* ===== verification/CpStack.thy ===== *)
theory CpStack
  imports Directives_Props
begin

text \<open>
  The token window of the recognizer and conditional compilation (\<open>cp_stack.c\<close>).

  The recognizer looks at tokens by their distance from \<open>iva\<close>; \<open>f_read\<close> fills the window from the
  lexer, drops the tokens of the branches of \<open>#if\<close> that are not compiled, and keeps the conditions
  that are open in \<open>sIfstack\<close>.  Where a condition is undecided every branch is read, as long as the
  recognizer is on the same level of nesting (\<open>niveau\<close>) as at the \<open>#if\<close>.
\<close>

section \<open>State\<close>

record ifframe =
  status :: bool
  niveau_beg :: int
  status_max :: bool
  undef :: bool
  had_else :: bool

record zztoken =
  yytoken :: "lex + keyword"
  yytoken_cpp :: "lex + keyword"
  yytext :: string
  zlineno :: int
  zcharno :: int

text \<open>\<open>TokenRest\<close> holds the tokens behind \<open>TokenAct\<close> in the ring of the last call of \<open>yylex\<close>.\<close>

record 's stack =
  depth :: nat
  sIfstack :: "ifframe list"
  window :: "nat \<Rightarrow> zztoken"
  ivt :: nat
  iva :: nat
  keyw_cpp :: bool
  niveau :: int
  TokenAct :: token
  TokenRest :: "token list"
  highlight :: bool
  highlight_beg :: int
  input_state :: 's

type_synonym 's yylex_fun = "'s \<Rightarrow> ub + token list \<times> 's"

definition ZZSIZE :: nat where "ZZSIZE = 65536"
definition IFSTACK_SIZE :: nat where "IFSTACK_SIZE = 1000"

text \<open>A frame, by an index that may be outside of the array.\<close>

definition frame :: "'s stack \<Rightarrow> int \<Rightarrow> ub + ifframe" where
  "frame st d = (if 0 \<le> d \<and> d < int (length (sIfstack st)) then Inr (sIfstack st ! nat d) else Inl OutOfBounds)"

definition set_frame :: "nat \<Rightarrow> (ifframe \<Rightarrow> ifframe) \<Rightarrow> 's stack \<Rightarrow> ub + 's stack" where
  "set_frame d f st =
     (if d < length (sIfstack st) then Inr (st\<lparr>sIfstack := (sIfstack st)[d := f (sIfstack st ! d)]\<rparr>)
      else Inl OutOfBounds)"

definition init_stack :: "'s stack \<Rightarrow> ub + 's stack" where
  "init_stack st = set_frame 0 (\<lambda>f. f\<lparr>status := True\<rparr>) (st\<lparr>depth := 0\<rparr>)"

section \<open>Conditions\<close>

definition SetStatus :: "nat \<Rightarrow> bool \<Rightarrow> 's stack \<Rightarrow> ub + 's stack" where
  "SetStatus d v st =
     sbind (frame st (int d - 1)) (\<lambda>up.
     sbind (set_frame d (\<lambda>f. f\<lparr>status := status up \<and> v\<rparr>) st) (\<lambda>st.
     set_frame d (\<lambda>f. if status f then f\<lparr>status_max := True\<rparr> else f) st))"

definition HighLightBeg :: "'s stack \<Rightarrow> ub + 's stack" where
  "HighLightBeg st =
     sbind (frame st (int (depth st) - 1)) (\<lambda>up.
     if \<not> status up then Inr st
     else
       sbind (frame st (int (depth st))) (\<lambda>f.
       if \<not> status f then Inr (st\<lparr>highlight := True, highlight_beg := lineno_beg (TokenAct st)\<rparr>)
       else Inr (st\<lparr>highlight := False\<rparr>)))"

definition HighLightEnd :: "'s stack \<Rightarrow> ub + 's stack" where
  "HighLightEnd st = sbind (frame st (int (depth st) - 1)) (\<lambda>up. Inr st)"

definition HighLight :: "'s stack \<Rightarrow> ub + 's stack" where
  "HighLight st =
     sbind (frame st (int (depth st) - 1)) (\<lambda>up.
     if status up then sbind (HighLightEnd st) HighLightBeg else Inr st)"

definition pp_if :: "'s stack \<Rightarrow> ub + 's stack" where
  "pp_if st =
     (let mode = tmode (TokenAct st); d = depth st + 1 in
      sbind (set_frame d (\<lambda>f. f\<lparr>niveau_beg := niveau st, status_max := False, undef := (mode = CPLEX_UNDEF),
        had_else := False\<rparr>) (st\<lparr>depth := d\<rparr>)) (\<lambda>st.
      sbind (SetStatus d (mode = CPLEX_UNDEF \<or> mode \<noteq> CPLEX_FALSE) st) HighLightBeg))"

definition pp_else :: "'s stack \<Rightarrow> ub + 's stack" where
  "pp_else st =
     sbind
       (if depth st > 0 then
          sbind (set_frame (depth st) (\<lambda>f. f\<lparr>had_else := True\<rparr>) st) (\<lambda>st.
          sbind (frame st (int (depth st))) (\<lambda>f.
          SetStatus (depth st) (if undef f then niveau st = niveau_beg f else \<not> status_max f) st))
        else Inr st)
       HighLight"

definition pp_elif :: "'s stack \<Rightarrow> ub + 's stack" where
  "pp_elif st =
     (let mode = tmode (TokenAct st) in
      sbind
        (if depth st > 0 then
           sbind (set_frame (depth st) (\<lambda>f. f\<lparr>had_else := True, undef := undef f \<or> mode = CPLEX_UNDEF\<rparr>) st) (\<lambda>st.
           sbind (frame st (int (depth st))) (\<lambda>f.
           SetStatus (depth st)
             (if undef f then niveau st = niveau_beg f
              else if status_max f then False else mode \<noteq> CPLEX_FALSE) st))
         else Inr st)
        HighLight)"

definition pp_endif :: "'s stack \<Rightarrow> ub + 's stack" where
  "pp_endif st = sbind (HighLightEnd st) (\<lambda>st. Inr (st\<lparr>depth := depth st - 1\<rparr>))"

section \<open>Reading tokens\<close>

definition zz_of :: "token \<Rightarrow> zztoken" where
  "zz_of t =
     (let kw = (tlex t = SN_IDENTIFIER \<and> tkeyword t \<noteq> KW_NONE) in
      \<lparr>yytoken = (if kw \<and> \<not> tis_cpp t then Inr (tkeyword t) else Inl (tlex t)),
       yytoken_cpp = (if kw then Inr (tkeyword t) else Inl (tlex t)),
       yytext = ttext t, zlineno = lineno_beg t, zcharno = charno_beg t\<rparr>)"

definition push_token :: "'s stack \<Rightarrow> 's stack" where
  "push_token st = st\<lparr>window := (window st)(ivt st mod ZZSIZE := zz_of (TokenAct st)), ivt := ivt st + 1\<rparr>"

definition next_token :: "'s yylex_fun \<Rightarrow> 's stack \<Rightarrow> ub + 's stack" where
  "next_token lexer st =
     (case TokenRest st of
        t # ts \<Rightarrow> Inr (st\<lparr>TokenAct := t, TokenRest := ts\<rparr>)
      | [] \<Rightarrow>
          sbind (lexer (input_state st)) (\<lambda>(ts, s).
          case ts of
            [] \<Rightarrow> Inl NullPointer
          | t # ts \<Rightarrow> Inr (st\<lparr>TokenAct := t, TokenRest := ts, input_state := s\<rparr>)))"

definition read_one :: "'s yylex_fun \<Rightarrow> 's stack \<Rightarrow> ub + 's stack" where
  "read_one lexer st =
     sbind (next_token lexer st) (\<lambda>st.
     let l = tlex (TokenAct st) in
     if l = SN_PP_IF then pp_if st
     else if l = SN_PP_ELSE then pp_else st
     else if l = SN_PP_ELIF then pp_elif st
     else if l = SN_PP_ENDIF then pp_endif st
     else if l = SN_PP_DEFINE \<or> l = SN_PP_INCLUDE then sbind (frame st (int (depth st))) (\<lambda>_. Inr st)
     else if l = Ch NUL then Inr (push_token st)
     else sbind (frame st (int (depth st))) (\<lambda>f. Inr (if status f then push_token st else st)))"

fun f_read :: "'s yylex_fun \<Rightarrow> nat \<Rightarrow> nat \<Rightarrow> 's stack \<Rightarrow> ub + 's stack" where
  "f_read lexer 0 i st = Inl NoReturn"
| "f_read lexer (Suc n) i st =
     (if ivt st \<le> iva st + i then sbind (read_one lexer st) (f_read lexer n i) else Inr st)"

definition f_read_end :: "'s stack \<Rightarrow> 's stack" where
  "f_read_end st = st\<lparr>TokenRest := []\<rparr>"

section \<open>What the recognizer sees\<close>

text \<open>\<open>token (i)\<close>, \<open>ident (i)\<close> and the places of a token.  \<open>n\<close> is the fuel of \<open>f_read\<close>.\<close>

definition look :: "'s yylex_fun \<Rightarrow> nat \<Rightarrow> nat \<Rightarrow> 's stack \<Rightarrow> ub + zztoken \<times> 's stack" where
  "look lexer n i st =
     sbind (if ivt st \<le> iva st + i then f_read lexer n i st else Inr st) (\<lambda>st.
     Inr (window st ((iva st + i) mod ZZSIZE), st))"

definition stk_token :: "'s yylex_fun \<Rightarrow> nat \<Rightarrow> nat \<Rightarrow> 's stack \<Rightarrow> ub + (lex + keyword) \<times> 's stack" where
  "stk_token lexer n i st =
     sbind (look lexer n i st) (\<lambda>(z, st). Inr (if keyw_cpp st then yytoken_cpp z else yytoken z, st))"

definition stk_step :: "int \<Rightarrow> 's stack \<Rightarrow> 's stack" where
  "stk_step i st = st\<lparr>iva := nat (int (iva st) + i)\<rparr>"

end
