(* ===== verification/CpStack_Spec.thy ===== *)
theory CpStack_Spec
  imports CpStack "HOL-Library.Sublist"
begin

text \<open>
  What conditional compilation means: a machine on lists of open conditions, and the selection of
  the branches of a well-nested text; and the proof that \<open>cp_stack.c\<close> does it.
\<close>

section \<open>Open conditions\<close>

text \<open>Of each open condition, the innermost first: is its branch read, was it undecided, has a branch
  been read already.\<close>

type_synonym cond = "bool \<times> bool \<times> bool"

definition reading :: "cond list \<Rightarrow> bool" where
  "reading cs = (case cs of [] \<Rightarrow> True | (s, u, t) # _ \<Rightarrow> s)"

fun cond_step :: "cond list \<Rightarrow> token \<Rightarrow> cond list" where
  "cond_step cs x =
     (if tlex x = SN_PP_IF then
        (let on = (reading cs \<and> tmode x \<noteq> CPLEX_FALSE) in (on, tmode x = CPLEX_UNDEF, on) # cs)
      else
        (case cs of
           [] \<Rightarrow> []
         | (s, u, t) # cs \<Rightarrow>
             if tlex x = SN_PP_ELSE then
               (let on = (reading cs \<and> (u \<or> \<not> t)) in (on, u, t \<or> on) # cs)
             else if tlex x = SN_PP_ELIF then
               (let u = (u \<or> tmode x = CPLEX_UNDEF); on = (reading cs \<and> (u \<or> \<not> t \<and> tmode x \<noteq> CPLEX_FALSE)) in
                (on, u, t \<or> on) # cs)
             else if tlex x = SN_PP_ENDIF then cs
             else (s, u, t) # cs))"

definition pp_lex :: "lex set" where
  "pp_lex = {SN_PP_IF, SN_PP_ELSE, SN_PP_ELIF, SN_PP_ENDIF, SN_PP_DEFINE, SN_PP_INCLUDE}"

definition cond_out :: "cond list \<Rightarrow> token \<Rightarrow> token list" where
  "cond_out cs x = (if tlex x \<notin> pp_lex \<and> (tlex x = Ch NUL \<or> reading cs) then [x] else [])"

fun conds :: "cond list \<Rightarrow> token list \<Rightarrow> cond list" where
  "conds cs [] = cs"
| "conds cs (x # xs) = conds (cond_step cs x) xs"

fun compiled :: "cond list \<Rightarrow> token list \<Rightarrow> token list" where
  "compiled cs [] = []"
| "compiled cs (x # xs) = cond_out cs x @ compiled (cond_step cs x) xs"

lemma conds_append: "conds cs (xs @ ys) = conds (conds cs xs) ys"
  by (induction xs arbitrary: cs) simp_all

lemma compiled_append: "compiled cs (xs @ ys) = compiled cs xs @ compiled (conds cs xs) ys"
  by (induction xs arbitrary: cs) simp_all

text \<open>No \<open>#else\<close>, \<open>#elif\<close> or \<open>#endif\<close> without its \<open>#if\<close>, and not too many open ones.\<close>

fun nested :: "nat \<Rightarrow> token list \<Rightarrow> bool" where
  "nested d [] \<longleftrightarrow> True"
| "nested d (x # xs) \<longleftrightarrow>
     (tlex x = SN_PP_IF \<longrightarrow> d + 1 < IFSTACK_SIZE) \<and>
     (tlex x \<in> {SN_PP_ELSE, SN_PP_ELIF, SN_PP_ENDIF} \<longrightarrow> 0 < d) \<and>
     nested (if tlex x = SN_PP_IF then d + 1 else if tlex x = SN_PP_ENDIF then d - 1 else d) xs"

section \<open>Levels\<close>

text \<open>What an undecided \<open>#if\<close> does depends on the level of nesting (\<open>niveau\<close>) the recognizer is on when the
  token is read.  Each token now comes with this level, and each open condition keeps the level of its
  \<open>#if\<close>.\<close>

type_synonym lcond = "bool \<times> bool \<times> bool \<times> int"

definition lreading :: "lcond list \<Rightarrow> bool" where
  "lreading cs = (case cs of [] \<Rightarrow> True | (s, u, t, b) # _ \<Rightarrow> s)"

definition level_step :: "lcond list \<Rightarrow> token \<times> int \<Rightarrow> lcond list" where
  "level_step cs = (\<lambda>(x, l).
     if tlex x = SN_PP_IF then
       (let on = (lreading cs \<and> tmode x \<noteq> CPLEX_FALSE) in (on, tmode x = CPLEX_UNDEF, on, l) # cs)
     else
       (case cs of
          [] \<Rightarrow> []
        | (s, u, t, b) # cs \<Rightarrow>
            if tlex x = SN_PP_ELSE then
              (let on = (lreading cs \<and> (if u then l = b else \<not> t)) in (on, u, t \<or> on, b) # cs)
            else if tlex x = SN_PP_ELIF then
              (let u = (u \<or> tmode x = CPLEX_UNDEF);
                   on = (lreading cs \<and> (if u then l = b else \<not> t \<and> tmode x \<noteq> CPLEX_FALSE)) in
               (on, u, t \<or> on, b) # cs)
            else if tlex x = SN_PP_ENDIF then cs
            else (s, u, t, b) # cs))"

definition level_out :: "lcond list \<Rightarrow> token \<Rightarrow> token list" where
  "level_out cs x = (if tlex x \<notin> pp_lex \<and> (tlex x = Ch NUL \<or> lreading cs) then [x] else [])"

fun level_conds :: "lcond list \<Rightarrow> (token \<times> int) list \<Rightarrow> lcond list" where
  "level_conds cs [] = cs"
| "level_conds cs (x # xs) = level_conds (level_step cs x) xs"

fun level_compiled :: "lcond list \<Rightarrow> (token \<times> int) list \<Rightarrow> token list" where
  "level_compiled cs [] = []"
| "level_compiled cs (x # xs) = level_out cs (fst x) @ level_compiled (level_step cs x) xs"

lemma level_conds_append: "level_conds cs (xs @ ys) = level_conds (level_conds cs xs) ys"
  by (induction xs arbitrary: cs) simp_all

lemma level_compiled_append: "level_compiled cs (xs @ ys) = level_compiled cs xs @ level_compiled (level_conds cs xs) ys"
  by (induction xs arbitrary: cs) simp_all

lemma length_level_step:
  "length (level_step cs x) =
    (if tlex (fst x) = SN_PP_IF then length cs + 1 else if tlex (fst x) = SN_PP_ENDIF then length cs - 1 else length cs)"
  by (auto simp: level_step_def Let_def split: list.split prod.split)

text \<open>Where no condition is undecided, and where the level does not change, the levels do not matter.\<close>

definition level_free :: "bool \<Rightarrow> int \<Rightarrow> (token \<times> int) list \<Rightarrow> bool" where
  "level_free free nv xs \<longleftrightarrow> (\<forall>(x, l) \<in> set xs. if free then tmode x \<noteq> CPLEX_UNDEF else l = nv)"

definition forget :: "lcond list \<Rightarrow> cond list" where
  "forget = map (\<lambda>(s, u, t, b). (s, u, t))"

definition free_conds :: "bool \<Rightarrow> int \<Rightarrow> lcond list \<Rightarrow> bool" where
  "free_conds free nv cs \<longleftrightarrow> (\<forall>(s, u, t, b) \<in> set cs. if free then \<not> u else b = nv)"

lemma forget_reading: "reading (forget cs) = lreading cs"
  by (auto simp: forget_def reading_def lreading_def split: list.split)

lemma forget_step:
  assumes "free_conds free nv cs" "if free then tmode x \<noteq> CPLEX_UNDEF else l = nv"
  shows "forget (level_step cs (x, l)) = cond_step (forget cs) x \<and> free_conds free nv (level_step cs (x, l))"
proof (cases cs)
  case Nil
  then show ?thesis using assms
    by (auto simp: level_step_def forget_def free_conds_def Let_def reading_def lreading_def split: if_splits)
next
  case (Cons c cs')
  obtain s u t b where c: "c = (s, u, t, b)" by (cases c)
  have r: "reading (forget cs') = lreading cs'" "reading ((s, u, t) # forget cs') = s" "lreading (c # cs') = s"
    by (rule forget_reading) (simp_all add: reading_def lreading_def c)
  have f: "forget (k # ks) = (case k of (s, u, t, b) \<Rightarrow> (s, u, t)) # forget ks" for k ks by (simp add: forget_def)
  show ?thesis using assms r Cons
    by (auto simp: level_step_def f c free_conds_def Let_def split: if_splits)
qed

lemma level_compiled_free:
  assumes "free_conds free nv cs" "level_free free nv xs"
  shows "level_compiled cs xs = compiled (forget cs) (map fst xs)"
  using assms
proof (induction xs arbitrary: cs)
  case (Cons x xs)
  obtain y l where x: "x = (y, l)" by (cases x)
  have s: "forget (level_step cs x) = cond_step (forget cs) y" "free_conds free nv (level_step cs x)"
    using forget_step [OF Cons.prems(1), of y l] Cons.prems(2) x by (auto simp: level_free_def)
  have "level_out cs y = cond_out (forget cs) y" by (simp add: level_out_def cond_out_def forget_reading)
  moreover have "level_compiled (level_step cs x) xs = compiled (cond_step (forget cs) y) (map fst xs)"
    using Cons.IH [OF s(2)] Cons.prems(2) s(1) by (simp add: level_free_def)
  ultimately show ?case by (simp add: x del: cond_step.simps)
qed simp

section \<open>The frames\<close>

definition frame_ok :: "ifframe \<Rightarrow> lcond \<Rightarrow> bool" where
  "frame_ok f = (\<lambda>(s, u, t, b). status f = s \<and> undef f = u \<and> status_max f = t \<and> niveau_beg f = b)"

fun frames_ok :: "ifframe list \<Rightarrow> lcond list \<Rightarrow> bool" where
  "frames_ok fs [] \<longleftrightarrow> status (fs ! 0)"
| "frames_ok fs (c # cs) \<longleftrightarrow> frame_ok (fs ! (length cs + 1)) c \<and> frames_ok fs cs"

lemma frames_ok_upd: "length cs < d \<Longrightarrow> frames_ok (fs[d := x]) cs = frames_ok fs cs"
  by (induction cs) auto

lemma frames_ok_reading: "frames_ok fs cs \<Longrightarrow> status (fs ! length cs) = lreading cs"
  by (cases cs) (auto simp: lreading_def frame_ok_def)

definition conds_ok :: "lcond list \<Rightarrow> 's stack \<Rightarrow> bool" where
  "conds_ok cs st \<longleftrightarrow> depth st = length cs \<and> length cs < IFSTACK_SIZE \<and> length (sIfstack st) = IFSTACK_SIZE \<and>
     frames_ok (sIfstack st) cs"

text \<open>One directive: the frames and the highlighting change, nothing else.\<close>

definition frames_only :: "'s stack \<Rightarrow> 's stack \<Rightarrow> bool" where
  "frames_only st st' \<longleftrightarrow> window st' = window st \<and> ivt st' = ivt st \<and> iva st' = iva st \<and> niveau st' = niveau st \<and>
     keyw_cpp st' = keyw_cpp st \<and> TokenAct st' = TokenAct st \<and> TokenRest st' = TokenRest st \<and> input_state st' = input_state st"

lemma SetStatus_eq:
  assumes "0 < d" "d < length (sIfstack st)"
    "on \<longleftrightarrow> status (sIfstack st ! (d - 1)) \<and> v"
  shows "\<exists>st'. SetStatus d v st = Inr st' \<and> depth st' = depth st \<and> frames_only st st' \<and>
    sIfstack st' = (sIfstack st)[d := (sIfstack st ! d)\<lparr>status := on, status_max := status_max (sIfstack st ! d) \<or> on\<rparr>]"
proof -
  have "frame st (int d - 1) = Inr (sIfstack st ! (d - 1))" using assms(1,2) by (simp add: frame_def nat_diff_distrib')
  moreover have "f\<lparr>status := False, status_max := status_max f\<rparr> = f\<lparr>status := False\<rparr>" for f :: ifframe by (cases f) simp
  ultimately show ?thesis using assms by (auto simp: SetStatus_def set_frame_def frames_only_def)
qed

lemma HighLightBeg_eq:
  assumes "0 < depth st" "depth st < length (sIfstack st)"
  shows "\<exists>st'. HighLightBeg st = Inr st' \<and> depth st' = depth st \<and> frames_only st st' \<and> sIfstack st' = sIfstack st"
  using assms unfolding HighLightBeg_def frame_def by (auto simp: nat_diff_distrib' frames_only_def)

lemma HighLight_eq:
  assumes "0 < depth st" "depth st < length (sIfstack st)"
  shows "\<exists>st'. HighLight st = Inr st' \<and> depth st' = depth st \<and> frames_only st st' \<and> sIfstack st' = sIfstack st"
  using assms HighLightBeg_eq [OF assms]
  unfolding HighLight_def HighLightEnd_def frame_def by (auto simp: nat_diff_distrib' frames_only_def)

lemma frames_only_trans: "frames_only st st1 \<Longrightarrow> frames_only st1 st2 \<Longrightarrow> frames_only st st2"
  by (simp add: frames_only_def)

lemma conds_okD:
  assumes "conds_ok ((s, u, t, b) # cs) st"
  shows "depth st = length cs + 1" "length cs + 1 < length (sIfstack st)" "length cs + 1 < IFSTACK_SIZE"
    "length (sIfstack st) = IFSTACK_SIZE"
    "frames_ok (sIfstack st) cs" "status (sIfstack st ! length cs) = lreading cs"
    "frame_ok (sIfstack st ! (length cs + 1)) (s, u, t, b)"
  using assms frames_ok_reading by (auto simp: conds_ok_def)

text \<open>Setting the status of the innermost condition, after a change of its other fields.\<close>

lemma set_status_ok:
  assumes "length cs + 1 < IFSTACK_SIZE" "length fs = IFSTACK_SIZE" "frames_ok fs cs"
    "on \<longleftrightarrow> lreading cs \<and> v" "frame_ok (f\<lparr>status := on, status_max := status_max f \<or> on\<rparr>) c"
    "sIfstack st = fs[length cs + 1 := f]" "depth st = length cs + 1" "\<And>st. H st = HighLight st \<or> H st = HighLightBeg st"
  shows "\<exists>st'. sbind (SetStatus (length cs + 1) v st) H = Inr st' \<and> conds_ok (c # cs) st' \<and> frames_only st st'"
proof -
  have l: "length cs + 1 < length (sIfstack st)" using assms(1,2,6) by simp
  have up: "on \<longleftrightarrow> status (sIfstack st ! (length cs + 1 - 1)) \<and> v"
    using assms(4,6) frames_ok_reading [OF assms(3)] by simp
  obtain st1 where s1: "SetStatus (length cs + 1) v st = Inr st1" "depth st1 = depth st" "frames_only st st1"
    "sIfstack st1 = (sIfstack st)[length cs + 1 := (sIfstack st ! (length cs + 1))
       \<lparr>status := on, status_max := status_max (sIfstack st ! (length cs + 1)) \<or> on\<rparr>]"
    using SetStatus_eq [OF _ l up] by auto
  have "0 < depth st1" "depth st1 < length (sIfstack st1)" using s1(2,4) assms(7) l by simp_all
  from HighLight_eq [OF this] HighLightBeg_eq [OF this] assms(8) [of st1]
  obtain st2 where s2: "H st1 = Inr st2" "depth st2 = depth st1" "frames_only st1 st2" "sIfstack st2 = sIfstack st1" by metis
  have "conds_ok (c # cs) st2"
    using assms(1-3,5-7) s1 s2 l by (simp add: conds_ok_def frames_ok_upd frames_only_def)
  with s1(1,3) s2(1,3) frames_only_trans show ?thesis by auto
qed

lemma pp_if_ok:
  assumes "conds_ok cs st" "tlex (TokenAct st) = SN_PP_IF" "length cs + 1 < IFSTACK_SIZE"
  shows "\<exists>st'. pp_if st = Inr st' \<and> conds_ok (level_step cs (TokenAct st, niveau st)) st' \<and> frames_only st st'"
proof -
  let ?m = "tmode (TokenAct st)"
  let ?f = "(sIfstack st ! (length cs + 1))\<lparr>niveau_beg := niveau st, status_max := False, undef := (?m = CPLEX_UNDEF), had_else := False\<rparr>"
  let ?st = "st\<lparr>depth := length cs + 1, sIfstack := (sIfstack st)[length cs + 1 := ?f]\<rparr>"
  have "pp_if st = sbind (SetStatus (length cs + 1) (?m = CPLEX_UNDEF \<or> ?m \<noteq> CPLEX_FALSE) ?st) HighLightBeg"
    using assms(1,3) by (simp add: pp_if_def Let_def set_frame_def conds_ok_def)
  moreover have "\<exists>st'. sbind (SetStatus (length cs + 1) (?m = CPLEX_UNDEF \<or> ?m \<noteq> CPLEX_FALSE) ?st) HighLightBeg = Inr st' \<and>
      conds_ok (level_step cs (TokenAct st, niveau st)) st' \<and> frames_only ?st st'"
    using assms by (simp only: level_step_def prod.case refl if_True Let_def)
      (rule set_status_ok, auto simp: conds_ok_def frame_ok_def)
  ultimately show ?thesis by (auto simp: frames_only_def)
qed

lemma pp_endif_ok:
  assumes "conds_ok cs st" "tlex (TokenAct st) = SN_PP_ENDIF" "cs \<noteq> []"
  shows "\<exists>st'. pp_endif st = Inr st' \<and> conds_ok (level_step cs (TokenAct st, niveau st)) st' \<and> frames_only st st'"
proof -
  obtain s u t b cs' where cs: "cs = (s, u, t, b) # cs'" using assms(3) by (cases cs) auto
  then show ?thesis using assms(1,2) by (auto simp: cs level_step_def pp_endif_def HighLightEnd_def conds_ok_def frame_def frames_only_def)
qed

lemma nat_1_int [simp]: "nat (1 + int n) = Suc n"
  by simp

lemma pp_else_ok:
  assumes "conds_ok cs st" "tlex (TokenAct st) = SN_PP_ELSE" "cs \<noteq> []"
  shows "\<exists>st'. pp_else st = Inr st' \<and> conds_ok (level_step cs (TokenAct st, niveau st)) st' \<and> frames_only st st'"
proof -
  obtain s u t b cs' where cs: "cs = (s, u, t, b) # cs'" using assms(3) by (cases cs) auto
  note r = conds_okD [OF assms(1) [unfolded cs]]
  let ?f = "(sIfstack st ! (length cs' + 1))\<lparr>had_else := True\<rparr>"
  let ?v = "if u then niveau st = niveau_beg ?f else \<not> t"
  let ?st = "st\<lparr>sIfstack := (sIfstack st)[length cs' + 1 := ?f]\<rparr>"
  have "pp_else st = sbind (SetStatus (length cs' + 1) ?v ?st) HighLight"
    using r by (simp add: pp_else_def set_frame_def frame_def frame_ok_def)
  moreover have "\<exists>st'. sbind (SetStatus (length cs' + 1) ?v ?st) HighLight = Inr st' \<and>
      conds_ok (level_step cs (TokenAct st, niveau st)) st' \<and> frames_only ?st st'"
    unfolding cs level_step_def prod.case using assms(2) r
    by (simp only: lex.distinct refl if_True if_False Let_def list.case prod.case)
      (rule set_status_ok, auto simp: frame_ok_def split: if_splits)
  ultimately show ?thesis by (auto simp: frames_only_def)
qed

lemma pp_elif_ok:
  assumes "conds_ok cs st" "tlex (TokenAct st) = SN_PP_ELIF" "cs \<noteq> []"
  shows "\<exists>st'. pp_elif st = Inr st' \<and> conds_ok (level_step cs (TokenAct st, niveau st)) st' \<and> frames_only st st'"
proof -
  obtain s u t b cs' where cs: "cs = (s, u, t, b) # cs'" using assms(3) by (cases cs) auto
  note r = conds_okD [OF assms(1) [unfolded cs]]
  let ?m = "tmode (TokenAct st)"
  let ?u = "u \<or> ?m = CPLEX_UNDEF"
  let ?f = "(sIfstack st ! (length cs' + 1))\<lparr>had_else := True, undef := ?u\<rparr>"
  let ?v = "if ?u then niveau st = niveau_beg ?f else if t then False else ?m \<noteq> CPLEX_FALSE"
  let ?st = "st\<lparr>sIfstack := (sIfstack st)[length cs' + 1 := ?f]\<rparr>"
  have "pp_elif st = sbind (SetStatus (length cs' + 1) ?v ?st) HighLight"
    using r by (simp add: pp_elif_def set_frame_def frame_def frame_ok_def)
  moreover have "\<exists>st'. sbind (SetStatus (length cs' + 1) ?v ?st) HighLight = Inr st' \<and>
      conds_ok (level_step cs (TokenAct st, niveau st)) st' \<and> frames_only ?st st'"
    unfolding cs level_step_def prod.case using assms(2) r
    by (simp only: lex.distinct refl if_True if_False Let_def list.case prod.case)
      (rule set_status_ok, auto simp: frame_ok_def split: if_splits)
  ultimately show ?thesis by (auto simp: frames_only_def)
qed

section \<open>The token source\<close>

text \<open>The tokens that \<open>yylex\<close> will deliver, however it groups them into rings.\<close>

fun upcoming :: "'s yylex_fun \<Rightarrow> token list \<Rightarrow> 's \<Rightarrow> token list \<Rightarrow> bool" where
  "upcoming lexer rest s [] \<longleftrightarrow> True"
| "upcoming lexer (r # rest) s (t # ts) \<longleftrightarrow> r = t \<and> upcoming lexer rest s ts"
| "upcoming lexer [] s (t # ts) \<longleftrightarrow>
     (\<exists>rest s'. lexer s = Inr (t # rest, s') \<and> upcoming lexer rest s' ts)"

lemma next_token_ok:
  assumes "upcoming lexer (TokenRest st) (input_state st) (t # ts)"
  shows "\<exists>st'. next_token lexer st = Inr st' \<and> TokenAct st' = t \<and> upcoming lexer (TokenRest st') (input_state st') ts \<and>
    depth st' = depth st \<and> sIfstack st' = sIfstack st \<and> window st' = window st \<and> ivt st' = ivt st \<and> iva st' = iva st \<and>
    niveau st' = niveau st \<and> keyw_cpp st' = keyw_cpp st"
  using assms by (cases "TokenRest st") (auto simp: next_token_def)

text \<open>The window after the tokens \<open>out\<close> were read.\<close>

definition window_ok :: "token list \<Rightarrow> 's stack \<Rightarrow> bool" where
  "window_ok out st \<longleftrightarrow> ivt st = length out \<and>
     (\<forall>j < length out. length out \<le> j + ZZSIZE \<longrightarrow> window st (j mod ZZSIZE) = zz_of (out ! j))"

lemma window_push: "window_ok out st \<Longrightarrow> window_ok (out @ [TokenAct st]) (push_token st)"
proof -
  assume w: "window_ok out st"
  have "j mod ZZSIZE \<noteq> length out mod ZZSIZE" if "j < length out" "length out < j + ZZSIZE" for j
  proof
    assume "j mod ZZSIZE = length out mod ZZSIZE"
    then have "ZZSIZE dvd length out - j" using that(1) by (metis less_imp_le mod_eq_dvd_iff_nat)
    then show False using that by (auto dest: dvd_imp_le)
  qed
  then show ?thesis using w by (auto simp: window_ok_def push_token_def nth_append less_Suc_eq)
qed

lemma window_same: "window_ok out st \<Longrightarrow> window st' = window st \<Longrightarrow> ivt st' = ivt st \<Longrightarrow> window_ok out st'"
  by (simp add: window_ok_def)

text \<open>The state while a text is read: \<open>us\<close> has been read, at the levels it gives, and \<open>vs\<close> is left.\<close>

definition reading_ok :: "'s yylex_fun \<Rightarrow> (token \<times> int) list \<Rightarrow> token list \<Rightarrow> 's stack \<Rightarrow> bool" where
  "reading_ok lexer us vs st \<longleftrightarrow> upcoming lexer (TokenRest st) (input_state st) vs \<and>
     conds_ok (level_conds [] us) st \<and> window_ok (level_compiled [] us) st"

definition well_nested :: "bool \<Rightarrow> token list \<Rightarrow> bool" where
  "well_nested free ts \<longleftrightarrow> nested 0 ts \<and> (free \<longrightarrow> (\<forall>t \<in> set ts. tmode t \<noteq> CPLEX_UNDEF))"

lemma nested_append: "nested (length cs) (map fst us @ vs) \<longleftrightarrow> nested (length cs) (map fst us) \<and> nested (length (level_conds cs us)) vs"
proof (induction us arbitrary: cs)
  case (Cons x us)
  show ?case using Cons [of "level_step cs x"] by (simp add: length_level_step)
qed simp

lemma read_one_ok:
  assumes "reading_ok lexer us (x # vs) st" "nested 0 (map fst us @ x # vs)"
  shows "\<exists>st'. read_one lexer st = Inr st' \<and> reading_ok lexer (us @ [(x, niveau st)]) vs st' \<and> iva st' = iva st \<and>
    niveau st' = niveau st \<and> keyw_cpp st' = keyw_cpp st"
proof -
  define cs where "cs = level_conds [] us"
  have a: "upcoming lexer (TokenRest st) (input_state st) (x # vs)" "conds_ok cs st" "window_ok (level_compiled [] us) st"
    using assms(1) by (auto simp: reading_ok_def cs_def)
  have n: "tlex x = SN_PP_IF \<longrightarrow> length cs + 1 < IFSTACK_SIZE" "tlex x \<in> {SN_PP_ELSE, SN_PP_ELIF, SN_PP_ENDIF} \<longrightarrow> cs \<noteq> []"
    using assms(2) nested_append [of "[]" us "x # vs"] by (auto simp: cs_def)
  obtain st1 where s1: "next_token lexer st = Inr st1" "TokenAct st1 = x" "upcoming lexer (TokenRest st1) (input_state st1) vs"
    "depth st1 = depth st" "sIfstack st1 = sIfstack st" "window st1 = window st" "ivt st1 = ivt st" "iva st1 = iva st"
    "niveau st1 = niveau st" "keyw_cpp st1 = keyw_cpp st"
    using next_token_ok [OF a(1)] by auto
  have c1: "conds_ok cs st1" "window_ok (level_compiled [] us) st1"
    using a(2,3) s1 by (auto simp: conds_ok_def window_ok_def)
  have f: "frame st1 (int (depth st1)) = Inr (sIfstack st1 ! length cs)" "status (sIfstack st1 ! length cs) = lreading cs"
    using c1(1) frames_ok_reading by (auto simp: conds_ok_def frame_def)
  have u: "level_conds [] (us @ [(x, niveau st)]) = level_step cs (x, niveau st)" "level_compiled [] (us @ [(x, niveau st)]) = level_compiled [] us @ level_out cs x"
    by (simp_all add: level_conds_append level_compiled_append cs_def)
  have same: ?thesis if "read_one lexer st = Inr st2" "conds_ok (level_step cs (x, niveau st)) st2" "frames_only st1 st2" "level_out cs x = []" for st2
    using that s1 c1(2) u by (auto simp: reading_ok_def frames_only_def window_ok_def )
  consider "tlex x = SN_PP_IF" | "tlex x = SN_PP_ELSE" | "tlex x = SN_PP_ELIF" | "tlex x = SN_PP_ENDIF"
    | "tlex x = SN_PP_DEFINE \<or> tlex x = SN_PP_INCLUDE" | "tlex x \<notin> pp_lex" by (auto simp: pp_lex_def)
  then show ?thesis
  proof cases
    case 1
    with pp_if_ok [OF c1(1)] n s1(2,9) obtain st2 where "pp_if st1 = Inr st2" "conds_ok (level_step cs (x, niveau st)) st2" "frames_only st1 st2" by auto
    with 1 same s1(1,2) show ?thesis by (simp add: read_one_def level_out_def pp_lex_def)
  next
    case 2
    with pp_else_ok [OF c1(1)] n s1(2,9) obtain st2 where "pp_else st1 = Inr st2" "conds_ok (level_step cs (x, niveau st)) st2" "frames_only st1 st2" by auto
    with 2 same s1(1,2) show ?thesis by (simp add: read_one_def level_out_def pp_lex_def)
  next
    case 3
    with pp_elif_ok [OF c1(1)] n s1(2,9) obtain st2 where "pp_elif st1 = Inr st2" "conds_ok (level_step cs (x, niveau st)) st2" "frames_only st1 st2" by auto
    with 3 same s1(1,2) show ?thesis by (simp add: read_one_def level_out_def pp_lex_def)
  next
    case 4
    with pp_endif_ok [OF c1(1)] n s1(2,9) obtain st2 where "pp_endif st1 = Inr st2" "conds_ok (level_step cs (x, niveau st)) st2" "frames_only st1 st2" by auto
    with 4 same s1(1,2) show ?thesis by (simp add: read_one_def level_out_def pp_lex_def)
  next
    case 5
    then have "level_step cs (x, niveau st) = cs" by (auto simp: level_step_def split: list.split)
    with 5 show ?thesis using same [of st1] s1(1,2) f c1(1)
      by (auto simp: read_one_def Let_def level_out_def pp_lex_def frames_only_def)
  next
    case 6
    then have c: "level_step cs (x, niveau st) = cs" by (auto simp: level_step_def pp_lex_def split: list.split)
    show ?thesis
    proof (cases "tlex x = Ch NUL \<or> lreading cs")
      case True
      then have "read_one lexer st = Inr (push_token st1)" "level_out cs x = [x]"
        using 6 s1(1,2) f by (auto simp: read_one_def Let_def level_out_def pp_lex_def)
      then show ?thesis using window_push [OF c1(2)] s1 c1(1) u c
        by (auto simp: reading_ok_def conds_ok_def push_token_def)
    next
      case False
      then have "read_one lexer st = Inr st1" using 6 s1(1,2) f by (auto simp: read_one_def Let_def pp_lex_def)
      then show ?thesis using same [of st1] c c1(1) False by (simp add: level_out_def frames_only_def)
    qed
  qed
qed

section \<open>Reading ahead\<close>

text \<open>What is read until the compiled text is longer than \<open>k\<close>, on the level \<open>nv\<close>.\<close>

fun read_to :: "int \<Rightarrow> nat \<Rightarrow> (token \<times> int) list \<Rightarrow> token list \<Rightarrow> (token \<times> int) list \<times> token list" where
  "read_to nv k us [] = (us, [])"
| "read_to nv k us (v # vs) =
     (if length (level_compiled [] us) \<le> k then read_to nv k (us @ [(v, nv)]) vs else (us, v # vs))"

lemma read_to_append: "read_to nv k us vs = (us', vs') \<Longrightarrow> \<exists>ws. us' = us @ map (\<lambda>w. (w, nv)) ws \<and> vs = ws @ vs'"
proof (induction nv k us vs rule: read_to.induct)
  case (2 nv k us v vs)
  show ?case
  proof (cases "length (level_compiled [] us) \<le> k")
    case True
    with 2 obtain ws where "us' = (us @ [(v, nv)]) @ map (\<lambda>w. (w, nv)) ws" "vs = ws @ vs'" by auto
    then show ?thesis by (intro exI [of _ "v # ws"]) simp
  qed (use 2(2) in auto)
qed simp

lemma read_to_enough: "read_to nv k us vs = (us', vs') \<Longrightarrow> vs' = [] \<or> k < length (level_compiled [] us')"
  by (induction nv k us vs rule: read_to.induct) (auto split: if_splits)

lemma window_length: "reading_ok lexer us vs st \<Longrightarrow> ivt st = length (level_compiled [] us)"
  by (simp add: reading_ok_def window_ok_def)

lemma length_level_out: "length (level_out cs x) \<le> 1"
  by (simp add: level_out_def)

lemma f_read_ok:
  assumes "reading_ok lexer us vs st" "nested 0 (map fst us @ vs)" "length vs < n"
    "read_to (niveau st) (iva st + i) us vs = (us', vs')" "iva st + i < length (level_compiled [] us')"
  shows "\<exists>st'. f_read lexer n i st = Inr st' \<and> reading_ok lexer us' vs' st' \<and>
    iva st' = iva st \<and> niveau st' = niveau st \<and> keyw_cpp st' = keyw_cpp st \<and> ivt st' = max (ivt st) (iva st + i + 1)"
  using assms
proof (induction n arbitrary: us vs st)
  case (Suc n)
  note w = window_length [OF Suc.prems(1)]
  show ?case
  proof (cases "ivt st \<le> iva st + i")
    case True
    then have "vs \<noteq> []" using Suc.prems(4,5) w by auto
    then obtain x vs1 where vs: "vs = x # vs1" by (cases vs) auto
    obtain st1 where s1: "read_one lexer st = Inr st1" "reading_ok lexer (us @ [(x, niveau st)]) vs1 st1" "iva st1 = iva st"
      "niveau st1 = niveau st" "keyw_cpp st1 = keyw_cpp st"
      using read_one_ok Suc.prems(1,2) unfolding vs by blast
    have "ivt st1 \<le> ivt st + 1"
      using window_length [OF s1(2)] w length_level_out [of "level_conds [] us" x] by (simp add: level_compiled_append)
    moreover have "\<exists>st'. f_read lexer n i st1 = Inr st' \<and> reading_ok lexer us' vs' st' \<and>
        iva st' = iva st1 \<and> niveau st' = niveau st1 \<and> keyw_cpp st' = keyw_cpp st1 \<and> ivt st' = max (ivt st1) (iva st1 + i + 1)"
      using Suc.prems s1 vs True w by (intro Suc.IH [of "us @ [(x, niveau st)]" vs1 st1]) simp_all
    ultimately show ?thesis using s1 True by auto
  next
    case False
    then have "us' = us" "vs' = vs" using Suc.prems(4) w by (cases vs; simp)+
    then show ?thesis using Suc.prems(1) False by auto
  qed
qed simp

lemma look_ok:
  assumes "reading_ok lexer us vs st" "nested 0 (map fst us @ vs)" "length vs < n"
    "read_to (niveau st) (iva st + i) us vs = (us', vs')" "iva st + i < length (level_compiled [] us')"
    "ivt st \<le> iva st + i + ZZSIZE"
  shows "\<exists>st'. look lexer n i st = Inr (zz_of (level_compiled [] us' ! (iva st + i)), st') \<and> reading_ok lexer us' vs' st' \<and>
    iva st' = iva st \<and> niveau st' = niveau st \<and> ivt st' = max (ivt st) (iva st + i + 1)"
proof -
  have "\<exists>st'. (if ivt st \<le> iva st + i then f_read lexer n i st else Inr st) = Inr st' \<and> reading_ok lexer us' vs' st' \<and>
      iva st' = iva st \<and> niveau st' = niveau st \<and> ivt st' = max (ivt st) (iva st + i + 1)"
  proof (cases "ivt st \<le> iva st + i")
    case True
    then show ?thesis using f_read_ok [OF assms(1-5)] by auto
  next
    case False
    then have "us' = us" "vs' = vs" using assms(4) window_length [OF assms(1)] by (cases vs; simp)+
    then show ?thesis using assms(1) False by auto
  qed
  then obtain st' where s: "(if ivt st \<le> iva st + i then f_read lexer n i st else Inr st) = Inr st'" "reading_ok lexer us' vs' st'"
    "iva st' = iva st" "niveau st' = niveau st" "ivt st' = max (ivt st) (iva st + i + 1)" by blast
  have "length (level_compiled [] us') \<le> iva st + i + ZZSIZE"
    using s(5) window_length [OF s(2)] assms(6) by (simp add: ZZSIZE_def)
  then have "window st' ((iva st + i) mod ZZSIZE) = zz_of (level_compiled [] us' ! (iva st + i))"
    using s(2) assms(5) by (simp add: reading_ok_def window_ok_def)
  with s show ?thesis by (auto simp: look_def)
qed

lemma reading_ok_init:
  assumes "upcoming lexer [] (input_state st) ts" "TokenRest st = []" "ivt st = 0" "length (sIfstack st) = IFSTACK_SIZE"
  shows "\<exists>st'. init_stack st = Inr st' \<and> reading_ok lexer [] ts st' \<and> iva st' = iva st \<and> niveau st' = niveau st \<and> ivt st' = 0"
proof -
  let ?st = "st\<lparr>depth := 0, sIfstack := (sIfstack st)[0 := (sIfstack st ! 0)\<lparr>status := True\<rparr>]\<rparr>"
  have "init_stack st = Inr ?st" using assms(4) by (simp add: init_stack_def set_frame_def IFSTACK_SIZE_def)
  moreover have "reading_ok lexer [] ts ?st"
    using assms by (simp add: reading_ok_def conds_ok_def window_ok_def IFSTACK_SIZE_def)
  ultimately show ?thesis using assms(3) by fastforce
qed

lemma reading_ok_move: "reading_ok lexer us vs (st\<lparr>iva := k\<rparr>) = reading_ok lexer us vs st"
  by (simp add: reading_ok_def conds_ok_def window_ok_def)

lemma reading_ok_level: "reading_ok lexer us vs (st\<lparr>niveau := k\<rparr>) = reading_ok lexer us vs st"
  by (simp add: reading_ok_def conds_ok_def window_ok_def)

text \<open>The state while the recognizer reads a text whose selection does not depend on the levels.\<close>

definition stack_ok :: "bool \<Rightarrow> 's yylex_fun \<Rightarrow> token list \<Rightarrow> 's stack \<Rightarrow> bool" where
  "stack_ok free lexer ts st \<longleftrightarrow> well_nested free ts \<and>
     (\<exists>us vs. ts = map fst us @ vs \<and> level_free free (niveau st) us \<and> reading_ok lexer us vs st)"

end
