(* ===== verification/CpStack_Props.thy ===== *)
theory CpStack_Props
  imports CpStack_Spec
begin

text \<open>
  Properties of the token window and of conditional compilation.
\<close>

section \<open>Texts with conditions\<close>






lemma pp_token_simps [simp]: "tlex (pp_token l m) = l" "tmode (pp_token l m) = m"
  by (simp_all add: pp_token_def)



lemma pp_lex_simps [simp]: "SN_PP_IF \<in> pp_lex" "SN_PP_ELSE \<in> pp_lex" "SN_PP_ELIF \<in> pp_lex" "SN_PP_ENDIF \<in> pp_lex"
  by (simp_all add: pp_lex_def)

lemma lreading_Cons [simp]: "lreading ((s, u, t, b) # cs) = s"
  by (simp add: lreading_def)

lemma level_step_simps [simp]:
  "level_step cs (pp_token SN_PP_IF m, l) =
    (lreading cs \<and> m \<noteq> CPLEX_FALSE, m = CPLEX_UNDEF, lreading cs \<and> m \<noteq> CPLEX_FALSE, l) # cs"
  "level_step ((s, u, t, b) # cs) (pp_token SN_PP_ELSE m, l) =
    (let on = (lreading cs \<and> (if u then l = b else \<not> t)) in (on, u, t \<or> on, b) # cs)"
  "level_step ((s, u, t, b) # cs) (pp_token SN_PP_ELIF m, l) =
    (let u = (u \<or> m = CPLEX_UNDEF); on = (lreading cs \<and> (if u then l = b else \<not> t \<and> m \<noteq> CPLEX_FALSE)) in
      (on, u, t \<or> on, b) # cs)"
  "level_step ((s, u, t, b) # cs) (pp_token SN_PP_ENDIF m, l) = cs"
  by (simp_all add: level_step_def Let_def)



section \<open>The operations of the recognizer\<close>

text \<open>The recognizer looks at tokens, moves on and back, and counts the level it is on.\<close>

datatype stack_op = Look nat | Move nat | Level int

fun run_ops :: "'s yylex_fun \<Rightarrow> nat \<Rightarrow> stack_op list \<Rightarrow> 's stack \<Rightarrow> ub + zztoken list \<times> 's stack" where
  "run_ops lexer n [] st = Inr ([], st)"
| "run_ops lexer n (Look i # ops) st =
     sbind (look lexer n i st) (\<lambda>(z, st).
     sbind (run_ops lexer n ops st) (\<lambda>(zs, st). Inr (z # zs, st)))"
| "run_ops lexer n (Move k # ops) st = run_ops lexer n ops (st\<lparr>iva := k\<rparr>)"
| "run_ops lexer n (Level k # ops) st = run_ops lexer n ops (st\<lparr>niveau := k\<rparr>)"

text \<open>What it may do: look at tokens of the file, and not further back than the window is long.  Here
  \<open>a\<close> is \<open>iva\<close> and \<open>e\<close> is \<open>ivt\<close>.\<close>

fun ops_ok :: "bool \<Rightarrow> nat \<Rightarrow> nat \<Rightarrow> nat \<Rightarrow> stack_op list \<Rightarrow> bool" where
  "ops_ok free ntok a e [] \<longleftrightarrow> True"
| "ops_ok free ntok a e (Look i # ops) \<longleftrightarrow> a + i < ntok \<and> e \<le> a + i + ZZSIZE \<and> ops_ok free ntok a (max e (a + i + 1)) ops"
| "ops_ok free ntok a e (Move k # ops) \<longleftrightarrow> ops_ok free ntok k e ops"
| "ops_ok free ntok a e (Level k # ops) \<longleftrightarrow> free \<and> ops_ok free ntok a e ops"

fun seen :: "token list \<Rightarrow> nat \<Rightarrow> stack_op list \<Rightarrow> zztoken list" where
  "seen out a [] = []"
| "seen out a (Look i # ops) = zz_of (out ! (a + i)) # seen out a ops"
| "seen out a (Move k # ops) = seen out k ops"
| "seen out a (Level k # ops) = seen out a ops"

text \<open>The levels at which the tokens are read: each look reads on as far as it must, on the level that was
  counted before.  \<open>us\<close> has been read and \<open>vs\<close> is left.\<close>

fun levelled :: "(token \<times> int) list \<Rightarrow> token list \<Rightarrow> nat \<Rightarrow> int \<Rightarrow> stack_op list \<Rightarrow> (token \<times> int) list" where
  "levelled us vs a nv [] = us"
| "levelled us vs a nv (Look i # ops) = (let (us, vs) = read_to nv (a + i) us vs in levelled us vs a nv ops)"
| "levelled us vs a nv (Move k # ops) = levelled us vs k nv ops"
| "levelled us vs a nv (Level k # ops) = levelled us vs a k ops"

lemma levelled_append: "\<exists>ws vs'. levelled us vs a nv ops = us @ ws \<and> vs = map fst ws @ vs'"
proof (induction us vs a nv ops rule: levelled.induct)
  case (2 us vs a nv i ops)
  obtain us' vs' where r: "read_to nv (a + i) us vs = (us', vs')" by fastforce
  from read_to_append [OF r] obtain w1 where w1: "us' = us @ map (\<lambda>w. (w, nv)) w1" "vs = w1 @ vs'" by blast
  from 2 r obtain w2 v2 where "levelled us' vs' a nv ops = us' @ w2" "vs' = map fst w2 @ v2" by fastforce
  with r w1 show ?case by (intro exI [of _ "map (\<lambda>w. (w, nv)) w1 @ w2"]) (simp add: comp_def)
qed simp_all

lemma levelled_prefix: "prefix us (levelled us vs a nv ops)"
  using levelled_append [of us vs a nv ops] by auto

lemma run_ops_ok:
  assumes "reading_ok lexer us vs st" "nested 0 (map fst us @ vs)" "length vs < n"
    "map fst T = map fst us @ vs" "prefix (levelled us vs (iva st) (niveau st) ops) T"
    "ops_ok free (length (level_compiled [] T)) (iva st) (ivt st) ops"
  shows "\<exists>st'. run_ops lexer n ops st = Inr (seen (level_compiled [] T) (iva st) ops, st')"
  using assms
proof (induction ops arbitrary: us vs st)
  case (Cons op ops)
  show ?case
  proof (cases op)
    case (Look i)
    obtain us' vs' where r: "read_to (niveau st) (iva st + i) us vs = (us', vs')" by fastforce
    from read_to_append [OF r] obtain ws where ws: "us' = us @ map (\<lambda>w. (w, niveau st)) ws" "vs = ws @ vs'" by blast
    have m: "map fst us' @ vs' = map fst us @ vs" using ws by (simp add: comp_def)
    have p: "prefix (levelled us' vs' (iva st) (niveau st) ops) T" using Cons.prems(5) r Look by simp
    then have "prefix us' T" using levelled_prefix prefix_order.trans by blast
    then obtain rest where rest: "T = us' @ rest" by (auto simp: prefix_def)
    have "rest = []" if "vs' = []" using Cons.prems(4) m rest that by (simp flip: m)
    then have l: "iva st + i < length (level_compiled [] us')"
      using read_to_enough [OF r] Cons.prems(6) Look rest by auto
    have e: "ivt st \<le> iva st + i + ZZSIZE" "length vs' < n" using Cons.prems(3,6) Look ws by simp_all
    from look_ok [OF Cons.prems(1-3) r l e(1)] obtain st1 where
      s: "look lexer n i st = Inr (zz_of (level_compiled [] us' ! (iva st + i)), st1)" "reading_ok lexer us' vs' st1"
      "iva st1 = iva st" "niveau st1 = niveau st" "ivt st1 = max (ivt st) (iva st + i + 1)" by auto
    have "level_compiled [] us' ! (iva st + i) = level_compiled [] T ! (iva st + i)"
      using l rest by (simp add: level_compiled_append nth_append)
    moreover have "\<exists>st'. run_ops lexer n ops st1 = Inr (seen (level_compiled [] T) (iva st1) ops, st')"
      using Cons.prems(2,4,6) m p s Look e(2) by (intro Cons.IH [OF s(2)]) simp_all
    ultimately show ?thesis using s Look by auto
  next
    case (Move k)
    then show ?thesis using Cons.IH [of us vs "st\<lparr>iva := k\<rparr>"] Cons.prems reading_ok_move [of lexer us vs _ st] by simp
  next
    case (Level k)
    then show ?thesis using Cons.IH [of us vs "st\<lparr>niveau := k\<rparr>"] Cons.prems reading_ok_level [of lexer us vs _ st] by auto
  qed
qed simp

text \<open>Without changes of the level every token is read on the same one.\<close>

lemma levelled_free:
  assumes "ops_ok free k a e ops" "level_free free nv us" "free \<longrightarrow> (\<forall>t \<in> set vs. tmode t \<noteq> CPLEX_UNDEF)"
    "free \<or> nv' = nv"
  shows "level_free free nv (levelled us vs a nv' ops)"
  using assms
proof (induction us vs a nv' ops arbitrary: e rule: levelled.induct)
  case (2 us vs a nv' i ops)
  obtain us' vs' where r: "read_to nv' (a + i) us vs = (us', vs')" by fastforce
  from read_to_append [OF r] obtain ws where ws: "us' = us @ map (\<lambda>w. (w, nv')) ws" "vs = ws @ vs'" by blast
  have "level_free free nv us'" using 2(3,4,5) ws by (auto simp: level_free_def)
  then show ?case using 2(1) [OF r [symmetric] refl, of "max e (a + i + 1)"] 2(2,4,5) r ws by simp
qed auto

definition fresh_stack :: "'s \<Rightarrow> 's stack \<Rightarrow> bool" where
  "fresh_stack s st \<longleftrightarrow> input_state st = s \<and> TokenRest st = [] \<and> ivt st = 0 \<and> iva st = 0 \<and> length (sIfstack st) = IFSTACK_SIZE"

text \<open>C11: the recognizer may look ahead and go back as it likes: from the beginning of a file on, every
  token it looks at is the token that stands there in the compiled text, however often \<open>iva\<close> was moved
  in between, as long as it does not go back more than the 65536 tokens of the window behind the last
  token read.  Where all conditions are decided this also holds if it changes its level.\<close>

theorem window_exact:
  assumes "fresh_stack s st" "upcoming lexer [] s ts" "well_nested free ts"
    and "ops_ok free (length (compiled [] ts)) 0 0 ops" "length ts < n"
  shows "\<exists>st'. sbind (init_stack st) (run_ops lexer n ops) = Inr (seen (compiled [] ts) 0 ops, st')"
proof -
  from assms(1,2) obtain st1 where s: "init_stack st = Inr st1" "reading_ok lexer [] ts st1" "iva st1 = 0" "ivt st1 = 0"
    using reading_ok_init [of lexer st ts] by (auto simp: fresh_stack_def)
  let ?L = "levelled [] ts 0 (niveau st1) ops"
  obtain vs where vs: "ts = map fst ?L @ vs" using levelled_append [of "[]" ts 0 "niveau st1" ops] by auto
  define T where "T = ?L @ map (\<lambda>v. (v, niveau st1)) vs"
  have f: "map fst T = ts" using vs by (simp add: T_def comp_def)
  have "level_free free (niveau st1) ?L"
    using assms(3) by (intro levelled_free [OF assms(4)]) (auto simp: level_free_def well_nested_def)
  moreover have "free \<longrightarrow> (\<forall>v \<in> set vs. tmode v \<noteq> CPLEX_UNDEF)"
    using assms(3) arg_cong [OF vs, of set] by (auto simp: well_nested_def)
  ultimately have "level_free free (niveau st1) T" by (auto simp: level_free_def T_def)
  from level_compiled_free [OF _ this, of "[]"] have c: "level_compiled [] T = compiled [] ts"
    by (simp add: free_conds_def forget_def f)
  show ?thesis using run_ops_ok [OF s(2), of n T ops free] assms(3-5) f c s by (simp add: T_def well_nested_def)
qed


text \<open>behind the window the wrong token is seen: once more than 65536 tokens were read after a place,
  the recognizer that goes back to it is given the token 65536 places later.\<close>

theorem window_overrun:
  assumes "stack_ok free lexer ts st" "ivt st = iva st + i + ZZSIZE + 1"
  shows "look lexer n i st = Inr (zz_of (compiled [] ts ! (iva st + i + ZZSIZE)), st)"
proof -
  obtain us vs where ts: "ts = map fst us @ vs" "level_free free (niveau st) us" "reading_ok lexer us vs st"
    using assms(1) by (auto simp: stack_ok_def)
  have c: "level_compiled [] us = compiled [] (map fst us)"
    using level_compiled_free [OF _ ts(2), of "[]"] by (simp add: free_conds_def forget_def)
  let ?out = "compiled [] (map fst us)"
  let ?j = "iva st + i + ZZSIZE"
  have l: "length ?out = ?j + 1" using window_length [OF ts(3)] assms(2) c by simp
  have "\<forall>k < length ?out. length ?out \<le> k + ZZSIZE \<longrightarrow> window st (k mod ZZSIZE) = zz_of (?out ! k)"
    using ts(3) c by (simp add: reading_ok_def window_ok_def)
  from this [rule_format, of ?j] have "window st (?j mod ZZSIZE) = zz_of (?out ! ?j)"
    using l by (simp add: ZZSIZE_def)
  moreover have "compiled [] ts ! ?j = ?out ! ?j" using l ts(1) by (simp add: compiled_append nth_append)
  ultimately show ?thesis using assms(2) by (simp add: look_def)
qed

text \<open>an \<open>#else\<close>, \<open>#elif\<close> or \<open>#endif\<close> without its \<open>#if\<close> makes the highlighting read the element
  before the first one of \<open>sIfstack\<close>.\<close>

theorem unmatched_directive_underrun:
  assumes "depth st = 0" "upcoming lexer (TokenRest st) (input_state st) [t]"
    "tlex t \<in> {SN_PP_ELSE, SN_PP_ELIF, SN_PP_ENDIF}"
  shows "read_one lexer st = Inl OutOfBounds"
proof -
  obtain st1 where "next_token lexer st = Inr st1" "TokenAct st1 = t" "depth st1 = 0"
    using next_token_ok [of lexer st t "[]"] assms(1,2) by auto
  then show ?thesis using assms(3)
    by (auto simp: read_one_def pp_else_def pp_elif_def pp_endif_def HighLight_def HighLightEnd_def frame_def Let_def)
qed

section \<open>Examples\<close>

text \<open>A lexer that delivers given rings and then the end of the file.\<close>

definition list_lexer :: "token list list yylex_fun" where
  "list_lexer s = (case s of [] \<Rightarrow> Inr ([mk_token (Ch NUL) []], []) | ts # s \<Rightarrow> Inr (ts, s))"

definition empty_frame :: ifframe where
  "empty_frame = \<lparr>status = False, niveau_beg = 0, status_max = False, undef = False, had_else = False\<rparr>"

definition new_stack :: "'s \<Rightarrow> 's stack" where
  "new_stack s = \<lparr>depth = 0, sIfstack = replicate IFSTACK_SIZE empty_frame,
     window = (\<lambda>_. zz_of (mk_token (Ch NUL) [])), ivt = 0, iva = 0, keyw_cpp = True, niveau = 0,
     TokenAct = mk_token (Ch NUL) [], TokenRest = [], highlight = False, highlight_beg = 0, input_state = s\<rparr>"

lemma fresh_new_stack: "fresh_stack s (new_stack s)"
  by (simp add: fresh_stack_def new_stack_def)

definition idt :: "string \<Rightarrow> token" where
  "idt w = mk_token SN_IDENTIFIER w"



theorem window_exact_witness:
  "\<exists>st'. sbind (init_stack (new_stack [[idt ''a'', idt ''b''], [idt ''c'']]))
     (run_ops list_lexer 9 [Look 2, Move 1, Level 3, Look 0, Move 0, Look 0]) =
       Inr (map zz_of [idt ''c'', idt ''b'', idt ''a''], st')"
proof -
  let ?ts = "[idt ''a'', idt ''b'', idt ''c'']"
  have "upcoming list_lexer [] [[idt ''a'', idt ''b''], [idt ''c'']] ?ts" by (simp add: list_lexer_def)
  moreover have c: "compiled [] ?ts = ?ts" by (simp add: idt_def cond_out_def pp_lex_def reading_def)
  moreover have "well_nested True ?ts" by (simp add: well_nested_def idt_def mk_token_def)
  ultimately show ?thesis
    using window_exact [OF fresh_new_stack, of list_lexer _ ?ts True "[Look 2, Move 1, Level 3, Look 0, Move 0, Look 0]" 9]
    by (simp add: c ZZSIZE_def)
qed

theorem unmatched_directive_underrun_witness:
  "read_one list_lexer (new_stack [[pp_token SN_PP_ENDIF CPLEX_FALSE]]) = Inl OutOfBounds"
  by (rule unmatched_directive_underrun [of _ _ "pp_token SN_PP_ENDIF CPLEX_FALSE"])
    (simp_all add: new_stack_def list_lexer_def)

text \<open>A file of 65537 identifiers without conditions.\<close>

lemma plain_text:
  assumes "\<forall>t \<in> set ts. tlex t \<notin> pp_lex"
  shows "compiled [] ts = ts" "nested d ts" "upcoming lexer ts s ts"
  using assms by (induction ts arbitrary: d) (auto simp: cond_out_def reading_def pp_lex_def)

definition long_file :: "token list" where
  "long_file = map (\<lambda>k. (idt ''a'')\<lparr>lineno_beg := int k\<rparr>) [0..<65537]"

theorem window_overrun_witness:
  "\<exists>st. iva st = 0 \<and> (\<exists>z. look list_lexer 70000 0 st = Inr (z, st) \<and> zlineno z = 65536)"
proof -
  have p: "\<forall>t \<in> set long_file. tlex t \<notin> pp_lex" by (auto simp: long_file_def idt_def pp_lex_def)
  have l: "length long_file = 65537" by (simp add: long_file_def)
  have n: "nested 0 (map fst [] @ long_file)" using plain_text(2) [OF p] by simp
  obtain x xs where x: "long_file = x # xs" using l by (cases long_file) auto
  have "upcoming list_lexer [] [long_file] long_file"
    using plain_text(3) [OF p, of list_lexer "[]"] unfolding x by (simp add: list_lexer_def)
  from reading_ok_init [of list_lexer "new_stack [long_file]" long_file] this obtain st1 where
    s1: "reading_ok list_lexer [] long_file st1" "iva st1 = 0" "niveau st1 = 0" "ivt st1 = 0"
    by (auto simp: new_stack_def)
  obtain us vs where r: "read_to 0 65536 [] long_file = (us, vs)" by fastforce
  from read_to_append [OF this] obtain ws where ws: "us = map (\<lambda>w. (w, 0)) ws" "long_file = ws @ vs" by auto
  have f: "level_free False 0 us" using ws by (auto simp: level_free_def)
  have "\<forall>t \<in> set ws. tlex t \<notin> pp_lex" using p unfolding ws(2) by simp
  then have "compiled [] ws = ws" by (rule plain_text(1))
  then have c: "level_compiled [] us = ws"
    using level_compiled_free [OF _ f, of "[]"] ws(1) by (simp add: free_conds_def forget_def comp_def)
  have "65536 < length ws" using read_to_enough [OF r] ws(2) l c by auto
  then have lw: "65536 < length (level_compiled [] us)" using c by simp
  from look_ok [OF s1(1) n, of 70000 65536 us vs] s1 r lw l obtain st2 where
    s2: "reading_ok list_lexer us vs st2" "iva st2 = 0" "niveau st2 = 0" "ivt st2 = 65537" by (auto simp: ZZSIZE_def)
  have "stack_ok False list_lexer long_file st2"
    using s2 ws f n unfolding stack_ok_def by (intro conjI exI [of _ us] exI [of _ vs]) (simp_all add: well_nested_def comp_def)
  note s2 = this s2(2,4)
  have "long_file ! 65536 = (idt ''a'')\<lparr>lineno_beg := 65536\<rparr>" unfolding long_file_def by (subst nth_map) simp_all
  with window_overrun [OF s2(1), of 0 70000] s2(2,3) plain_text(1) [OF p]
  have "look list_lexer 70000 0 st2 = Inr (zz_of ((idt ''a'')\<lparr>lineno_beg := 65536\<rparr>), st2)" by (simp add: ZZSIZE_def)
  with s2(2) show ?thesis by (intro exI [of _ st2]) (simp add: zz_of_def Let_def)
qed

end
