(* ===== verification/Trees.thy ===== *)
theory Trees
  imports Cpdefines
begin

text \<open>
  The trees the recognizer builds (\<open>crossrefP.h\<close>): types, declarators, declarations, classes,
  enumerations, expressions and initialisers, and the small operations that create them
  (\<open>cp_type.c\<close>, \<open>cp_declarator.c\<close>, \<open>cp_oper.c\<close>, \<open>cp_declaration.c\<close>).

  A pointer to a structure that may be null is an option, a pointer to a list an option of a list;
  the members that link the elements of a list are the list itself, and \<open>iCheck\<close> is the datatype.
  The members that are flags are in records; what they share is \<open>specs\<close>.
\<close>

section \<open>Flags and places\<close>

record specs =
  fct_specifier :: keyword
  s_ellipsis :: bool
  s_const :: bool
  s_volatile :: bool
  s_char :: bool
  s_short :: bool
  s_int :: bool
  s_long :: bool
  s_signed :: bool
  s_unsigned :: bool
  s_float :: bool
  s_double :: bool
  s_bool :: bool
  s_void :: bool
  tname :: "string option"

record type_fields = specs +
  s_unknown :: bool

datatype iType =
    DECLARATION_UNKNOWN | DECLARATION_ASM | DECLARATION_TEMPLATE | DECLARATION_LINKAGE_SPECIFICATION
  | DECLARATION_NAMESPACE_DEFINITION | DECLARATION_NAMESPACE_ALIAS_DEFINITION
  | DECLARATION_USING_DIRECTIVE | DECLARATION_USING
  | DECLARATION_OBJECT | DECLARATION_MEMBER | DECLARATION_ARGUMENT

record decl_fields = specs +
  iType :: iType
  storage_class :: keyword
  lineno :: int

record place =
  plineno_beg :: int
  pcharno_beg :: int
  plineno_end :: int
  pcharno_end :: int

datatype oper_type = FUNCTION | ARRAY | POINTER_STAR | POINTER_AMPERSAND

record oper_fields =
  o_type :: oper_type
  o_const :: bool
  o_volatile :: bool
  o_name :: "string option"

record declarator_fields =
  d_name :: "string option"
  bStrange :: bool
  d_place :: place

record base =
  b_access :: keyword
  bVirtual :: bool
  b_name :: "string option"

record class_fields =
  c_name :: "string option"
  iAccess :: keyword
  c_type :: keyword
  ListBase :: "base list option"

datatype xoperator =
    Op operator | OPERATOR_KOMMA | OPERATOR_ASSIGN | OPERATOR_MULTassign | OPERATOR_DIVassign | OPERATOR_MODassign
  | OPERATOR_PLUSassign | OPERATOR_MINUSassign | OPERATOR_LSassign | OPERATOR_RSassign | OPERATOR_ANDassign
  | OPERATOR_ERassign | OPERATOR_ORassign | OPERATOR_DOTstar | OPERATOR_ARROWstar | OPERATOR_CAST
  | OPERATOR_SIZEOF_EXPRESSION | OPERATOR_SIZEOF_TYPENAME | OPERATOR_PRE_ICR | OPERATOR_PRE_DECR
  | OPERATOR_STAR | OPERATOR_ET | OPERATOR_ARRAY | OPERATOR_FUNCTION_CALL | OPERATOR_DOT | OPERATOR_ARROW
  | OPERATOR_POST_ICR | OPERATOR_POST_DECR | OPERATOR_NEW | OPERATOR_DELETE | OPERATOR_TYPE | OPERATOR_NAME
  | OPERATOR_CONSTRUCTOR_CALL

section \<open>Trees\<close>

datatype Type =
    Type (t_fields: type_fields) (t_class: "Class option") (t_enum: "Enum option") (t_declarator: "Declarator option")
and Declarator =
    Declarator (dr_fields: declarator_fields) (dr_expr: "Expr option") (ListExpr: "Expr list option")
      (dr_init: "Init option") (ListOper: "Oper list option")
and Oper =
    Oper (o_fields: oper_fields) (o_expr: "Expr option") (ListDeclaration: "Declaration list option")
and Declaration =
    Declaration (dn_fields: decl_fields) (dn_class: "Class option") (dn_enum: "Enum option")
      (ListDeclarator: "Declarator list option")
  | DeclarationSpecial (special: iType) (Name1: "string option") (Name2: "string option")
      (sp_list: "Declaration list option")
and Class =
    Class (cl_fields: class_fields) (ListMember: "(keyword \<times> Declaration) list option")
and Enum =
    Enum (e_name: "string option") (ListEnumerator: "(string \<times> Expr option) list option")
and Expr =
    Expr (x_operator: xoperator) (x_name: "string option") (x_type: "Type option") (Expr1: "Expr option")
      (Expr2: "Expr option") (Expr3: "Expr option") (x_init: "Init option") (x_list: "Expr list option")
      (x_place: place)
and Init =
    Init (i_expr: "Expr option") (ListInit: "Init list option")

section \<open>Lists\<close>

text \<open>The lists of \<open>cp_list.c\<close>; the element is not null.\<close>

definition f_ListAddLast :: "'a list option \<Rightarrow> 'a \<Rightarrow> 'a list option" where
  "f_ListAddLast l x = (case l of None \<Rightarrow> Some [x] | Some xs \<Rightarrow> Some (xs @ [x]))"

definition f_ListAddFirst :: "'a list option \<Rightarrow> 'a \<Rightarrow> 'a list option" where
  "f_ListAddFirst l x = (case l of None \<Rightarrow> Some [x] | Some xs \<Rightarrow> Some (x # xs))"

definition f_ListRemoveFirst :: "'a list option \<Rightarrow> 'a option \<times> 'a list option" where
  "f_ListRemoveFirst l = (case l of None \<Rightarrow> (None, None) | Some [] \<Rightarrow> (None, Some []) | Some (x # xs) \<Rightarrow> (Some x, Some xs))"

definition f_ListConcat :: "'a list option \<Rightarrow> 'a list option \<Rightarrow> 'a list option" where
  "f_ListConcat l1 l2 =
     (case l1 of
        None \<Rightarrow> l2
      | Some xs \<Rightarrow> (case l2 of None \<Rightarrow> Some xs | Some ys \<Rightarrow> Some (xs @ ys)))"

definition d_ElemFirst :: "'a list option \<Rightarrow> 'a option" where
  "d_ElemFirst l = (case l of Some (x # xs) \<Rightarrow> Some x | _ \<Rightarrow> None)"

section \<open>Creation\<close>

definition no_specs :: specs where
  "no_specs = \<lparr>fct_specifier = KW_NONE, s_ellipsis = False, s_const = False, s_volatile = False, s_char = False,
     s_short = False, s_int = False, s_long = False, s_signed = False, s_unsigned = False, s_float = False,
     s_double = False, s_bool = False, s_void = False, tname = None\<rparr>"

definition f_TypeCreate :: type_fields where
  "f_TypeCreate = specs.extend no_specs (type_fields.fields False)"

definition f_DeclarationCreate :: "iType \<Rightarrow> int \<Rightarrow> decl_fields" where
  "f_DeclarationCreate t ln = specs.extend no_specs (decl_fields.fields t KW_NONE ln)"

definition no_place :: place where
  "no_place = \<lparr>plineno_beg = 0, pcharno_beg = 0, plineno_end = 0, pcharno_end = 0\<rparr>"

definition f_DeclaratorCreate :: declarator_fields where
  "f_DeclaratorCreate = \<lparr>d_name = None, bStrange = False, d_place = no_place\<rparr>"

definition f_OperCreate :: "oper_type \<Rightarrow> oper_fields" where
  "f_OperCreate t = \<lparr>o_type = t, o_const = False, o_volatile = False, o_name = None\<rparr>"

text \<open>A declarator without a name, and its list of operators.\<close>

definition abstract_declarator :: "Oper list option \<Rightarrow> Declarator" where
  "abstract_declarator ops = Declarator f_DeclaratorCreate None None None ops"

definition add_oper :: "Oper \<Rightarrow> Declarator \<Rightarrow> Declarator" where
  "add_oper p d = (case d of Declarator f x xs i ops \<Rightarrow> Declarator f x xs i (f_ListAddLast ops p))"

definition concat_opers :: "Declarator \<Rightarrow> Oper list option \<Rightarrow> Declarator" where
  "concat_opers d l = (case d of Declarator f x xs i ops \<Rightarrow> Declarator f x xs i (f_ListConcat ops l))"

text \<open>An argument declaration from a type; the unknown flag is not taken over.\<close>

definition f_TypeCastToDeclaration :: "int \<Rightarrow> Type \<Rightarrow> Declaration" where
  "f_TypeCastToDeclaration ln t =
     (case t of Type f c e d \<Rightarrow>
        Declaration (specs.extend (specs.truncate f) (decl_fields.fields DECLARATION_ARGUMENT KW_NONE ln))
          c e (map_option (\<lambda>d. [d]) d))"

end
