(* ===== verification/TypeOps.thy ===== *)
theory TypeOps
  imports Trees
begin

text \<open>
  Operations on types (\<open>cp_type.c\<close>) and the copies of trees (\<open>cp_type.c\<close>, \<open>cp_declarator.c\<close>,
  \<open>cp_oper.c\<close>, \<open>cp_declaration.c\<close>), and what is read off a tree (\<open>cp_process.c\<close>).
\<close>

section \<open>Copies\<close>

text \<open>The copy of a node leaves out its expressions and initialisers, the class and the enumeration.
  Only arguments, variables and members are copied, never one of the special declarations.\<close>

fun f_DeclaratorDuplicate :: "Declarator \<Rightarrow> Declarator"
  and f_OperDuplicate :: "Oper \<Rightarrow> Oper"
  and f_DeclarationDuplicate :: "Declaration \<Rightarrow> Declaration" where
  "f_DeclaratorDuplicate (Declarator f x xs i ops) =
     Declarator (f_DeclaratorCreate\<lparr>d_name := d_name f\<rparr>) None None None
       (case ops of None \<Rightarrow> None | Some ops \<Rightarrow> Some (map f_OperDuplicate ops))"
| "f_OperDuplicate (Oper f x ds) =
     Oper f None (case ds of None \<Rightarrow> None | Some ds \<Rightarrow> Some (map f_DeclarationDuplicate ds))"
| "f_DeclarationDuplicate (Declaration f c e ds) =
     Declaration f None None (case ds of None \<Rightarrow> None | Some ds \<Rightarrow> Some (map f_DeclaratorDuplicate ds))"
| "f_DeclarationDuplicate (DeclarationSpecial t n1 n2 ds) = DeclarationSpecial t n1 n2 ds"

definition f_TypeDuplicate :: "Type \<Rightarrow> Type" where
  "f_TypeDuplicate t = (case t of Type f c e d \<Rightarrow> Type f None None (map_option f_DeclaratorDuplicate d))"

section \<open>New types\<close>

definition plain_type :: "(type_fields \<Rightarrow> type_fields) \<Rightarrow> Type" where
  "plain_type g = Type (g f_TypeCreate) None None None"

definition f_TypeCreateUnknown :: Type where
  "f_TypeCreateUnknown = plain_type (\<lambda>f. f\<lparr>s_unknown := True\<rparr>)"

definition f_TypeCreateInt :: Type where
  "f_TypeCreateInt = plain_type (\<lambda>f. f\<lparr>s_int := True\<rparr>)"

section \<open>Operators of a type\<close>

definition set_opers :: "Type \<Rightarrow> (Oper list option \<Rightarrow> Oper list option) \<Rightarrow> Type" where
  "set_opers t g =
     (case t of Type f c e d \<Rightarrow>
        Type f c e (map_option (\<lambda>d. case d of Declarator df x xs i ops \<Rightarrow> Declarator df x xs i (g ops)) d))"

definition first_oper :: "Type \<Rightarrow> Oper option" where
  "first_oper t = (case t_declarator t of None \<Rightarrow> None | Some d \<Rightarrow> d_ElemFirst (ListOper d))"

definition f_TypeDelPointer :: "Type option \<Rightarrow> Type option" where
  "f_TypeDelPointer t =
     map_option (\<lambda>t.
       if s_unknown (t_fields t) then t
       else
         case first_oper t of
           None \<Rightarrow> t
         | Some p \<Rightarrow>
             if o_type (o_fields p) = POINTER_STAR \<or> o_type (o_fields p) = POINTER_AMPERSAND
             then set_opers t (\<lambda>l. snd (f_ListRemoveFirst l)) else t) t"

definition f_TypeDelFunction :: "Type option \<Rightarrow> ub + Type" where
  "f_TypeDelFunction t =
     (case t of
        None \<Rightarrow> Inl NullPointer
      | Some t \<Rightarrow> Inr
          (if s_unknown (t_fields t) then t
           else
             case first_oper t of
               None \<Rightarrow> t
             | Some p \<Rightarrow>
                 if o_type (o_fields p) = FUNCTION then set_opers t (\<lambda>l. snd (f_ListRemoveFirst l)) else t))"

definition f_TypeAddPointer :: "Type option \<Rightarrow> ub + Type" where
  "f_TypeAddPointer t =
     (case t of
        None \<Rightarrow> Inl NullPointer
      | Some t \<Rightarrow> Inr
          (if s_unknown (t_fields t) then t
           else set_opers t (\<lambda>l. f_ListAddFirst l (Oper (f_OperCreate POINTER_STAR) None None))))"

section \<open>Names\<close>

text \<open>The name of a type or declaration, of its class or of its enumeration.\<close>

definition type_name :: "string option \<Rightarrow> Class option \<Rightarrow> Enum option \<Rightarrow> string option" where
  "type_name n c e =
     (case n of
        Some w \<Rightarrow> Some w
      | None \<Rightarrow>
          case c of
            Some c \<Rightarrow> c_name (cl_fields c)
          | None \<Rightarrow> (case e of Some e \<Rightarrow> e_name e | None \<Rightarrow> None))"

definition f_NameFromType :: "Type \<Rightarrow> string option" where
  "f_NameFromType t = type_name (tname (t_fields t)) (t_class t) (t_enum t)"

definition f_TypeToScope :: "Type option \<Rightarrow> string option" where
  "f_TypeToScope t = (case t of None \<Rightarrow> None | Some t \<Rightarrow> tname (t_fields t))"

text \<open>A declaration is given by its members.\<close>

definition f_TypeFromDeclarationAndDeclarator ::
    "decl_fields \<Rightarrow> Class option \<Rightarrow> Enum option \<Rightarrow> Declarator option \<Rightarrow> Type" where
  "f_TypeFromDeclarationAndDeclarator f c e dr =
     Type (specs.extend ((specs.truncate f)\<lparr>tname := type_name (tname f) c e\<rparr>) (type_fields.fields False)) None None dr"

definition f_TypeFromDeclaration :: "decl_fields \<Rightarrow> Class option \<Rightarrow> Enum option \<Rightarrow> Type" where
  "f_TypeFromDeclaration f c e = f_TypeFromDeclarationAndDeclarator f c e None"

definition f_TypeDeclaratorConcat :: "Type \<Rightarrow> Declarator \<Rightarrow> Type" where
  "f_TypeDeclaratorConcat t d =
     (case f_TypeDuplicate t of
        Type f c e None \<Rightarrow> Type f c e (Some d)
      | Type f c e (Some d2) \<Rightarrow> Type f c e (Some (concat_opers d (ListOper d2))))"

definition f_DeclaratorIsFunctionDefinition :: "Declarator option \<Rightarrow> bool" where
  "f_DeclaratorIsFunctionDefinition d =
     (case d of
        None \<Rightarrow> False
      | Some d \<Rightarrow> (case d_ElemFirst (ListOper d) of None \<Rightarrow> False | Some p \<Rightarrow> o_type (o_fields p) = FUNCTION))"

end
