(* ===== verification/TypeStr.thy ===== *)
theory TypeStr
  imports Trees Keywords
begin

text \<open>
  Types as strings: \<open>f_TypeToString\<close> and what it calls (\<open>cp_type.c\<close>, \<open>cp_declarator.c\<close>,
  \<open>cp_declaration.c\<close>) print a type as the symbol database stores it; \<open>f_TypeFromString\<close>
  (\<open>cp_type.c\<close>) reads such a string back with a lexer and a parser of its own.

  The buffers of 10000 bytes are strings without a bound here.
\<close>

section \<open>Printing\<close>

definition f_Strcat :: "string \<Rightarrow> string \<Rightarrow> string" where
  "f_Strcat pc1 pc2 =
     (if pc2 = [] then pc1
      else if pc1 = [] then pc2
      else
        let c1 = last pc1; c2 = hd pc2 in
        if (c_isalnum c1 \<or> c1 = CHR ''_'' \<or> c1 = CHR ''$'') \<and> c2 \<noteq> CHR ''>'' then pc1 @ '' '' @ pc2
        else pc1 @ pc2)"

definition strcat_all :: "string list \<Rightarrow> string \<Rightarrow> string" where
  "strcat_all ws pc = fold (\<lambda>w pc. f_Strcat pc w) ws pc"

definition word_if :: "bool \<Rightarrow> string \<Rightarrow> string list" where
  "word_if b w = (if b then [w] else [])"

definition fct_words :: "'a specs_scheme \<Rightarrow> string list" where
  "fct_words s = word_if (fct_specifier s = SN_INLINE) ''inline'' @ word_if (fct_specifier s = SN_VIRTUAL) ''virtual''"

definition cv_words :: "'a specs_scheme \<Rightarrow> string list" where
  "cv_words s = word_if (s_const s) ''const'' @ word_if (s_volatile s) ''volatile'' @ word_if (s_unsigned s) ''unsigned''"

text \<open>The words that set \<open>bType\<close>, up to \<open>void\<close>.\<close>

definition basic_words :: "'a specs_scheme \<Rightarrow> string list" where
  "basic_words s =
     (let modifier = \<not> s_int s \<and> \<not> s_float s \<and> \<not> s_double s in
      word_if (s_short s \<and> modifier) ''short'' @ word_if (s_long s \<and> modifier) ''long''
      @ word_if (s_char s) ''char''
      @ word_if (s_int s) (if s_long s then ''long'' else if s_short s then ''short'' else ''int'')
      @ word_if (s_float s) (if s_long s then ''double'' else ''float'')
      @ word_if (s_double s) (if s_short s then ''float'' else ''double'')
      @ word_if (s_bool s) ''bool'' @ word_if (s_void s) ''void'')"

definition opt_word :: "string option \<Rightarrow> string list" where
  "opt_word n = (case n of None \<Rightarrow> [] | Some w \<Rightarrow> [w])"

definition class_name :: "Class option \<Rightarrow> string option option" where
  "class_name c = map_option (\<lambda>c. c_name (cl_fields c)) c"

definition enum_name :: "Enum option \<Rightarrow> string option option" where
  "enum_name e = map_option e_name e"

definition type_words :: "type_fields \<Rightarrow> Class option \<Rightarrow> Enum option \<Rightarrow> string list" where
  "type_words s c e =
     (let typed = word_if (s_unknown s) ''unknown'' @ word_if (s_ellipsis s) ''...'' in
      let basic = basic_words s @ opt_word (tname s)
            @ (case class_name c of None \<Rightarrow> [] | Some n \<Rightarrow> opt_word n)
            @ (case enum_name e of None \<Rightarrow> [] | Some n \<Rightarrow> opt_word n) in
      fct_words s @ typed @ cv_words s @ basic
      @ word_if (\<not> (typed \<noteq> [] \<or> basic \<noteq> [] \<or> c \<noteq> None \<or> e \<noteq> None)) ''int'')"

definition storage_words :: "keyword \<Rightarrow> string list" where
  "storage_words k =
     word_if (k = SN_EXTERN) ''extern'' @ word_if (k = SN_STATIC) ''static'' @ word_if (k = SN_AUTO) ''auto''
     @ word_if (k = SN_REGISTER) ''register'' @ word_if (k = SN_FRIEND) ''friend'' @ word_if (k = SN_TYPEDEF) ''typedef''"

definition named_or :: "string option option \<Rightarrow> string list" where
  "named_or n = (case n of None \<Rightarrow> [] | Some None \<Rightarrow> [''anonymous''] | Some (Some w) \<Rightarrow> [w])"

definition decl_words :: "decl_fields \<Rightarrow> Class option \<Rightarrow> Enum option \<Rightarrow> string list" where
  "decl_words s c e =
     (let basic = basic_words s @ opt_word (tname s) @ named_or (class_name c) @ named_or (enum_name e) in
      word_if (s_ellipsis s) ''...'' @ storage_words (storage_class s) @ fct_words s @ cv_words s @ basic
      @ word_if (basic = []) ''int'')"

text \<open>An operator is put around what was printed before it; \<open>type_prev\<close> is the operator before.\<close>

definition is_pointer :: "oper_type option \<Rightarrow> bool" where
  "is_pointer t \<longleftrightarrow> t = Some POINTER_STAR \<or> t = Some POINTER_AMPERSAND"

definition in_brackets :: "string \<Rightarrow> oper_type option \<Rightarrow> string" where
  "in_brackets pc prev = (if is_pointer prev then strcat_all [''('', pc, '')''] [] else pc)"

definition pointer_words :: "oper_fields \<Rightarrow> string list" where
  "pointer_words f =
     (if o_type f = POINTER_STAR
      then (case o_name f of None \<Rightarrow> [] | Some n \<Rightarrow> [n, ''::'']) @ [''*''] else [''&''])
     @ word_if (o_const f) ''const'' @ word_if (o_volatile f) ''volatile''"

fun f_DeclaratorStrcat :: "string \<Rightarrow> Declarator \<Rightarrow> bool \<Rightarrow> string"
  and opers_strcat :: "string \<Rightarrow> oper_type option \<Rightarrow> Oper list \<Rightarrow> string"
  and f_OperStrcat :: "string \<Rightarrow> Oper \<Rightarrow> oper_type option \<Rightarrow> string"
  and declarations_strcat :: "string \<Rightarrow> bool \<Rightarrow> Declaration list \<Rightarrow> string"
  and f_DeclarationStrcat :: "string \<Rightarrow> Declaration \<Rightarrow> string"
  and declarators_strcat :: "string \<Rightarrow> bool \<Rightarrow> Declarator list \<Rightarrow> string" where
  "f_DeclaratorStrcat pc (Declarator f x xs i None) exact =
     f_Strcat pc (if exact then (case d_name f of None \<Rightarrow> [] | Some n \<Rightarrow> n) else [])"
| "f_DeclaratorStrcat pc (Declarator f x xs i (Some opers)) exact =
     f_Strcat pc (opers_strcat (if exact then (case d_name f of None \<Rightarrow> [] | Some n \<Rightarrow> n) else []) None opers)"
| "opers_strcat pc prev [] = pc"
| "opers_strcat pc prev (Oper f x ds # os) =
     opers_strcat (f_OperStrcat pc (Oper f x ds) prev) (Some (o_type f)) os"
| "f_OperStrcat pc (Oper f x None) prev =
     (case o_type f of
        ARRAY \<Rightarrow> f_Strcat (in_brackets pc prev) ''[]''
      | FUNCTION \<Rightarrow> f_Strcat (f_Strcat (in_brackets pc prev) ''('') '')''
      | _ \<Rightarrow> strcat_all (pointer_words f @ [pc]) [])"
| "f_OperStrcat pc (Oper f x (Some ds)) prev =
     (case o_type f of
        ARRAY \<Rightarrow> f_Strcat (in_brackets pc prev) ''[]''
      | FUNCTION \<Rightarrow> f_Strcat (declarations_strcat (f_Strcat (in_brackets pc prev) ''('') True ds) '')''
      | _ \<Rightarrow> strcat_all (pointer_words f @ [pc]) [])"
| "declarations_strcat pc first [] = pc"
| "declarations_strcat pc first (d # ds) =
     declarations_strcat (f_DeclarationStrcat (if first then pc else f_Strcat pc '','') d) False ds"
| "f_DeclarationStrcat pc (Declaration f c e None) = strcat_all (decl_words f c e) pc"
| "f_DeclarationStrcat pc (Declaration f c e (Some ds)) =
     declarators_strcat (strcat_all (decl_words f c e) pc) True ds"
| "f_DeclarationStrcat pc (DeclarationSpecial t n1 n2 ds) = pc"
| "declarators_strcat pc first [] = pc"
| "declarators_strcat pc first (d # ds) =
     declarators_strcat (f_DeclaratorStrcat (if first then pc else f_Strcat pc '','') d False) False ds"

definition f_TypeStrcat :: "string \<Rightarrow> Type option \<Rightarrow> bool \<Rightarrow> string" where
  "f_TypeStrcat pc t exact =
     (case t of
        None \<Rightarrow> pc
      | Some (Type f c e d) \<Rightarrow>
          let pc = strcat_all (type_words f c e) pc in
          case d of None \<Rightarrow> pc | Some d \<Rightarrow> f_DeclaratorStrcat pc d exact)"

definition f_TypeToString :: "Type option \<Rightarrow> bool \<Rightarrow> string" where
  "f_TypeToString t exact = f_TypeStrcat [] t exact"

section \<open>Tokens of a string\<close>

type_synonym toks = "((lex + keyword) \<times> string) list"

definition word_char :: "char \<Rightarrow> bool" where
  "word_char c \<longleftrightarrow> c_isalnum c \<or> c = CHR ''_''"

definition word_code :: "string \<Rightarrow> lex + keyword" where
  "word_code w = (if fst (keyword_of w) = KW_NONE then Inl SN_IDENTIFIER else Inr (fst (keyword_of w)))"

text \<open>One token, its text and the rest of the string; the end of the string is the code \<open>0\<close>.\<close>

fun TokenLex :: "string \<Rightarrow> (lex + keyword) \<times> string \<times> string" where
  "TokenLex [] = (Inl (Ch NUL), [], [])"
| "TokenLex (c # s) =
     (if c = NUL then (Inl (Ch NUL), [], c # s)
      else if c_isalpha c \<or> c = CHR ''_'' then
        let w = c # takeWhile word_char s in (word_code w, w, dropWhile word_char s)
      else if c = CHR '' '' \<or> c = TAB \<or> c = CR \<or> c = LF then TokenLex s
      else if c = CHR '':'' then
        (case s of
           d # s' \<Rightarrow> if d = CHR '':'' then (Inl SN_CLCL, ''::'', s') else (Inl (Ch c), [c], s)
         | [] \<Rightarrow> (Inl (Ch c), [c], []))
      else (Inl (Ch c), [c], s))"

lemma TokenLex_shorter: "TokenLex s = (t, w, r) \<Longrightarrow> t \<noteq> Inl (Ch NUL) \<Longrightarrow> length r < length s"
  by (induction s rule: TokenLex.induct)
    (auto simp: Let_def word_code_def less_Suc_eq_le length_dropWhile_le split: if_splits list.splits)

function type_tokens :: "string \<Rightarrow> toks" where
  "type_tokens s =
     (case TokenLex s of (t, w, r) \<Rightarrow> if t = Inl (Ch NUL) then [] else (t, w) # type_tokens r)"
  by pat_completeness auto
termination
  by (relation "measure length") (auto dest: TokenLex_shorter [OF sym])

declare type_tokens.simps [simp del]

definition Token :: "toks \<Rightarrow> nat \<Rightarrow> lex + keyword" where
  "Token ts i = (if i < length ts then fst (ts ! i) else Inl (Ch NUL))"

definition TokenIdent :: "toks \<Rightarrow> nat \<Rightarrow> string" where
  "TokenIdent ts i = (if i < length ts then snd (ts ! i) else [])"

abbreviation punct :: "char \<Rightarrow> lex + keyword" where "punct c \<equiv> Inl (Ch c)"
abbreviation T_ident :: "lex + keyword" where "T_ident \<equiv> Inl SN_IDENTIFIER"
abbreviation T_clcl :: "lex + keyword" where "T_clcl \<equiv> Inl SN_CLCL"

section \<open>Reading a type\<close>

fun template_loop :: "nat \<Rightarrow> string \<Rightarrow> toks \<Rightarrow> string \<times> toks" where
  "template_loop 0 pname ts = (pname, ts)"
| "template_loop (Suc i) pname [] = (pname, [])"
| "template_loop (Suc i) pname ((c, w) # ts) =
     template_loop (if c = punct (CHR ''>'') then i else if c = punct (CHR ''<'') then Suc (Suc i) else Suc i)
       (f_Strcat pname w) ts"

definition TemplateArgList :: "string \<Rightarrow> toks \<Rightarrow> string \<times> toks" where
  "TemplateArgList pname ts = template_loop 1 (pname @ ''<'') (drop 1 ts)"

fun class_name_loop :: "string \<Rightarrow> toks \<Rightarrow> string \<times> toks" where
  "class_name_loop ac ((c1, w1) # (c2, w2) # ts) =
     (if c1 = T_clcl \<and> c2 = T_ident then class_name_loop (f_Strcat (f_Strcat ac ''::'') w2) ts
      else (ac, (c1, w1) # (c2, w2) # ts))"
| "class_name_loop ac ts = (ac, ts)"

definition CompleteClassName :: "toks \<Rightarrow> string option \<times> toks" where
  "CompleteClassName ts0 =
     (let (ac, ts) = (if Token ts0 0 = T_clcl then (f_Strcat [] ''::'', drop 1 ts0) else ([], ts0)) in
      if Token ts 0 = T_ident then
        let ac = f_Strcat ac (TokenIdent ts 0); ts = drop 1 ts;
            (ac, ts) = (if Token ts 0 = punct (CHR ''<'') then TemplateArgList ac ts else (ac, ts));
            (ac, ts) = class_name_loop ac ts in
        (Some ac, ts)
      else (None, ts0))"

fun CvQualifierList :: "oper_fields \<Rightarrow> toks \<Rightarrow> oper_fields \<times> toks" where
  "CvQualifierList f [] = (f, [])"
| "CvQualifierList f ((c, w) # ts) =
     (if c = Inr SN_CONST then CvQualifierList (f\<lparr>o_const := True\<rparr>) ts
      else if c = Inr SN_VOLATILE then CvQualifierList (f\<lparr>o_volatile := True\<rparr>) ts
      else (f, (c, w) # ts))"

definition pointer_oper :: "oper_type \<Rightarrow> string option \<Rightarrow> toks \<Rightarrow> Oper option \<times> toks" where
  "pointer_oper t n ts =
     (let (f, ts) = CvQualifierList ((f_OperCreate t)\<lparr>o_name := n\<rparr>) (drop 1 ts) in (Some (Oper f None None), ts))"

text \<open>A class name without \<open>::\<close> behind it stays read.\<close>

definition PtrOperator :: "toks \<Rightarrow> Oper option \<times> toks" where
  "PtrOperator ts0 =
     (let t = Token ts0 0 in
      if t = punct (CHR ''*'') then pointer_oper POINTER_STAR None ts0
      else if t = punct (CHR ''&'') then pointer_oper POINTER_AMPERSAND None ts0
      else if t = T_ident \<or> t = T_clcl then
        let (n, ts) = CompleteClassName ts0 in
        if Token ts 0 \<noteq> T_clcl then (None, ts)
        else
          let ts = drop 1 ts in
          if Token ts 0 = punct (CHR ''*'') then pointer_oper POINTER_STAR n ts else (None, ts0)
      else (None, ts0))"

definition skip_argument :: "toks \<Rightarrow> toks" where
  "skip_argument ts = dropWhile (\<lambda>(c, w). c \<notin> {punct (CHR '')''), punct (CHR '',''), Inl SN_ELLIPSIS}) ts"

definition array_oper :: Oper where
  "array_oper = Oper (f_OperCreate ARRAY) None None"

definition function_oper :: "Declaration list option \<Rightarrow> Oper" where
  "function_oper ds = Oper (f_OperCreate FUNCTION) None ds"

text \<open>The words that set a flag: those that may stand before the type, and those that are one.\<close>

definition modifier_word :: "lex + keyword \<Rightarrow> (type_fields \<Rightarrow> type_fields) option" where
  "modifier_word t =
     (if t = Inr SN_CONST then Some (\<lambda>f. f\<lparr>s_const := True\<rparr>)
      else if t = Inr SN_VOLATILE then Some (\<lambda>f. f\<lparr>s_volatile := True\<rparr>)
      else if t = Inr SN_INLINE then Some (\<lambda>f. f\<lparr>fct_specifier := SN_INLINE\<rparr>)
      else if t = Inr SN_VIRTUAL then Some (\<lambda>f. f\<lparr>fct_specifier := SN_VIRTUAL\<rparr>)
      else if t \<in> {Inr SN_STRUCT, Inr SN_UNION, Inr SN_CLASS, Inr SN_ENUM} then Some id
      else None)"

definition basic_word :: "lex + keyword \<Rightarrow> (type_fields \<Rightarrow> type_fields) option" where
  "basic_word t =
     (if t = Inr SN_CHAR then Some (\<lambda>f. f\<lparr>s_char := True\<rparr>)
      else if t = Inr SN_SHORT then Some (\<lambda>f. f\<lparr>s_short := True\<rparr>)
      else if t = Inr SN_INT then Some (\<lambda>f. f\<lparr>s_int := True\<rparr>)
      else if t = Inr SN_LONG then Some (\<lambda>f. f\<lparr>s_long := True\<rparr>)
      else if t = Inr SN_FLOAT then Some (\<lambda>f. f\<lparr>s_float := True\<rparr>)
      else if t = Inr SN_DOUBLE then Some (\<lambda>f. f\<lparr>s_double := True\<rparr>)
      else if t = Inr SN_BOOL then Some (\<lambda>f. f\<lparr>s_bool := True\<rparr>)
      else if t = Inr SN_VOID then Some (\<lambda>f. f\<lparr>s_void := True\<rparr>)
      else if t = Inr SN_SIGNED then Some (\<lambda>f. f\<lparr>s_signed := True\<rparr>)
      else if t = Inr SN_UNSIGNED then Some (\<lambda>f. f\<lparr>s_unsigned := True\<rparr>)
      else None)"

definition new_type :: "type_fields \<Rightarrow> Declarator option \<Rightarrow> Type option" where
  "new_type f d = Some (Type f None None d)"

text \<open>The functions of the parser call each other; each is given the others in a record.  \<open>ln\<close> is the
  line of the token the recognizer is at, which new declarations get.\<close>

record tparser =
  p_TypeName :: "toks \<Rightarrow> ub + Type option \<times> toks"
  p_type_loop :: "type_fields \<Rightarrow> bool \<Rightarrow> toks \<Rightarrow> ub + Type option \<times> toks"
  p_AbstractDeclarator :: "toks \<Rightarrow> ub + Declarator option \<times> toks"
  p_FunctionOrArrayList :: "Oper list option \<Rightarrow> toks \<Rightarrow> ub + Oper list option \<times> toks"
  p_ArgumentDeclarationList :: "Declaration list option \<Rightarrow> toks \<Rightarrow> ub + Declaration list option \<times> toks"

definition TypeName :: "tparser \<Rightarrow> toks \<Rightarrow> ub + Type option \<times> toks" where
  "TypeName p ts =
     (if Token ts 0 = punct (CHR ''('') then
        sbind (p_TypeName p (drop 1 ts)) (\<lambda>(t, ts). Inr (t, drop 1 ts))
      else p_type_loop p f_TypeCreate True ts)"

definition type_loop :: "tparser \<Rightarrow> type_fields \<Rightarrow> bool \<Rightarrow> toks \<Rightarrow> ub + Type option \<times> toks" where
  "type_loop p f bFirst ts =
     (let t = Token ts 0 in
      case modifier_word t of
        Some g \<Rightarrow> p_type_loop p (g f) bFirst (drop 1 ts)
      | None \<Rightarrow>
        case basic_word t of
          Some g \<Rightarrow> p_type_loop p (g f) False (drop 1 ts)
        | None \<Rightarrow>
          if t = T_ident then
            if bFirst then
              (case CompleteClassName ts of (nm, ts) \<Rightarrow> p_type_loop p (f\<lparr>tname := nm\<rparr>) False ts)
            else
              sbind (p_AbstractDeclarator p ts) (\<lambda>(d, ts).
              case d of
                None \<Rightarrow>
                  (case CompleteClassName ts of (nm, ts) \<Rightarrow>
                    p_type_loop p (if tname f = None then f\<lparr>tname := nm\<rparr> else f) False ts)
              | Some d \<Rightarrow> Inr (new_type f (Some d), ts))
          else if t \<in> {punct (CHR ''*''), punct (CHR ''&''), T_clcl, punct (CHR ''[''), punct (CHR ''('')} then
            if bFirst then Inr (None, ts)
            else
              sbind (p_AbstractDeclarator p ts) (\<lambda>(d, ts).
              case d of None \<Rightarrow> Inr (None, ts) | Some d \<Rightarrow> Inr (new_type f (Some d), ts))
          else if bFirst then Inr (None, ts)
          else Inr (new_type f None, ts))"

text \<open>Behind an opening bracket: a declarator, its closing bracket and what follows it.\<close>

definition bracket_declarator :: "tparser \<Rightarrow> toks \<Rightarrow> toks \<Rightarrow> ub + Declarator option \<times> toks" where
  "bracket_declarator p ts0 ts1 =
     sbind (p_AbstractDeclarator p ts1) (\<lambda>(d, ts).
     case d of
       None \<Rightarrow> Inr (None, ts0)
     | Some d \<Rightarrow>
         if Token ts 0 = punct (CHR '')'') then
           sbind (p_FunctionOrArrayList p None (drop 1 ts)) (\<lambda>(l, ts). Inr (Some (concat_opers d l), ts))
         else Inr (None, ts0))"

definition AbstractDeclarator :: "tparser \<Rightarrow> toks \<Rightarrow> ub + Declarator option \<times> toks" where
  "AbstractDeclarator p ts0 =
     (let t = Token ts0 0 in
      if t \<in> {punct (CHR ''*''), punct (CHR ''&''), T_ident, T_clcl} then
        (case PtrOperator ts0 of
           (None, ts) \<Rightarrow> Inr (None, ts)
         | (Some oper, ts) \<Rightarrow>
             sbind (p_AbstractDeclarator p ts) (\<lambda>(d, ts).
             Inr (Some (add_oper oper (case d of None \<Rightarrow> abstract_declarator None | Some d \<Rightarrow> d)), ts)))
      else if t = punct (CHR ''['') then
        sbind (p_FunctionOrArrayList p None ts0) (\<lambda>(l, ts). Inr (Some (abstract_declarator l), ts))
      else if t = punct (CHR ''('') then
        (case PtrOperator (drop 1 ts0) of
           (Some oper, ts) \<Rightarrow> bracket_declarator p ts0 (drop 1 ts0)
         | (None, ts) \<Rightarrow>
             if Token ts 0 = punct (CHR ''['') then bracket_declarator p ts0 ts
             else sbind (p_FunctionOrArrayList p None ts0) (\<lambda>(l, ts). Inr (Some (abstract_declarator l), ts)))
      else Inr (None, ts0))"

definition FunctionOrArrayList :: "tparser \<Rightarrow> Oper list option \<Rightarrow> toks \<Rightarrow> ub + Oper list option \<times> toks" where
  "FunctionOrArrayList p l ts =
     (if Token ts 0 = punct (CHR ''['') then
        p_FunctionOrArrayList p (f_ListAddLast l array_oper) (drop 2 ts)
      else if Token ts 0 = punct (CHR ''('') then
        sbind (p_ArgumentDeclarationList p None (drop 1 ts)) (\<lambda>(ds, ts).
        p_FunctionOrArrayList p (f_ListAddLast l (function_oper ds)) (drop 1 ts))
      else Inr (l, ts))"

definition ArgumentDeclarationList ::
    "tparser \<Rightarrow> int \<Rightarrow> Declaration list option \<Rightarrow> toks \<Rightarrow> ub + Declaration list option \<times> toks" where
  "ArgumentDeclarationList p ln ds ts =
     (let t = Token ts 0 in
      if t = Inl SN_ELLIPSIS then
        Inr (f_ListAddLast ds (Declaration ((f_DeclarationCreate DECLARATION_ARGUMENT ln)\<lparr>s_ellipsis := True\<rparr>)
               None None None), drop 1 ts)
      else if t = punct (CHR '','') then p_ArgumentDeclarationList p ds (drop 1 ts)
      else if t = punct (CHR '')'') then Inr (ds, ts)
      else
        sbind (p_TypeName p ts) (\<lambda>(t, ts).
        let (t, ts) =
          (case t of
             None \<Rightarrow> (Type (f_TypeCreate\<lparr>s_int := True\<rparr>) None None None, skip_argument ts)
           | Some t \<Rightarrow> (t, ts)) in
        p_ArgumentDeclarationList p (f_ListAddLast ds (f_TypeCastToDeclaration ln t)) ts))"

text \<open>The knot, with fuel for the depth of calls and the rounds of the loops.\<close>

primrec type_parser :: "nat \<Rightarrow> int \<Rightarrow> tparser" where
  "type_parser 0 ln =
     \<lparr>p_TypeName = \<lambda>_. Inl NoReturn, p_type_loop = \<lambda>_ _ _. Inl NoReturn, p_AbstractDeclarator = \<lambda>_. Inl NoReturn,
      p_FunctionOrArrayList = \<lambda>_ _. Inl NoReturn, p_ArgumentDeclarationList = \<lambda>_ _. Inl NoReturn\<rparr>"
| "type_parser (Suc n) ln =
     (let p = type_parser n ln in
      \<lparr>p_TypeName = TypeName p, p_type_loop = type_loop p, p_AbstractDeclarator = AbstractDeclarator p,
       p_FunctionOrArrayList = FunctionOrArrayList p, p_ArgumentDeclarationList = ArgumentDeclarationList p ln\<rparr>)"

definition f_TypeFromString :: "nat \<Rightarrow> int \<Rightarrow> string \<Rightarrow> ub + Type option" where
  "f_TypeFromString n ln type = map_sum id fst (p_TypeName (type_parser n ln) (type_tokens type))"

end
