(* ===== verification/Symtab.thy ===== *)
theory Symtab
  imports Tables
begin

text \<open>
  The scoped symbol tables of the recognizer (\<open>cp_symbol.c\<close>) and the scopes of compound statements
  that use them (\<open>CompCreate\<close> and \<open>CompDestroy\<close> of \<open>cp_statement.c\<close>).

  A table of \<open>srchtbl.c\<close> maps a name to a symbol; the symbol holds a chain of data, the innermost
  first, each with the level of the scope it was declared in.  The data of the table's entries are
  the places of the symbols in the list \<open>symbols\<close> (\<open>None\<close> once released).  \<open>freed\<close> lists the data
  given to \<open>pfFree\<close>, in order.  The key of an entry is a string of its own here; in the program it
  belongs to the outermost datum of its chain.
\<close>

section \<open>State\<close>

record 'v symbol =
  sname :: string
  Datasp :: "('v \<times> int) list"

record 'v symtab =
  ptable :: "nat search_table"
  symbols :: "'v symbol option list"
  pfFree :: bool
  freed :: "'v list"

definition get_symbol :: "nat \<Rightarrow> 'v symtab \<Rightarrow> ub + 'v symbol" where
  "get_symbol a S =
     (if a < length (symbols S) then (case symbols S ! a of None \<Rightarrow> Inl UseAfterFree | Some s \<Rightarrow> Inr s)
      else Inl OutOfBounds)"

definition set_symbol :: "nat \<Rightarrow> 'v symbol \<Rightarrow> 'v symtab \<Rightarrow> 'v symtab" where
  "set_symbol a s S = S\<lparr>symbols := (symbols S)[a := Some s]\<rparr>"

text \<open>The symbol an entry of the table points to.\<close>

definition symbol_of :: "nat search_entry \<Rightarrow> 'v symtab \<Rightarrow> ub + nat \<times> 'v symbol" where
  "symbol_of e S =
     (case edata e of
        Obj a \<Rightarrow> sbind (get_symbol a S) (\<lambda>s. Inr (a, s))
      | _ \<Rightarrow> Inl NullPointer)"

section \<open>Symbols\<close>

definition SymbolCreate :: "string \<Rightarrow> 'v \<Rightarrow> int \<Rightarrow> 'v symtab \<Rightarrow> nat \<times> 'v symtab" where
  "SymbolCreate name v n S =
     (length (symbols S), S\<lparr>symbols := symbols S @ [Some \<lparr>sname = name, Datasp = [(v, n)]\<rparr>]\<rparr>)"

fun DataspDestroy :: "bool \<Rightarrow> ('v \<times> int) list \<Rightarrow> 'v symtab \<Rightarrow> 'v symtab" where
  "DataspDestroy free [] S = S"
| "DataspDestroy free ((v, n) # ds) S =
     DataspDestroy free ds (if free then S\<lparr>freed := freed S @ [v]\<rparr> else S)"

definition SymbolDestroy :: "bool \<Rightarrow> nat \<Rightarrow> 'v symtab \<Rightarrow> ub + 'v symtab" where
  "SymbolDestroy free a S =
     sbind (get_symbol a S) (\<lambda>s.
     Inr ((DataspDestroy free (Datasp s) S)\<lparr>symbols := (symbols S)[a := None]\<rparr>))"

text \<open>The hook of the table, called for every entry it drops.\<close>

definition f_EntryDestroy :: "nat search_entry \<Rightarrow> 'v symtab \<Rightarrow> ub + 'v symtab" where
  "f_EntryDestroy e S = sbind (symbol_of e S) (\<lambda>(a, s). SymbolDestroy (pfFree S) a S)"

fun run_hooks :: "nat tbl_event list \<Rightarrow> 'v symtab \<Rightarrow> ub + 'v symtab" where
  "run_hooks [] S = Inr S"
| "run_hooks (Hook e # es) S = sbind (f_EntryDestroy e S) (run_hooks es)"
| "run_hooks (_ # es) S = run_hooks es S"

text \<open>An operation of the table that may drop entries.\<close>

definition with_hooks ::
    "(nat search_table \<Rightarrow> ub + nat search_table \<times> 'r) \<Rightarrow> 'v symtab \<Rightarrow> ub + 'v symtab \<times> 'r" where
  "with_hooks f S =
     sbind (f ((ptable S)\<lparr>trace := []\<rparr>)) (\<lambda>(t, r).
     sbind (run_hooks (trace t) (S\<lparr>ptable := t\<rparr>)) (\<lambda>S. Inr (S, r)))"

section \<open>Tables\<close>

definition symbol_entry :: "string \<Rightarrow> nat cdata \<Rightarrow> nat search_entry" where
  "symbol_entry name d = \<lparr>key = name, key_len = int (length name), edata = d, data_len = 8, flag = 0\<rparr>"

definition SymtabCreate :: "bool \<Rightarrow> 'v symtab" where
  "SymtabCreate free =
     \<lparr>ptable = SearchTableCreate 100 SEARCH_BTREE_TABLE True, symbols = [], pfFree = free, freed = []\<rparr>"

definition find_entry :: "string \<Rightarrow> 'v symtab \<Rightarrow> ub + nat search_entry option \<times> 'v symtab" where
  "find_entry name S =
     sbind (table_search SEARCH_BTREE_TABLE (ptable S) (symbol_entry name NullData)) (\<lambda>(t, r).
     case r of
       None \<Rightarrow> Inr (None, S\<lparr>ptable := t\<rparr>)
     | Some i \<Rightarrow> sbind (get_cell t i) (\<lambda>d. Inr (Some (entry d), S\<lparr>ptable := t\<rparr>)))"

definition SymbolInsert :: "nat \<Rightarrow> 'v symtab \<Rightarrow> ub + nat option \<times> 'v symtab" where
  "SymbolInsert a S =
     sbind (get_symbol a S) (\<lambda>s.
     sbind (find_entry (sname s) S) (\<lambda>(r, S).
     case r of
       Some e \<Rightarrow> sbind (symbol_of e S) (\<lambda>(b, _). Inr (Some b, S))
     | None \<Rightarrow>
         sbind (table_add SEARCH_BTREE_TABLE (ptable S) (symbol_entry (sname s) (Obj a))) (\<lambda>(t, _).
         Inr (None, S\<lparr>ptable := t\<rparr>))))"

definition SymtabInsert :: "'v symtab \<Rightarrow> string \<Rightarrow> 'v \<Rightarrow> int \<Rightarrow> ub + 'v symtab" where
  "SymtabInsert S name v n =
     (let (a, S) = SymbolCreate name v n S in
      sbind (SymbolInsert a S) (\<lambda>(old, S).
      case old of
        None \<Rightarrow> Inr S
      | Some b \<Rightarrow>
          sbind (SymbolDestroy False a S) (\<lambda>S.
          sbind (get_symbol b S) (\<lambda>s.
          Inr (set_symbol b (s\<lparr>Datasp := (v, n) # Datasp s\<rparr>) S)))))"

definition SymtabFind :: "'v symtab \<Rightarrow> string \<Rightarrow> ub + 'v option \<times> 'v symtab" where
  "SymtabFind S name =
     sbind (find_entry name S) (\<lambda>(r, S).
     case r of
       None \<Rightarrow> Inr (None, S)
     | Some e \<Rightarrow>
         sbind (symbol_of e S) (\<lambda>(_, s).
         case Datasp s of [] \<Rightarrow> Inl NullPointer | d # ds \<Rightarrow> Inr (Some (fst d), S)))"

text \<open>\<open>SymtabDestroy\<close> releases the table itself too; the rest is \<open>SymtabClear\<close> without its new table.\<close>

definition destroy_table :: "'v symtab \<Rightarrow> ub + 'v symtab" where
  "destroy_table S =
     sbind (with_hooks (\<lambda>t. sbind (TableDestroy (\<lambda>t p. Inr (BtreeTableSeq t p)) t) (\<lambda>t. Inr (t, ()))) S)
       (\<lambda>(S, _). Inr S)"

definition SymtabDestroy :: "'v symtab \<Rightarrow> ub + 'v list" where
  "SymtabDestroy S = sbind (destroy_table S) (\<lambda>S. Inr (freed S))"

definition SymtabClear :: "'v symtab \<Rightarrow> ub + 'v symtab" where
  "SymtabClear S =
     sbind (destroy_table S) (\<lambda>S. Inr (S\<lparr>ptable := SearchTableCreate 100 SEARCH_BTREE_TABLE True\<rparr>))"

section \<open>The end of a scope\<close>

text \<open>The loop visits every symbol once and takes the innermost datum of those that are too deep;
  a symbol without data leaves the table.  The datum is released last.\<close>

fun niveau_loop :: "nat \<Rightarrow> int \<Rightarrow> int \<Rightarrow> 'v symtab \<Rightarrow> ub + 'v symtab" where
  "niveau_loop 0 n iCount S = Inl NoReturn"
| "niveau_loop (Suc k) n iCount S =
     (let (t, r) = BtreeTableSeq (ptable S) (nat iCount); S = S\<lparr>ptable := t\<rparr> in
      case r of
        None \<Rightarrow> Inr S
      | Some i \<Rightarrow>
          sbind (get_cell t i) (\<lambda>d.
          sbind (symbol_of (entry d) S) (\<lambda>(a, s).
          case Datasp s of
            [] \<Rightarrow> Inl NullPointer
          | (v, l) # ds \<Rightarrow>
              if l > n then
                sbind
                  (if ds = [] then
                     map_sum id (\<lambda>(S, _). (S, iCount - 1))
                       (with_hooks (\<lambda>t. BtreeTableDelete t (symbol_entry (sname s) NullData))
                         (set_symbol a (s\<lparr>Datasp := ds\<rparr>) S))
                   else Inr (set_symbol a (s\<lparr>Datasp := ds\<rparr>) S, iCount))
                  (\<lambda>(S, iCount). niveau_loop k n (iCount + 1) (DataspDestroy (pfFree S) [(v, l)] S))
              else niveau_loop k n (iCount + 1) S)))"

definition SymtabNiveauDestroy :: "'v symtab \<Rightarrow> int \<Rightarrow> ub + 'v symtab" where
  "SymtabNiveauDestroy S n = niveau_loop (filled (ptable S) + 1) n 0 S"

section \<open>Compound statements\<close>

record ('v, 'c) comp_state =
  niveauComp :: int
  SymtabVariable :: "'v symtab"
  SymtabClass :: "'c symtab"

definition CompCreate :: "('v, 'c) comp_state \<Rightarrow> ('v, 'c) comp_state" where
  "CompCreate st = st\<lparr>niveauComp := niveauComp st + 1\<rparr>"

definition CompDestroy :: "('v, 'c) comp_state \<Rightarrow> ub + ('v, 'c) comp_state" where
  "CompDestroy st =
     (let n = niveauComp st - 1 in
      sbind (SymtabNiveauDestroy (SymtabVariable st) n) (\<lambda>V.
      sbind (SymtabNiveauDestroy (SymtabClass st) n) (\<lambda>C.
      Inr (st\<lparr>niveauComp := n, SymtabVariable := V, SymtabClass := C\<rparr>))))"

end
