(* ===== verification/XRef.thy ===== *)
theory XRef
  imports TypeOps TypeStr Symtab
begin

text \<open>
  The cross references of expressions and declarations: \<open>cp_process.c\<close>, and the functions of
  \<open>cp_declaration.c\<close>, \<open>cp_declarator.c\<close>, \<open>cp_oper.c\<close>, \<open>cp_init.c\<close> and \<open>cp_type.c\<close> that walk over the
  trees of a function's body.  Each name is looked up in the scopes of \<open>Symtab\<close> and then in the
  database, each expression gets a type, and every use is reported.

  The database (\<open>get_symbol\<close>, \<open>get_class_or_typedef\<close>) is an argument: it answers a question with
  a kind of symbol and the strings it fills in, or with \<open>None\<close> for the kind 0.  Strings have no bound
  here.  A tree is walked over once, so that the walk takes the type out of a type expression has
  no effect on the model.  The names \<open>f_TypeBasic\<close> allocates are numbered: where it releases one of them
  twice the result is \<open>UseAfterFree\<close>.
\<close>

section \<open>What is asked and what is reported\<close>

abbreviation (input) PAF_TYPE_DEF :: int where "PAF_TYPE_DEF \<equiv> 1"
abbreviation (input) PAF_CLASS_DEF :: int where "PAF_CLASS_DEF \<equiv> 2"
abbreviation (input) PAF_MBR_FUNC_DEF :: int where "PAF_MBR_FUNC_DEF \<equiv> 3"
abbreviation (input) PAF_MACRO_DEF :: int where "PAF_MACRO_DEF \<equiv> 7"
abbreviation (input) PAF_FUNC_DEF :: int where "PAF_FUNC_DEF \<equiv> 8"
abbreviation (input) PAF_LOCAL_VAR_DEF :: int where "PAF_LOCAL_VAR_DEF \<equiv> 24"
abbreviation (input) PAF_REF_UNDEFINED :: int where "PAF_REF_UNDEFINED \<equiv> 29"

definition PAF_REF_SCOPE_LOCAL :: int where "PAF_REF_SCOPE_LOCAL = 0"
definition PAF_REF_SCOPE_GLOBAL :: int where "PAF_REF_SCOPE_GLOBAL = 1"
definition PAF_REF_READ :: int where "PAF_REF_READ = 0"
definition PAF_REF_WRITE :: int where "PAF_REF_WRITE = 1"
definition PAF_REF_PASS :: int where "PAF_REF_PASS = 2"
definition PAF_REF_UNUSED :: int where "PAF_REF_UNUSED = 3"

record xenv =
  db_symbol :: "string option \<Rightarrow> string option \<Rightarrow> string \<Rightarrow> string option \<Rightarrow> bool \<Rightarrow> (int \<times> string \<times> string \<times> string) option"
  db_class_or_typedef :: "string \<Rightarrow> (int \<times> string) option"
  scope_g :: string
  sym_name_g :: string
  arg_types_g :: string
  filename_g :: string
  cur_lineno :: int

record cross_ref =
  ref_type :: int
  ref_scope_type :: int
  ref_scope_lev :: int
  ref_cls :: "string option"
  ref_fnc :: string
  ref_fnc_args :: string
  ref_scope :: "string option"
  ref_what :: string
  ref_args :: "string option"
  ref_file :: string
  ref_line :: int
  ref_acc :: int

text \<open>The state: the scopes, the references reported and the marks for the highlighting (\<open>xref_l\<close>, \<open>xref_g\<close>,
  \<open>xref_u\<close>), the last one first.\<close>

record 'c xstate = "(Type, 'c) comp_state" +
  refs :: "cross_ref list"
  marks :: "(char \<times> place) list"

definition Put_cross_ref ::
    "xenv \<Rightarrow> int \<Rightarrow> int \<Rightarrow> string option \<Rightarrow> string option \<Rightarrow> string \<Rightarrow> string option \<Rightarrow> int \<Rightarrow> int \<Rightarrow> 'c xstate \<Rightarrow> 'c xstate" where
  "Put_cross_ref E t lev cls sc what args ln acc st =
     st\<lparr>refs := \<lparr>ref_type = t, ref_scope_type = (if scope_g E \<noteq> [] then PAF_MBR_FUNC_DEF else PAF_FUNC_DEF),
          ref_scope_lev = lev, ref_cls = cls, ref_fnc = sym_name_g E, ref_fnc_args = arg_types_g E,
          ref_scope = sc, ref_what = what, ref_args = args, ref_file = filename_g E,
          ref_line = ln, ref_acc = acc\<rparr> # refs st\<rparr>"

definition mark :: "char \<Rightarrow> place \<Rightarrow> 'c xstate \<Rightarrow> 'c xstate" where
  "mark c p st = st\<lparr>marks := (c, p) # marks st\<rparr>"

text \<open>\<open>scope_g[0] ? scope_g : 0\<close>.\<close>

definition class_or_null :: "xenv \<Rightarrow> string option" where
  "class_or_null E = (if scope_g E \<noteq> [] then Some (scope_g E) else None)"

section \<open>Typedefs\<close>

text \<open>The type a typedef stands for gets the declarator of the type that named it.\<close>

definition merge_declarators :: "Type \<Rightarrow> Type \<Rightarrow> Type" where
  "merge_declarators t b =
     (case t of
        Type f c e None \<Rightarrow> Type f c e (t_declarator b)
      | Type f c e (Some (Declarator df x xs i ops)) \<Rightarrow>
          (case t_declarator b of
             None \<Rightarrow> t
           | Some d \<Rightarrow>
               Type f c e (Some (Declarator (df\<lparr>d_name := d_name (dr_fields d)\<rparr>) x xs i (f_ListConcat (ListOper d) ops)))))"

text \<open>The last three names are kept, each with the number of the round that allocated it; the third
  result lists the numbers of the names that are released.  \<open>rel\<close> are those released so far.\<close>

definition visited :: "(nat \<times> string) option list \<Rightarrow> nat list" where
  "visited prev = concat (map (\<lambda>p. case p of None \<Rightarrow> [] | Some (a, _) \<Rightarrow> [a]) prev)"

fun type_basic_loop ::
    "nat \<Rightarrow> xenv \<Rightarrow> int \<Rightarrow> nat \<Rightarrow> (nat \<times> string) option list \<Rightarrow> nat \<Rightarrow> nat list \<Rightarrow> Type \<Rightarrow> 'c xstate
      \<Rightarrow> nat \<Rightarrow> ub + Type \<times> 'c xstate \<times> nat list" where
  "type_basic_loop n E ln a prev j rel t st 0 = Inl NoReturn"
| "type_basic_loop n E ln a prev j rel t st (Suc k) =
     (case f_NameFromType t of
        None \<Rightarrow> Inr (t, st, rel @ visited prev)
      | Some name \<Rightarrow>
          if \<exists>p \<in> set prev. map_option snd p = Some name then Inr (t, st, rel @ a # visited prev)
          else
            case db_class_or_typedef E name of
              None \<Rightarrow> Inr (t, st, rel @ a # visited prev)
            | Some (paf, acType) \<Rightarrow>
                let st = Put_cross_ref E paf PAF_REF_SCOPE_GLOBAL (class_or_null E) None name None ln PAF_REF_READ st in
                sbind (f_TypeFromString n (cur_lineno E) acType) (\<lambda>r.
                case r of
                  None \<Rightarrow> Inr (t, st, rel @ a # visited prev)
                | Some tempo \<Rightarrow>
                    let t = merge_declarators tempo t;
                        j = (if j \<ge> 3 then 0 else j);
                        rel = rel @ visited [prev ! j];
                        prev = prev[j := Some (a, name)] in
                    if paf \<noteq> PAF_TYPE_DEF then Inr (t, st, rel @ a # visited prev)
                    else type_basic_loop n E ln (Suc a) prev (Suc j) rel t st k))"

definition type_basic :: "nat \<Rightarrow> xenv \<Rightarrow> Type option \<Rightarrow> int \<Rightarrow> 'c xstate \<Rightarrow> ub + Type \<times> 'c xstate \<times> nat list" where
  "type_basic n E t ln st =
     (case t of
        None \<Rightarrow> Inl NullPointer
      | Some t \<Rightarrow> type_basic_loop n E ln 0 [None, None, None] 0 [] t st n)"

text \<open>The whole function.  A name that is released twice is an error.\<close>

definition f_TypeBasic :: "nat \<Rightarrow> xenv \<Rightarrow> Type option \<Rightarrow> int \<Rightarrow> 'c xstate \<Rightarrow> ub + Type \<times> 'c xstate" where
  "f_TypeBasic n E t ln st =
     sbind (type_basic n E t ln st) (\<lambda>(t, st, rel). if distinct rel then Inr (t, st) else Inl UseAfterFree)"

section \<open>Constructors and destructors\<close>

definition put_member :: "xenv \<Rightarrow> string \<Rightarrow> string \<Rightarrow> int \<Rightarrow> 'c xstate \<Rightarrow> 'c xstate" where
  "put_member E cls what ln st =
     (case db_symbol E (class_or_null E) (Some cls) what None False of
        None \<Rightarrow> st
      | Some (paf, sc, _) \<Rightarrow>
          Put_cross_ref E PAF_MBR_FUNC_DEF PAF_REF_SCOPE_GLOBAL (class_or_null E) (Some sc) what None ln PAF_REF_READ st)"

definition put_members :: "xenv \<Rightarrow> Type \<Rightarrow> int \<Rightarrow> bool \<Rightarrow> bool \<Rightarrow> 'c xstate \<Rightarrow> 'c xstate" where
  "put_members E t ln ctor dtor st =
     (case f_NameFromType t of
        None \<Rightarrow> st
      | Some name \<Rightarrow>
          if map_option fst (db_class_or_typedef E name) = Some PAF_CLASS_DEF then
            let st = (if ctor then put_member E name name ln st else st) in
            if dtor then put_member E name (CHR ''~'' # name) ln st else st
          else st)"

definition f_PutConstructor :: "xenv \<Rightarrow> Type \<Rightarrow> int \<Rightarrow> bool \<Rightarrow> bool \<Rightarrow> 'c xstate \<Rightarrow> 'c xstate" where
  "f_PutConstructor E t ln ctor dtor st =
     (if t_declarator t \<noteq> None
         \<and> (case first_oper t of None \<Rightarrow> True | Some p \<Rightarrow> o_type (o_fields p) = ARRAY)
      then put_members E t ln ctor dtor st else st)"

definition f_PutConstructorByNewOrDelete :: "xenv \<Rightarrow> Type option \<Rightarrow> int \<Rightarrow> bool \<Rightarrow> bool \<Rightarrow> 'c xstate \<Rightarrow> 'c xstate" where
  "f_PutConstructorByNewOrDelete E t ln ctor dtor st =
     (case t of None \<Rightarrow> st | Some t \<Rightarrow> put_members E t ln ctor dtor st)"

section \<open>Looking names up\<close>

text \<open>The place of the last colon, counted from the beginning.\<close>

definition last_colon :: "string \<Rightarrow> nat option" where
  "last_colon w =
     (let r = dropWhile (\<lambda>c. c \<noteq> CHR '':'') (rev w) in if r = [] then None else Some (length r - 1))"

definition get_scope :: "string \<Rightarrow> ub + string option" where
  "get_scope w =
     (case last_colon w of
        None \<Rightarrow> Inr None
      | Some 0 \<Rightarrow> Inl OutOfBounds
      | Some (Suc i) \<Rightarrow> Inr (if w ! i = CHR '':'' then Some (take i w) else None))"

definition get_name :: "string \<Rightarrow> string" where
  "get_name w = (case last_colon w of None \<Rightarrow> w | Some i \<Rightarrow> drop (Suc i) w)"

definition my_Get_symbol ::
    "xenv \<Rightarrow> string option \<Rightarrow> string option \<Rightarrow> string \<Rightarrow> string option \<Rightarrow> (int \<times> string \<times> string \<times> string) option" where
  "my_Get_symbol E scope_global scope name args =
     (let acName = map (\<lambda>c. if c = CHR '' '' then CHR ''_'' else c) name in
      case db_symbol E scope_global scope acName args False of
        Some r \<Rightarrow> Some r
      | None \<Rightarrow>
          case scope of
            Some sc \<Rightarrow>
              if CHR ''<'' \<in> set sc
              then db_symbol E scope_global (Some (takeWhile (\<lambda>c. c \<noteq> CHR ''<'') sc)) acName args False
              else None
          | None \<Rightarrow> None)"

text \<open>What is found: the type, and the kind, scope and value of the symbol (kind 0 is \<open>None\<close>) with the level.\<close>

record found =
  f_type :: Type
  f_symbol :: "(int \<times> string \<times> string) option"
  f_level :: int

definition get_variable_type ::
    "nat \<Rightarrow> xenv \<Rightarrow> string option \<Rightarrow> string option \<Rightarrow> string \<Rightarrow> place \<Rightarrow> 'c xstate \<Rightarrow> ub + found \<times> 'c xstate" where
  "get_variable_type n E scope_global scope name p st =
     sbind
       (if scope \<noteq> None then Inr (None, st)
        else sbind (SymtabFind (SymtabVariable st) name) (\<lambda>(r, S). Inr (r, st\<lparr>SymtabVariable := S\<rparr>)))
       (\<lambda>(r, st).
     case r of
       Some t \<Rightarrow>
         Inr (\<lparr>f_type = f_TypeDuplicate t, f_symbol = Some (PAF_LOCAL_VAR_DEF, [], []), f_level = PAF_REF_SCOPE_LOCAL\<rparr>,
              mark (CHR ''l'') p st)
     | None \<Rightarrow>
         case my_Get_symbol E scope_global scope name None of
           None \<Rightarrow>
             Inr (\<lparr>f_type = f_TypeCreateUnknown, f_symbol = None, f_level = PAF_REF_SCOPE_GLOBAL\<rparr>, mark (CHR ''u'') p st)
         | Some (paf, sc, ty, def) \<Rightarrow>
             sbind (f_TypeFromString n (cur_lineno E) ty) (\<lambda>t.
             sbind
               (case t of
                  None \<Rightarrow> Inr (f_TypeCreateInt, mark (CHR ''g'') p st)
                | Some t \<Rightarrow> f_TypeBasic n E (Some t) (plineno_beg p) (mark (CHR ''g'') p st)) (\<lambda>(t, st).
             Inr (\<lparr>f_type = t, f_symbol = Some (paf, sc, def), f_level = PAF_REF_SCOPE_GLOBAL\<rparr>, st))))"

definition get_function_type ::
    "nat \<Rightarrow> xenv \<Rightarrow> string option \<Rightarrow> string option \<Rightarrow> string \<Rightarrow> string \<Rightarrow> place \<Rightarrow> 'c xstate \<Rightarrow> ub + found \<times> 'c xstate" where
  "get_function_type n E scope_global scope name args p st =
     (case my_Get_symbol E scope_global scope name (Some args) of
        None \<Rightarrow>
          Inr (\<lparr>f_type = f_TypeCreateUnknown, f_symbol = None, f_level = PAF_REF_SCOPE_GLOBAL\<rparr>, mark (CHR ''u'') p st)
      | Some (paf, sc, ty, def) \<Rightarrow>
          sbind (f_TypeFromString n (cur_lineno E) ty) (\<lambda>t.
          Inr (\<lparr>f_type = (case t of None \<Rightarrow> f_TypeCreateInt | Some t \<Rightarrow> t), f_symbol = Some (paf, sc, def),
                f_level = PAF_REF_SCOPE_GLOBAL\<rparr>, mark (CHR ''g'') p st)))"

text \<open>A macro that stands for a name is followed; \<open>chain\<close> holds the names met (the table \<open>macro_chain\<close>)
  and is empty at first.  Only the first macro is reported.  Names are cut at 999 characters.\<close>

type_synonym 'c lookup = "string option \<Rightarrow> string \<Rightarrow> 'c xstate \<Rightarrow> ub + found \<times> 'c xstate"

record chain_end =
  ce_found :: found
  ce_scope :: "string option"
  ce_name :: string
  ce_object :: string

fun macro_chain ::
    "xenv \<Rightarrow> 'c lookup \<Rightarrow> string option \<Rightarrow> int \<Rightarrow> string list \<Rightarrow> string \<Rightarrow> 'c xstate \<Rightarrow> nat \<Rightarrow> ub + chain_end \<times> 'c xstate" where
  "macro_chain E look args ln chain object st 0 = Inl NoReturn"
| "macro_chain E look args ln chain object st (Suc k) =
     sbind (get_scope object) (\<lambda>scope_name.
     sbind (look (case scope_name of None \<Rightarrow> class_or_null E | Some s \<Rightarrow> Some s) (get_name object) st) (\<lambda>(r, st).
     let stop_here = Inr (\<lparr>ce_found = r, ce_scope = scope_name, ce_name = get_name object, ce_object = object\<rparr>, st);
         chain' = (if chain = [] then [object] else chain) in
     case f_symbol r of
       None \<Rightarrow> stop_here
     | Some (paf, sc, def) \<Rightarrow>
         if paf = PAF_MACRO_DEF \<and> def \<noteq> [] \<and> def \<notin> set chain' then
           macro_chain E look args ln (def # chain') (take 999 def)
             (if chain = []
              then Put_cross_ref E paf (f_level r) (Some (scope_g E)) (Some sc) (get_name object) args ln PAF_REF_READ st
              else st) k
         else stop_here))"

type_synonym access = "bool \<times> bool"

abbreviation (input) READ :: access where "READ \<equiv> (True, False)"
abbreviation (input) WRITE :: access where "WRITE \<equiv> (False, True)"
abbreviation (input) READ_WRITE :: access where "READ_WRITE \<equiv> (True, True)"

unbundle bit_operations_syntax

definition paf_access :: "access \<Rightarrow> bool \<Rightarrow> int" where
  "paf_access a pass =
     (if snd a then PAF_REF_WRITE OR PAF_REF_READ else 0) OR (if fst a then PAF_REF_READ else 0)
     OR (if pass then PAF_REF_PASS else 0)"

text \<open>The report for the name at the end of the chain.\<close>

definition put_use :: "xenv \<Rightarrow> chain_end \<Rightarrow> string option \<Rightarrow> int \<Rightarrow> int \<Rightarrow> bool \<Rightarrow> 'c xstate \<Rightarrow> 'c xstate" where
  "put_use E r args ln acc call st =
     (case f_symbol (ce_found r) of
        Some (paf, sc, _) \<Rightarrow>
          Put_cross_ref E paf (f_level (ce_found r)) (Some (scope_g E))
            (Some (if \<not> call \<and> paf = PAF_LOCAL_VAR_DEF then sym_name_g E else sc)) (ce_name r) args ln acc st
      | None \<Rightarrow>
          Put_cross_ref E PAF_REF_UNDEFINED PAF_REF_SCOPE_GLOBAL (Some (scope_g E)) (ce_scope r) (ce_name r) args ln acc st)"

text \<open>An overloaded operator.\<close>

definition f_OperatorCall2 ::
    "nat \<Rightarrow> xenv \<Rightarrow> string \<Rightarrow> Type option \<Rightarrow> Type option \<Rightarrow> access \<Rightarrow> 'c xstate \<Rightarrow> ub + Type option \<times> 'c xstate" where
  "f_OperatorCall2 n E pcOperator t1 t2 access st =
     (let acName = ''operator'' @ pcOperator;
          acArglist = f_TypeToString t1 False @ '','' @ f_TypeToString t2 False in
      case db_symbol E (Some (scope_g E)) None acName (Some acArglist) True of
        None \<Rightarrow> Inr (None, st)
      | Some (paf, sc, ty, _) \<Rightarrow>
          sbind (f_TypeFromString n (cur_lineno E) ty) (\<lambda>t.
          Inr (t, Put_cross_ref E paf PAF_REF_SCOPE_GLOBAL (Some (scope_g E)) (Some sc) acName (Some acArglist) 0
                   (paf_access access False) st)))"

section \<open>Expressions\<close>

text \<open>\<open>sProc\<close>; the place is only read with a name.\<close>

record proc =
  pr_type :: "Type option"
  pr_name :: "string option"
  pr_scope :: "string option"
  pr_place :: place

definition typed :: "Type option \<Rightarrow> proc" where
  "typed t = \<lparr>pr_type = t, pr_name = None, pr_scope = None, pr_place = no_place\<rparr>"

text \<open>The functions call each other through the trees; each is given the others in a record.\<close>

record 'c walker =
  w_expr :: "Expr option \<Rightarrow> access \<Rightarrow> string option \<Rightarrow> bool \<Rightarrow> bool \<Rightarrow> 'c xstate \<Rightarrow> ub + proc \<times> 'c xstate"
  w_declarator :: "Declarator \<Rightarrow> 'c xstate \<Rightarrow> ub + 'c xstate"
  w_init :: "Init \<Rightarrow> 'c xstate \<Rightarrow> ub + 'c xstate"
  w_declaration :: "Declaration \<Rightarrow> bool \<Rightarrow> 'c xstate \<Rightarrow> ub + 'c xstate"

fun in_turn :: "('a \<Rightarrow> 's \<Rightarrow> ub + 's) \<Rightarrow> 'a list \<Rightarrow> 's \<Rightarrow> ub + 's" where
  "in_turn f [] st = Inr st"
| "in_turn f (x # xs) st = sbind (f x st) (in_turn f xs)"

definition elems :: "'a list option \<Rightarrow> 'a list" where
  "elems l = (case l of None \<Rightarrow> [] | Some xs \<Rightarrow> xs)"

text \<open>The arguments of a call, and the list of their types; \<open>None\<close> before the first.\<close>

fun exprlist_loop :: "'c walker \<Rightarrow> bool \<Rightarrow> Expr list \<Rightarrow> string option \<Rightarrow> 'c xstate \<Rightarrow> ub + string option \<times> 'c xstate" where
  "exprlist_loop W pass [] args st = Inr (args, st)"
| "exprlist_loop W pass (x # xs) args st =
     sbind (w_expr W (Some x) READ None False pass st) (\<lambda>(p, st).
     let type = f_TypeToString (pr_type p) False in
     exprlist_loop W pass xs (Some (case args of None \<Rightarrow> type | Some a \<Rightarrow> a @ '','' @ type)) st)"

definition f_exprlist :: "'c walker \<Rightarrow> Expr list option \<Rightarrow> bool \<Rightarrow> 'c xstate \<Rightarrow> ub + string \<times> 'c xstate" where
  "f_exprlist W xs pass st =
     map_sum id (\<lambda>(args, st). (case args of None \<Rightarrow> [] | Some a \<Rightarrow> a, st)) (exprlist_loop W pass (elems xs) None st)"

text \<open>A binary operator: the name of the function that overloads it, the access to its left operand,
  and the type without an overload.\<close>

datatype bin_default = LeftType | RightType | IntType

definition binary_operator :: "xoperator \<Rightarrow> (string \<times> access \<times> bin_default) option" where
  "binary_operator p =
     (case p of
        OPERATOR_KOMMA \<Rightarrow> Some ('','', READ, RightType)
      | OPERATOR_ASSIGN \<Rightarrow> Some (''='', WRITE, LeftType)
      | OPERATOR_MULTassign \<Rightarrow> Some (''*='', WRITE, LeftType)
      | OPERATOR_DIVassign \<Rightarrow> Some (''/='', WRITE, LeftType)
      | OPERATOR_MODassign \<Rightarrow> Some (''%='', WRITE, LeftType)
      | OPERATOR_PLUSassign \<Rightarrow> Some (''+='', WRITE, LeftType)
      | OPERATOR_MINUSassign \<Rightarrow> Some (''-='', WRITE, LeftType)
      | OPERATOR_LSassign \<Rightarrow> Some (''<<='', WRITE, LeftType)
      | OPERATOR_RSassign \<Rightarrow> Some (''>>='', WRITE, LeftType)
      | OPERATOR_ANDassign \<Rightarrow> Some (''&='', WRITE, LeftType)
      | OPERATOR_ERassign \<Rightarrow> Some (''^='', WRITE, LeftType)
      | OPERATOR_ORassign \<Rightarrow> Some (''|='', WRITE, LeftType)
      | Op OPERATOR_OROR \<Rightarrow> Some (''||'', READ, IntType)
      | Op OPERATOR_ANDAND \<Rightarrow> Some (''&&'', READ, IntType)
      | Op OPERATOR_OR \<Rightarrow> Some (''|'', READ, LeftType)
      | Op OPERATOR_ER \<Rightarrow> Some ([CHR 0x27], READ, LeftType)
      | Op OPERATOR_AND \<Rightarrow> Some (''&'', READ, LeftType)
      | Op OPERATOR_EQ \<Rightarrow> Some (''=='', READ, IntType)
      | Op OPERATOR_NE \<Rightarrow> Some (''!='', READ, IntType)
      | Op OPERATOR_L \<Rightarrow> Some (''<'', READ, IntType)
      | Op OPERATOR_G \<Rightarrow> Some (''>'', READ, IntType)
      | Op OPERATOR_LE \<Rightarrow> Some (''>='', READ, IntType)
      | Op OPERATOR_GE \<Rightarrow> Some (''<='', READ, IntType)
      | Op OPERATOR_LS \<Rightarrow> Some (''<<'', READ, LeftType)
      | Op OPERATOR_RS \<Rightarrow> Some (''>>'', READ, LeftType)
      | Op OPERATOR_PLUS \<Rightarrow> Some (''+'', READ, LeftType)
      | Op OPERATOR_MINUS \<Rightarrow> Some (''-'', READ, LeftType)
      | Op OPERATOR_MULT \<Rightarrow> Some (''*'', READ, LeftType)
      | Op OPERATOR_DIV \<Rightarrow> Some (''/'', READ, LeftType)
      | Op OPERATOR_MOD \<Rightarrow> Some (''%'', READ, IntType)
      | _ \<Rightarrow> None)"

definition binary_expr ::
    "'c walker \<Rightarrow> nat \<Rightarrow> xenv \<Rightarrow> string \<times> access \<times> bin_default \<Rightarrow> Expr option \<Rightarrow> Expr option \<Rightarrow> access \<Rightarrow> string option
      \<Rightarrow> bool \<Rightarrow> 'c xstate \<Rightarrow> ub + proc \<times> 'c xstate" where
  "binary_expr W n E b x1 x2 access scope pass st =
     (case b of (pcOperator, a, d) \<Rightarrow>
        sbind (w_expr W x1 a scope False pass st) (\<lambda>(p1, st).
        sbind (w_expr W x2 READ scope False pass st) (\<lambda>(p2, st).
        sbind (f_OperatorCall2 n E pcOperator (pr_type p1) (pr_type p2) access st) (\<lambda>(t, st).
        Inr (typed (if t \<noteq> None then t
                    else case d of LeftType \<Rightarrow> pr_type p1 | RightType \<Rightarrow> pr_type p2 | IntType \<Rightarrow> Some f_TypeCreateInt), st)))))"

text \<open>A unary operator: the access to its operand and the type it makes of it.\<close>

definition unary_operator :: "xoperator \<Rightarrow> access \<Rightarrow> (access \<times> (Type option \<Rightarrow> ub + Type option)) option" where
  "unary_operator p a =
     (case p of
        OPERATOR_SIZEOF_EXPRESSION \<Rightarrow> Some (READ, \<lambda>_. Inr (Some f_TypeCreateInt))
      | OPERATOR_SIZEOF_TYPENAME \<Rightarrow> Some (READ, \<lambda>_. Inr (Some f_TypeCreateInt))
      | OPERATOR_PRE_ICR \<Rightarrow> Some (READ_WRITE, Inr)
      | OPERATOR_PRE_DECR \<Rightarrow> Some (READ_WRITE, Inr)
      | OPERATOR_POST_ICR \<Rightarrow> Some (READ_WRITE, Inr)
      | OPERATOR_POST_DECR \<Rightarrow> Some (READ_WRITE, Inr)
      | OPERATOR_STAR \<Rightarrow> Some (a, \<lambda>t. Inr (f_TypeDelPointer t))
      | OPERATOR_ET \<Rightarrow> Some (a, \<lambda>t. map_sum id Some (f_TypeAddPointer t))
      | Op OPERATOR_UPLUS \<Rightarrow> Some (READ, Inr)
      | Op OPERATOR_UMINUS \<Rightarrow> Some (READ, Inr)
      | Op OPERATOR_NOT \<Rightarrow> Some (READ, \<lambda>_. Inr (Some f_TypeCreateInt))
      | Op OPERATOR_BNOT \<Rightarrow> Some (READ, Inr)
      | _ \<Rightarrow> None)"

definition name_expr ::
    "nat \<Rightarrow> xenv \<Rightarrow> string option \<Rightarrow> place \<Rightarrow> access \<Rightarrow> string option \<Rightarrow> bool \<Rightarrow> bool \<Rightarrow> 'c xstate \<Rightarrow> ub + proc \<times> 'c xstate" where
  "name_expr n E nm p access scope call pass st =
     (case nm of
        None \<Rightarrow> Inl NullPointer
      | Some object \<Rightarrow>
          if call then Inr (\<lparr>pr_type = None, pr_name = Some object, pr_scope = scope, pr_place = p\<rparr>, st)
          else
            sbind (macro_chain E (\<lambda>sg name st. get_variable_type n E sg scope name p st) None (plineno_beg p) [] object st n) (\<lambda>(r, st).
            Inr (\<lparr>pr_type = Some (f_type (ce_found r)), pr_name = Some (ce_object r), pr_scope = scope, pr_place = p\<rparr>,
                 put_use E r None (plineno_beg p) (paf_access access pass) False st)))"

definition call_expr ::
    "'c walker \<Rightarrow> nat \<Rightarrow> xenv \<Rightarrow> Expr option \<Rightarrow> Expr list option \<Rightarrow> access \<Rightarrow> string option \<Rightarrow> bool \<Rightarrow> 'c xstate
      \<Rightarrow> ub + proc \<times> 'c xstate" where
  "call_expr W n E x1 xs access scope pass st =
     sbind (w_expr W x1 READ scope True pass st) (\<lambda>(p1, st).
     sbind (f_exprlist W xs True st) (\<lambda>(arglist, st).
     case pr_name p1 of
       None \<Rightarrow> sbind (f_TypeDelFunction (pr_type p1)) (\<lambda>t. Inr (typed (Some t), st))
     | Some object \<Rightarrow>
         let ln = plineno_beg (pr_place p1) in
         sbind (macro_chain E (\<lambda>sg name st. get_function_type n E sg (pr_scope p1) name arglist (pr_place p1) st)
                  (Some arglist) ln [] object st n) (\<lambda>(r, st).
         Inr (typed (Some (f_type (ce_found r))), put_use E r (Some arglist) ln (paf_access access pass) True st))))"

text \<open>The other operators.\<close>

definition type_expr :: "'c walker \<Rightarrow> nat \<Rightarrow> xenv \<Rightarrow> Type option \<Rightarrow> int \<Rightarrow> 'c xstate \<Rightarrow> ub + proc \<times> 'c xstate" where
  "type_expr W n E ty ln st =
     sbind (f_TypeBasic n E ty ln st) (\<lambda>(t, st).
     sbind (case t_declarator t of None \<Rightarrow> Inr st | Some d \<Rightarrow> w_declarator W d st) (\<lambda>st.
     Inr (typed (Some t), st)))"

definition other_expr ::
    "'c walker \<Rightarrow> nat \<Rightarrow> xenv \<Rightarrow> Expr \<Rightarrow> access \<Rightarrow> string option \<Rightarrow> bool \<Rightarrow> bool \<Rightarrow> 'c xstate \<Rightarrow> ub + proc \<times> 'c xstate" where
  "other_expr W n E x access scope call pass st =
     (case x of Expr op nm ty x1 x2 x3 i xs p \<Rightarrow>
      case op of
        Op OPERATOR_CONDITIONAL \<Rightarrow>
          sbind (w_expr W x1 READ scope False pass st) (\<lambda>(p1, st).
          sbind (w_expr W x2 READ scope False pass st) (\<lambda>(p2, st).
          sbind (w_expr W x3 READ scope False pass st) (\<lambda>(p3, st).
          Inr (typed (pr_type p2), st))))
      | OPERATOR_CAST \<Rightarrow>
          sbind (w_expr W x1 READ scope False pass st) (\<lambda>(p1, st).
          sbind (w_expr W x2 READ scope False pass st) (\<lambda>(p2, st).
          Inr (p2\<lparr>pr_type := pr_type p1\<rparr>, st)))
      | OPERATOR_ARRAY \<Rightarrow>
          sbind (w_expr W x1 access scope False pass st) (\<lambda>(p1, st).
          sbind (w_expr W x2 READ scope False pass st) (\<lambda>(p2, st).
          Inr (typed (f_TypeDelPointer (pr_type p1)), st)))
      | OPERATOR_FUNCTION_CALL \<Rightarrow> call_expr W n E x1 xs access scope pass st
      | OPERATOR_CONSTRUCTOR_CALL \<Rightarrow>
          sbind (w_expr W x1 READ scope False pass st) (\<lambda>(p1, st).
          sbind (f_exprlist W xs True st) (\<lambda>(_, st). Inr (typed (pr_type p1), st)))
      | OPERATOR_NEW \<Rightarrow>
          sbind (w_expr W x1 READ scope False pass st) (\<lambda>(p1, st).
          sbind (f_exprlist W xs True st) (\<lambda>(_, st).
          case x1 of
            None \<Rightarrow> Inl NullPointer
          | Some x1 \<Rightarrow>
              sbind ((case i of None \<Rightarrow> Inr | Some i \<Rightarrow> w_init W i)
                (f_PutConstructorByNewOrDelete E (pr_type p1) (plineno_beg (x_place x1)) True False st)) (\<lambda>st.
              Inr (typed (pr_type p1), st))))
      | OPERATOR_DELETE \<Rightarrow>
          sbind (w_expr W x1 READ scope False pass st) (\<lambda>(p1, st).
          Inr (typed (Some f_TypeCreateInt), f_PutConstructorByNewOrDelete E (pr_type p1) 0 False True st))
      | OPERATOR_NAME \<Rightarrow> name_expr n E nm p access scope call pass st
      | OPERATOR_TYPE \<Rightarrow> type_expr W n E ty (plineno_beg p) st
      | _ \<Rightarrow> Inr (typed None, st))"

text \<open>A member: the scope of the right operand is the type of the left one.\<close>

definition member_operator :: "xoperator \<Rightarrow> string option" where
  "member_operator p = (case p of OPERATOR_DOTstar \<Rightarrow> Some ''.*'' | OPERATOR_ARROWstar \<Rightarrow> Some ''->*'' | _ \<Rightarrow> None)"

definition f_expr ::
    "'c walker \<Rightarrow> nat \<Rightarrow> xenv \<Rightarrow> Expr option \<Rightarrow> access \<Rightarrow> string option \<Rightarrow> bool \<Rightarrow> bool \<Rightarrow> 'c xstate \<Rightarrow> ub + proc \<times> 'c xstate" where
  "f_expr W n E x access scope call pass st =
     (case x of
        None \<Rightarrow> Inr (typed None, st)
      | Some (Expr op nm ty x1 x2 x3 i xs p) \<Rightarrow>
          case binary_operator op of
            Some b \<Rightarrow> binary_expr W n E b x1 x2 access scope pass st
          | None \<Rightarrow>
          case unary_operator op access of
            Some (a, g) \<Rightarrow>
              sbind (w_expr W x1 a scope False pass st) (\<lambda>(p1, st).
              sbind (g (pr_type p1)) (\<lambda>t. Inr (typed t, st)))
          | None \<Rightarrow>
          case member_operator op of
            Some pcOperator \<Rightarrow>
              sbind (w_expr W x1 READ scope False pass st) (\<lambda>(p1, st).
              sbind (w_expr W x2 READ (f_TypeToScope (pr_type p1)) False pass st) (\<lambda>(p2, st).
              sbind (f_OperatorCall2 n E pcOperator (pr_type p1) (pr_type p2) access st) (\<lambda>(t, st).
              Inr (typed (f_TypeDelPointer (if t \<noteq> None then t else pr_type p2)), st))))
          | None \<Rightarrow>
          if op = OPERATOR_DOT \<or> op = OPERATOR_ARROW then
            sbind (w_expr W x1 access scope False pass st) (\<lambda>(p1, st).
            w_expr W x2 access (f_TypeToScope (pr_type p1)) call pass st)
          else other_expr W n E (Expr op nm ty x1 x2 x3 i xs p) access scope call pass st)"

section \<open>Declarations\<close>

definition f_ExprProcess :: "'c walker \<Rightarrow> Expr \<Rightarrow> 'c xstate \<Rightarrow> ub + 'c xstate" where
  "f_ExprProcess W x st = map_sum id snd (w_expr W (Some x) READ None False False st)"

definition f_InitProcess :: "'c walker \<Rightarrow> Init \<Rightarrow> 'c xstate \<Rightarrow> ub + 'c xstate" where
  "f_InitProcess W i st =
     (case i of Init x is \<Rightarrow>
        sbind ((case x of None \<Rightarrow> Inr | Some x \<Rightarrow> f_ExprProcess W x) st) (in_turn (w_init W) (elems is)))"

definition f_OperProcess :: "'c walker \<Rightarrow> Oper \<Rightarrow> 'c xstate \<Rightarrow> ub + 'c xstate" where
  "f_OperProcess W p st =
     (case p of Oper f x ds \<Rightarrow>
        sbind ((case x of None \<Rightarrow> Inr | Some x \<Rightarrow> f_ExprProcess W x) st)
          (in_turn (\<lambda>d. w_declaration W d False) (elems ds)))"

definition f_DeclaratorProcess :: "'c walker \<Rightarrow> Declarator \<Rightarrow> 'c xstate \<Rightarrow> ub + 'c xstate" where
  "f_DeclaratorProcess W d st =
     (case d of Declarator f x xs i ops \<Rightarrow>
        sbind ((case x of None \<Rightarrow> Inr | Some x \<Rightarrow> f_ExprProcess W x) st) (\<lambda>st.
        sbind ((case i of None \<Rightarrow> Inr | Some i \<Rightarrow> w_init W i) st) (\<lambda>st.
        sbind (in_turn (f_ExprProcess W) (elems xs) st) (in_turn (f_OperProcess W) (elems ops)))))"

text \<open>One declarator of a declaration; with \<open>rec\<close> it becomes a variable of the scope.\<close>

definition record_variable :: "xenv \<Rightarrow> Type \<Rightarrow> int \<Rightarrow> Declarator \<Rightarrow> 'c xstate \<Rightarrow> ub + Declarator \<times> 'c xstate" where
  "record_variable E TypeBasic ln d st =
     (let t = f_TypeDeclaratorConcat TypeBasic d; st = f_PutConstructor E t ln True True st;
          st = mark (CHR ''l'') (d_place (dr_fields d)) st in
      case t_declarator t of
        None \<Rightarrow> Inl NullPointer
      | Some d' \<Rightarrow>
          case d_name (dr_fields d') of
            None \<Rightarrow> Inl NullPointer
          | Some w \<Rightarrow>
              sbind (SymtabInsert (SymtabVariable st) w t (niveauComp st)) (\<lambda>S.
              Inr (d', st\<lparr>SymtabVariable := S\<rparr>)))"

definition declarator_step :: "'c walker \<Rightarrow> xenv \<Rightarrow> Type \<Rightarrow> int \<Rightarrow> bool \<Rightarrow> Declarator \<Rightarrow> 'c xstate \<Rightarrow> ub + 'c xstate" where
  "declarator_step W E TypeBasic ln rec d st =
     sbind (if rec then record_variable E TypeBasic ln d st else Inr (d, st)) (\<lambda>(d, st).
     w_declarator W d
       (case d_name (dr_fields d) of
          Some w \<Rightarrow>
            if dr_expr d \<noteq> None \<or> dr_init d \<noteq> None
            then Put_cross_ref E PAF_LOCAL_VAR_DEF PAF_REF_SCOPE_LOCAL (Some (scope_g E)) (Some (sym_name_g E)) w None ln
                   PAF_REF_WRITE st
            else st
        | None \<Rightarrow> st))"

definition f_DeclarationProcess :: "'c walker \<Rightarrow> nat \<Rightarrow> xenv \<Rightarrow> Declaration \<Rightarrow> bool \<Rightarrow> 'c xstate \<Rightarrow> ub + 'c xstate" where
  "f_DeclarationProcess W n E d rec st =
     (case d of
        DeclarationSpecial t n1 n2 ds \<Rightarrow> in_turn (\<lambda>d. w_declaration W d rec) (elems ds) st
      | Declaration f c e ds \<Rightarrow>
          if iType f \<in> {DECLARATION_OBJECT, DECLARATION_MEMBER, DECLARATION_ARGUMENT} then
            sbind (f_TypeBasic n E (Some (f_TypeFromDeclaration f c e)) (lineno f) st) (\<lambda>(TypeBasic, st).
            in_turn (declarator_step W E TypeBasic (lineno f) rec) (elems ds) st)
          else Inr st)"

text \<open>The knot, with fuel for the depth of the trees and the rounds of the loops.\<close>

primrec walk :: "nat \<Rightarrow> xenv \<Rightarrow> 'c walker" where
  "walk 0 E =
     \<lparr>w_expr = \<lambda>_ _ _ _ _ _. Inl NoReturn, w_declarator = \<lambda>_ _. Inl NoReturn, w_init = \<lambda>_ _. Inl NoReturn,
      w_declaration = \<lambda>_ _ _. Inl NoReturn\<rparr>"
| "walk (Suc n) E =
     (let W = walk n E in
      \<lparr>w_expr = f_expr W n E, w_declarator = f_DeclaratorProcess W, w_init = f_InitProcess W,
       w_declaration = f_DeclarationProcess W n E\<rparr>)"

text \<open>The two entries of the recognizer: an expression statement, and a declaration statement.\<close>

definition process_expression :: "nat \<Rightarrow> xenv \<Rightarrow> Expr \<Rightarrow> 'c xstate \<Rightarrow> ub + 'c xstate" where
  "process_expression n E = f_ExprProcess (walk n E)"

definition process_declaration :: "nat \<Rightarrow> xenv \<Rightarrow> Declaration \<Rightarrow> 'c xstate \<Rightarrow> ub + 'c xstate" where
  "process_declaration n E d = w_declaration (walk n E) d True"

end
