(* ===== verification/XRef_Spec.thy ===== *)
theory XRef_Spec
  imports XRef
begin

text \<open>
  What the walk of \<open>XRef\<close> is to find, said of the tree alone: which trees have all their parts, and the
  names a tree uses, with the line and the access of each, in the order of the walk.
\<close>

section \<open>The shape of an expression\<close>

text \<open>The number of operands, and which operators change their first operand.\<close>

definition assigns :: "xoperator set" where
  "assigns =
     {OPERATOR_ASSIGN, OPERATOR_MULTassign, OPERATOR_DIVassign, OPERATOR_MODassign, OPERATOR_PLUSassign,
      OPERATOR_MINUSassign, OPERATOR_LSassign, OPERATOR_RSassign, OPERATOR_ANDassign, OPERATOR_ERassign,
      OPERATOR_ORassign}"

definition steps :: "xoperator set" where
  "steps = {OPERATOR_PRE_ICR, OPERATOR_PRE_DECR, OPERATOR_POST_ICR, OPERATOR_POST_DECR}"

definition members :: "xoperator set" where
  "members = {OPERATOR_DOT, OPERATOR_ARROW}"

definition arity :: "xoperator \<Rightarrow> nat" where
  "arity p =
     (if p \<in> {OPERATOR_NAME, OPERATOR_TYPE} then 0
      else if p = Op OPERATOR_CONDITIONAL then 3
      else if p \<in> steps \<union> {OPERATOR_STAR, OPERATOR_ET, OPERATOR_SIZEOF_EXPRESSION, OPERATOR_SIZEOF_TYPENAME,
        Op OPERATOR_UPLUS, Op OPERATOR_UMINUS, Op OPERATOR_NOT, Op OPERATOR_BNOT, OPERATOR_FUNCTION_CALL,
        OPERATOR_CONSTRUCTOR_CALL, OPERATOR_NEW, OPERATOR_DELETE} then 1
      else 2)"

definition with_list :: "xoperator set" where
  "with_list = {OPERATOR_FUNCTION_CALL, OPERATOR_CONSTRUCTOR_CALL, OPERATOR_NEW}"

definition operand1 :: "xoperator \<Rightarrow> access \<Rightarrow> access" where
  "operand1 p a =
     (if p \<in> assigns then WRITE
      else if p \<in> steps then READ_WRITE
      else if p \<in> members \<union> {OPERATOR_STAR, OPERATOR_ET, OPERATOR_ARRAY} then a
      else READ)"

definition operand2 :: "xoperator \<Rightarrow> access \<Rightarrow> access" where
  "operand2 p a = (if p \<in> members then a else READ)"

definition acc_code :: "access \<Rightarrow> bool \<Rightarrow> int" where
  "acc_code a pass = (if snd a then 1 else 0) + (if pass then 2 else 0)"

section \<open>Trees with all their parts\<close>

text \<open>A name that can be looked up: the code reads in front of a colon without looking whether it is the first.\<close>

definition object_ok :: "string \<Rightarrow> bool" where
  "object_ok w \<longleftrightarrow> NUL \<notin> set w \<and> last_colon w \<noteq> Some 0"

fun expr_ok :: "Expr \<Rightarrow> bool"
  and declarator_ok :: "Declarator \<Rightarrow> bool"
  and init_ok :: "Init \<Rightarrow> bool"
  and oper_ok :: "Oper \<Rightarrow> bool"
  and declaration_ok :: "Declaration \<Rightarrow> bool" where
  "expr_ok (Expr op nm ty x1 x2 x3 i xs p) \<longleftrightarrow>
     (if op = OPERATOR_NAME then (case nm of None \<Rightarrow> False | Some w \<Rightarrow> object_ok w)
      else if op = OPERATOR_TYPE then
        (case ty of
           None \<Rightarrow> False
         | Some (Type f c e d) \<Rightarrow> (case d of None \<Rightarrow> True | Some d \<Rightarrow> declarator_ok d))
      else
        (case x1 of None \<Rightarrow> False | Some x \<Rightarrow> expr_ok x) \<and>
        (2 \<le> arity op \<longrightarrow> (case x2 of None \<Rightarrow> False | Some x \<Rightarrow> expr_ok x)) \<and>
        (3 \<le> arity op \<longrightarrow> (case x3 of None \<Rightarrow> False | Some x \<Rightarrow> expr_ok x)) \<and>
        (op \<in> with_list \<longrightarrow> (case xs of None \<Rightarrow> True | Some l \<Rightarrow> list_all expr_ok l)) \<and>
        (op = OPERATOR_NEW \<longrightarrow> (case i of None \<Rightarrow> True | Some i \<Rightarrow> init_ok i)))"
| "declarator_ok (Declarator f x xs i ops) \<longleftrightarrow>
     (case x of None \<Rightarrow> True | Some x \<Rightarrow> expr_ok x) \<and> (case xs of None \<Rightarrow> True | Some l \<Rightarrow> list_all expr_ok l) \<and>
     (case i of None \<Rightarrow> True | Some i \<Rightarrow> init_ok i) \<and> (case ops of None \<Rightarrow> True | Some l \<Rightarrow> list_all oper_ok l)"
| "init_ok (Init x is) \<longleftrightarrow>
     (case x of None \<Rightarrow> True | Some x \<Rightarrow> expr_ok x) \<and> (case is of None \<Rightarrow> True | Some l \<Rightarrow> list_all init_ok l)"
| "oper_ok (Oper f x ds) \<longleftrightarrow>
     (case x of None \<Rightarrow> True | Some x \<Rightarrow> expr_ok x) \<and> (case ds of None \<Rightarrow> True | Some l \<Rightarrow> list_all declaration_ok l)"
| "declaration_ok (Declaration f c e ds) \<longleftrightarrow> (case ds of None \<Rightarrow> True | Some l \<Rightarrow> list_all declarator_ok l)"
| "declaration_ok (DeclarationSpecial t n1 n2 ds) \<longleftrightarrow> (case ds of None \<Rightarrow> True | Some l \<Rightarrow> list_all declaration_ok l)"

section \<open>Uses\<close>

text \<open>A name with its line, how it is used, and the level it is to be found on, if that is known.\<close>

type_synonym occurrence = "string \<times> int \<times> int \<times> int option"

text \<open>\<open>L\<close> are the names the scopes declare; \<open>k\<close> says that the name is no member.\<close>

definition level_of :: "(string \<Rightarrow> bool) \<Rightarrow> bool \<Rightarrow> string \<Rightarrow> int option" where
  "level_of L k w = (if k then Some (if L w then PAF_REF_SCOPE_LOCAL else PAF_REF_SCOPE_GLOBAL) else None)"

definition selectors :: "xoperator set" where
  "selectors = members \<union> {OPERATOR_DOTstar, OPERATOR_ARROWstar}"

text \<open>The name a call goes through: a name, perhaps a member, perhaps behind a cast.\<close>

fun callee :: "Expr \<Rightarrow> (string \<times> int) option" where
  "callee (Expr op nm ty x1 x2 x3 i xs p) =
     (if op = OPERATOR_NAME then (case nm of None \<Rightarrow> None | Some w \<Rightarrow> Some (w, plineno_beg p))
      else if op \<in> members \<or> op = OPERATOR_CAST then (case x2 of None \<Rightarrow> None | Some x \<Rightarrow> callee x)
      else None)"

definition call_use :: "access \<Rightarrow> bool \<Rightarrow> Expr \<Rightarrow> occurrence list" where
  "call_use a pass x = (case callee x of None \<Rightarrow> [] | Some (w, ln) \<Rightarrow> [(get_name w, ln, acc_code a pass, Some PAF_REF_SCOPE_GLOBAL)])"

text \<open>A name that is called is used by the call; the arguments of a call are passed.\<close>

fun expr_uses :: "(string \<Rightarrow> bool) \<Rightarrow> bool \<Rightarrow> access \<Rightarrow> bool \<Rightarrow> bool \<Rightarrow> Expr \<Rightarrow> occurrence list"
  and declarator_uses :: "(string \<Rightarrow> bool) \<Rightarrow> Declarator \<Rightarrow> occurrence list"
  and init_uses :: "(string \<Rightarrow> bool) \<Rightarrow> Init \<Rightarrow> occurrence list"
  and oper_uses :: "(string \<Rightarrow> bool) \<Rightarrow> Oper \<Rightarrow> occurrence list"
  and declaration_uses :: "(string \<Rightarrow> bool) \<Rightarrow> Declaration \<Rightarrow> occurrence list" where
  "expr_uses L k a call pass (Expr op nm ty x1 x2 x3 i xs p) =
     (if op = OPERATOR_NAME then
        (case nm of None \<Rightarrow> [] | Some w \<Rightarrow> if call then [] else [(get_name w, plineno_beg p, acc_code a pass, level_of L k (get_name w))])
      else if op = OPERATOR_TYPE then
        (case ty of
           None \<Rightarrow> []
         | Some (Type f c e d) \<Rightarrow> (case d of None \<Rightarrow> [] | Some d \<Rightarrow> declarator_uses L d))
      else
        (case x1 of None \<Rightarrow> [] | Some x \<Rightarrow> expr_uses L k (operand1 op a) (op = OPERATOR_FUNCTION_CALL) pass x)
        @ (if 2 \<le> arity op
           then (case x2 of None \<Rightarrow> [] | Some x \<Rightarrow> expr_uses L (k \<and> op \<notin> selectors) (operand2 op a) (call \<and> op \<in> members) pass x) else [])
        @ (if 3 \<le> arity op then (case x3 of None \<Rightarrow> [] | Some x \<Rightarrow> expr_uses L k READ False pass x) else [])
        @ (if op \<in> with_list
           then (case xs of None \<Rightarrow> [] | Some l \<Rightarrow> concat (map (expr_uses L True READ False True) l)) else [])
        @ (if op = OPERATOR_NEW then (case i of None \<Rightarrow> [] | Some i \<Rightarrow> init_uses L i) else [])
        @ (if op = OPERATOR_FUNCTION_CALL then (case x1 of None \<Rightarrow> [] | Some x \<Rightarrow> call_use a pass x) else []))"
| "declarator_uses L (Declarator f x xs i ops) =
     (case x of None \<Rightarrow> [] | Some x \<Rightarrow> expr_uses L True READ False False x)
     @ (case i of None \<Rightarrow> [] | Some i \<Rightarrow> init_uses L i)
     @ (case xs of None \<Rightarrow> [] | Some l \<Rightarrow> concat (map (expr_uses L True READ False False) l))
     @ (case ops of None \<Rightarrow> [] | Some l \<Rightarrow> concat (map (oper_uses L) l))"
| "init_uses L (Init x is) =
     (case x of None \<Rightarrow> [] | Some x \<Rightarrow> expr_uses L True READ False False x)
     @ (case is of None \<Rightarrow> [] | Some l \<Rightarrow> concat (map (init_uses L) l))"
| "oper_uses L (Oper f x ds) =
     (case x of None \<Rightarrow> [] | Some x \<Rightarrow> expr_uses L True READ False False x)
     @ (case ds of None \<Rightarrow> [] | Some l \<Rightarrow> concat (map (declaration_uses L) l))"
| "declaration_uses L (Declaration f c e ds) =
     (if iType f \<in> {DECLARATION_OBJECT, DECLARATION_MEMBER, DECLARATION_ARGUMENT} then
        (case ds of
           None \<Rightarrow> []
         | Some l \<Rightarrow>
             concat (map (\<lambda>d.
               (case d_name (dr_fields d) of
                  None \<Rightarrow> []
                | Some w \<Rightarrow> if dr_expr d \<noteq> None \<or> dr_init d \<noteq> None then [(w, lineno f, 1, Some PAF_REF_SCOPE_LOCAL)] else [])
               @ declarator_uses L d) l))
      else [])"
| "declaration_uses L (DeclarationSpecial t n1 n2 ds) =
     (case ds of None \<Rightarrow> [] | Some l \<Rightarrow> concat (map (declaration_uses L) l))"

section \<open>Databases\<close>

text \<open>The values of macros are names; and a database that knows no typedef, no class, no overloaded operator
  and no macro with a value, and whose type strings can all be read.\<close>

definition macros_ok :: "xenv \<Rightarrow> bool" where
  "macros_ok E \<longleftrightarrow>
     (\<forall>sg sc w args sc' ty def.
        db_symbol E sg sc w args False = Some (PAF_MACRO_DEF, sc', ty, def) \<longrightarrow> object_ok (take 999 def))"

definition plain_db :: "xenv \<Rightarrow> nat \<Rightarrow> bool" where
  "plain_db E N \<longleftrightarrow> 0 < N \<and>
     (\<forall>sg sc w args. db_symbol E sg sc w args True = None) \<and> (\<forall>w. db_class_or_typedef E w = None) \<and>
     (\<forall>sg sc w args paf sc' ty def. db_symbol E sg sc w args False = Some (paf, sc', ty, def) \<longrightarrow>
        (paf = PAF_MACRO_DEF \<longrightarrow> def = []) \<and> (\<forall>n \<ge> N. \<exists>t. f_TypeFromString n (cur_lineno E) ty = Inr t))"

text \<open>A database with an answer that is neither 0 nor a typedef.\<close>

definition knows_class :: "xenv \<Rightarrow> bool" where
  "knows_class E \<longleftrightarrow> (\<exists>w p s. db_class_or_typedef E w = Some (p, s) \<and> p \<noteq> PAF_TYPE_DEF)"

text \<open>A report says of an occurrence what is known of it; \<open>reported\<close> says that from one list of reports to
  the next the occurrences were reported, each once and in order.\<close>

definition reports :: "cross_ref \<Rightarrow> occurrence \<Rightarrow> bool" where
  "reports r = (\<lambda>(w, ln, acc, lev).
     ref_what r = w \<and> ref_line r = ln \<and> ref_acc r = acc \<and>
     (case lev of
        None \<Rightarrow> True
      | Some l \<Rightarrow> ref_scope_lev r = l \<and> (l = PAF_REF_SCOPE_LOCAL \<longrightarrow> ref_type r = PAF_LOCAL_VAR_DEF)))"

definition reported :: "occurrence list \<Rightarrow> cross_ref list \<Rightarrow> cross_ref list \<Rightarrow> bool" where
  "reported us rs rs' \<longleftrightarrow> (\<exists>new. rs' = rev new @ rs \<and> list_all2 reports new us)"

end
