(* ===== verification/TypeStr_Print.thy ===== *)
theory TypeStr_Print
  imports TypeStr
begin

text \<open>
  What the printer of \<open>TypeStr\<close> writes, seen through its lexer: the usual types as a datatype
  \<open>cty\<close>, the tree each stands for, its tokens, and the proof that the printed string has them.
\<close>

section \<open>Tokens of a string put together\<close>

lemma While_app:
  "((\<forall>x \<in> set s. P x) \<Longrightarrow> u = [] \<or> \<not> P (hd u)) \<Longrightarrow>
   takeWhile P (s @ u) = takeWhile P s \<and> dropWhile P (s @ u) = dropWhile P s @ u"
  by (induction s) (cases u; auto)+

definition blank :: "char \<Rightarrow> bool" where
  "blank c \<longleftrightarrow> c = CHR '' '' \<or> c = TAB \<or> c = CR \<or> c = LF"

lemma TokenLex_word: "c_isalpha c \<or> c = CHR ''_'' \<Longrightarrow>
    TokenLex (c # s) = (word_code (c # takeWhile word_char s), c # takeWhile word_char s, dropWhile word_char s)"
  by (auto simp: Let_def c_isalpha_def byte_def)

lemma TokenLex_blank: "blank c \<Longrightarrow> TokenLex (c # s) = TokenLex s"
  by (auto simp: blank_def c_isalpha_def byte_def)

lemma TokenLex_NUL: "TokenLex (NUL # s) = (Inl (Ch NUL), [], NUL # s)"
  by simp

lemma TokenLex_punct: "c \<noteq> NUL \<Longrightarrow> \<not> blank c \<Longrightarrow> \<not> c_isalpha c \<Longrightarrow> c \<noteq> CHR ''_'' \<Longrightarrow> c \<noteq> CHR '':'' \<Longrightarrow>
    TokenLex (c # s) = (Inl (Ch c), [c], s)"
  by (simp add: blank_def)

lemma TokenLex_clcl: "TokenLex (CHR '':'' # CHR '':'' # s) = (Inl SN_CLCL, ''::'', s)"
  by (simp add: c_isalpha_def byte_def)

lemma TokenLex_colon: "s = [] \<or> hd s \<noteq> CHR '':'' \<Longrightarrow> TokenLex (CHR '':'' # s) = (Inl (Ch (CHR '':'')), '':'', s)"
  by (cases s) (simp_all add: c_isalpha_def byte_def)

lemma char_cases:
  obtains (word) "c_isalpha c \<or> c = CHR ''_''" | (blank) "blank c" | (nul) "c = NUL" | (colon) "c = CHR '':''"
  | (punct) "c \<noteq> NUL" "\<not> blank c" "\<not> c_isalpha c" "c \<noteq> CHR ''_''" "c \<noteq> CHR '':''"
  by blast

declare TokenLex.simps(2) [simp del]

lemma word_char_alpha: "c_isalpha c \<or> c = CHR ''_'' \<Longrightarrow> word_char c"
  by (auto simp: word_char_def c_isalnum_def)

lemma TokenLex_app:
  assumes "TokenLex s = (t, w, r)" "t \<noteq> Inl (Ch NUL)"
    and "u = [] \<or> \<not> (word_char (last s) \<and> word_char (hd u)) \<and> \<not> (last s = CHR '':'' \<and> hd u = CHR '':'')"
  shows "TokenLex (s @ u) = (t, w, r @ u)"
  using assms
proof (induction s)
  case (Cons c s)
  show ?case
  proof (cases c rule: char_cases)
    case word
    have "\<forall>x \<in> set s. word_char x \<Longrightarrow> u = [] \<or> \<not> word_char (hd u)"
      using Cons.prems(3) word_char_alpha [OF word] by (cases s rule: rev_cases) auto
    then show ?thesis using Cons.prems(1) While_app [of s word_char u] by (auto simp: TokenLex_word [OF word])
  next
    case blank
    then show ?thesis using Cons by (cases s) (auto simp: TokenLex_blank)
  next
    case nul
    then show ?thesis using Cons.prems by (simp add: TokenLex_NUL)
  next
    case colon
    show ?thesis
    proof (cases s)
      case Nil
      then show ?thesis using Cons.prems colon by (cases u) (auto simp: TokenLex_colon)
    next
      case s: (Cons d s')
      then show ?thesis using Cons.prems colon by (cases "d = CHR '':''") (auto simp: TokenLex_colon TokenLex_clcl)
    qed
  next
    case punct
    then show ?thesis using Cons.prems by (simp add: TokenLex_punct)
  qed
qed simp

lemma TokenLex_end: "NUL \<notin> set s \<Longrightarrow> TokenLex s = (Inl (Ch NUL), w, r) \<Longrightarrow> list_all blank s"
proof (induction s)
  case (Cons c s)
  show ?case
  proof (cases c rule: char_cases)
    case word
    then show ?thesis using Cons.prems by (simp add: TokenLex_word word_code_def split: if_splits)
  next
    case colon
    then show ?thesis using Cons.prems by (cases s; cases "hd s = CHR '':''") (auto simp: TokenLex_colon TokenLex_clcl)
  qed (use Cons in \<open>auto simp: TokenLex_blank TokenLex_punct\<close>)
qed simp

lemma TokenLex_blanks: "list_all blank s \<Longrightarrow> TokenLex (s @ u) = TokenLex u"
  by (induction s) (auto simp: TokenLex_blank)

lemma TokenLex_rest: "TokenLex s = (t, w, r) \<Longrightarrow> \<exists>v. s = v @ r"
proof (induction s)
  case (Cons c s)
  show ?case
  proof (cases c rule: char_cases)
    case word
    have "c # s = (c # takeWhile word_char s) @ dropWhile word_char s" by simp
    then show ?thesis using Cons.prems by (metis TokenLex_word [OF word] Pair_inject)
  next
    case blank
    then show ?thesis using Cons by (metis TokenLex_blank append_Cons)
  next
    case nul
    then show ?thesis using Cons.prems by (simp add: TokenLex_NUL)
  next
    case colon
    then show ?thesis using Cons.prems
      by (cases s; cases "hd s = CHR '':''") (auto simp: TokenLex_colon TokenLex_clcl)
  next
    case punct
    then show ?thesis using Cons.prems by (simp add: TokenLex_punct)
  qed
qed simp

lemma tokens_app:
  assumes "NUL \<notin> set s"
    and "s = [] \<or> u = [] \<or> \<not> (word_char (last s) \<and> word_char (hd u)) \<and> \<not> (last s = CHR '':'' \<and> hd u = CHR '':'')"
  shows "type_tokens (s @ u) = type_tokens s @ type_tokens u"
  using assms
proof (induction s rule: type_tokens.induct)
  case (1 s)
  obtain t w r where l: "TokenLex s = (t, w, r)" by (metis prod_cases3)
  show ?case
  proof (cases "t = Inl (Ch NUL)")
    case True
    then have "TokenLex (s @ u) = TokenLex u" using TokenLex_end [OF 1(2)] l by (intro TokenLex_blanks) simp
    then show ?thesis using l True by (simp add: type_tokens.simps [of s] type_tokens.simps [of "s @ u"] type_tokens.simps [of u])
  next
    case False
    obtain v where v: "s = v @ r" using TokenLex_rest [OF l] by blast
    have "s \<noteq> []" using l False by auto
    then have "TokenLex (s @ u) = (t, w, r @ u)" using l False 1(3) by (intro TokenLex_app) auto
    moreover have "type_tokens (r @ u) = type_tokens r @ type_tokens u"
      using 1(2,3) v \<open>s \<noteq> []\<close> by (intro 1(1) [OF l [symmetric] _ False]) (auto simp: last_append)
    ultimately show ?thesis using l False by (simp add: type_tokens.simps [of s] type_tokens.simps [of "s @ u"])
  qed
qed


text \<open>\<open>s\<close> has the tokens \<open>ts\<close>, wherever it is put.\<close>

definition prints :: "string \<Rightarrow> toks \<Rightarrow> bool" where
  "prints s ts \<longleftrightarrow> NUL \<notin> set s \<and> type_tokens s = ts \<and> (s = [] \<or> hd s \<noteq> CHR '':'' \<and> last s \<noteq> CHR '':'')"

lemma tokens_Nil [simp]: "type_tokens [] = []"
  by (simp add: type_tokens.simps)

lemma prints_Nil [simp]: "prints [] []"
  by (simp add: prints_def)

lemma Strcat_cases:
  obtains "s = []" "f_Strcat s u = u" | "u = []" "f_Strcat s u = s"
  | "s \<noteq> []" "u \<noteq> []" "f_Strcat s u = s @ '' '' @ u"
  | "s \<noteq> []" "u \<noteq> []" "f_Strcat s u = s @ u" "\<not> word_char (last s) \<or> hd u = CHR ''>''"
proof (cases "s = [] \<or> u = []")
  case True
  then show ?thesis using that(1,2) by (auto simp: f_Strcat_def)
next
  case False
  then show ?thesis
    using that(3,4)
    by (cases "hd u = CHR ''>''"; cases "word_char (last s) \<or> last s = CHR ''$''")
      (simp_all add: f_Strcat_def Let_def word_char_def)
qed

lemma tokens_Strcat:
  assumes "NUL \<notin> set s" and "s = [] \<or> u = [] \<or> \<not> (last s = CHR '':'' \<and> hd u = CHR '':'')"
  shows "type_tokens (f_Strcat s u) = type_tokens s @ type_tokens u"
proof (cases s u rule: Strcat_cases)
  case 3
  have "type_tokens ('' '' @ u) = type_tokens u"
    by (simp add: type_tokens.simps [of "CHR '' '' # u"] TokenLex_blank blank_def type_tokens.simps [of u])
  moreover have "type_tokens (s @ '' '' @ u) = type_tokens s @ type_tokens ('' '' @ u)"
    using assms by (intro tokens_app) (auto simp: word_char_def c_isalnum_def c_isalpha_def c_isdigit_def byte_def)
  ultimately show ?thesis using 3 by simp
next
  case 4
  then show ?thesis
    using assms by (auto simp: word_char_def c_isalnum_def c_isalpha_def c_isdigit_def byte_def intro!: tokens_app)
qed simp_all

lemma Strcat_set: "set (f_Strcat s u) \<subseteq> set s \<union> set u \<union> {CHR '' ''}"
  by (cases s u rule: Strcat_cases) auto

lemma Strcat_ends: "s \<noteq> [] \<Longrightarrow> hd (f_Strcat s u) = hd s" "u \<noteq> [] \<Longrightarrow> last (f_Strcat s u) = last u"
  "f_Strcat s u = [] \<longleftrightarrow> s = [] \<and> u = []"
  by (cases s u rule: Strcat_cases; simp)+

lemma NUL_Strcat: "NUL \<notin> set s \<Longrightarrow> NUL \<notin> set u \<Longrightarrow> NUL \<notin> set (f_Strcat s u)"
  using Strcat_set [of s u] by auto

lemma Strcat_Nil [simp]: "f_Strcat [] u = u" "f_Strcat s [] = s"
  by (simp_all add: f_Strcat_def)

lemma prints_Strcat [intro]: "prints s ts \<Longrightarrow> prints u us \<Longrightarrow> prints (f_Strcat s u) (ts @ us)"
  by (cases "s = []"; cases "u = []")
    (auto simp: prints_def tokens_Strcat NUL_Strcat Strcat_ends)

lemma prints_clcl:
  assumes "prints s ts" "prints u us" "s \<noteq> []" "u \<noteq> []"
  shows "prints (f_Strcat (f_Strcat s ''::'') u) (ts @ (T_clcl, ''::'') # us)"
proof -
  have "type_tokens ''::'' = [(T_clcl, ''::'')]"
    by (simp add: type_tokens.simps [of "CHR '':'' # xs" for xs] TokenLex_clcl)
  with assms show ?thesis
    by (auto simp: prints_def tokens_Strcat NUL_Strcat Strcat_ends)
qed

lemma prints_all: "prints pc ts \<Longrightarrow> list_all (\<lambda>w. prints w (f w)) ws \<Longrightarrow> prints (strcat_all ws pc) (ts @ concat (map f ws))"
proof (induction ws arbitrary: pc ts)
  case (Cons w ws)
  then have "prints (f_Strcat pc w) (ts @ f w)" by auto
  from Cons.IH [OF this] Cons.prems show ?case by (simp add: strcat_all_def)
qed (simp add: strcat_all_def)

section \<open>The usual types\<close>

datatype basic = BChar | BShort | BInt | BLong | BFloat | BDouble | BBool | BVoid

datatype name = Name string "string list option" "string list"

datatype tbase = CBasic bool basic | CName name

datatype cop = CPtr bool bool "name option" | CRef bool bool | CArr | CFun "cty list"
  and cty = CTy keyword bool bool tbase "cop list"

primrec basic_text :: "basic \<Rightarrow> string" where
  "basic_text BChar = ''char''" | "basic_text BShort = ''short''" | "basic_text BInt = ''int''"
| "basic_text BLong = ''long''" | "basic_text BFloat = ''float''" | "basic_text BDouble = ''double''"
| "basic_text BBool = ''bool''" | "basic_text BVoid = ''void''"

primrec basic_set :: "basic \<Rightarrow> type_fields \<Rightarrow> type_fields" where
  "basic_set BChar f = f\<lparr>s_char := True\<rparr>" | "basic_set BShort f = f\<lparr>s_short := True\<rparr>"
| "basic_set BInt f = f\<lparr>s_int := True\<rparr>" | "basic_set BLong f = f\<lparr>s_long := True\<rparr>"
| "basic_set BFloat f = f\<lparr>s_float := True\<rparr>" | "basic_set BDouble f = f\<lparr>s_double := True\<rparr>"
| "basic_set BBool f = f\<lparr>s_bool := True\<rparr>" | "basic_set BVoid f = f\<lparr>s_void := True\<rparr>"

text \<open>The text of a name is what \<open>CompleteClassName\<close> builds: a blank before each \<open>::\<close> that follows a word.\<close>

fun name_head :: "string \<Rightarrow> string list option \<Rightarrow> string" where
  "name_head w None = w"
| "name_head w (Some as) = strcat_all (as @ [''>'']) (w @ ''<'')"

fun name_text :: "name \<Rightarrow> string" where
  "name_text (Name w as qs) = fold (\<lambda>q ac. f_Strcat (f_Strcat ac ''::'') q) qs (name_head w as)"

text \<open>In the trees of the recognizer a name is spelled as \<open>cp_name.c\<close> puts it together, without blanks.\<close>

fun name_source :: "name \<Rightarrow> string" where
  "name_source (Name w as qs) = name_head w as @ concat (map (\<lambda>q. ''::'' @ q) qs)"

definition base_in :: "(name \<Rightarrow> string) \<Rightarrow> tbase \<Rightarrow> type_fields \<Rightarrow> type_fields" where
  "base_in sp b f = (case b of CBasic u k \<Rightarrow> basic_set k (f\<lparr>s_unsigned := u\<rparr>) | CName n \<Rightarrow> f\<lparr>tname := Some (sp n)\<rparr>)"

definition flags_in :: "(name \<Rightarrow> string) \<Rightarrow> keyword \<Rightarrow> bool \<Rightarrow> bool \<Rightarrow> tbase \<Rightarrow> type_fields" where
  "flags_in sp fct c v b = base_in sp b (f_TypeCreate\<lparr>fct_specifier := fct, s_const := c, s_volatile := v\<rparr>)"

definition opt_list :: "'a list \<Rightarrow> 'a list option" where
  "opt_list xs = (if xs = [] then None else Some xs)"

definition dr_of :: "Oper list \<Rightarrow> Declarator option" where
  "dr_of ops = (if ops = [] then None else Some (abstract_declarator (Some ops)))"

text \<open>The tree of a type whose names are spelled by \<open>sp\<close>.\<close>

primrec type_in :: "(name \<Rightarrow> string) \<Rightarrow> int \<Rightarrow> cty \<Rightarrow> Type" and oper_in :: "(name \<Rightarrow> string) \<Rightarrow> int \<Rightarrow> cop \<Rightarrow> Oper" where
  "type_in sp ln (CTy fct c v b ops) = Type (flags_in sp fct c v b) None None (dr_of (map (oper_in sp ln) ops))"
| "oper_in sp ln (CPtr c v n) =
     Oper ((f_OperCreate POINTER_STAR)\<lparr>o_name := map_option sp n, o_const := c, o_volatile := v\<rparr>) None None"
| "oper_in sp ln (CRef c v) = Oper ((f_OperCreate POINTER_AMPERSAND)\<lparr>o_const := c, o_volatile := v\<rparr>) None None"
| "oper_in sp ln CArr = array_oper"
| "oper_in sp ln (CFun as) = function_oper (opt_list (map (\<lambda>t. f_TypeCastToDeclaration ln (type_in sp ln t)) as))"

abbreviation "base_set \<equiv> base_in name_text"
abbreviation "flags_of \<equiv> flags_in name_text"
abbreviation "type_of \<equiv> type_in name_text"
abbreviation "oper_of \<equiv> oper_in name_text"

section \<open>Their tokens\<close>

definition wtok :: "string \<Rightarrow> toks" where
  "wtok w = [(word_code w, w)]"

abbreviation ptok :: "char \<Rightarrow> (lex + keyword) \<times> string" where
  "ptok c \<equiv> (punct c, [c])"

definition clcl :: "(lex + keyword) \<times> string" where
  "clcl = (T_clcl, ''::'')"

fun head_toks :: "string \<Rightarrow> string list option \<Rightarrow> toks" where
  "head_toks w None = [(T_ident, w)]"
| "head_toks w (Some as) = (T_ident, w) # ptok (CHR ''<'') # concat (map type_tokens as) @ [ptok (CHR ''>'')]"

definition quals :: "string list \<Rightarrow> toks" where
  "quals qs = concat (map (\<lambda>q. [clcl, (T_ident, q)]) qs)"

fun name_toks :: "name \<Rightarrow> toks" where
  "name_toks (Name w as qs) = head_toks w as @ quals qs"

definition cv_toks :: "bool \<Rightarrow> bool \<Rightarrow> toks" where
  "cv_toks c v = (if c then [(Inr SN_CONST, ''const'')] else []) @ (if v then [(Inr SN_VOLATILE, ''volatile'')] else [])"

definition fct_toks :: "keyword \<Rightarrow> toks" where
  "fct_toks k =
     (if k = SN_INLINE then [(Inr SN_INLINE, ''inline'')] else if k = SN_VIRTUAL then [(Inr SN_VIRTUAL, ''virtual'')] else [])"

definition base_toks :: "tbase \<Rightarrow> toks" where
  "base_toks b =
     (case b of
        CBasic u k \<Rightarrow> (if u then [(Inr SN_UNSIGNED, ''unsigned'')] else []) @ wtok (basic_text k)
      | CName n \<Rightarrow> name_toks n)"

fun ptr_toks :: "cop \<Rightarrow> toks" where
  "ptr_toks (CPtr c v n) = (case n of None \<Rightarrow> [] | Some n \<Rightarrow> name_toks n @ [clcl]) @ ptok (CHR ''*'') # cv_toks c v"
| "ptr_toks (CRef c v) = ptok (CHR ''&'') # cv_toks c v"
| "ptr_toks _ = []"

fun is_ptr :: "cop \<Rightarrow> bool" where
  "is_ptr (CPtr c v n) = True" | "is_ptr (CRef c v) = True" | "is_ptr _ = False"

definition arg_seq :: "toks list \<Rightarrow> toks" where
  "arg_seq as = (case as of [] \<Rightarrow> [] | a # as \<Rightarrow> a @ concat (map (\<lambda>a. ptok (CHR '','') # a) as))"

definition brackets :: "bool \<Rightarrow> toks \<Rightarrow> toks" where
  "brackets b ts = (if b then ptok (CHR ''('') # ts @ [ptok (CHR '')'')] else ts)"

text \<open>An operator around the tokens of those before it; the flag says that the last one is a pointer.\<close>

definition step_toks :: "(cty \<Rightarrow> toks) \<Rightarrow> cop \<Rightarrow> toks" where
  "step_toks f p =
     (case p of
        CArr \<Rightarrow> [ptok (CHR ''[''), ptok (CHR '']'')]
      | CFun as \<Rightarrow> ptok (CHR ''('') # arg_seq (map f as) @ [ptok (CHR '')'')]
      | _ \<Rightarrow> [])"

definition d_step :: "(cty \<Rightarrow> toks) \<Rightarrow> toks \<times> bool \<Rightarrow> cop \<Rightarrow> toks \<times> bool" where
  "d_step f acc p =
     (if is_ptr p then (ptr_toks p @ fst acc, True) else (brackets (snd acc) (fst acc) @ step_toks f p, False))"

lemma step_toks_cong [fundef_cong]:
  "p = q \<Longrightarrow> (\<And>as t. q = CFun as \<Longrightarrow> t \<in> set as \<Longrightarrow> f t = g t) \<Longrightarrow> step_toks f p = step_toks g q"
  by (cases q) (auto simp: step_toks_def intro!: arg_cong [where f = arg_seq])

lemma d_step_cong [fundef_cong]:
  "acc = acc' \<Longrightarrow> p = q \<Longrightarrow> (\<And>as t. q = CFun as \<Longrightarrow> t \<in> set as \<Longrightarrow> f t = g t) \<Longrightarrow> d_step f acc p = d_step g acc' q"
  by (auto simp: d_step_def intro: step_toks_cong)

lemma size_arg: "CFun as \<in> set ops \<Longrightarrow> t \<in> set as \<Longrightarrow> size t < size (CTy fct c v b ops)"
  by (auto dest!: size_list_estimation' [where f = size, OF _ order_refl])

fun ty_toks :: "cty \<Rightarrow> toks" where
  "ty_toks (CTy fct c v b ops) =
     fct_toks fct @ cv_toks c v @ base_toks b @ fst (foldl (d_step ty_toks) ([], False) ops)"

section \<open>Well-formed types\<close>

definition ident :: "string \<Rightarrow> bool" where
  "ident w \<longleftrightarrow> prints w [(T_ident, w)]"

definition template_word :: "string \<Rightarrow> bool" where
  "template_word w \<longleftrightarrow>
     prints w (type_tokens w) \<and> map snd (type_tokens w) = [w]
     \<and> fst (hd (type_tokens w)) \<notin> {punct (CHR ''<''), punct (CHR ''>'')}"

fun name_ok :: "name \<Rightarrow> bool" where
  "name_ok (Name w as qs) \<longleftrightarrow>
     ident w \<and> (case as of None \<Rightarrow> True | Some as \<Rightarrow> list_all template_word as) \<and> list_all ident qs"

definition base_ok :: "tbase \<Rightarrow> bool" where
  "base_ok b = (case b of CBasic u k \<Rightarrow> True | CName n \<Rightarrow> name_ok n)"

text \<open>A first argument that is only a class name and an array of it is read as an array operator in brackets.\<close>

definition misread :: "cty list \<Rightarrow> bool" where
  "misread as =
     (case as of
        CTy fct c v (CName n) ops # _ \<Rightarrow>
          fct = KW_NONE \<and> \<not> c \<and> \<not> v \<and> ops \<noteq> [] \<and> hd ops = CArr \<and> list_all (\<lambda>p. \<not> is_ptr p) ops
      | _ \<Rightarrow> False)"

fun cty_ok :: "cty \<Rightarrow> bool" and cop_ok :: "cop \<Rightarrow> bool" where
  "cty_ok (CTy fct c v b ops) \<longleftrightarrow>
     fct \<in> {KW_NONE, SN_INLINE, SN_VIRTUAL} \<and> base_ok b \<and> (\<forall>p \<in> set ops. cop_ok p)"
| "cop_ok (CPtr c v n) = (case n of None \<Rightarrow> True | Some n \<Rightarrow> name_ok n)"
| "cop_ok (CRef c v) = True"
| "cop_ok CArr = True"
| "cop_ok (CFun as) \<longleftrightarrow> \<not> misread as \<and> (\<forall>t \<in> set as. cty_ok t)"

section \<open>What is printed\<close>

lemma prints_word:
  assumes "c_isalpha c" "list_all word_char w"
  shows "prints (c # w) (wtok (c # w))"
proof -
  have "takeWhile word_char w = w \<and> dropWhile word_char w = []"
    using assms(2) by (auto simp: list_all_iff takeWhile_eq_all_conv dropWhile_eq_Nil_conv)
  then have "TokenLex (c # w) = (word_code (c # w), c # w, [])"
    using TokenLex_word [of c w] assms(1) by presburger
  moreover have "word_code (c # w) \<noteq> Inl (Ch NUL)" by (simp add: word_code_def)
  ultimately have "type_tokens (c # w) = wtok (c # w)"
    by (simp add: type_tokens.simps [of "c # w"] wtok_def)
  moreover have "\<forall>x \<in> set (c # w). word_char x" using assms by (auto simp: list_all_iff word_char_def c_isalnum_def)
  then have "\<forall>x \<in> set (c # w). x \<noteq> NUL \<and> x \<noteq> CHR '':''"
    by (auto simp: word_char_def c_isalnum_def c_isalpha_def c_isdigit_def byte_def)
  then have "NUL \<notin> set (c # w)" "hd (c # w) \<noteq> CHR '':''" "last (c # w) \<noteq> CHR '':''"
    using last_in_set [of "c # w"] by fastforce+
  ultimately show ?thesis by (simp add: prints_def)
qed

lemma keyword_LexIds: "list_all (\<lambda>(i, k). wLexId k \<noteq> KW_NONE) LexKeyWordTab"
  by (simp add: LexKeyWordTab_def kyw_def)

lemma word_code_table: "list_all (\<lambda>(i, k). word_code (pcName k) = Inr (wLexId k)) LexKeyWordTab"
proof -
  have "word_code (pcName k) = Inr (wLexId k)" if k: "(i, k) \<in> set LexKeyWordTab" for i k
  proof -
    have "map_of LexKeyWordTab i = Some k" using k keyword_indices by simp
    moreover have "ident_hash 0 0 (pcName k) = i" "i < HASH_MAX" "kleng k = length (pcName k)" "wLexId k \<noteq> KW_NONE"
      using keyword_entries keyword_LexIds k by (auto simp: list_all_iff)
    ultimately show ?thesis by (simp add: word_code_def keyword_of_def)
  qed
  then show ?thesis by (auto simp: list_all_iff)
qed

lemma keyword_codes:
  "word_code ''inline'' = Inr SN_INLINE" "word_code ''virtual'' = Inr SN_VIRTUAL"
  "word_code ''const'' = Inr SN_CONST" "word_code ''volatile'' = Inr SN_VOLATILE"
  "word_code ''unsigned'' = Inr SN_UNSIGNED"
  "word_code ''char'' = Inr SN_CHAR" "word_code ''short'' = Inr SN_SHORT" "word_code ''int'' = Inr SN_INT"
  "word_code ''long'' = Inr SN_LONG" "word_code ''float'' = Inr SN_FLOAT" "word_code ''double'' = Inr SN_DOUBLE"
  "word_code ''bool'' = Inr SN_BOOL" "word_code ''void'' = Inr SN_VOID"
  using word_code_table by (simp_all add: LexKeyWordTab_def kyw_def)

lemma prints_keywords:
  "prints ''inline'' [(Inr SN_INLINE, ''inline'')]" "prints ''virtual'' [(Inr SN_VIRTUAL, ''virtual'')]"
  "prints ''const'' [(Inr SN_CONST, ''const'')]" "prints ''volatile'' [(Inr SN_VOLATILE, ''volatile'')]"
  "prints ''unsigned'' [(Inr SN_UNSIGNED, ''unsigned'')]"
  using prints_word [of "CHR ''i''" "''nline''"] prints_word [of "CHR ''v''" "''irtual''"]
    prints_word [of "CHR ''c''" "''onst''"] prints_word [of "CHR ''v''" "''olatile''"]
    prints_word [of "CHR ''u''" "''nsigned''"]
  by (simp_all add: wtok_def keyword_codes c_isalpha_def word_char_def c_isalnum_def byte_def)

lemma prints_punct:
  "prints ''['' [ptok (CHR ''['')]" "prints '']'' [ptok (CHR '']'')]" "prints ''[]'' [ptok (CHR ''[''), ptok (CHR '']'')]"
  "prints ''('' [ptok (CHR ''('')]" "prints '')'' [ptok (CHR '')'')]" "prints ''*'' [ptok (CHR ''*'')]"
  "prints ''&'' [ptok (CHR ''&'')]" "prints '','' [ptok (CHR '','')]" "prints ''>'' [ptok (CHR ''>'')]"
  by code_simp+

lemmas prints_words = prints_keywords prints_punct

lemma prints_basic: "prints (basic_text k) (wtok (basic_text k))"
  by (cases k) (simp_all only: basic_text.simps, rule_tac [!] prints_word,
      simp_all add: c_isalpha_def word_char_def c_isalnum_def byte_def)

lemma prints_template: "template_word w \<Longrightarrow> prints w (type_tokens w)"
  by (simp add: template_word_def)

lemma prints_nonempty: "prints w ts \<Longrightarrow> ts \<noteq> [] \<Longrightarrow> w \<noteq> []"
  by (auto simp: prints_def)

lemma prints_head:
  assumes "ident w" "case as of None \<Rightarrow> True | Some as \<Rightarrow> list_all template_word as"
  shows "prints (name_head w as) (head_toks w as)"
proof (cases as)
  case None
  then show ?thesis using assms by (simp add: ident_def)
next
  case (Some as')
  have p: "prints w [(T_ident, w)]" "w \<noteq> []" using assms(1) prints_nonempty by (auto simp: ident_def)
  have "type_tokens ''<'' = [ptok (CHR ''<'')]" by code_simp
  then have "prints (w @ ''<'') [(T_ident, w), ptok (CHR ''<'')]"
    using p tokens_app [of w "''<''"]
    by (auto simp: prints_def word_char_def c_isalnum_def c_isalpha_def c_isdigit_def byte_def)
  moreover have "list_all (\<lambda>w. prints w (type_tokens w)) (as' @ [''>''])"
    using assms(2) Some prints_words prints_template by (auto simp: list_all_iff prints_def)
  ultimately have "prints (strcat_all (as' @ [''>'']) (w @ ''<''))
      ([(T_ident, w), ptok (CHR ''<'')] @ concat (map type_tokens (as' @ [''>''])))"
    by (rule prints_all)
  then show ?thesis using Some prints_words by (simp add: prints_def)
qed

lemma prints_quals:
  "prints s ts \<Longrightarrow> s \<noteq> [] \<Longrightarrow> list_all ident qs \<Longrightarrow>
   prints (fold (\<lambda>q ac. f_Strcat (f_Strcat ac ''::'') q) qs s) (ts @ quals qs)"
proof (induction qs arbitrary: s ts)
  case (Cons q qs)
  have q: "prints q [(T_ident, q)]" "q \<noteq> []" using Cons.prems prints_nonempty by (auto simp: ident_def)
  then have "prints (f_Strcat (f_Strcat s ''::'') q) (ts @ [clcl, (T_ident, q)])"
    using Cons.prems prints_clcl unfolding clcl_def by blast
  then show ?case using Cons.prems Cons.IH by (fastforce simp: quals_def Strcat_ends)
qed (simp add: quals_def)

text \<open>A spelling of names that has their tokens.\<close>

definition spells :: "(name \<Rightarrow> string) \<Rightarrow> bool" where
  "spells sp \<longleftrightarrow> (\<forall>n. name_ok n \<longrightarrow> prints (sp n) (name_toks n))"

lemma prints_name: "spells sp \<Longrightarrow> name_ok n \<Longrightarrow> prints (sp n) (name_toks n)"
  by (simp add: spells_def)

lemma head_toks_Nil: "head_toks w as \<noteq> []"
  by (cases as) auto

lemma spells_text: "spells name_text"
proof -
  have "prints (name_text (Name w as qs)) (name_toks (Name w as qs))" if "name_ok (Name w as qs)" for w as qs
  proof -
    have "prints (name_head w as) (head_toks w as)" using that by (intro prints_head) auto
    then show ?thesis using that head_toks_Nil prints_nonempty prints_quals by auto
  qed
  then show ?thesis unfolding spells_def by (metis name.exhaust)
qed

lemma prints_qualifier:
  assumes "prints s ts" "s \<noteq> []" "ident q"
  shows "prints (s @ ''::'' @ q) (ts @ [clcl, (T_ident, q)])"
proof -
  have q: "prints q [(T_ident, q)]" "q \<noteq> []" using assms(3) prints_nonempty by (auto simp: ident_def)
  have c: "type_tokens ''::'' = [(T_clcl, ''::'')]"
    by (simp add: type_tokens.simps [of "CHR '':'' # xs" for xs] TokenLex_clcl)
  have "type_tokens (''::'' @ q) = type_tokens ''::'' @ type_tokens q"
    using q by (intro tokens_app) (auto simp: prints_def word_char_def c_isalnum_def c_isalpha_def c_isdigit_def byte_def)
  moreover have "type_tokens (s @ ''::'' @ q) = type_tokens s @ type_tokens (''::'' @ q)"
    using assms q by (intro tokens_app) (auto simp: prints_def word_char_def c_isalnum_def c_isalpha_def c_isdigit_def byte_def)
  ultimately show ?thesis using assms(1,2) q c by (auto simp: prints_def clcl_def)
qed

lemma prints_source:
  "prints s ts \<Longrightarrow> s \<noteq> [] \<Longrightarrow> list_all ident qs \<Longrightarrow> prints (s @ concat (map (\<lambda>q. ''::'' @ q) qs)) (ts @ quals qs)"
proof (induction qs arbitrary: s ts)
  case (Cons q qs)
  from prints_qualifier [OF Cons.prems(1,2)] Cons.prems(3) have "prints (s @ ''::'' @ q) (ts @ [clcl, (T_ident, q)])" by simp
  from Cons.IH [OF this] Cons.prems(3) show ?case by (simp add: quals_def)
qed (simp add: quals_def)

lemma spells_source: "spells name_source"
proof -
  have "prints (name_source (Name w as qs)) (name_toks (Name w as qs))" if "name_ok (Name w as qs)" for w as qs
  proof -
    have "prints (name_head w as) (head_toks w as)" using that by (intro prints_head) auto
    then show ?thesis unfolding name_source.simps name_toks.simps
      by (rule prints_source) (use that prints_nonempty [OF prints_head head_toks_Nil] prints_head in auto)
  qed
  then show ?thesis unfolding spells_def by (metis name.exhaust)
qed

lemma name_toks_Nil: "name_toks n \<noteq> []"
  by (cases n rule: name_toks.cases) (case_tac as; simp)

section \<open>Operators and types\<close>

lemma strcat_all_simps [simp]: "strcat_all [] pc = pc" "strcat_all (w # ws) pc = strcat_all ws (f_Strcat pc w)"
  by (simp_all add: strcat_all_def)

lemma strcat_all_app [simp]: "strcat_all (vs @ ws) pc = strcat_all ws (strcat_all vs pc)"
  by (simp add: strcat_all_def)

lemma prints_word_if: "prints pc ts \<Longrightarrow> prints w us \<Longrightarrow> prints (strcat_all (word_if b w) pc) (ts @ (if b then us else []))"
  by (auto simp: word_if_def)

lemma prints_cv:
  assumes "prints pc ts"
  shows "prints (strcat_all (word_if v ''volatile'') (strcat_all (word_if c ''const'') pc)) (ts @ cv_toks c v)"
  using prints_word_if [OF prints_word_if [OF assms prints_words(3)] prints_words(4)]
  by (simp add: cv_toks_def)

lemma prints_pointer:
  assumes "prints pc ts" "is_ptr p" "cop_ok p" "spells sp"
  shows "prints (f_OperStrcat pc (oper_in sp ln p) prev) (ptr_toks p @ ts)"
proof (cases p)
  case (CPtr c v n)
  show ?thesis
  proof (cases n)
    case None
    have "prints (strcat_all (word_if v ''volatile'') (strcat_all (word_if c ''const'') ''*'')) (ptok (CHR ''*'') # cv_toks c v)"
      using prints_cv [OF prints_words(11)] by simp
    from prints_Strcat [OF this assms(1)] show ?thesis using CPtr None by (simp add: pointer_words_def f_OperCreate_def)
  next
    case (Some m)
    have m: "prints (sp m) (name_toks m)" "sp m \<noteq> []"
      using assms(3) CPtr Some prints_name [OF assms(4)] prints_nonempty [OF _ name_toks_Nil] by auto
    have "prints (f_Strcat (f_Strcat (sp m) ''::'') ''*'') (name_toks m @ [clcl, ptok (CHR ''*'')])"
      using prints_clcl [OF m(1) prints_words(11) m(2)] by (simp add: clcl_def)
    from prints_Strcat [OF prints_cv [OF this, of v c] assms(1)] show ?thesis
      using CPtr Some by (simp add: pointer_words_def f_OperCreate_def)
  qed
next
  case (CRef c v)
  have "prints (strcat_all (word_if v ''volatile'') (strcat_all (word_if c ''const'') ''&'')) (ptok (CHR ''&'') # cv_toks c v)"
    using prints_cv [OF prints_words(12)] by simp
  from prints_Strcat [OF this assms(1)] show ?thesis using CRef by (simp add: pointer_words_def f_OperCreate_def)
qed (use assms in auto)

lemma prints_brackets: "prints pc ts \<Longrightarrow> prints (in_brackets pc prev) (brackets (is_pointer prev) ts)"
  using prints_Strcat [OF prints_Strcat [OF prints_words(9)] prints_words(10)]
  by (simp add: in_brackets_def brackets_def)

definition prints_arg :: "(name \<Rightarrow> string) \<Rightarrow> int \<Rightarrow> cty \<Rightarrow> bool" where
  "prints_arg sp ln t \<longleftrightarrow>
     (\<forall>pc ts. prints pc ts \<longrightarrow>
        prints (f_DeclarationStrcat pc (f_TypeCastToDeclaration ln (type_in sp ln t))) (ts @ ty_toks t))"

lemma prints_more_args:
  "list_all (prints_arg sp ln) as \<Longrightarrow> prints pc ts \<Longrightarrow>
   prints (declarations_strcat pc False (map (\<lambda>t. f_TypeCastToDeclaration ln (type_in sp ln t)) as))
     (ts @ concat (map (\<lambda>t. ptok (CHR '','') # ty_toks t) as))"
proof (induction as arbitrary: pc ts)
  case (Cons t as)
  have "prints (f_Strcat pc '','') (ts @ [ptok (CHR '','')])" using Cons.prems prints_words by blast
  then have "prints (f_DeclarationStrcat (f_Strcat pc '','') (f_TypeCastToDeclaration ln (type_in sp ln t)))
      ((ts @ [ptok (CHR '','')]) @ ty_toks t)"
    using Cons.prems(1) unfolding prints_arg_def list.pred_inject by blast
  from Cons.IH [OF _ this] Cons.prems show ?case by simp
qed simp

lemma prints_args:
  assumes "list_all (prints_arg sp ln) as" "prints pc ts"
  shows "prints (declarations_strcat pc True (map (\<lambda>t. f_TypeCastToDeclaration ln (type_in sp ln t)) as))
     (ts @ arg_seq (map ty_toks as))"
proof (cases as)
  case (Cons t as')
  then have "prints (f_DeclarationStrcat pc (f_TypeCastToDeclaration ln (type_in sp ln t))) (ts @ ty_toks t)"
    using assms by (simp add: prints_arg_def)
  from prints_more_args [OF _ this] assms Cons show ?thesis by (simp add: arg_seq_def o_def)
qed (use assms in \<open>simp add: arg_seq_def\<close>)

lemma prints_suffix:
  assumes "prints pc ts" "\<not> is_ptr p" "\<And>as. p = CFun as \<Longrightarrow> list_all (prints_arg sp ln) as"
  shows "prints (f_OperStrcat pc (oper_in sp ln p) prev) (brackets (is_pointer prev) ts @ step_toks ty_toks p)"
proof (cases p)
  case CArr
  then show ?thesis using prints_Strcat [OF prints_brackets [OF assms(1)] prints_words(8)]
    by (simp add: array_oper_def f_OperCreate_def step_toks_def)
next
  case (CFun as)
  have o: "prints (f_Strcat (in_brackets pc prev) ''('') (brackets (is_pointer prev) ts @ [ptok (CHR ''('')])"
    using prints_Strcat [OF prints_brackets [OF assms(1)] prints_words(9)] .
  show ?thesis
  proof (cases "as = []")
    case True
    then show ?thesis using CFun prints_Strcat [OF o prints_words(10)]
      by (simp add: function_oper_def f_OperCreate_def step_toks_def opt_list_def arg_seq_def)
  next
    case False
    then show ?thesis using CFun prints_Strcat [OF prints_args [OF assms(3) [OF CFun] o] prints_words(10)]
      by (simp add: function_oper_def f_OperCreate_def step_toks_def opt_list_def)
  qed
qed (use assms in auto)

lemma is_pointer_oper: "is_pointer (Some (o_type (o_fields (oper_in sp ln p)))) = is_ptr p"
  by (cases p) (simp_all add: is_pointer_def f_OperCreate_def array_oper_def function_oper_def)

lemma opers_strcat_Cons:
  "opers_strcat pc prev (p # ps) = opers_strcat (f_OperStrcat pc p prev) (Some (o_type (o_fields p))) ps"
  by (cases p) simp

lemma prints_opers:
  assumes "spells sp" "\<And>p. p \<in> set ops \<Longrightarrow> cop_ok p" "\<And>as. CFun as \<in> set ops \<Longrightarrow> list_all (prints_arg sp ln) as" "prints pc ts"
  shows "prints (opers_strcat pc prev (map (oper_in sp ln) ops)) (fst (foldl (d_step ty_toks) (ts, is_pointer prev) ops))"
  using assms
proof (induction ops arbitrary: pc ts prev)
  case (Cons p ops)
  have "prints (f_OperStrcat pc (oper_in sp ln p) prev) (fst (d_step ty_toks (ts, is_pointer prev) p))"
    using Cons.prems prints_pointer [of pc ts p sp] prints_suffix [of pc ts p] by (auto simp: d_step_def)
  moreover have "d_step ty_toks (ts, is_pointer prev) p =
      (fst (d_step ty_toks (ts, is_pointer prev) p), is_pointer (Some (o_type (o_fields (oper_in sp ln p)))))"
    by (simp add: is_pointer_oper d_step_def)
  ultimately show ?case using Cons.IH [of "f_OperStrcat pc (oper_in sp ln p) prev"
      "fst (d_step ty_toks (ts, is_pointer prev) p)" "Some (o_type (o_fields (oper_in sp ln p)))"] Cons.prems
    by (simp add: opers_strcat_Cons)
qed simp

definition ty_words :: "(name \<Rightarrow> string) \<Rightarrow> keyword \<Rightarrow> bool \<Rightarrow> bool \<Rightarrow> tbase \<Rightarrow> string list" where
  "ty_words sp fct c v b =
     word_if (fct = SN_INLINE) ''inline'' @ word_if (fct = SN_VIRTUAL) ''virtual'' @ word_if c ''const'' @ word_if v ''volatile''
     @ (case b of CBasic u k \<Rightarrow> word_if u ''unsigned'' @ [basic_text k] | CName n \<Rightarrow> [sp n])"

lemma flags_words:
  fixes sp fct c v b ln d
  defines "f \<equiv> flags_in sp fct c v b"
  defines "g \<equiv> dn_fields (f_TypeCastToDeclaration ln (Type f None None d))"
  shows "type_words f None None = ty_words sp fct c v b" and "decl_words g None None = ty_words sp fct c v b"
proof -
  note flags = f_def flags_in_def base_in_def f_TypeCreate_def no_specs_def specs.defs type_fields.defs
  have f: "fct_specifier f = fct \<and> s_const f = c \<and> s_volatile f = v \<and> \<not> s_unknown f \<and> \<not> s_ellipsis f
    \<and> cv_words f @ basic_words f @ opt_word (tname f) = word_if c ''const'' @ word_if v ''volatile''
      @ (case b of CBasic u k \<Rightarrow> word_if u ''unsigned'' @ [basic_text k] | CName n \<Rightarrow> [sp n])
    \<and> basic_words f @ opt_word (tname f) \<noteq> []" (is ?A)
  proof (cases b)
    case (CBasic u k)
    then show ?A by (cases k) (simp_all add: flags cv_words_def basic_words_def opt_word_def word_if_def)
  next
    case (CName n)
    then show ?A by (simp add: flags cv_words_def basic_words_def opt_word_def word_if_def)
  qed
  then show "type_words f None None = ty_words sp fct c v b"
    by (auto simp: type_words_def Let_def class_name_def enum_name_def word_if_def ty_words_def fct_words_def)
  have "fct_words g = fct_words f" "cv_words g = cv_words f" "basic_words g = basic_words f" "tname g = tname f"
    "s_ellipsis g = s_ellipsis f" "storage_class g = KW_NONE"
    by (simp_all add: g_def f_TypeCastToDeclaration_def specs.defs decl_fields.defs fct_words_def cv_words_def basic_words_def)
  with f show "decl_words g None None = ty_words sp fct c v b"
    by (auto simp: decl_words_def Let_def class_name_def enum_name_def named_or_def storage_words_def word_if_def
        ty_words_def fct_words_def)
qed

lemma prints_ty_words:
  assumes "base_ok b" "prints pc ts" "spells sp"
  shows "prints (strcat_all (ty_words sp fct c v b) pc) (ts @ fct_toks fct @ cv_toks c v @ base_toks b)"
proof -
  have "prints (strcat_all (word_if (fct = SN_VIRTUAL) ''virtual'') (strcat_all (word_if (fct = SN_INLINE) ''inline'') pc))
      (ts @ fct_toks fct)"
    using prints_word_if [OF prints_word_if [OF assms(2) prints_words(1)] prints_words(2),
        of "fct = SN_VIRTUAL" "fct = SN_INLINE"]
    by (cases "fct = SN_INLINE"; cases "fct = SN_VIRTUAL") (simp_all add: fct_toks_def)
  from prints_cv [OF this, of v c]
  have cv: "prints (strcat_all (word_if v ''volatile'') (strcat_all (word_if c ''const'') (strcat_all
      (word_if (fct = SN_VIRTUAL) ''virtual'') (strcat_all (word_if (fct = SN_INLINE) ''inline'') pc))))
      (ts @ fct_toks fct @ cv_toks c v)" (is "prints ?pc ?ts")
    by simp
  show ?thesis
  proof (cases b)
    case (CBasic u k)
    from prints_Strcat [OF prints_word_if [OF cv prints_words(5)] prints_basic] show ?thesis
      by (simp add: ty_words_def base_toks_def CBasic)
  next
    case (CName n)
    with assms(1) have "prints (sp n) (name_toks n)" by (intro prints_name [OF assms(3)]) (simp add: base_ok_def)
    from prints_Strcat [OF cv this] show ?thesis by (simp add: ty_words_def base_toks_def CName)
  qed
qed

definition decl_text :: "string \<Rightarrow> Declarator option \<Rightarrow> string" where
  "decl_text pc d = (case d of None \<Rightarrow> pc | Some d \<Rightarrow> f_DeclaratorStrcat pc d False)"

lemma prints_dr:
  assumes "spells sp" "\<And>p. p \<in> set ops \<Longrightarrow> cop_ok p" "\<And>as. CFun as \<in> set ops \<Longrightarrow> list_all (prints_arg sp ln) as" "prints pc ts"
  shows "prints (decl_text pc (dr_of (map (oper_in sp ln) ops))) (ts @ fst (foldl (d_step ty_toks) ([], False) ops))"
  using prints_Strcat [OF assms(4) prints_opers [where prev = None, OF assms(1-3) prints_Nil]] assms(4)
  by (auto simp: decl_text_def dr_of_def abstract_declarator_def is_pointer_def)

lemma prints_cty: "spells sp \<Longrightarrow> cty_ok t \<Longrightarrow> prints_arg sp ln t"
proof (induction t rule: measure_induct_rule [of size])
  case (less t)
  obtain fct c v b ops where t: "t = CTy fct c v b ops" by (cases t)
  have args: "list_all (prints_arg sp ln) as" if "CFun as \<in> set ops" for as
    using less that size_arg [OF that] by (auto simp: list_all_iff t simp del: cty.size)
  have "prints (f_DeclarationStrcat pc (f_TypeCastToDeclaration ln (type_in sp ln t))) (ts @ ty_toks t)"
    if "prints pc ts" for pc ts
  proof -
    have "prints (decl_text (strcat_all (ty_words sp fct c v b) pc) (dr_of (map (oper_in sp ln) ops))) (ts @ ty_toks t)"
      using prints_dr [OF less.prems(1) _ args prints_ty_words [OF _ that less.prems(1)]] less.prems by (simp add: t)
    moreover have "f_DeclarationStrcat pc (f_TypeCastToDeclaration ln (type_in sp ln t)) =
        decl_text (strcat_all (ty_words sp fct c v b) pc) (dr_of (map (oper_in sp ln) ops))"
      using flags_words(2) [of ln sp fct c v b "dr_of (map (oper_in sp ln) ops)"]
      by (auto simp: t f_TypeCastToDeclaration_def decl_text_def dr_of_def)
    ultimately show ?thesis by simp
  qed
  then show ?case by (simp add: prints_arg_def)
qed

lemma tokens_TypeToString:
  assumes "spells sp" "cty_ok t"
  shows "type_tokens (f_TypeToString (Some (type_in sp ln t)) False) = ty_toks t"
proof -
  obtain fct c v b ops where t: "t = CTy fct c v b ops" by (cases t)
  have "prints (decl_text (strcat_all (ty_words sp fct c v b) []) (dr_of (map (oper_in sp ln) ops)))
      (([] @ fct_toks fct @ cv_toks c v @ base_toks b) @ fst (foldl (d_step ty_toks) ([], False) ops))"
  proof (rule prints_dr)
    show "list_all (prints_arg sp ln) as" if "CFun as \<in> set ops" for as
      using assms that prints_cty [OF assms(1)] by (fastforce simp: t list_all_iff)
    show "prints (strcat_all (ty_words sp fct c v b) []) ([] @ fct_toks fct @ cv_toks c v @ base_toks b)"
      using assms by (intro prints_ty_words) (simp_all add: t)
  qed (use assms in \<open>simp_all add: t\<close>)
  moreover have "f_TypeToString (Some (type_in sp ln t)) False = decl_text (strcat_all (ty_words sp fct c v b) []) (dr_of (map (oper_in sp ln) ops))"
    by (simp add: t f_TypeToString_def f_TypeStrcat_def Let_def flags_words(1) decl_text_def)
  ultimately show ?thesis by (simp add: prints_def t)
qed

end
