(* ===== verification/TypeStr_Props.thy ===== *)
theory TypeStr_Props
  imports TypeStr_Print
begin

text \<open>
  What the reader of \<open>TypeStr\<close> makes of a printed type: each function of the parser on the tokens of
  the part it reads, and the round trip.
\<close>

section \<open>The next token\<close>

lemma Token_simps [simp]: "Token (x # ts) 0 = fst x" "Token [] i = Inl (Ch NUL)"
  "Token (x # ts) (Suc i) = Token ts i"
  by (simp_all add: Token_def)

lemma Token_app: "ts \<noteq> [] \<Longrightarrow> Token (ts @ us) 0 = Token ts 0"
  by (cases ts) simp_all






section \<open>Names\<close>

lemma template_words:
  "list_all template_word as \<Longrightarrow>
   template_loop 1 p (concat (map type_tokens as) @ ptok (CHR ''>'') # rest) = (strcat_all (as @ [''>'']) p, rest)"
proof (induction as arbitrary: p)
  case (Cons a as)
  then have "\<exists>c. type_tokens a = [(c, a)] \<and> c \<notin> {punct (CHR ''<''), punct (CHR ''>'')}"
    by (cases "type_tokens a") (auto simp: template_word_def)
  then obtain c where "type_tokens a = [(c, a)]" "c \<notin> {punct (CHR ''<''), punct (CHR ''>'')}" by blast
  with Cons show ?case by simp
qed simp

lemma quals_loop:
  "Token rest 0 \<noteq> T_clcl \<or> Token rest 1 \<noteq> T_ident \<Longrightarrow>
   class_name_loop ac (quals qs @ rest) = (fold (\<lambda>q ac. f_Strcat (f_Strcat ac ''::'') q) qs ac, rest)"
proof (induction qs arbitrary: ac)
  case Nil
  then show ?case by (cases "(ac, rest)" rule: class_name_loop.cases) (auto simp: quals_def)
qed (simp add: quals_def clcl_def)

lemma CompleteClassName_name:
  assumes "name_ok n" "Token rest 0 \<noteq> punct (CHR ''<'')" "Token rest 0 \<noteq> T_clcl \<or> Token rest 1 \<noteq> T_ident"
  shows "CompleteClassName (name_toks n @ rest) = (Some (name_text n), rest)"
proof (cases n)
  case (Name w as qs)
  show ?thesis
  proof (cases as)
    case None
    have "Token (quals qs @ rest) 0 \<noteq> punct (CHR ''<'')" using assms(2) by (cases qs) (auto simp: quals_def clcl_def)
    then show ?thesis using Name None quals_loop [OF assms(3)]
      by (simp add: CompleteClassName_def TokenIdent_def)
  next
    case (Some as')
    then show ?thesis using Name assms(1) quals_loop [OF assms(3)] template_words [of as' "w @ ''<''" "quals qs @ rest"]
      by (simp add: CompleteClassName_def TokenIdent_def TemplateArgList_def)
  qed
qed

lemma name_start: "Token (name_toks n @ ts) 0 = T_ident"
  by (cases n rule: name_toks.cases) (case_tac as; simp)

section \<open>Pointers\<close>





section \<open>Declarators\<close>

definition d_toks :: "cop list \<Rightarrow> toks" where
  "d_toks ops = fst (foldl (d_step ty_toks) ([], False) ops)"


lemma d_toks_Nil [simp]: "d_toks [] = []"
  by (simp add: d_toks_def)








section \<open>Arguments\<close>




lemma basic_start: "\<exists>k'. word_code (basic_text k) = Inr k'"
  by (cases k) (simp_all add: keyword_codes)

lemma ty_start: "Token (ty_toks t @ ts) 0 \<in> insert T_ident (range Inr)"
proof (cases t)
  case (CTy fct c v b ops)
  have "Token (base_toks b @ d_toks ops @ ts) 0 \<in> insert T_ident (range Inr)"
    using basic_start name_start by (cases b) (force simp: base_toks_def wtok_def)+
  then show ?thesis by (auto simp: CTy fct_toks_def cv_toks_def d_toks_def)
qed

lemma type_parser_simps:
  "p_TypeName (type_parser (Suc n) ln) = TypeName (type_parser n ln)"
  "p_type_loop (type_parser (Suc n) ln) = type_loop (type_parser n ln)"
  "p_AbstractDeclarator (type_parser (Suc n) ln) = AbstractDeclarator (type_parser n ln)"
  "p_FunctionOrArrayList (type_parser (Suc n) ln) = FunctionOrArrayList (type_parser n ln)"
  "p_ArgumentDeclarationList (type_parser (Suc n) ln) = ArgumentDeclarationList (type_parser n ln) ln"
  by (simp_all add: Let_def)

declare type_parser.simps(2) [simp del]






section \<open>Functions and arrays\<close>



section \<open>Declarators\<close>







section \<open>Types\<close>






lemma basic_word_code: "word_code (basic_text k) = Inr k' \<Longrightarrow> modifier_word (Inr k') = None \<and> basic_word (Inr k') = Some (basic_set k)"
  by (cases k) (auto simp: keyword_codes modifier_word_def basic_word_def)




section \<open>A bracket that is not closed\<close>

lemma sbind_NoReturn [simp]: "sbind (Inl e) f = Inl e"
  by (simp add: sbind_def)

lemma TypeName_end: "p_TypeName (type_parser n ln) [] \<in> {Inl NoReturn, Inr (None, [])}"
  by (cases n; cases "n - 1")
    (auto simp: type_parser_simps TypeName_def type_loop_def modifier_word_def basic_word_def)

lemma Arguments_hang: "p_ArgumentDeclarationList (type_parser n ln) ds [] = Inl NoReturn"
proof (induction n arbitrary: ds)
  case (Suc n)
  then show ?case using TypeName_end [of n ln]
    by (auto simp: type_parser_simps ArgumentDeclarationList_def skip_argument_def Let_def)
qed simp

lemma FunctionOrArrayList_hang: "p_FunctionOrArrayList (type_parser n ln) l [ptok (CHR ''('')] = Inl NoReturn"
  by (cases n) (simp_all add: type_parser_simps FunctionOrArrayList_def Arguments_hang)

lemma AbstractDeclarator_hang: "p_AbstractDeclarator (type_parser n ln) [ptok (CHR ''('')] = Inl NoReturn"
  by (cases n) (simp_all add: type_parser_simps AbstractDeclarator_def PtrOperator_def FunctionOrArrayList_hang)

lemma declarator_hang: "p_type_loop (type_parser n ln) f False [ptok (CHR ''('')] = Inl NoReturn"
  by (cases n) (simp_all add: type_parser_simps type_loop_def modifier_word_def basic_word_def AbstractDeclarator_hang)

lemma modifier_hang:
  "modifier_word t = Some g \<Longrightarrow> (\<And>n f. p_type_loop (type_parser n ln) f b ts = Inl NoReturn) \<Longrightarrow>
   p_type_loop (type_parser n ln) f b ((t, w) # ts) = Inl NoReturn"
  by (cases n) (simp_all add: type_parser_simps type_loop_def)

lemma basic_hang:
  "modifier_word t = None \<Longrightarrow> basic_word t = Some g \<Longrightarrow>
   (\<And>n f. p_type_loop (type_parser n ln) f False ts = Inl NoReturn) \<Longrightarrow>
   p_type_loop (type_parser n ln) f b ((t, w) # ts) = Inl NoReturn"
  by (cases n) (simp_all add: type_parser_simps type_loop_def)

lemma base_hang:
  assumes "base_ok b"
  shows "p_type_loop (type_parser n ln) f True (base_toks b @ [ptok (CHR ''('')]) = Inl NoReturn"
proof (cases b)
  case (CBasic u k)
  obtain k' where k': "word_code (basic_text k) = Inr k'" using basic_start by blast
  have "p_type_loop (type_parser n ln) f bF (wtok (basic_text k) @ [ptok (CHR ''('')]) = Inl NoReturn" for n f bF
    using basic_word_code [OF k'] declarator_hang by (simp add: wtok_def k' basic_hang)
  then show ?thesis
    by (auto simp: CBasic base_toks_def intro!: basic_hang [where t = "Inr SN_UNSIGNED"])
      (simp_all add: modifier_word_def basic_word_def)
next
  case (CName nm)
  let ?r = "[ptok (CHR ''('')]"
  have "CompleteClassName (name_toks nm @ ?r) = (Some (name_text nm), ?r)"
    using assms CName by (intro CompleteClassName_name) (auto simp: base_ok_def)
  then show ?thesis using CName name_start [of nm ?r] declarator_hang
    by (cases n) (simp_all add: type_parser_simps type_loop_def modifier_word_def basic_word_def base_toks_def)
qed

lemma words_hang:
  assumes "base_ok b"
  shows "p_TypeName (type_parser n ln) (fct_toks fct @ cv_toks c v @ base_toks b @ [ptok (CHR ''('')]) = Inl NoReturn"
proof -
  let ?r = "base_toks b @ [ptok (CHR ''('')]"
  have cv: "p_type_loop (type_parser n ln) f True (cv_toks c v @ ?r) = Inl NoReturn" for n f
    by (auto simp: cv_toks_def base_hang [OF assms] intro!: modifier_hang [where t = "Inr SN_CONST"]
        modifier_hang [where t = "Inr SN_VOLATILE"]) (simp_all add: modifier_word_def)
  have "p_type_loop (type_parser n ln) f True (fct_toks fct @ cv_toks c v @ ?r) = Inl NoReturn" for n f
    by (auto simp: fct_toks_def cv intro!: modifier_hang [where t = "Inr SN_INLINE"]
        modifier_hang [where t = "Inr SN_VIRTUAL"]) (simp_all add: modifier_word_def)
  moreover have "Token (fct_toks fct @ cv_toks c v @ ?r) 0 \<noteq> punct (CHR ''('')"
    using ty_start [of "CTy fct c v b []" "[ptok (CHR ''('')]"] by (auto simp: d_toks_def)
  ultimately show ?thesis by (cases n) (simp_all add: type_parser_simps TypeName_def)
qed

section \<open>Properties\<close>







text \<open>The misread function: what is printed for a function with an array of \<open>Foo\<close> as its argument is read as an
  array of \<open>int\<close>; the name and the brackets of the function are lost.\<close>

theorem type_string_misread:
  "f_TypeToString (Some (type_of 1 (CTy KW_NONE False False (CBasic False BInt)
     [CFun [CTy KW_NONE False False (CName (Name ''Foo'' None [])) [CArr]]]))) False = ''int (Foo [])'' \<and>
   f_TypeFromString 10 1 ''int (Foo [])'' = Inr (Some (type_of 1 (CTy KW_NONE False False (CBasic False BInt) [CArr])))"
proof
  show "f_TypeToString (Some (type_of 1 (CTy KW_NONE False False (CBasic False BInt)
     [CFun [CTy KW_NONE False False (CName (Name ''Foo'' None [])) [CArr]]]))) False = ''int (Foo [])''"
    by code_simp
  have ts: "type_tokens ''int (Foo [])'' = [(Inr SN_INT, ''int''), ptok (CHR ''(''), (T_ident, ''Foo''),
      ptok (CHR ''[''), ptok (CHR '']''), ptok (CHR '')'')]"
    by code_simp
  show "f_TypeFromString 10 1 ''int (Foo [])'' = Inr (Some (type_of 1 (CTy KW_NONE False False (CBasic False BInt) [CArr])))"
    unfolding f_TypeFromString_def ts
    by (simp add: eval_nat_numeral type_parser_simps TypeName_def type_loop_def modifier_word_def basic_word_def
        AbstractDeclarator_def PtrOperator_def CompleteClassName_def TokenIdent_def bracket_declarator_def
        FunctionOrArrayList_def new_type_def base_in_def flags_in_def dr_of_def f_ListAddLast_def
        abstract_declarator_def concat_opers_def f_ListConcat_def)
      (simp add: f_TypeCreate_def no_specs_def specs.defs type_fields.defs)
qed

text \<open>C36: A type string that ends behind an opening bracket is never read to its end: the loop over the
  arguments adds an \<open>int\<close> in each round and never returns, whatever the fuel.\<close>

theorem type_string_hangs:
  assumes "fct \<in> {KW_NONE, SN_INLINE, SN_VIRTUAL}" "base_ok b"
  shows "f_TypeFromString n ln (f_TypeToString (Some (type_of ln (CTy fct c v b []))) False @ ''('') = Inl NoReturn"
proof -
  let ?s = "f_TypeToString (Some (type_of ln (CTy fct c v b []))) False"
  have "prints ?s ([] @ fct_toks fct @ cv_toks c v @ base_toks b)"
    using prints_ty_words [OF assms(2) prints_Nil spells_text]
    by (simp add: f_TypeToString_def f_TypeStrcat_def Let_def flags_words(1) dr_of_def)
  then have "type_tokens (?s @ ''('') = (fct_toks fct @ cv_toks c v @ base_toks b) @ [ptok (CHR ''('')]"
    using tokens_app [of ?s "''(''"] prints_words(9)
    by (auto simp: prints_def word_char_def c_isalnum_def c_isalpha_def c_isdigit_def byte_def)
  then show ?thesis using words_hang [OF assms(2)] by (simp add: f_TypeFromString_def)
qed

theorem type_string_hangs_witness:
  "f_TypeToString (Some (type_of 1 (CTy KW_NONE False False (CBasic False BInt) []))) False = ''int'' \<and>
   (\<forall>n. f_TypeFromString n 1 (f_TypeToString (Some (type_of 1 (CTy KW_NONE False False (CBasic False BInt) []))) False @ ''('')
     = Inl NoReturn)"
proof
  show "f_TypeToString (Some (type_of 1 (CTy KW_NONE False False (CBasic False BInt) []))) False = ''int''"
    by code_simp
qed (intro allI type_string_hangs; simp add: base_ok_def)

end
