(* ===== verification/XRef_Types.thy ===== *)
theory XRef_Types
  imports XRef TypeStr_Props "HOL-Library.Multiset"
begin

text \<open>
  The resolution of typedefs (\<open>f_TypeBasic\<close> in \<open>XRef\<close>): what it finds, when it ends, and which of the
  names it allocates it releases.
\<close>

declare type_parser.simps(2) [simp del] type_basic_loop.simps(2) [simp del]

section \<open>Reading type strings\<close>

text \<open>A class name alone is read with fuel 3.\<close>

definition named_type :: "string \<Rightarrow> Type" where
  "named_type w = plain_type (\<lambda>f. f\<lparr>tname := Some w\<rparr>)"

lemma read_name:
  assumes "ident w"
  shows "f_TypeFromString n ln w = (if 3 \<le> n then Inr (Some (named_type w)) else Inl NoReturn)"
proof -
  have t: "type_tokens w = [(T_ident, w)]" using assms by (simp add: ident_def prints_def)
  consider "n = 0" | "n = 1" | "n = 2" | m where "n = Suc (Suc (Suc m))"
    by (metis One_nat_def Suc_1 not0_implies_Suc)
  then show ?thesis
    by cases (simp_all add: f_TypeFromString_def t numeral_2_eq_2 numeral_3_eq_3 type_parser_simps TypeName_def type_loop_def
        modifier_word_def basic_word_def CompleteClassName_def TokenIdent_def new_type_def named_type_def plain_type_def)
qed

lemma name_named [simp]: "f_NameFromType (named_type w) = Some w"
  by (simp add: named_type_def plain_type_def f_NameFromType_def type_name_def f_TypeCreate_def no_specs_def
      specs.defs type_fields.defs)

lemma name_merge [simp]: "f_NameFromType (merge_declarators t b) = f_NameFromType t"
  by (cases t) (auto simp: merge_declarators_def f_NameFromType_def split: option.split Declarator.split)

section \<open>One round\<close>

text \<open>The six ways a round goes.\<close>

definition is_visited :: "string \<Rightarrow> (nat \<times> string) option list \<Rightarrow> bool" where
  "is_visited w prev \<longleftrightarrow> (\<exists>p \<in> set prev. map_option snd p = Some w)"

definition typedef_ref :: "xenv \<Rightarrow> int \<Rightarrow> string \<Rightarrow> int \<Rightarrow> 'c xstate \<Rightarrow> 'c xstate" where
  "typedef_ref E paf w ln st = Put_cross_ref E paf PAF_REF_SCOPE_GLOBAL (class_or_null E) None w None ln PAF_REF_READ st"

lemma round_nameless:
  "f_NameFromType t = None \<Longrightarrow> type_basic_loop n E ln a prev j rel t st (Suc k) = Inr (t, st, rel @ visited prev)"
  by (simp add: type_basic_loop.simps(2))

lemma round_visited:
  "f_NameFromType t = Some w \<Longrightarrow> is_visited w prev \<Longrightarrow>
   type_basic_loop n E ln a prev j rel t st (Suc k) = Inr (t, st, rel @ a # visited prev)"
  by (simp add: type_basic_loop.simps(2) is_visited_def)

lemma round_unknown:
  "f_NameFromType t = Some w \<Longrightarrow> \<not> is_visited w prev \<Longrightarrow> db_class_or_typedef E w = None \<Longrightarrow>
   type_basic_loop n E ln a prev j rel t st (Suc k) = Inr (t, st, rel @ a # visited prev)"
  by (simp add: type_basic_loop.simps(2) is_visited_def)

lemma round_found:
  fixes j :: nat
  assumes "f_NameFromType t = Some w" "\<not> is_visited w prev" "db_class_or_typedef E w = Some (paf, s)"
  defines "j' \<equiv> if j \<ge> 3 then 0 else j"
  shows "type_basic_loop n E ln a prev j rel t st (Suc k) =
    (case f_TypeFromString n (cur_lineno E) s of
       Inl e \<Rightarrow> Inl e
     | Inr None \<Rightarrow> Inr (t, typedef_ref E paf w ln st, rel @ a # visited prev)
     | Inr (Some v) \<Rightarrow>
         if paf \<noteq> PAF_TYPE_DEF
         then Inr (merge_declarators v t, typedef_ref E paf w ln st, (rel @ visited [prev ! j']) @ a # visited (prev[j' := Some (a, w)]))
         else type_basic_loop n E ln (Suc a) (prev[j' := Some (a, w)]) (Suc j') (rel @ visited [prev ! j'])
                (merge_declarators v t) (typedef_ref E paf w ln st) k)"
  using assms(1-3)
  by (simp add: type_basic_loop.simps(2) is_visited_def typedef_ref_def j'_def Let_def split: sum.split option.split)

section \<open>The names that are released\<close>

lemma visited_update:
  assumes "j < length prev"
  shows "mset (visited [prev ! j]) + mset (visited (prev[j := Some (a, w)])) = mset (visited prev) + {#a#}"
proof -
  have p: "prev = take j prev @ prev ! j # drop (Suc j) prev" using assms by (rule id_take_nth_drop)
  have "prev[j := Some (a, w)] = take j prev @ Some (a, w) # drop (Suc j) prev"
    using assms by (simp add: upd_conv_take_nth_drop)
  moreover have "mset (visited prev) = mset (visited (take j prev)) + mset (visited [prev ! j]) + mset (visited (drop (Suc j) prev))"
    by (subst p) (simp add: visited_def)
  ultimately show ?thesis by (simp add: visited_def)
qed

definition released_once :: "nat list \<Rightarrow> bool" where
  "released_once rel \<longleftrightarrow> (\<exists>m. mset rel = mset [0..<m])"

lemma basic_loop_releases:
  assumes "type_basic_loop n E ln a prev j rel t st k = Inr (t', st', rel')"
    and "length prev = 3" "j \<le> 3" "mset rel + mset (visited prev) = mset [0..<a]"
  shows "released_once rel' \<or>
    (\<exists>m w p s. mset rel' = mset [0..<Suc m] + {#m#} \<and> db_class_or_typedef E w = Some (p, s) \<and> p \<noteq> PAF_TYPE_DEF)"
  using assms
proof (induction k arbitrary: a prev j rel t st)
  case (Suc k)
  have now: "mset (rel @ a # visited prev) = mset [0..<Suc a]" using Suc.prems(4) by simp
  then have once: "released_once (rel @ a # visited prev)" unfolding released_once_def by blast
  define j' where "j' = (if j \<ge> 3 then 0 else j)"
  have j': "j' < length prev" using Suc.prems(2) by (simp add: j'_def)
  consider (nameless) "f_NameFromType t = None"
    | (ends) w where "f_NameFromType t = Some w" "is_visited w prev \<or> db_class_or_typedef E w = None"
    | (found) w paf s where "f_NameFromType t = Some w" "\<not> is_visited w prev" "db_class_or_typedef E w = Some (paf, s)"
    by (metis option.exhaust prod.exhaust)
  then show ?case
  proof cases
    case nameless
    then show ?thesis using Suc.prems unfolding released_once_def
      by (intro disjI1 exI [of _ a]) (auto simp: round_nameless)
  next
    case ends
    then have "type_basic_loop n E ln a prev j rel t st (Suc k) = Inr (t, st, rel @ a # visited prev)"
      by (cases "is_visited w prev") (simp_all add: round_visited round_unknown)
    then show ?thesis using Suc.prems(1) once by simp
  next
    case found
    have inv: "mset (rel @ visited [prev ! j']) + mset (visited (prev[j' := Some (a, w)])) = mset [0..<Suc a]"
      using visited_update [OF j', of a w] Suc.prems(4) by (simp add: ac_simps)
    note step = Suc.prems(1) [unfolded round_found [OF found] j'_def [symmetric]]
    obtain u where u: "f_TypeFromString n (cur_lineno E) s = Inr u" using step by (auto split: sum.splits)
    show ?thesis
    proof (cases u)
      case None
      then show ?thesis using step u once by simp
    next
      case tempo: (Some v)
      show ?thesis
      proof (cases "paf = PAF_TYPE_DEF")
        case True
        then have "type_basic_loop n E ln (Suc a) (prev[j' := Some (a, w)]) (Suc j') (rel @ visited [prev ! j'])
            (merge_declarators v t) (typedef_ref E paf w ln st) k = Inr (t', st', rel')"
          using step u tempo by simp
        then show ?thesis by (rule Suc.IH) (use inv j' Suc.prems(2) in simp_all)
      next
        case False
        then have "mset rel' = mset [0..<Suc a] + {#a#}" using step u tempo inv by (auto simp: ac_simps)
        then show ?thesis using found(3) False by blast
      qed
    qed
  qed
qed simp

section \<open>Chains of typedefs\<close>

text \<open>What a type means: operators around a base, the one at the name outermost.\<close>

datatype meaning = Base Type | Derived Oper meaning

definition derive :: "Oper list \<Rightarrow> meaning \<Rightarrow> meaning" where
  "derive ps m = foldr Derived ps m"

definition base_of :: "Type \<Rightarrow> Type" where
  "base_of t = (case t of Type f c e d \<Rightarrow> Type f c e None)"




lemma name_base [simp]: "f_NameFromType (base_of t) = f_NameFromType t"
  by (cases t) (simp add: base_of_def f_NameFromType_def type_name_def)

lemma derive_simps [simp]: "derive [] m = m" "derive (ps @ qs) m = derive ps (derive qs m)"
  by (simp_all add: derive_def)





text \<open>The type behind a typedef, with the operators of the type that named it around its own.\<close>

lemma elems_simps [simp]: "elems None = []" "elems (Some l) = l"
  by (simp_all add: elems_def)

lemma elems_add [simp]: "elems (f_ListAddLast l x) = elems l @ [x]" "elems (f_ListConcat l m) = elems l @ elems m"
  by (cases l; cases m; simp add: f_ListAddLast_def f_ListConcat_def)+


lemma base_merge [simp]: "base_of (merge_declarators v u) = base_of v"
  by (cases v; cases "t_declarator v"; cases "the (t_declarator v)"; cases "t_declarator u")
    (auto simp: base_of_def merge_declarators_def)






section \<open>Cycles of typedefs\<close>

lemma basic_loop_cycle:
  assumes ws: "distinct ws" "4 \<le> length ws"
    and cyc: "\<And>i. i < length ws \<Longrightarrow> ident (ws ! i) \<and>
      db_class_or_typedef E (ws ! i) = Some (PAF_TYPE_DEF, ws ! (Suc i mod length ws))"
    and name: "f_NameFromType t = Some (ws ! (a mod length ws))"
    and len: "length prev = 3" and j: "j = (if a = 0 then 0 else Suc ((a - 1) mod 3))"
    and prev: "\<And>i b w. i < 3 \<Longrightarrow> prev ! i = Some (b, w) \<Longrightarrow> w = ws ! (b mod length ws) \<and> b mod 3 = i \<and> b < a \<and> a \<le> b + 3"
  shows "type_basic_loop n E ln a prev j rel t st k = Inl NoReturn"
  using name len j prev
proof (induction k arbitrary: a prev j rel t st)
  case (Suc k)
  let ?l = "length ws"
  have l: "0 < ?l" "4 \<le> ?l" using ws(2) by linarith+
  have new: "\<not> is_visited (ws ! (a mod ?l)) prev"
  proof
    assume "is_visited (ws ! (a mod ?l)) prev"
    then obtain i b where i: "i < 3" "prev ! i = Some (b, ws ! (a mod ?l))"
      using Suc.prems(2) by (auto simp: is_visited_def in_set_conv_nth)
    from Suc.prems(4) [OF i] have b: "ws ! (a mod ?l) = ws ! (b mod ?l)" "b < a" "a \<le> b + 3" by simp_all
    then have "a mod ?l = b mod ?l" using ws(1) l(1) by (simp add: nth_eq_iff_index_eq)
    then have "?l dvd a - b" using b(2) by (simp add: mod_eq_dvd_iff_nat)
    moreover have "0 < a - b" "a - b < ?l" using b l(2) by simp_all
    ultimately show False using nat_dvd_not_less by blast
  qed
  have j': "(if j \<ge> 3 then 0 else j) = a mod 3"
    using Suc.prems(3) by (cases a) (auto simp: mod_Suc)
  have m: "a mod ?l < ?l" "Suc (a mod ?l) mod ?l < ?l" using l(1) by simp_all
  note found = round_found [where j = j, OF Suc.prems(1) new conjunct2 [OF cyc [OF m(1)]], unfolded j']
  have read: "f_TypeFromString n (cur_lineno E) (ws ! (Suc (a mod ?l) mod ?l)) =
      (if 3 \<le> n then Inr (Some (named_type (ws ! (Suc (a mod ?l) mod ?l)))) else Inl NoReturn)"
    using cyc [OF m(2)] by (simp add: read_name)
  show ?case
  proof (cases "3 \<le> n")
    case True
    have "type_basic_loop n E ln (Suc a) (prev[a mod 3 := Some (a, ws ! (a mod ?l))]) (Suc (a mod 3))
        (rel @ visited [prev ! (a mod 3)]) (merge_declarators (named_type (ws ! (Suc (a mod ?l) mod ?l))) t)
        (typedef_ref E PAF_TYPE_DEF (ws ! (a mod ?l)) ln st) k = Inl NoReturn"
    proof (rule Suc.IH)
      show "f_NameFromType (merge_declarators (named_type (ws ! (Suc (a mod ?l) mod ?l))) t) = Some (ws ! (Suc a mod ?l))"
        by (simp add: mod_Suc_eq)
      show "w = ws ! (b mod ?l) \<and> b mod 3 = i \<and> b < Suc a \<and> Suc a \<le> b + 3"
        if "i < 3" "prev[a mod 3 := Some (a, ws ! (a mod ?l))] ! i = Some (b, w)" for i b w
      proof (cases "i = a mod 3")
        case True
        then show ?thesis using that Suc.prems(2) by auto
      next
        case False
        then have "prev ! i = Some (b, w)" using that Suc.prems(2) by simp
        from Suc.prems(4) [OF that(1) this] False have "w = ws ! (b mod ?l)" "b mod 3 = i" "b < a" "a \<le> b + 3" "a \<noteq> b + 3"
          by auto
        then show ?thesis by simp
      qed
    qed (use Suc.prems(2) in simp_all)
    then show ?thesis unfolding found read by (simp add: True)
  next
    case False
    then show ?thesis unfolding found read by simp
  qed
qed simp

section \<open>Properties\<close>

text \<open>A database of typedefs, a state without scopes, and a few names for the examples.\<close>

definition typedef_env :: "(string \<rightharpoonup> int \<times> string) \<Rightarrow> xenv" where
  "typedef_env db =
     \<lparr>db_symbol = \<lambda>_ _ _ _ _. None, db_class_or_typedef = db, scope_g = [], sym_name_g = ''f'', arg_types_g = [],
      filename_g = ''f.c'', cur_lineno = 1\<rparr>"

definition empty_xstate :: "unit xstate" where
  "empty_xstate =
     \<lparr>niveauComp = 1, SymtabVariable = SymtabCreate True, SymtabClass = SymtabCreate True, refs = [], marks = []\<rparr>"

lemma ident_samples: "ident ''A''" "ident ''B''" "ident ''C''" "ident ''D''"
  by code_simp+

lemma typedef_env_simps [simp]: "db_class_or_typedef (typedef_env db) = db" "cur_lineno (typedef_env db) = 1"
  by (simp_all add: typedef_env_def)







text \<open>C38: A cycle of four or more typedefs is never resolved: only the last three names are compared, so
  the code goes round for ever, and reports a reference in each round.\<close>

theorem typedef_cycle_hangs:
  assumes "distinct ws" "4 \<le> length ws"
    and "\<forall>i < length ws. ident (ws ! i) \<and> db_class_or_typedef E (ws ! i) = Some (PAF_TYPE_DEF, ws ! (Suc i mod length ws))"
    and "f_NameFromType t = Some (ws ! 0)"
  shows "f_TypeBasic n E (Some t) ln st = Inl NoReturn"
proof -
  have "type_basic_loop n E ln 0 [None, None, None] 0 [] t st n = Inl NoReturn"
    by (rule basic_loop_cycle [OF assms(1,2)]) (use assms in \<open>auto simp: nth_Cons split: nat.splits\<close>)
  then show ?thesis by (simp add: f_TypeBasic_def type_basic_def)
qed

theorem typedef_cycle_hangs_witness:
  "f_TypeBasic 50 (typedef_env [''A'' \<mapsto> (PAF_TYPE_DEF, ''B''), ''B'' \<mapsto> (PAF_TYPE_DEF, ''C''),
       ''C'' \<mapsto> (PAF_TYPE_DEF, ''D''), ''D'' \<mapsto> (PAF_TYPE_DEF, ''A'')])
     (Some (named_type ''A'')) 7 empty_xstate = Inl NoReturn"
proof (rule typedef_cycle_hangs [of "[''A'', ''B'', ''C'', ''D'']"])
  let ?ws = "[''A'', ''B'', ''C'', ''D'']"
  have "i \<in> {0, 1, 2, 3}" if "i < length ?ws" for i using that by auto
  then show "\<forall>i < length ?ws. ident (?ws ! i) \<and>
      db_class_or_typedef (typedef_env [''A'' \<mapsto> (PAF_TYPE_DEF, ''B''), ''B'' \<mapsto> (PAF_TYPE_DEF, ''C''),
       ''C'' \<mapsto> (PAF_TYPE_DEF, ''D''), ''D'' \<mapsto> (PAF_TYPE_DEF, ''A'')]) (?ws ! i) =
      Some (PAF_TYPE_DEF, ?ws ! (Suc i mod length ?ws))"
    using ident_samples by fastforce
qed simp_all

text \<open>Every name \<open>f_TypeBasic\<close> allocates is released, and released once, unless the database answers
  with something else than a typedef: then the last name can be released twice.\<close>

theorem typedef_names_released:
  assumes "type_basic n E (Some t) ln st = Inr (t', st', rel)"
    and "\<forall>w p s. db_class_or_typedef E w = Some (p, s) \<longrightarrow> p = PAF_TYPE_DEF"
  shows "\<exists>m. mset rel = mset [0..<m]"
  using basic_loop_releases [of n E ln 0 "[None, None, None]" 0 "[]" t st n t' st' rel] assms
  by (auto simp: type_basic_def visited_def released_once_def)

theorem typedef_names_released_witness:
  "\<exists>t' st' rel. type_basic 3 (typedef_env [''A'' \<mapsto> (PAF_TYPE_DEF, ''B'')]) (Some (named_type ''A'')) 7 empty_xstate
      = Inr (t', st', rel) \<and> (\<exists>m. mset rel = mset [0..<m])"
proof -
  let ?E = "typedef_env [''A'' \<mapsto> (PAF_TYPE_DEF, ''B'')]"
  obtain t' st' rel where r: "type_basic 3 ?E (Some (named_type ''A'')) 7 empty_xstate = Inr (t', st', rel)"
    by (simp add: type_basic_def numeral_3_eq_3 round_found [where w = "''A''"] round_unknown [where w = "''B''"]
        is_visited_def read_name ident_samples)
  from typedef_names_released [OF r] show ?thesis using r by (auto split: if_splits)
qed

text \<open>The name of a class is released twice: for a type whose name the database knows as a class, the
  name that was put on the list of names met is released on its own and again with the list.\<close>

theorem class_name_released_twice:
  assumes "f_NameFromType t = Some w" "db_class_or_typedef E w = Some (p, s)" "p \<noteq> PAF_TYPE_DEF"
    and "f_TypeFromString n (cur_lineno E) s = Inr (Some v)" "0 < n"
  shows "\<exists>st'. type_basic n E (Some t) ln st = Inr (merge_declarators v t, st', [0, 0])"
proof -
  obtain k where n: "n = Suc k" using assms(5) by (cases n) auto
  then show ?thesis using assms round_found [OF assms(1) _ assms(2), of "[None, None, None]" n ln 0 0 "[]" st k]
    by (simp add: type_basic_def is_visited_def visited_def)
qed

theorem class_name_released_twice_witness:
  "\<exists>t' st'. type_basic 3 (typedef_env [''A'' \<mapsto> (PAF_CLASS_DEF, ''A'')]) (Some (named_type ''A'')) 7 empty_xstate
      = Inr (t', st', [0, 0])"
  using class_name_released_twice [of "named_type ''A''" "''A''" "typedef_env [''A'' \<mapsto> (PAF_CLASS_DEF, ''A'')]"
      PAF_CLASS_DEF "''A''" 3 "named_type ''A''" 7 empty_xstate]
  by (fastforce simp: read_name ident_samples)

end
