(* ===== verification/Symtab_Props.thy ===== *)
theory Symtab_Props
  imports Symtab
begin

text \<open>
  The scoped symbol tables of \<open>Symtab\<close>: a table stands for a list of names with their chains of data,
  in the order of the names; what insertion, search and the end of a scope do to that list.
\<close>

section \<open>What a table stands for\<close>

type_synonym 'v chains = "(string \<times> ('v \<times> int) list) list"

definition entry_rep :: "'v symtab \<Rightarrow> nat search_entry \<Rightarrow> string \<times> ('v \<times> int) list \<Rightarrow> bool" where
  "entry_rep S e x \<longleftrightarrow> flag e = 0 \<and> ekey e = fst x \<and> snd x \<noteq> [] \<and>
     (\<exists>a. edata e = Obj a \<and> a < length (symbols S) \<and> symbols S ! a = Some \<lparr>sname = fst x, Datasp = snd x\<rparr>)"

definition symtab_rep :: "'v symtab \<Rightarrow> 'v chains \<Rightarrow> bool" where
  "symtab_rep S xs \<longleftrightarrow> btree_inv (ptable S) \<and> hook (ptable S) \<and>
     distinct (map edata (entries (ptable S))) \<and> list_all2 (entry_rep S) (entries (ptable S)) xs"

definition chain :: "'v chains \<Rightarrow> string \<Rightarrow> ('v \<times> int) list" where
  "chain xs k = (case map_of xs k of None \<Rightarrow> [] | Some ds \<Rightarrow> ds)"

lemma rep_filled: "symtab_rep S xs \<Longrightarrow> filled (ptable S) = length xs"
  by (auto simp: symtab_rep_def length_entries dest: list_all2_lengthD)

lemma rep_nth: "symtab_rep S xs \<Longrightarrow> i < length xs \<Longrightarrow> entry_rep S (entries (ptable S) ! i) (xs ! i)"
  by (simp add: symtab_rep_def list_all2_nthD2)

lemma rep_keys: "symtab_rep S xs \<Longrightarrow> map ekey (entries (ptable S)) = map fst xs"
  by (auto simp: symtab_rep_def entry_rep_def list_all2_conv_all_nth intro: nth_equalityI)

lemma rep_sorted:
  assumes "symtab_rep S xs"
  shows "sorted_wrt (\<lambda>x y. kord (fst x) < kord (fst y)) xs"
proof -
  have "sorted_wrt (<) (map kord (map ekey (entries (ptable S))))"
    using assms by (simp add: symtab_rep_def btree_inv_def)
  then have "sorted_wrt (<) (map kord (map fst xs))" using rep_keys [OF assms] by simp
  then show ?thesis by (simp add: sorted_wrt_map)
qed

lemma rep_distinct: "symtab_rep S xs \<Longrightarrow> distinct (map fst xs)"
  using rep_sorted [of S xs]
  by (auto simp: sorted_wrt_iff_nth_less distinct_conv_nth neq_iff) (metis less_irrefl)+

lemma rep_NUL:
  assumes "symtab_rep S xs" "x \<in> set xs"
  shows "NUL \<notin> set (fst x)"
proof -
  have "fst x \<in> set (map ekey (entries (ptable S)))" using assms(2) by (simp add: rep_keys [OF assms(1)])
  moreover have "\<forall>e \<in> set (entries (ptable S)). NUL \<notin> set (ekey e)"
    using assms(1) NUL_ekey by (auto simp: symtab_rep_def btree_inv_def)
  ultimately show ?thesis by auto
qed

lemma rep_cell:
  assumes "symtab_rep S xs" "i < length xs"
  obtains d a where "get_cell (ptable S) i = Inr d" "entry d = entries (ptable S) ! i"
    "edata (entries (ptable S) ! i) = Obj a" "symbol_of (entry d) S = Inr (a, \<lparr>sname = fst (xs ! i), Datasp = snd (xs ! i)\<rparr>)"
    "a < length (symbols S)"
proof -
  have "btree_inv (ptable S)" using assms by (simp add: symtab_rep_def)
  then obtain d where d: "get_cell (ptable S) i = Inr d" "entry d = entries (ptable S) ! i"
    using assms by (auto simp: rep_filled elim: get_cell_entries)
  from rep_nth [OF assms] obtain a where "edata (entries (ptable S) ! i) = Obj a" "a < length (symbols S)"
    "symbols S ! a = Some \<lparr>sname = fst (xs ! i), Datasp = snd (xs ! i)\<rparr>" by (auto simp: entry_rep_def)
  with d that show thesis by (simp add: symbol_of_def get_symbol_def)
qed

text \<open>Changing the symbol of one entry.\<close>

lemma rep_set:
  assumes "symtab_rep S xs" "i < length xs" "edata (entries (ptable S) ! i) = Obj a" "ds \<noteq> []"
  shows "symtab_rep (set_symbol a \<lparr>sname = fst (xs ! i), Datasp = ds\<rparr> S) (xs[i := (fst (xs ! i), ds)])"
proof -
  let ?S = "set_symbol a \<lparr>sname = fst (xs ! i), Datasp = ds\<rparr> S" and ?es = "entries (ptable S)"
  have l: "length ?es = length xs" using assms(1) by (auto simp: symtab_rep_def dest: list_all2_lengthD)
  have "entry_rep ?S (?es ! j) (xs[i := (fst (xs ! i), ds)] ! j)" if "j < length xs" for j
  proof (cases "j = i")
    case True
    then show ?thesis using rep_nth [OF assms(1,2)] assms(2-4) by (simp add: entry_rep_def set_symbol_def)
  next
    case False
    then have "edata (?es ! j) \<noteq> Obj a"
      using assms l that unfolding symtab_rep_def by (metis distinct_conv_nth length_map nth_map)
    with rep_nth [OF assms(1) that] False show ?thesis by (auto simp: entry_rep_def set_symbol_def)
  qed
  then have "list_all2 (entry_rep ?S) ?es (xs[i := (fst (xs ! i), ds)])" using l by (simp add: list_all2_conv_all_nth)
  then show ?thesis using assms(1) by (simp add: symtab_rep_def set_symbol_def)
qed

lemma rep_trace_cursor [simp]:
  "symtab_rep (S\<lparr>ptable := (ptable S)\<lparr>cursor := c\<rparr>\<rparr>) xs = symtab_rep S xs"
  "symtab_rep (S\<lparr>ptable := (ptable S)\<lparr>trace := es\<rparr>\<rparr>) xs = symtab_rep S xs"
  "symtab_rep (S\<lparr>freed := vs\<rparr>) xs = symtab_rep S xs"
  by (simp_all add: symtab_rep_def btree_inv_def entries_def entry_rep_def [abs_def])

lemma btree_delete_keeps:
  "btree_delete t i True = Inr (t', r) \<Longrightarrow> cursor t' = cursor t \<and> hook t' = hook t"
  by (auto simp: btree_delete_def Let_def)

lemma btree_item_symbol: "btree_item (symbol_entry k d) = symbol_entry k d"
  by (simp add: btree_item_def symbol_entry_def)

lemma ekey_symbol [simp]: "ekey (symbol_entry k d) = k" "edata (symbol_entry k d) = d" "flag (symbol_entry k d) = 0"
  by (simp_all add: ekey_def symbol_entry_def)

lemma wf_symbol: "NUL \<notin> set k \<Longrightarrow> wf_entry (symbol_entry k d)"
  by (simp add: wf_entry_def symbol_entry_def)

lemma dropped_symbol: "flag e = 0 \<Longrightarrow> dropped True e = [Hook e]"
  by (simp add: dropped_def has_flag_def)

text \<open>Taking the last datum of a symbol, and with it the symbol.\<close>

lemma rep_delete:
  assumes "symtab_rep S xs" "i < length xs" "edata (entries (ptable S) ! i) = Obj a"
    and "length xs + 1 < hsize (ptable S)" "k = fst (xs ! i)"
  obtains S' where "with_hooks (\<lambda>t. BtreeTableDelete t (symbol_entry k NullData))
      (set_symbol a \<lparr>sname = k, Datasp = []\<rparr> S) = Inr (S', Some i)"
    "symtab_rep S' (take i xs @ drop (Suc i) xs)" "freed S' = freed S" "pfFree S' = pfFree S"
    "cursor (ptable S') = cursor (ptable S)" "hsize (ptable S') = hsize (ptable S)"
proof -
  let ?t = "(ptable S)\<lparr>trace := []\<rparr>" and ?S = "set_symbol a \<lparr>sname = k, Datasp = []\<rparr> S"
  let ?es = "entries (ptable S)"
  have t: "btree_inv ?t" "entries ?t = ?es" "filled ?t = length xs" "btree_room ?t" "hook ?t"
    using assms(1,4) rep_filled [OF assms(1)]
    by (simp_all add: symtab_rep_def btree_inv_def entries_def btree_room_def)
  have r: "entry_rep S (?es ! i) (xs ! i)" by (rule rep_nth [OF assms(1,2)])
  then have k: "ekey (?es ! i) = k" "flag (?es ! i) = 0" "a < length (symbols S)"
    using assms(3,5) by (auto simp: entry_rep_def)
  have "NUL \<notin> set k" using rep_NUL [OF assms(1), of "xs ! i"] assms(2,5) by simp
  then have d: "BtreeTableDelete ?t (symbol_entry k NullData) = btree_delete ?t i True"
    using assms(2) k t by (intro btree_delete_found) (simp_all add: btree_item_symbol wf_symbol)
  obtain t' where t': "btree_delete ?t i True = Inr (t', Some i)" "btree_inv t'" "entries t' = deleted i ?es"
    "trace t' = trace (remove_entry ?t (?es ! i))" "hsize t' = hsize (ptable S)"
    using btree_delete_room [OF t(1) _ t(4), of i] assms(2) t by auto
  have h: "trace t' = [Hook (?es ! i)]" "cursor t' = cursor (ptable S)" "hook t'"
    using t' t(5) k btree_delete_keeps [OF t'(1)] by (simp_all add: remove_entry_dropped dropped_symbol)
  define S' where "S' = ?S\<lparr>ptable := t', symbols := (symbols S)[a := None]\<rparr>"
  have w: "with_hooks (\<lambda>t. BtreeTableDelete t (symbol_entry k NullData)) ?S = Inr (S', Some i)"
    using k assms(3) d t'(1) h(1)
    by (simp add: with_hooks_def set_symbol_def f_EntryDestroy_def symbol_of_def get_symbol_def SymbolDestroy_def S'_def)
  have l: "length ?es = length xs" using t by (simp add: length_entries [OF t(1), symmetric])
  have "entry_rep S' (?es ! j) (xs ! j)" if "j < length xs" "j \<noteq> i" for j
  proof -
    have "edata (?es ! j) \<noteq> Obj a"
      using assms(1-3) l that unfolding symtab_rep_def by (metis distinct_conv_nth length_map nth_map)
    with rep_nth [OF assms(1) that(1)] show ?thesis by (auto simp: entry_rep_def S'_def set_symbol_def)
  qed
  then have "list_all2 (entry_rep S') (take i ?es) (take i xs)" "list_all2 (entry_rep S') (drop (Suc i) ?es) (drop (Suc i) xs)"
    using l assms(2) by (auto simp: list_all2_conv_all_nth)
  then have "list_all2 (entry_rep S') (entries t') (take i xs @ drop (Suc i) xs)"
    by (simp add: t'(3) deleted_def list_all2_appendI)
  moreover have "distinct (map edata (entries t'))"
    using assms(1) set_take_disj_set_drop_if_distinct [of "map edata ?es" i "Suc i"]
    unfolding t'(3) map_deleted symtab_rep_def by (simp add: deleted_def)
  ultimately have "symtab_rep S' (take i xs @ drop (Suc i) xs)"
    using t' h by (simp add: symtab_rep_def S'_def)
  from that [OF w this] t' h show thesis by (simp add: S'_def set_symbol_def)
qed

section \<open>Insertion and search\<close>

lemma rep_find:
  assumes "symtab_rep S xs" "NUL \<notin> set k"
  shows "fst ` set xs \<inter> {k} = {} \<Longrightarrow> find_entry k S = Inr (None, S)"
    and "i < length xs \<Longrightarrow> fst (xs ! i) = k \<Longrightarrow>
      find_entry k S = Inr (Some (entries (ptable S) ! i), S\<lparr>ptable := (ptable S)\<lparr>cursor := i\<rparr>\<rparr>)"
proof -
  let ?e = "symbol_entry k NullData" and ?t = "ptable S"
  have t: "btree_inv ?t" and w: "wf_entry (btree_item ?e)" and k: "ekey (btree_item ?e) = k"
    using assms by (simp_all add: symtab_rep_def btree_item_symbol wf_symbol)
  have keys: "ekey ` set (entries ?t) = fst ` set xs" using rep_keys [OF assms(1)] by (metis set_map)
  show "find_entry k S = Inr (None, S)" if "fst ` set xs \<inter> {k} = {}"
    using BtreeTableSearch_absent [OF t w] that k keys by (simp add: find_entry_def table_search_def)
  show "find_entry k S = Inr (Some (entries ?t ! i), S\<lparr>ptable := ?t\<lparr>cursor := i\<rparr>\<rparr>)"
    if i: "i < length xs" "fst (xs ! i) = k"
  proof -
    have "ekey (entries ?t ! i) = k" "i < filled ?t"
      using rep_nth [OF assms(1) i(1)] i rep_filled [OF assms(1)] by (simp_all add: entry_rep_def)
    then have "BtreeTableSearch ?t ?e = Inr (?t\<lparr>cursor := i\<rparr>, Some i)"
      using BtreeTableSearch_present [OF t w] k by simp
    moreover obtain d where "get_cell ?t i = Inr d" "entry d = entries ?t ! i"
      using rep_cell [OF assms(1) i(1)] by blast
    ultimately show ?thesis by (simp add: find_entry_def table_search_def get_cell_cursor)
  qed
qed

lemma chain_nth:
  assumes "distinct (map fst xs)" "i < length xs"
  shows "chain xs (fst (xs ! i)) = snd (xs ! i)"
proof -
  have "(fst (xs ! i), snd (xs ! i)) \<in> set xs" using assms(2) by simp
  then have "map_of xs (fst (xs ! i)) = Some (snd (xs ! i))" using assms(1) by (rule map_of_is_SomeI [rotated])
  then show ?thesis by (simp only: chain_def option.case)
qed

lemma chain_absent: "k \<notin> fst ` set xs \<Longrightarrow> chain xs k = []"
  by (auto simp: chain_def map_of_eq_None_iff [symmetric] split: option.split)

lemma rep_chain:
  assumes "symtab_rep S xs" "i < length xs"
  shows "chain xs (fst (xs ! i)) = snd (xs ! i)" "snd (xs ! i) \<noteq> []"
  using chain_nth [OF rep_distinct [OF assms(1)] assms(2)] rep_nth [OF assms] by (simp_all add: entry_rep_def)

lemma symbol_of_table [simp]: "symbol_of e (S\<lparr>ptable := t\<rparr>) = symbol_of e S"
  by (cases "edata e") (simp_all add: symbol_of_def get_symbol_def)

lemma find_chain:
  assumes "symtab_rep S xs" "NUL \<notin> set k"
  shows "\<exists>S'. SymtabFind S k = Inr (case chain xs k of [] \<Rightarrow> None | d # ds \<Rightarrow> Some (fst d), S') \<and>
    symtab_rep S' xs \<and> freed S' = freed S"
proof (cases "k \<in> fst ` set xs")
  case False
  with rep_find(1) [OF assms] assms(1) show ?thesis by (auto simp: SymtabFind_def chain_absent)
next
  case True
  then obtain i where i: "i < length xs" "fst (xs ! i) = k" by (auto simp: in_set_conv_nth)
  from rep_cell [OF assms(1) i(1)] obtain a d where
    a: "symbol_of (entries (ptable S) ! i) S = Inr (a, \<lparr>sname = k, Datasp = snd (xs ! i)\<rparr>)"
    using i(2) by metis
  have c: "chain xs k = snd (xs ! i)" "snd (xs ! i) \<noteq> []"
    using rep_chain [OF assms(1) i(1)] i(2) by simp_all
  then obtain v ds where v: "snd (xs ! i) = v # ds" by (cases "snd (xs ! i)") auto
  let ?S = "S\<lparr>ptable := (ptable S)\<lparr>cursor := i\<rparr>\<rparr>"
  have "symbol_of (entries (ptable S) ! i) ?S = Inr (a, \<lparr>sname = k, Datasp = v # ds\<rparr>)"
    using a v by simp
  then show ?thesis using rep_find(2) [OF assms i] c v assms(1) by (auto simp: SymtabFind_def)
qed

lemma entry_rep_more:
  "entry_rep S e x \<Longrightarrow> entry_rep (S\<lparr>symbols := symbols S @ ys\<rparr>) e x"
  by (auto simp: entry_rep_def nth_append)

lemma btree_insert_keeps: "BtreeTableAdd t e = Inr (t', Some p) \<Longrightarrow> hook t' = hook t \<and> hsize t \<le> hsize t'"
  by (auto simp: BtreeTableAdd_def BtreeTableSearchFunc_def btree_add_def put_cell_def btree_grow_def Let_def
      split: if_splits)

lemma insert_new:
  assumes "symtab_rep S xs" "NUL \<notin> set k" "k \<notin> fst ` set xs"
  shows "\<exists>S' p. SymtabInsert S k v n = Inr S' \<and> p \<le> length xs \<and>
    symtab_rep S' (inserted p (k, [(v, n)]) xs) \<and> freed S' = freed S \<and> pfFree S' = pfFree S \<and>
    hsize (ptable S) \<le> hsize (ptable S')"
proof -
  let ?x = "(k, [(v, n)])" and ?a = "length (symbols S)"
  let ?S = "S\<lparr>symbols := symbols S @ [Some \<lparr>sname = k, Datasp = [(v, n)]\<rparr>]\<rparr>"
  let ?e = "symbol_entry k (Obj ?a)"
  have r: "symtab_rep ?S xs"
    using assms(1) by (auto simp: symtab_rep_def elim!: list_all2_mono intro: entry_rep_more)
  have "fst ` set xs \<inter> {k} = {}" using assms(3) by simp
  from rep_find(1) [OF r assms(2) this] have f: "find_entry k ?S = Inr (None, ?S)" .
  have t: "btree_inv (ptable S)" and w: "wf_entry (btree_item ?e)"
    using assms by (simp_all add: symtab_rep_def btree_item_symbol wf_symbol)
  have new: "ekey (btree_item ?e) \<notin> ekey ` set (entries (ptable S))"
    using assms(3) rep_keys [OF assms(1)] by (metis btree_item_symbol ekey_symbol(1) set_map)
  have "dup_data (dup_key (btree_item ?e)) = Inr ?e" "\<not> bad_flag (flag ?e)"
    by (simp_all add: dup_data_def dup_key_def btree_item_symbol has_flag_def bad_flag_def)
  from BtreeTableAdd_absent [OF t w this(2,1) new] obtain t' p where
    t': "BtreeTableAdd (ptable S) ?e = Inr (t', Some p)" "p \<le> filled (ptable S)" "btree_inv t'"
      "entries t' = inserted p ?e (entries (ptable S))" "hook t' = hook (ptable S)" by metis
  define S' where "S' = ?S\<lparr>ptable := t'\<rparr>"
  have ins: "SymtabInsert S k v n = Inr S'"
    using f t'(1) by (simp add: SymtabInsert_def SymbolCreate_def SymbolInsert_def get_symbol_def table_add_def S'_def)
  have l: "length (entries (ptable S)) = length xs" "filled (ptable S) = length xs"
    using rep_filled [OF assms(1)] length_entries [OF t] by simp_all
  have "list_all2 (entry_rep S') (entries (ptable S)) xs"
    using r by (auto simp: symtab_rep_def S'_def entry_rep_def elim!: list_all2_mono)
  moreover have "entry_rep S' ?e ?x" by (simp add: entry_rep_def S'_def)
  ultimately have "list_all2 (entry_rep S') (entries t') (inserted p ?x xs)"
    using l t'(2) unfolding t'(4) inserted_def by (auto intro!: list_all2_appendI list_all2_takeI list_all2_dropI)
  moreover have "Obj ?a \<notin> edata ` set (entries (ptable S))"
  proof
    assume "Obj ?a \<in> edata ` set (entries (ptable S))"
    then obtain i where "i < length xs" "edata (entries (ptable S) ! i) = Obj ?a"
      using l by (auto simp: in_set_conv_nth)
    with rep_nth [OF assms(1) this(1)] show False by (simp add: entry_rep_def)
  qed
  then have "distinct (map edata (entries t'))"
    using assms(1) set_take_disj_set_drop_if_distinct [of "map edata (entries (ptable S))" p p]
    unfolding t'(4) map_inserted symtab_rep_def
    by (auto simp: inserted_def dest: in_set_takeD in_set_dropD)
  ultimately have "symtab_rep S' (inserted p ?x xs)" using t' assms(1) by (simp add: symtab_rep_def S'_def)
  moreover have "hsize (ptable S) \<le> hsize t'" using btree_insert_keeps [OF t'(1)] by simp
  ultimately show ?thesis using ins t'(2) l by (auto simp: S'_def)
qed

lemma insert_old:
  assumes "symtab_rep S xs" "NUL \<notin> set k" "i < length xs" "fst (xs ! i) = k"
  shows "\<exists>S'. SymtabInsert S k v n = Inr S' \<and>
    symtab_rep S' (xs[i := (k, (v, n) # snd (xs ! i))]) \<and> freed S' = freed S \<and> pfFree S' = pfFree S \<and>
    hsize (ptable S) \<le> hsize (ptable S')"
proof -
  let ?a = "length (symbols S)" and ?ds = "(v, n) # snd (xs ! i)"
  let ?S = "S\<lparr>symbols := symbols S @ [Some \<lparr>sname = k, Datasp = [(v, n)]\<rparr>]\<rparr>"
  let ?S1 = "?S\<lparr>ptable := (ptable ?S)\<lparr>cursor := i\<rparr>\<rparr>"
  let ?S2 = "?S1\<lparr>symbols := symbols S @ [None]\<rparr>"
  have r: "symtab_rep ?S xs"
    using assms(1) by (auto simp: symtab_rep_def elim!: list_all2_mono intro: entry_rep_more)
  have f: "find_entry k ?S = Inr (Some (entries (ptable S) ! i), ?S1)"
    using rep_find(2) [OF r assms(2-4)] by simp
  obtain d a where a: "edata (entries (ptable S) ! i) = Obj a" "a < length (symbols S)"
    "symbols S ! a = Some \<lparr>sname = k, Datasp = snd (xs ! i)\<rparr>"
    using rep_nth [OF assms(1,3)] assms(4) by (auto simp: entry_rep_def)
  have ins: "SymtabInsert S k v n = Inr (set_symbol a \<lparr>sname = k, Datasp = ?ds\<rparr> ?S2)"
    using f a by (simp add: SymtabInsert_def SymbolCreate_def SymbolInsert_def get_symbol_def symbol_of_def
        SymbolDestroy_def nth_append)
  have "symtab_rep ?S2 xs"
    using assms(1) by (auto simp: symtab_rep_def btree_inv_def entries_def entry_rep_def nth_append elim!: list_all2_mono)
  from rep_set [OF this assms(3), of a ?ds] a have
    "symtab_rep (set_symbol a \<lparr>sname = k, Datasp = ?ds\<rparr> ?S2) (xs[i := (k, ?ds)])"
    using assms(4) by (simp add: entries_def)
  with ins show ?thesis by (auto simp: set_symbol_def)
qed

section \<open>The end of a scope\<close>

text \<open>What the loop does to the list of names.  \<open>first\<close> says that it still begins at the first entry;
  once it is past that, the entry behind a removed one is not looked at.\<close>

fun sweep :: "bool \<Rightarrow> int \<Rightarrow> 'v chains \<Rightarrow> 'v chains \<times> 'v list" where
  "sweep first n [] = ([], [])"
| "sweep first n (x # xs) =
     (case snd x of
        [] \<Rightarrow> (x # xs, [])
      | (v, l) # ds \<Rightarrow>
          if l > n then
            if ds = [] then
              if first then map_prod id (Cons v) (sweep True n xs)
              else (case xs of
                      [] \<Rightarrow> ([], [v])
                    | y # ys \<Rightarrow> map_prod (Cons y) (Cons v) (sweep False n ys))
            else map_prod (Cons (fst x, ds)) (Cons v) (sweep False n xs)
          else map_prod (Cons x) id (sweep False n xs))"

lemma seq_step:
  assumes "symtab_rep S xs" "0 \<le> c" "if c = 0 then i = 0 else cursor (ptable S) + 1 = i"
  shows "BtreeTableSeq (ptable S) (nat c) =
    (if i < length xs then ((ptable S)\<lparr>cursor := i\<rparr>, Some i) else (ptable S, None))"
  using assms by (cases "c = 0") (auto simp: btree_seq_steps rep_filled)

lemma niveau_loop_sweep:
  assumes "symtab_rep S (zs @ xs)" "length (zs @ xs) + 1 < hsize (ptable S)" "pfFree S" "0 \<le> c"
    and "if c = 0 then zs = [] else cursor (ptable S) + 1 = length zs" "length xs < k" "b = (c = 0)"
  shows "\<exists>S'. niveau_loop k n c S = Inr S' \<and> symtab_rep S' (zs @ fst (sweep b n xs)) \<and>
    freed S' = freed S @ snd (sweep b n xs)"
  using assms
proof (induction b n xs arbitrary: S zs c k rule: sweep.induct)
  case (1 b n)
  then obtain k' where k: "k = Suc k'" by (cases k) auto
  from seq_step [OF 1(1) 1(4), of "length zs"] 1 k show ?case by (auto split: if_splits)
next
  case (2 b n x xs)
  note IH = 2(1-4)
  note prems = 2(5-11)
  obtain k' where k: "k = Suc k'" using prems(6) by (cases k) auto
  let ?i = "length zs"
  have i: "?i < length (zs @ x # xs)" "(zs @ x # xs) ! ?i = x" by simp_all
  let ?S = "S\<lparr>ptable := (ptable S)\<lparr>cursor := ?i\<rparr>\<rparr>"
  have "if c = 0 then ?i = 0 else cursor (ptable S) + 1 = ?i" using prems(5) by (auto split: if_splits)
  from seq_step [OF prems(1,4) this] have seq: "BtreeTableSeq (ptable S) (nat c) = ((ptable S)\<lparr>cursor := ?i\<rparr>, Some ?i)"
    using i by simp
  obtain d a where d: "get_cell (ptable S) ?i = Inr d" "edata (entries (ptable S) ! ?i) = Obj a"
    "entry d = entries (ptable S) ! ?i" "symbol_of (entry d) S = Inr (a, \<lparr>sname = fst x, Datasp = snd x\<rparr>)"
    using rep_cell [OF prems(1) i(1)] i(2) by metis
  obtain v l ds where x: "snd x = (v, l) # ds" using rep_chain(2) [OF prems(1) i(1)] i(2) by (cases "snd x") auto
  let ?T = "set_symbol a \<lparr>sname = fst x, Datasp = ds\<rparr> ?S"
  have r: "symtab_rep ?S (zs @ x # xs)" and e: "edata (entries (ptable ?S) ! ?i) = Obj a"
    using prems(1) d by (simp_all add: entries_def)
  have step: "niveau_loop k n c S =
    (if l > n then sbind
       (if ds = [] then map_sum id (\<lambda>(S, _). (S, c - 1))
          (with_hooks (\<lambda>t. BtreeTableDelete t (symbol_entry (fst x) NullData)) ?T)
        else Inr (?T, c)) (\<lambda>(S, c). niveau_loop k' n (c + 1) (DataspDestroy (pfFree S) [(v, l)] S))
     else niveau_loop k' n (c + 1) ?S)"
    using seq d x by (simp add: k get_cell_cursor Let_def)
  consider (keep) "\<not> l > n" | (pop) "l > n" "ds \<noteq> []" | (last) "l > n" "ds = []" by auto
  then show ?case
  proof cases
    case keep
    have "\<exists>S'. niveau_loop k' n (c + 1) ?S = Inr S' \<and> symtab_rep S' ((zs @ [x]) @ fst (sweep False n xs)) \<and>
      freed S' = freed ?S @ snd (sweep False n xs)"
      using keep r prems k x by (intro IH(4) [of "(v, l)" ds v l]) auto
    then show ?thesis using keep step x prems(4) by auto
  next
    case pop
    then have t: "symtab_rep ?T (zs @ (fst x, ds) # xs)"
      using rep_set [OF r i(1) e pop(2)] by (simp add: list_update_append)
    let ?U = "DataspDestroy (pfFree ?T) [(v, l)] ?T"
    have "\<exists>S'. niveau_loop k' n (c + 1) ?U = Inr S' \<and>
      symtab_rep S' ((zs @ [(fst x, ds)]) @ fst (sweep False n xs)) \<and>
      freed S' = freed ?U @ snd (sweep False n xs)"
      using pop t prems k x by (intro IH(3) [of "(v, l)" ds v l]) (auto simp: set_symbol_def)
    then show ?thesis using pop step x prems(3,4) by (auto simp: set_symbol_def)
  next
    case last
    obtain S' where S': "with_hooks (\<lambda>t. BtreeTableDelete t (symbol_entry (fst x) NullData)) ?T = Inr (S', Some ?i)"
      "symtab_rep S' (zs @ xs)" "freed S' = freed S" "pfFree S'" "cursor (ptable S') = ?i"
      "hsize (ptable S') = hsize (ptable S)"
      using rep_delete [OF r i(1) e, of "fst x"] i(2) prems(2,3) last by auto
    let ?U = "DataspDestroy (pfFree S') [(v, l)] S'"
    have u: "symtab_rep ?U (zs @ xs)" "freed ?U = freed S @ [v]" using S' by simp_all
    have lp: "niveau_loop k n c S = niveau_loop k' n c ?U" using step S'(1) last by simp
    show ?thesis
    proof (cases "c = 0")
      case True
      then have "\<exists>S''. niveau_loop k' n c ?U = Inr S'' \<and> symtab_rep S'' (zs @ fst (sweep True n xs)) \<and>
        freed S'' = freed ?U @ snd (sweep True n xs)"
        using last u S' prems k x by (intro IH(1) [of "(v, l)" ds v l]) auto
      then show ?thesis using lp last x u True prems(7) by auto
    next
      case False
      have cu: "cursor (ptable ?U) + 1 = length zs + 1" using S' by simp
      show ?thesis
      proof (cases xs)
        case Nil
        obtain k2 where k2: "k' = Suc k2" using prems(6) k Nil by (cases k') auto
        have "BtreeTableSeq (ptable ?U) (nat c) = (ptable ?U, None)"
          using seq_step [OF u(1) prems(4), of "length zs + 1"] cu False Nil by simp
        then show ?thesis using lp last x u False Nil k2 S' prems(7) by simp
      next
        case (Cons y ys)
        have "0 < c" using prems(4) False by simp
        obtain k2 where k2: "k' = Suc k2" using prems(6) k by (cases k') auto
        have "\<exists>S''. niveau_loop k' n c ?U = Inr S'' \<and> symtab_rep S'' ((zs @ [y]) @ fst (sweep False n ys)) \<and>
          freed S'' = freed ?U @ snd (sweep False n ys)"
          using False last u S' prems k x Cons by (intro IH(2) [of "(v, l)" ds v l y ys]) auto
        then show ?thesis using lp last x u False Cons prems(7) by auto
      qed
    qed
  qed
qed

text \<open>What is left of a chain, and which names keep theirs.\<close>

lemma sweep_names: "fst ` set (fst (sweep b n xs)) \<subseteq> fst ` set xs"
proof (induction b n xs rule: sweep.induct)
  case (2 b n x xs)
  show ?case
  proof (cases "snd x")
    case (Cons d ds)
    obtain v l where "d = (v, l)" by (cases d)
    with Cons 2 show ?thesis by (cases "l > n"; cases "ds = []"; cases b; cases xs) (simp_all add: subset_insertI2)
  qed simp
qed simp

lemma chain_Cons: "chain (x # xs) k = (if fst x = k then snd x else chain xs k)"
  by (cases x) (simp add: chain_def)

lemma sweep_absent: "k \<notin> fst ` set xs \<Longrightarrow> chain (fst (sweep b n xs)) k = []"
  using sweep_names [of b n xs] by (intro chain_absent) blast

lemma sweep_chain:
  assumes "distinct (map fst xs)" "\<forall>x \<in> set xs. snd x \<noteq> []"
  shows "chain (fst (sweep b n xs)) k = chain xs k \<or>
    (\<exists>v l. chain xs k = (v, l) # chain (fst (sweep b n xs)) k \<and> l > n)"
  using assms
proof (induction b n xs rule: sweep.induct)
  case (2 b n x xs)
  obtain v l ds where x: "snd x = (v, l) # ds" using 2(6) by (cases "snd x") auto
  have d: "k = fst x \<Longrightarrow> chain (fst (sweep c n xs)) k = []" "k = fst x \<Longrightarrow> chain xs k = []" for c
    using 2(5) by (simp_all add: sweep_absent chain_absent)
  consider "\<not> l > n" | "l > n" "ds \<noteq> []" | "l > n" "ds = []" "b" | "l > n" "ds = []" "\<not> b" "xs = []"
    | y ys where "l > n" "ds = []" "\<not> b" "xs = y # ys" by (cases xs) auto
  then show ?case
  proof cases
    case 1
    then show ?thesis using 2 x by (auto simp: chain_Cons)
  next
    case 2
    then show ?thesis using "2.IH"(3) "2.prems" x by (auto simp: chain_Cons)
  next
    case 3
    then show ?thesis using "2.IH"(1) "2.prems" x d by (auto simp: chain_Cons)
  next
    case 4
    then show ?thesis using x by (auto simp: chain_Cons chain_def)
  next
    case (5 y ys)
    have "k = fst x \<Longrightarrow> chain (fst (sweep False n ys)) k = [] \<and> k \<noteq> fst y" "k = fst y \<Longrightarrow> k \<noteq> fst x"
      using "2.prems" 5 by (auto intro!: sweep_absent)
    then show ?thesis using "2.IH"(2) "2.prems" x 5 d(2) by (auto simp: chain_Cons)
  qed
qed simp

text \<open>A list of names that are all declared at most at level \<open>n\<close>.\<close>

definition settled :: "int \<Rightarrow> 'v chains \<Rightarrow> bool" where
  "settled n xs \<longleftrightarrow> (\<forall>x \<in> set xs. snd x \<noteq> [] \<and> snd (hd (snd x)) \<le> n)"

lemma settled_Cons [simp]: "settled n (x # xs) \<longleftrightarrow> snd x \<noteq> [] \<and> snd (hd (snd x)) \<le> n \<and> settled n xs"
  by (auto simp: settled_def)

lemma settled_Nil [simp]: "settled n []"
  by (simp add: settled_def)

lemma sweep_settled: "settled n xs \<Longrightarrow> sweep b n xs = (xs, [])"
  by (induction b n xs rule: sweep.induct) (auto simp: settled_def split: list.split)

lemma sweep_one:
  assumes "settled n ys" "settled n zs" "l > n"
  shows "sweep b n (ys @ (k, (v, l) # ds) # zs) = (ys @ (if ds = [] then [] else [(k, ds)]) @ zs, [v])"
  using assms(1)
proof (induction ys arbitrary: b)
  case Nil
  show ?case
  proof (cases "ds = [] \<and> \<not> b")
    case True
    then show ?thesis using assms(2,3) by (cases zs) (simp_all add: sweep_settled)
  next
    case False
    then show ?thesis using assms(2,3) by (auto simp: sweep_settled)
  qed
next
  case (Cons y ys)
  then show ?case by (cases "snd y") (auto simp: settled_def)
qed

lemma niveau_destroy:
  assumes "symtab_rep S xs" "length xs + 1 < hsize (ptable S)" "pfFree S"
  shows "\<exists>S'. SymtabNiveauDestroy S n = Inr S' \<and> symtab_rep S' (fst (sweep True n xs)) \<and>
    freed S' = freed S @ snd (sweep True n xs)"
  using niveau_loop_sweep [of S "[]" xs 0 "length xs + 1" True n] assms rep_filled [OF assms(1)]
  by (simp add: SymtabNiveauDestroy_def)

lemma inserted_last:
  assumes "symtab_rep S (inserted p x xs)" "\<forall>y \<in> set xs. kord (fst y) < kord (fst x)" "p \<le> length xs"
  shows "inserted p x xs = xs @ [x]"
proof (cases "p < length xs")
  case True
  then have "sorted_wrt (\<lambda>x y. kord (fst x) < kord (fst y)) (take p xs @ x # xs ! p # drop (Suc p) xs)"
    using rep_sorted [OF assms(1)] by (simp add: inserted_def Cons_nth_drop_Suc)
  then have "kord (fst x) < kord (fst (xs ! p))" by (simp add: sorted_wrt_append)
  moreover have "kord (fst (xs ! p)) < kord (fst x)" using assms(2) True by simp
  ultimately show ?thesis by simp
qed (use assms(3) in \<open>simp add: inserted_def\<close>)

lemma insert_last:
  assumes "symtab_rep S xs" "NUL \<notin> set k" "\<forall>y \<in> set xs. kord (fst y) < kord k"
  shows "\<exists>S'. SymtabInsert S k v n = Inr S' \<and> symtab_rep S' (xs @ [(k, [(v, n)])]) \<and> freed S' = freed S \<and>
    pfFree S' = pfFree S \<and> hsize (ptable S) \<le> hsize (ptable S')"
proof -
  have "k \<notin> fst ` set xs" using assms(3) by auto
  from insert_new [OF assms(1,2) this, of v n] obtain S' p where S': "SymtabInsert S k v n = Inr S'" "p \<le> length xs"
    "symtab_rep S' (inserted p (k, [(v, n)]) xs)" "freed S' = freed S" "pfFree S' = pfFree S"
    "hsize (ptable S) \<le> hsize (ptable S')" by blast
  with inserted_last [OF S'(3) _ S'(2)] assms(3) show ?thesis by auto
qed

section \<open>Properties\<close>

lemma chain_inserted:
  "k \<notin> fst ` set xs \<Longrightarrow> chain (inserted p (k, ds) xs) j = (if j = k then ds else chain xs j)"
proof -
  assume k: "k \<notin> fst ` set xs"
  have "map_of (take p xs @ (k, ds) # drop p xs) j = (if j = k then Some ds else map_of xs j)"
    using k map_of_eq_None_iff [of "drop p xs" k] map_of_eq_None_iff [of "take p xs" k] map_of_append [of "take p xs" "drop p xs"]
    by (auto simp: map_add_def dest: in_set_dropD in_set_takeD split: option.split)
  then show ?thesis by (simp add: chain_def inserted_def)
qed

lemma chain_update:
  "distinct (map fst xs) \<Longrightarrow> i < length xs \<Longrightarrow> fst (xs ! i) = k \<Longrightarrow>
   chain (xs[i := (k, ds)]) j = (if j = k then ds else chain xs j)"
proof (induction xs arbitrary: i)
  case (Cons x xs)
  then show ?case by (cases i) (auto simp: chain_Cons)
qed simp

lemma insert_chain:
  assumes "symtab_rep S xs" "NUL \<notin> set k"
  shows "\<exists>S' xs'. SymtabInsert S k v n = Inr S' \<and> symtab_rep S' xs' \<and> freed S' = freed S \<and>
    (\<forall>j. chain xs' j = (if j = k then (v, n) # chain xs k else chain xs j))"
proof (cases "k \<in> fst ` set xs")
  case False
  from insert_new [OF assms this, of v n] obtain S' p where "SymtabInsert S k v n = Inr S'"
    "symtab_rep S' (inserted p (k, [(v, n)]) xs)" "freed S' = freed S" by blast
  with False show ?thesis by (intro exI [of _ S'] exI [of _ "inserted p (k, [(v, n)]) xs"])
      (simp add: chain_inserted chain_absent)
next
  case True
  then obtain i where i: "i < length xs" "fst (xs ! i) = k" by (auto simp: in_set_conv_nth)
  let ?xs = "xs[i := (k, (v, n) # snd (xs ! i))]"
  from insert_old [OF assms i, of v n] obtain S' where
    "SymtabInsert S k v n = Inr S'" "symtab_rep S' ?xs" "freed S' = freed S" by blast
  then show ?thesis using i rep_chain(1) [OF assms(1) i(1)]
    by (intro exI [of _ S'] exI [of _ ?xs]) (simp add: chain_update rep_distinct [OF assms(1)])
qed

text \<open>C6: a name that is declared is found: insertion puts the datum before the others of the name, whatever
  they are, keeps the other names, and the search of the name gives the datum.\<close>

theorem symtab_insert_find:
  assumes "symtab_rep S xs" "NUL \<notin> set k"
  shows "\<exists>S' xs' S''. SymtabInsert S k v n = Inr S' \<and> symtab_rep S' xs' \<and> freed S' = freed S \<and>
    (\<forall>j. chain xs' j = (if j = k then (v, n) # chain xs k else chain xs j)) \<and> SymtabFind S' k = Inr (Some v, S'')"
proof -
  obtain S' xs' where S': "SymtabInsert S k v n = Inr S'" "symtab_rep S' xs'" "freed S' = freed S"
    "\<forall>j. chain xs' j = (if j = k then (v, n) # chain xs k else chain xs j)"
    using insert_chain [OF assms] by blast
  with find_chain [OF S'(2) assms(2)] show ?thesis by auto
qed

lemma rep_create: "symtab_rep (SymtabCreate b) []"
  by (simp add: symtab_rep_def SymtabCreate_def SearchTableCreate_def btree_create_inv entries_create)
    (simp add: BtreeTableCreate_def)

theorem symtab_insert_find_witness:
  "\<exists>S S'. SymtabInsert (SymtabCreate True) ''x'' (1 :: nat) 0 = Inr S \<and> SymtabFind S ''x'' = Inr (Some 1, S')"
  using symtab_insert_find [OF rep_create, of "''x''" True "1 :: nat" 0] by fastforce

text \<open>C7: the end of a scope never reaches too far: a name keeps all its data, or it loses its innermost
  one, which belongs to a deeper scope; all that is lost is released, in the order of the names.  Which names
  are looked at is what \<open>sweep\<close> says.  The table must have a spare cell behind its names, which insertion
  does not ensure: without it the deletion of a name reads past the array.\<close>

theorem scope_end_exact:
  assumes "symtab_rep S xs" "length xs + 1 < hsize (ptable S)" "pfFree S"
  shows "\<exists>S' xs'. SymtabNiveauDestroy S n = Inr S' \<and> symtab_rep S' xs' \<and>
    (xs', freed S') = map_prod id ((@) (freed S)) (sweep True n xs) \<and>
    (\<forall>k. chain xs' k = chain xs k \<or> (\<exists>v l. chain xs k = (v, l) # chain xs' k \<and> l > n))"
proof -
  have "\<forall>x \<in> set xs. snd x \<noteq> []" using rep_chain(2) [OF assms(1)] by (metis in_set_conv_nth)
  from sweep_chain [OF rep_distinct [OF assms(1)] this] niveau_destroy [OF assms, of n]
  show ?thesis by (auto simp: map_prod_def split_beta intro!: exI [of _ "fst (sweep True n xs)"])
qed

text \<open>One name declared in an empty table.\<close>

lemma insert_first:
  assumes "NUL \<notin> set k"
  shows "\<exists>S. SymtabInsert (SymtabCreate True) k (v :: 'v) n = Inr S \<and> symtab_rep S [(k, [(v, n)])] \<and> freed S = [] \<and>
    pfFree S \<and> 100 \<le> hsize (ptable S)"
proof -
  let ?C = "SymtabCreate True :: 'v symtab"
  have "hsize (ptable ?C) = 100" "pfFree ?C" "freed ?C = []"
    by (simp_all add: SymtabCreate_def SearchTableCreate_def BtreeTableCreate_def)
  with insert_new [OF rep_create assms, of True v n] show ?thesis by (auto simp: inserted_def)
qed

text \<open>An outer \<open>i\<close>, an inner one and an inner \<open>j\<close>.\<close>

theorem scope_end_exact_witness:
  "\<exists>S1 S2 S3 S. SymtabInsert (SymtabCreate True) ''i'' (0 :: nat) 1 = Inr S1 \<and> SymtabInsert S1 ''j'' 1 2 = Inr S2 \<and>
    SymtabInsert S2 ''i'' 2 2 = Inr S3 \<and> SymtabNiveauDestroy S3 1 = Inr S \<and>
    symtab_rep S [(''i'', [(0, 1)])] \<and> freed S = [2, 1]"
proof -
  obtain S1 where S1: "SymtabInsert (SymtabCreate True) ''i'' (0 :: nat) 1 = Inr S1" "symtab_rep S1 [(''i'', [(0, 1)])]"
    "freed S1 = []" "pfFree S1" "100 \<le> hsize (ptable S1)"
    using insert_first [of "''i''" "0 :: nat" 1] by auto
  have "kord ''i'' < kord ''j''" by (simp add: kord_def schar_def byte_def)
  then obtain S2 where S2: "SymtabInsert S1 ''j'' 1 2 = Inr S2" "symtab_rep S2 [(''i'', [(0, 1)]), (''j'', [(1, 2)])]"
    "freed S2 = []" "pfFree S2" "100 \<le> hsize (ptable S2)"
    using insert_last [OF S1(2), of "''j''" 1 2] S1 by auto
  obtain S3 where S3: "SymtabInsert S2 ''i'' 2 2 = Inr S3" "symtab_rep S3 [(''i'', [(2, 2), (0, 1)]), (''j'', [(1, 2)])]"
    "freed S3 = []" "pfFree S3" "100 \<le> hsize (ptable S3)"
    using insert_old [OF S2(2), of "''i''" 0 2 2] S2 by auto
  have "length [(''i'', [(2 :: nat, 2 :: int), (0, 1)]), (''j'', [(1, 2)])] + 1 < hsize (ptable S3)" using S3(5) by simp
  from scope_end_exact [OF S3(2) this S3(4), of 1] S3(3) obtain S where
    "SymtabNiveauDestroy S3 1 = Inr S" "symtab_rep S [(''i'', [(0, 1)])]" "freed S = [2, 1]" by auto
  with S1(1) S2(1) S3(1) show ?thesis by blast
qed

lemma settled_app: "settled n (xs @ ys) \<longleftrightarrow> settled n xs \<and> settled n ys"
  by (auto simp: settled_def)

lemma settled_split: "settled n xs \<Longrightarrow> settled n (take p xs) \<and> settled n (drop p xs)"
  by (auto simp: settled_def dest: in_set_takeD in_set_dropD)

text \<open>What a scope declares in one of its tables: nothing or one name.\<close>

definition declare_name :: "'v symtab \<Rightarrow> (string \<times> 'v) option \<Rightarrow> int \<Rightarrow> ub + 'v symtab" where
  "declare_name S d n = (case d of None \<Rightarrow> Inr S | Some (k, v) \<Rightarrow> SymtabInsert S k v n)"

definition decl_ok :: "(string \<times> 'v) option \<Rightarrow> bool" where
  "decl_ok d = (case d of None \<Rightarrow> True | Some (k, v) \<Rightarrow> NUL \<notin> set k)"

lemma declare_and_end:
  assumes "symtab_rep S xs" "settled n xs" "length xs + 2 < hsize (ptable S)" "pfFree S" "decl_ok d"
  shows "\<exists>V V'. declare_name S d (n + 1) = Inr V \<and> SymtabNiveauDestroy V n = Inr V' \<and> symtab_rep V' xs \<and>
    freed V' = freed S @ (case d of None \<Rightarrow> [] | Some (k, v) \<Rightarrow> [v])"
proof (cases d)
  case None
  with niveau_destroy [OF assms(1) _ assms(4), of n] assms(2,3) show ?thesis
    by (auto simp: declare_name_def sweep_settled)
next
  case (Some kv)
  obtain k v where d: "d = Some (k, v)" using Some by (cases kv) auto
  have k: "NUL \<notin> set k" using assms(5) d by (simp add: decl_ok_def)
  have "\<exists>V ys. SymtabInsert S k v (n + 1) = Inr V \<and> symtab_rep V ys \<and> length ys + 1 < hsize (ptable V) \<and>
    pfFree V \<and> freed V = freed S \<and> sweep True n ys = (xs, [v])"
  proof (cases "k \<in> fst ` set xs")
    case False
    from insert_new [OF assms(1) k this, of v "n + 1"] obtain V p where V: "SymtabInsert S k v (n + 1) = Inr V"
      "symtab_rep V (inserted p (k, [(v, n + 1)]) xs)" "p \<le> length xs" "freed V = freed S" "pfFree V"
      "hsize (ptable S) \<le> hsize (ptable V)" using assms(4) by auto
    moreover have "sweep True n (inserted p (k, [(v, n + 1)]) xs) = (xs, [v])"
      using sweep_one [of n "take p xs" "drop p xs" "n + 1"] settled_split [OF assms(2), of p]
      by (simp add: inserted_def)
    ultimately show ?thesis using assms(3)
      by (intro exI [of _ V] exI [of _ "inserted p (k, [(v, n + 1)]) xs"]) (simp add: inserted_def)
  next
    case True
    then obtain i where i: "i < length xs" "fst (xs ! i) = k" by (auto simp: in_set_conv_nth)
    let ?x = "(k, (v, n + 1) # snd (xs ! i))"
    from insert_old [OF assms(1) k i, of v "n + 1"] obtain V where V: "SymtabInsert S k v (n + 1) = Inr V"
      "symtab_rep V (xs[i := ?x])" "freed V = freed S" "pfFree V" "hsize (ptable S) \<le> hsize (ptable V)"
      using assms(4) by auto
    have x: "(k, snd (xs ! i)) = xs ! i" "snd (xs ! i) \<noteq> []" using i rep_chain(2) [OF assms(1) i(1)] by auto
    have "sweep True n (xs[i := ?x]) = (take i xs @ xs ! i # drop (Suc i) xs, [v])"
      using sweep_one [of n "take i xs" "drop (Suc i) xs" "n + 1" True k v "snd (xs ! i)"] x i(1)
        settled_split [OF assms(2)] by (simp add: upd_conv_take_nth_drop)
    then have "sweep True n (xs[i := ?x]) = (xs, [v])" using id_take_nth_drop [OF i(1)] by simp
    with V assms(3) show ?thesis by (intro exI [of _ V] exI [of _ "xs[i := ?x]"]) simp
  qed
  then obtain V ys where V: "SymtabInsert S k v (n + 1) = Inr V" "symtab_rep V ys"
    "length ys + 1 < hsize (ptable V)" "pfFree V" "freed V = freed S" "sweep True n ys = (xs, [v])" by blast
  from niveau_destroy [OF V(2-4), of n] V show ?thesis by (auto simp: d declare_name_def)
qed

text \<open>C5: a scope that declares at most one variable and at most one class leaves no trace: be the names new
  or ones of an outer scope, after the end of the compound statement both tables are what they were, and
  the data are released.  This is shown where no earlier scope has left a name behind (all names are
  declared at most at the current level) and where both tables have two spare cells, and only for one
  name in each: with two names it is not so (C40).\<close>

theorem scope_roundtrip:
  assumes "symtab_rep (SymtabVariable st) xs" "symtab_rep (SymtabClass st) cs"
    and "settled (niveauComp st) xs" "settled (niveauComp st) cs"
    and "length xs + 2 < hsize (ptable (SymtabVariable st))" "length cs + 2 < hsize (ptable (SymtabClass st))"
    and "pfFree (SymtabVariable st)" "pfFree (SymtabClass st)" "decl_ok d" "decl_ok c"
  shows "\<exists>V C st'. declare_name (SymtabVariable st) d (niveauComp (CompCreate st)) = Inr V \<and>
    declare_name (SymtabClass st) c (niveauComp (CompCreate st)) = Inr C \<and>
    CompDestroy ((CompCreate st)\<lparr>SymtabVariable := V, SymtabClass := C\<rparr>) = Inr st' \<and> niveauComp st' = niveauComp st \<and>
    symtab_rep (SymtabVariable st') xs \<and>
    freed (SymtabVariable st') = freed (SymtabVariable st) @ (case d of None \<Rightarrow> [] | Some (k, v) \<Rightarrow> [v]) \<and>
    symtab_rep (SymtabClass st') cs \<and>
    freed (SymtabClass st') = freed (SymtabClass st) @ (case c of None \<Rightarrow> [] | Some (k, v) \<Rightarrow> [v])"
proof -
  from declare_and_end [OF assms(1,3,5,7,9)] obtain V V' where
    V: "declare_name (SymtabVariable st) d (niveauComp st + 1) = Inr V" "SymtabNiveauDestroy V (niveauComp st) = Inr V'"
    "symtab_rep V' xs" "freed V' = freed (SymtabVariable st) @ (case d of None \<Rightarrow> [] | Some (k, v) \<Rightarrow> [v])" by blast
  from declare_and_end [OF assms(2,4,6,8,10)] obtain C C' where
    "declare_name (SymtabClass st) c (niveauComp st + 1) = Inr C" "SymtabNiveauDestroy C (niveauComp st) = Inr C'"
    "symtab_rep C' cs" "freed C' = freed (SymtabClass st) @ (case c of None \<Rightarrow> [] | Some (k, v) \<Rightarrow> [v])" by blast
  with V show ?thesis by (simp add: CompDestroy_def CompCreate_def Let_def)
qed

text \<open>In the scope of an outer \<open>x\<close> a compound statement declares another \<open>x\<close> and a class \<open>C\<close>.\<close>

theorem scope_roundtrip_witness:
  "\<exists>S V C st'. SymtabInsert (SymtabCreate True) ''x'' (7 :: nat) 0 = Inr S \<and> SymtabInsert S ''x'' 8 1 = Inr V \<and>
    SymtabInsert (SymtabCreate True) ''C'' (9 :: nat) 1 = Inr C \<and>
    CompDestroy \<lparr>niveauComp = 1, SymtabVariable = V, SymtabClass = C\<rparr> = Inr st' \<and> niveauComp st' = 0 \<and>
    symtab_rep (SymtabVariable st') [(''x'', [(7, 0)])] \<and> freed (SymtabVariable st') = [8] \<and>
    symtab_rep (SymtabClass st') [] \<and> freed (SymtabClass st') = [9]"
proof -
  let ?C = "SymtabCreate True :: nat symtab"
  have C: "2 < hsize (ptable ?C)" "pfFree ?C" "freed ?C = []"
    by (simp_all add: SymtabCreate_def SearchTableCreate_def BtreeTableCreate_def)
  obtain S where S: "SymtabInsert ?C ''x'' 7 0 = Inr S" "symtab_rep S [(''x'', [(7, 0)])]"
    "freed S = []" "pfFree S" "100 \<le> hsize (ptable S)"
    using insert_first [of "''x''" "7 :: nat" 0] by auto
  let ?st = "\<lparr>niveauComp = 0, SymtabVariable = S, SymtabClass = ?C\<rparr> :: (nat, nat) comp_state"
  have "symtab_rep (SymtabVariable ?st) [(''x'', [(7, 0)])]" "symtab_rep (SymtabClass ?st) []"
    using S(2) by (simp_all add: rep_create)
  from scope_roundtrip [OF this, of "Some (''x'', 8)" "Some (''C'', 9)"] S C show ?thesis
    by (auto simp: CompCreate_def declare_name_def decl_ok_def)
qed

lemma sweep_past:
  "settled n ys \<Longrightarrow> ys \<noteq> [] \<Longrightarrow> sweep b n (ys @ zs) = map_prod ((@) ys) id (sweep False n zs)"
proof (induction ys arbitrary: b)
  case (Cons y ys)
  then show ?case by (cases "snd y"; cases "ys = []") (auto simp: map_prod_def split_beta)
qed simp

text \<open>C40: a scope that declares two names may leave one behind: if the two are neighbours in the order of
  names and stand after a name of an outer scope, the end of the scope removes the first and does not look
  at the second, which goes on being found with the datum of the closed scope.\<close>

theorem scope_leak:
  assumes "symtab_rep S xs" "settled n xs" "xs \<noteq> []" "length xs + 3 < hsize (ptable S)" "pfFree S"
    and "NUL \<notin> set a" "NUL \<notin> set b" "\<forall>x \<in> set xs. kord (fst x) < kord a" "kord a < kord b"
  shows "\<exists>S1 S2 S3 S4. SymtabInsert S a v (n + 1) = Inr S1 \<and> SymtabInsert S1 b w (n + 1) = Inr S2 \<and>
    SymtabNiveauDestroy S2 n = Inr S3 \<and> chain (xs @ [(b, [(w, n + 1)])]) a = [] \<and>
    symtab_rep S3 (xs @ [(b, [(w, n + 1)])]) \<and> SymtabFind S3 b = Inr (Some w, S4)"
proof -
  let ?a = "(a, [(v, n + 1)])" and ?b = "(b, [(w, n + 1)])"
  from insert_last [OF assms(1,6,8), of v "n + 1"] obtain S1 where S1: "SymtabInsert S a v (n + 1) = Inr S1"
    "symtab_rep S1 (xs @ [?a])" "pfFree S1" "hsize (ptable S) \<le> hsize (ptable S1)" using assms(5) by blast
  have "\<forall>x \<in> set (xs @ [?a]). kord (fst x) < kord b" using assms(8,9) by (auto dest: less_trans)
  from insert_last [OF S1(2) assms(7) this, of w "n + 1"] obtain S2 where S2: "SymtabInsert S1 b w (n + 1) = Inr S2"
    "symtab_rep S2 (xs @ [?a, ?b])" "pfFree S2" "hsize (ptable S1) \<le> hsize (ptable S2)" using S1(3) by auto
  have sw: "fst (sweep True n (xs @ [?a, ?b])) = xs @ [?b]"
    using sweep_past [OF assms(2,3), of True "[?a, ?b]"] by (simp add: map_prod_def split_beta)
  have "length (xs @ [?a, ?b]) + 1 < hsize (ptable S2)" using assms(4) S1(4) S2(4) by simp
  from niveau_destroy [OF S2(2) this S2(3), of n] sw obtain S3 where
    S3: "SymtabNiveauDestroy S2 n = Inr S3" "symtab_rep S3 (xs @ [?b])" by auto
  have new: "a \<notin> fst ` set (xs @ [?b])" "b \<notin> fst ` set xs" using assms(8,9) by (auto dest: less_trans)
  have "chain (xs @ [?b]) b = [(w, n + 1)]"
    using chain_inserted [OF new(2), of "length xs"] by (simp add: inserted_def)
  with find_chain [OF S3(2) assms(7)] obtain S4 where "SymtabFind S3 b = Inr (Some w, S4)" by auto
  with S1(1) S2(1) S3 chain_absent [OF new(1)] show ?thesis by blast
qed

theorem scope_leak_witness:
  "\<exists>S S1 S2 S3 S4. SymtabInsert (SymtabCreate True) ''i'' (0 :: nat) 1 = Inr S \<and>
    SymtabInsert S ''j'' 1 2 = Inr S1 \<and> SymtabInsert S1 ''k'' 2 2 = Inr S2 \<and>
    SymtabNiveauDestroy S2 1 = Inr S3 \<and> SymtabFind S3 ''k'' = Inr (Some 2, S4)"
proof -
  let ?C = "SymtabCreate True :: nat symtab"
  have C: "hsize (ptable ?C) = 100" "pfFree ?C" by (simp_all add: SymtabCreate_def SearchTableCreate_def BtreeTableCreate_def)
  obtain S where S: "SymtabInsert ?C ''i'' 0 1 = Inr S" "symtab_rep S [(''i'', [(0, 1)])]" "pfFree S" "100 \<le> hsize (ptable S)"
    using insert_last [OF rep_create, of "''i''" True "0 :: nat" 1] C by auto
  have "kord ''i'' < kord ''j''" "kord ''j'' < kord ''k''" by (simp_all add: kord_def schar_def byte_def)
  then show ?thesis using scope_leak [OF S(2), of 1 "''j''" "''k''" 1 2] S by auto
qed

text \<open>Dropping every entry calls the hook for each of them.\<close>

lemma dropped_all: "\<forall>e \<in> set es. flag e = 0 \<Longrightarrow> concat (map (dropped True) es) = map Hook es"
  by (induction es) (auto simp: dropped_symbol)

lemma DataspDestroy_freed: "DataspDestroy True ds S = S\<lparr>freed := freed S @ map fst ds\<rparr>"
  by (induction "True" ds S rule: DataspDestroy.induct) auto

lemma run_hooks_all:
  assumes "list_all2 (entry_rep S) es xs" "distinct (map edata es)" "pfFree S"
  shows "\<exists>S'. run_hooks (map Hook es) S = Inr S' \<and> freed S' = freed S @ concat (map (map fst \<circ> snd) xs) \<and>
    pfFree S' \<and> ptable S' = ptable S"
  using assms
proof (induction es arbitrary: S xs)
  case (Cons e es)
  then obtain x xs' where xs: "xs = x # xs'" "entry_rep S e x" "list_all2 (entry_rep S) es xs'"
    by (auto simp: list_all2_Cons1)
  then obtain a where a: "edata e = Obj a" "a < length (symbols S)" "symbols S ! a = Some \<lparr>sname = fst x, Datasp = snd x\<rparr>"
    by (auto simp: entry_rep_def)
  let ?S = "S\<lparr>freed := freed S @ map fst (snd x), symbols := (symbols S)[a := None]\<rparr>"
  have s: "f_EntryDestroy e S = Inr ?S"
    using a Cons.prems(3)
    by (simp add: f_EntryDestroy_def symbol_of_def get_symbol_def SymbolDestroy_def DataspDestroy_freed)
  have "entry_rep ?S e' y" if "e' \<in> set es" "entry_rep S e' y" for e' y
  proof -
    have "edata e' \<noteq> Obj a" using that(1) Cons.prems(2) a(1) by force
    with that(2) show ?thesis by (auto simp: entry_rep_def)
  qed
  then have "list_all2 (entry_rep ?S) es xs'"
    using xs(3) by (auto simp: list_all2_conv_all_nth)
  from Cons.IH [OF this] Cons.prems(2,3) s xs(1) show ?case by auto
qed simp

text \<open>at the end of a function nothing is kept and nothing is released twice: clearing a table gives every
  datum of every name to the client's function once, and leaves an empty table.\<close>

theorem symtab_clear_releases:
  assumes "symtab_rep S xs" "pfFree S"
  shows "\<exists>S'. SymtabClear S = Inr S' \<and> symtab_rep S' [] \<and> pfFree S' \<and>
    freed S' = freed S @ concat (map (map fst \<circ> snd) xs)"
proof -
  let ?t = "(ptable S)\<lparr>trace := []\<rparr>" and ?es = "entries (ptable S)"
  have t: "btree_inv ?t" "entries ?t = ?es" "hook ?t"
    using assms(1) by (simp_all add: symtab_rep_def btree_inv_def entries_def)
  obtain t' where t': "TableDestroy (\<lambda>t p. Inr (BtreeTableSeq t p)) ?t = Inr t'"
    "trace t' = concat (map (dropped True) ?es)"
    using btree_destroy_drops [OF t(1)] t by auto
  have r: "list_all2 (entry_rep S) ?es xs" "distinct (map edata ?es)" using assms(1) by (simp_all add: symtab_rep_def)
  have "\<forall>e \<in> set ?es. flag e = 0" using r(1) by (auto simp: list_all2_conv_all_nth in_set_conv_nth entry_rep_def)
  with t' have h: "trace t' = map Hook ?es" by (simp add: dropped_all)
  have "list_all2 (entry_rep (S\<lparr>ptable := t'\<rparr>)) ?es xs"
    using r(1) by (auto simp: entry_rep_def elim!: list_all2_mono)
  from run_hooks_all [OF this r(2)] assms(2) obtain S' where
    "run_hooks (trace t') (S\<lparr>ptable := t'\<rparr>) = Inr S'" "freed S' = freed S @ concat (map (map fst \<circ> snd) xs)" "pfFree S'"
    by (auto simp: h)
  then show ?thesis
    using t'(1) rep_create [of True]
    by (auto simp: SymtabClear_def destroy_table_def with_hooks_def symtab_rep_def SymtabCreate_def entries_create
        SearchTableCreate_def)
qed

theorem symtab_clear_releases_witness:
  "\<exists>S S'. SymtabInsert (SymtabCreate True) ''x'' (5 :: nat) 0 = Inr S \<and> SymtabClear S = Inr S' \<and>
    symtab_rep S' [] \<and> freed S' = [5]"
proof -
  have C: "pfFree (SymtabCreate True :: nat symtab)" "freed (SymtabCreate True :: nat symtab) = []"
    by (simp_all add: SymtabCreate_def)
  obtain S where "SymtabInsert (SymtabCreate True) ''x'' (5 :: nat) 0 = Inr S" "symtab_rep S [(''x'', [(5, 0)])]"
    "pfFree S" "freed S = []"
    using insert_last [OF rep_create, of "''x''" True "5 :: nat" 0] C by auto
  then show ?thesis using symtab_clear_releases [of S "[(''x'', [(5, 0)])]"] by auto
qed

end
