(* ===== verification/XRef_Walk.thy ===== *)
theory XRef_Walk
  imports XRef_Spec XRef_Types Symtab_Props
begin

text \<open>
  The walk over trees (\<open>XRef\<close>) against \<open>XRef_Spec\<close>, operator by operator: each step ends, or runs out of
  fuel, in a result that has a type, with the scopes it began with, and with a plain database it has
  reported what the tree uses.
\<close>

declare type_parser.simps(2) [simp del] type_basic_loop.simps(2) [simp del] walk.simps(2) [simp del]

section \<open>Results\<close>

text \<open>A step ends with a value that has the property, or without returning, or where a class is known with a
  name that is released twice; \<open>b\<close> says it has to return.\<close>

definition ends :: "xenv \<Rightarrow> bool \<Rightarrow> ('a \<Rightarrow> bool) \<Rightarrow> ub + 'a \<Rightarrow> bool" where
  "ends E b Q r =
     (case r of
        Inl e \<Rightarrow> \<not> b \<and> (e = NoReturn \<or> e = UseAfterFree \<and> knows_class E)
      | Inr v \<Rightarrow> Q v)"

lemma ends_simps [simp]:
  "ends E b Q (Inl e) \<longleftrightarrow> \<not> b \<and> (e = NoReturn \<or> e = UseAfterFree \<and> knows_class E)"
  "ends E b Q (Inr v) \<longleftrightarrow> Q v"
  by (simp_all add: ends_def)

lemma ends_bind: "ends E b P m \<Longrightarrow> (\<And>v. P v \<Longrightarrow> ends E b Q (f v)) \<Longrightarrow> ends E b Q (sbind m f)"
  by (cases m) simp_all

lemma ends_mono: "ends E b P m \<Longrightarrow> (\<And>v. P v \<Longrightarrow> Q v) \<Longrightarrow> ends E b Q m"
  by (cases m) simp_all

lemma ends_if: "(c \<Longrightarrow> ends E b Q x) \<Longrightarrow> (\<not> c \<Longrightarrow> ends E b Q y) \<Longrightarrow> ends E b Q (if c then x else y)"
  by simp

lemma ends_option:
  "(x = None \<Longrightarrow> ends E b Q n) \<Longrightarrow> (\<And>v. x = Some v \<Longrightarrow> ends E b Q (s v)) \<Longrightarrow> ends E b Q (case x of None \<Rightarrow> n | Some v \<Rightarrow> s v)"
  by (cases x) simp_all

lemma ends_prod: "(\<And>x y. p = (x, y) \<Longrightarrow> ends E b Q (f x y)) \<Longrightarrow> ends E b Q (case p of (x, y) \<Rightarrow> f x y)"
  by (cases p) simp

lemmas ends_split = ends_if ends_option ends_prod

lemma ends_map_sum: "ends E b Q (map_sum id f m) \<longleftrightarrow> ends E b (Q \<circ> f) m"
  by (cases m) simp_all

section \<open>Trees\<close>

text \<open>Over an optional part and over an optional list.\<close>

definition opt_ok :: "('a \<Rightarrow> bool) \<Rightarrow> 'a option \<Rightarrow> bool" where
  "opt_ok f x = (case x of None \<Rightarrow> True | Some x \<Rightarrow> f x)"

definition type_ok :: "Type \<Rightarrow> bool" where
  "type_ok t = opt_ok declarator_ok (t_declarator t)"

lemma opt_ok_simps [simp]: "opt_ok f None" "opt_ok f (Some x) \<longleftrightarrow> f x"
  by (simp_all add: opt_ok_def)

lemma list_ok: "(case l of None \<Rightarrow> True | Some l \<Rightarrow> list_all f l) \<longleftrightarrow> list_all f (elems l)"
  by (cases l) simp_all

lemma declarator_ok_iff [simp]:
  "declarator_ok (Declarator f x xs i ops) \<longleftrightarrow>
     opt_ok expr_ok x \<and> list_all expr_ok (elems xs) \<and> opt_ok init_ok i \<and> list_all oper_ok (elems ops)"
  by (simp add: list_ok opt_ok_def)

lemma oper_ok_iff [simp]: "oper_ok (Oper f x ds) \<longleftrightarrow> opt_ok expr_ok x \<and> list_all declaration_ok (elems ds)"
  by (simp add: list_ok opt_ok_def)

lemma declaration_ok_iff [simp]:
  "declaration_ok (Declaration f c e ds') \<longleftrightarrow> list_all declarator_ok (elems ds')"
  "declaration_ok (DeclarationSpecial t n1 n2 ds) \<longleftrightarrow> list_all declaration_ok (elems ds)"
  by (simp_all add: list_ok)

lemma init_ok_iff [simp]: "init_ok (Init x is) \<longleftrightarrow> opt_ok expr_ok x \<and> list_all init_ok (elems is)"
  by (simp add: list_ok opt_ok_def)

declare declarator_ok.simps [simp del] oper_ok.simps [simp del] declaration_ok.simps [simp del] init_ok.simps [simp del]

section \<open>The trees of type strings\<close>

lemma type_ok_simps [simp]: "type_ok (Type f c e d) \<longleftrightarrow> opt_ok declarator_ok d"
  by (simp add: type_ok_def)

lemma new_type_ok [simp]: "opt_ok type_ok (new_type f d) \<longleftrightarrow> opt_ok declarator_ok d"
  by (simp add: new_type_def)

lemma declarator_parts_ok [simp]:
  "declarator_ok (add_oper p d) \<longleftrightarrow> declarator_ok d \<and> oper_ok p"
  "declarator_ok (concat_opers d l) \<longleftrightarrow> declarator_ok d \<and> list_all oper_ok (elems l)"
  "declarator_ok (abstract_declarator l) \<longleftrightarrow> list_all oper_ok (elems l)"
  by (cases d; auto simp: add_oper_def concat_opers_def abstract_declarator_def)+

lemma PtrOperator_ok: "PtrOperator ts = (Some p, ts') \<Longrightarrow> oper_ok p"
  by (auto simp: PtrOperator_def pointer_oper_def Let_def split: if_splits prod.splits)

lemma made_opers_ok [simp]: "oper_ok array_oper" "oper_ok (function_oper ds) \<longleftrightarrow> list_all declaration_ok (elems ds)"
  by (simp_all add: array_oper_def function_oper_def)

lemma cast_ok: "type_ok t \<Longrightarrow> declaration_ok (f_TypeCastToDeclaration ln t)"
  by (cases t; cases "t_declarator t") (simp_all add: f_TypeCastToDeclaration_def)

definition parser_ok :: "xenv \<Rightarrow> tparser \<Rightarrow> bool" where
  "parser_ok E p \<longleftrightarrow>
     (\<forall>ts. ends E False (opt_ok type_ok \<circ> fst) (p_TypeName p ts)) \<and>
     (\<forall>f b ts. ends E False (opt_ok type_ok \<circ> fst) (p_type_loop p f b ts)) \<and>
     (\<forall>ts. ends E False (opt_ok declarator_ok \<circ> fst) (p_AbstractDeclarator p ts)) \<and>
     (\<forall>l ts. list_all oper_ok (elems l) \<longrightarrow>
        ends E False (\<lambda>r. list_all oper_ok (elems (fst r))) (p_FunctionOrArrayList p l ts)) \<and>
     (\<forall>ds ts. list_all declaration_ok (elems ds) \<longrightarrow>
        ends E False (\<lambda>r. list_all declaration_ok (elems (fst r))) (p_ArgumentDeclarationList p ds ts))"

lemma TypeName_ok: "parser_ok E p \<Longrightarrow> ends E False (opt_ok type_ok \<circ> fst) (TypeName p ts)"
  unfolding TypeName_def by (cases "Token ts 0 = punct (CHR ''('')") (auto simp: parser_ok_def intro!: ends_bind)

lemma type_loop_ok:
  assumes "parser_ok E p" shows "ends E False (opt_ok type_ok \<circ> fst) (type_loop p f b ts)"
proof -
  have loop: "ends E False (opt_ok type_ok \<circ> fst) (p_type_loop p f b ts)"
    and decl: "ends E False (opt_ok declarator_ok \<circ> fst) (p_AbstractDeclarator p ts)" for f b ts
    using assms by (simp_all add: parser_ok_def)
  show ?thesis unfolding type_loop_def Let_def
    by (intro ends_split ends_bind [OF decl] loop) (auto split: option.split prod.split)
qed

lemma AbstractDeclarator_ok:
  assumes "parser_ok E p" shows "ends E False (opt_ok declarator_ok \<circ> fst) (AbstractDeclarator p ts)"
proof -
  have decl: "ends E False (opt_ok declarator_ok \<circ> fst) (p_AbstractDeclarator p ts)"
    and opers: "ends E False (\<lambda>r. list_all oper_ok (elems (fst r))) (p_FunctionOrArrayList p None ts)" for ts
    using assms by (simp_all add: parser_ok_def)
  have bracket: "ends E False (opt_ok declarator_ok \<circ> fst) (bracket_declarator p ts0 ts1)" for ts0 ts1
    unfolding bracket_declarator_def
    by (auto split: option.split intro!: ends_bind [OF decl] ends_bind [OF opers])
  show ?thesis unfolding AbstractDeclarator_def Let_def
    by (intro ends_split ends_bind [OF decl] ends_bind [OF opers] bracket)
      (auto split: option.split dest: PtrOperator_ok)
qed

lemma FunctionOrArrayList_ok:
  "parser_ok E p \<Longrightarrow> list_all oper_ok (elems l) \<Longrightarrow>
   ends E False (\<lambda>r. list_all oper_ok (elems (fst r))) (FunctionOrArrayList p l ts)"
  unfolding FunctionOrArrayList_def
  by (auto simp: parser_ok_def intro!: ends_bind [where P = "\<lambda>r. list_all declaration_ok (elems (fst r))"])

lemma ArgumentDeclarationList_ok:
  assumes "parser_ok E p" "list_all declaration_ok (elems ds)"
  shows "ends E False (\<lambda>r. list_all declaration_ok (elems (fst r))) (ArgumentDeclarationList p ln ds ts)"
proof -
  have name: "ends E False (opt_ok type_ok \<circ> fst) (p_TypeName p ts)" for ts using assms by (simp add: parser_ok_def)
  have args: "ends E False (\<lambda>r. list_all declaration_ok (elems (fst r))) (p_ArgumentDeclarationList p ds ts)"
    if "list_all declaration_ok (elems ds)" for ds ts using assms that by (simp add: parser_ok_def)
  show ?thesis unfolding ArgumentDeclarationList_def Let_def
    by (intro ends_split ends_bind [OF name] args) (use assms in \<open>auto split: option.splits intro: cast_ok\<close>)
qed

lemma type_parser_ok: "parser_ok E (type_parser n ln)"
proof (induction n)
  case (Suc n)
  then show ?case
    by (simp add: parser_ok_def [of E "type_parser (Suc n) ln"] type_parser_simps TypeName_ok type_loop_ok
        AbstractDeclarator_ok FunctionOrArrayList_ok ArgumentDeclarationList_ok)
qed (simp add: parser_ok_def)

lemma string_type_ok: "ends E False (opt_ok type_ok) (f_TypeFromString n ln s)"
  using type_parser_ok [of E n ln] by (simp add: f_TypeFromString_def ends_map_sum parser_ok_def o_def)

lemma string_type_any: "\<not> b \<Longrightarrow> ends E b (opt_ok type_ok) (f_TypeFromString n ln s)"
  using string_type_ok [of E n ln s] by (cases "f_TypeFromString n ln s") simp_all

section \<open>Reports\<close>

text \<open>From \<open>st\<close> to \<open>st'\<close> the scopes and their depth stay, and with \<open>b\<close> exactly \<open>us\<close> was reported.\<close>

definition logged :: "bool \<Rightarrow> Type chains \<Rightarrow> occurrence list \<Rightarrow> 'c xstate \<Rightarrow> 'c xstate \<Rightarrow> bool" where
  "logged b xs us st st' \<longleftrightarrow>
     symtab_rep (SymtabVariable st') xs \<and> niveauComp st' = niveauComp st \<and>
     (b \<longrightarrow> reported us (refs st) (refs st'))"

definition post :: "bool \<Rightarrow> Type chains \<Rightarrow> occurrence list \<Rightarrow> ('a \<Rightarrow> bool) \<Rightarrow> 'c xstate \<Rightarrow> 'a \<times> 'c xstate \<Rightarrow> bool" where
  "post b xs us P st = (\<lambda>(v, st'). P v \<and> logged b xs us st st')"

lemma post_pair [simp]: "post b xs us P st (v, st') \<longleftrightarrow> P v \<and> logged b xs us st st'"
  by (simp add: post_def)

lemma reported_simps [simp]: "reported [] rs rs' \<longleftrightarrow> rs' = rs" "reported [u] rs (r # rs) \<longleftrightarrow> reports r u"
  by (auto simp: reported_def list_all2_Cons2)

lemma reported_trans: "reported us rs rs1 \<Longrightarrow> reported vs rs1 rs2 \<Longrightarrow> reported (us @ vs) rs rs2"
  unfolding reported_def by (metis append.assoc list_all2_appendI rev_append)

lemma logged_refl [simp]: "logged b xs [] st st \<longleftrightarrow> symtab_rep (SymtabVariable st) xs"
  by (simp add: logged_def)

lemma logged_trans: "logged b xs us st st1 \<Longrightarrow> logged b xs vs st1 st2 \<Longrightarrow> logged b xs (us @ vs) st st2"
  by (auto simp: logged_def intro: reported_trans)

lemma logged_rep: "logged b xs us st st' \<Longrightarrow> symtab_rep (SymtabVariable st') xs"
  by (simp add: logged_def)

lemma logged_mark [simp]: "logged b xs us st (mark c p st') \<longleftrightarrow> logged b xs us st st'"
  by (simp add: logged_def mark_def)

lemma logged_put:
  "symtab_rep (SymtabVariable st) xs \<Longrightarrow>
   b \<longrightarrow> (case lv of None \<Rightarrow> True | Some l \<Rightarrow> lev = l \<and> (l = PAF_REF_SCOPE_LOCAL \<longrightarrow> t = PAF_LOCAL_VAR_DEF)) \<Longrightarrow>
   logged b xs [(what, ln, acc, lv)] st (Put_cross_ref E t lev cls sc what args ln acc st)"
  by (cases lv) (simp_all add: logged_def Put_cross_ref_def reports_def)

lemma logged_any: "symtab_rep (SymtabVariable st') xs \<Longrightarrow> niveauComp st' = niveauComp st \<Longrightarrow> \<not> b \<Longrightarrow> logged b xs us st st'"
  by (simp add: logged_def)

lemma mark_scopes [simp]: "SymtabVariable (mark c p st) = SymtabVariable st" "niveauComp (mark c p st) = niveauComp st"
    "refs (mark c p st) = refs st"
  by (simp_all add: mark_def)

lemma put_scopes [simp]:
  "SymtabVariable (Put_cross_ref E t lev cls sc what args ln acc st) = SymtabVariable st"
  "niveauComp (Put_cross_ref E t lev cls sc what args ln acc st) = niveauComp st"
  by (simp_all add: Put_cross_ref_def)

text \<open>What is found agrees with a level: with the level local it is a variable.\<close>

definition level_ok :: "int option \<Rightarrow> found \<Rightarrow> bool" where
  "level_ok lv r \<longleftrightarrow>
     (case lv of
        None \<Rightarrow> True
      | Some l \<Rightarrow> f_level r = l \<and> (f_symbol r = None \<longrightarrow> l = PAF_REF_SCOPE_GLOBAL) \<and>
          (l = PAF_REF_SCOPE_LOCAL \<longrightarrow> (\<exists>s d. f_symbol r = Some (PAF_LOCAL_VAR_DEF, s, d))))"

lemma put_use_logged:
  assumes "symtab_rep (SymtabVariable st) xs" "b \<longrightarrow> level_ok lv (ce_found r)"
  shows "logged b xs [(ce_name r, ln, acc, lv)] st (put_use E r args ln acc call st)"
  using assms(2) unfolding put_use_def
  by (auto split: option.splits intro!: logged_put [OF assms(1)] simp: level_ok_def)

text \<open>One step after another.\<close>

lemma ends_then:
  assumes "ends E b (post b xs us P st) m"
    and "\<And>v st1. P v \<Longrightarrow> symtab_rep (SymtabVariable st1) xs \<Longrightarrow> ends E b (post b xs vs R st1) (f v st1)"
  shows "ends E b (post b xs (us @ vs) R st) (sbind m (case_prod f))"
  using assms(1)
proof (rule ends_bind)
  fix r assume r: "post b xs us P st r"
  obtain v st1 where v: "r = (v, st1)" by (cases r)
  then have "ends E b (post b xs vs R st1) (case_prod f r)"
    using r assms(2) [of v st1] logged_rep [of b xs us st st1] by (simp add: v)
  then show "ends E b (post b xs (us @ vs) R st) (case_prod f r)"
    by (rule ends_mono) (use r v in \<open>auto intro: logged_trans\<close>)
qed

lemma ends_last:
  assumes "ends E b (post b xs us P st) m"
    and "\<And>v st1. P v \<Longrightarrow> symtab_rep (SymtabVariable st1) xs \<Longrightarrow> ends E b (post b xs [] R st1) (f v st1)"
  shows "ends E b (post b xs us R st) (sbind m (case_prod f))"
  using ends_then [OF assms] by simp

lemma ends_quiet:
  assumes "ends E b (post b xs [] P st) m"
    and "\<And>v st1. P v \<Longrightarrow> symtab_rep (SymtabVariable st1) xs \<Longrightarrow> ends E b (post b xs us R st1) (f v st1)"
  shows "ends E b (post b xs us R st) (sbind m (case_prod f))"
  using ends_then [OF assms] by simp

lemma ends_state:
  assumes "ends E b (logged b xs us st) m"
    and "\<And>st1. symtab_rep (SymtabVariable st1) xs \<Longrightarrow> ends E b (logged b xs vs st1) (f st1)"
  shows "ends E b (logged b xs (us @ vs) st) (sbind m f)"
  using assms(1) by (rule ends_bind) (rule ends_mono [OF assms(2)], auto intro: logged_trans logged_rep)

lemma in_turn_ends:
  assumes "\<And>y st. y \<in> set ys \<Longrightarrow> symtab_rep (SymtabVariable st) xs \<Longrightarrow> ends E b (logged b xs (u y) st) (f y st)"
    and "symtab_rep (SymtabVariable st) xs"
  shows "ends E b (logged b xs (concat (map u ys)) st) (in_turn f ys st)"
  using assms by (induction ys arbitrary: st) (auto intro!: ends_state)

section \<open>Types of names\<close>

lemma basic_loop_keeps:
  assumes "symtab_rep (SymtabVariable st) xs" "type_ok t"
  shows "ends E False (\<lambda>(t', st', rel). type_ok t' \<and> symtab_rep (SymtabVariable st') xs \<and> niveauComp st' = niveauComp st)
    (type_basic_loop n E ln a prev j rel t st k)"
  using assms
proof (induction k arbitrary: a prev j rel t st)
  case (Suc k)
  have merge: "type_ok (merge_declarators v t)" if "type_ok v" for v
    using that Suc.prems(2)
    by (cases v; cases "t_declarator v"; cases t; cases "t_declarator t"; cases "the (t_declarator v)"; cases "the (t_declarator t)")
      (auto simp: merge_declarators_def)
  show ?case unfolding type_basic_loop.simps(2) Let_def
    by (intro ends_split ends_bind [OF string_type_ok] Suc.IH [THEN ends_mono]) (use Suc.prems merge in auto)
qed simp

lemma TypeBasic_plain: "plain_db E N \<Longrightarrow> N \<le> n \<Longrightarrow> f_TypeBasic n E (Some t) ln st = Inr (t, st)"
  by (cases n; cases "f_NameFromType t")
    (auto simp: plain_db_def f_TypeBasic_def type_basic_def round_nameless round_unknown is_visited_def visited_def)

lemma released_distinct: "released_once rel \<Longrightarrow> distinct rel"
  unfolding released_once_def by (metis distinct_upt mset_eq_imp_distinct_iff)

lemma TypeBasic_ends:
  assumes "symtab_rep (SymtabVariable st) xs" "type_ok t" "b \<longrightarrow> plain_db E N \<and> N \<le> n"
  shows "ends E b (post b xs [] (\<lambda>t'. type_ok t' \<and> (b \<longrightarrow> t' = t)) st) (f_TypeBasic n E (Some t) ln st)"
proof (cases b)
  case True
  then have "f_TypeBasic n E (Some t) ln st = Inr (t, st)" using assms(3) by (blast intro: TypeBasic_plain)
  then show ?thesis using assms by simp
next
  case False
  let ?r = "type_basic_loop n E ln 0 [None, None, None] 0 [] t st n"
  have keeps: "ends E False (\<lambda>(t', st', rel). type_ok t' \<and> symtab_rep (SymtabVariable st') xs \<and> niveauComp st' = niveauComp st) ?r"
    by (rule basic_loop_keeps [OF assms(1,2)])
  show ?thesis
  proof (cases ?r)
    case (Inl e)
    then show ?thesis using keeps False by (simp add: f_TypeBasic_def type_basic_def)
  next
    case (Inr r)
    obtain t' st' rel where r: "r = (t', st', rel)" by (cases r)
    have "released_once rel \<or> knows_class E"
      using basic_loop_releases [OF Inr [unfolded r]] by (auto simp: knows_class_def visited_def)
    then have "distinct rel \<or> knows_class E" using released_distinct by blast
    then show ?thesis using keeps False Inr r by (auto simp: f_TypeBasic_def type_basic_def logged_any)
  qed
qed

text \<open>What a lookup may answer.\<close>

definition found_ok :: "bool \<Rightarrow> int option \<Rightarrow> found \<Rightarrow> bool" where
  "found_ok b lv r \<longleftrightarrow>
     (\<forall>sc def. f_symbol r = Some (PAF_MACRO_DEF, sc, def) \<longrightarrow> object_ok (take 999 def) \<and> (b \<longrightarrow> def = [])) \<and>
     (b \<longrightarrow> level_ok lv r)"

definition not_local :: "int option \<Rightarrow> bool" where
  "not_local lv \<longleftrightarrow> lv = None \<or> lv = Some PAF_REF_SCOPE_GLOBAL"

lemma level_global: "not_local lv \<Longrightarrow> level_ok lv \<lparr>f_type = t, f_symbol = y, f_level = PAF_REF_SCOPE_GLOBAL\<rparr>"
  by (auto simp: not_local_def level_ok_def PAF_REF_SCOPE_GLOBAL_def PAF_REF_SCOPE_LOCAL_def)

lemma my_Get_symbol_asks:
  "my_Get_symbol E sg sc w args = Some r \<Longrightarrow> \<exists>sg sc w args. db_symbol E sg sc w args False = Some r"
  by (auto simp: my_Get_symbol_def Let_def split: option.splits if_splits)

lemma answer_ok:
  assumes "my_Get_symbol E sg sc w args = Some (paf, sc', ty, def)" "macros_ok E" "b \<longrightarrow> plain_db E N \<and> N \<le> n"
  shows "b \<longrightarrow> not_local lv \<Longrightarrow>
      found_ok b lv \<lparr>f_type = t, f_symbol = Some (paf, sc', def), f_level = PAF_REF_SCOPE_GLOBAL\<rparr>"
    and "ends E b (opt_ok type_ok) (f_TypeFromString n (cur_lineno E) ty)"
proof -
  obtain sg sc w args where r: "db_symbol E sg sc w args False = Some (paf, sc', ty, def)"
    using my_Get_symbol_asks [OF assms(1)] by blast
  then show "found_ok b lv \<lparr>f_type = t, f_symbol = Some (paf, sc', def), f_level = PAF_REF_SCOPE_GLOBAL\<rparr>"
    if "b \<longrightarrow> not_local lv"
    using assms(2,3) that by (auto simp: found_ok_def macros_ok_def plain_db_def level_global)
  show "ends E b (opt_ok type_ok) (f_TypeFromString n (cur_lineno E) ty)"
  proof (cases b)
    case True
    then obtain u where "f_TypeFromString n (cur_lineno E) ty = Inr u" using r assms(3) by (fastforce simp: plain_db_def)
    then show ?thesis using string_type_ok [of E n "cur_lineno E" ty] by simp
  qed (use string_type_any [of b E n "cur_lineno E" ty] in simp)
qed

text \<open>The names that have a variable in scope.\<close>

definition scoped :: "Type chains \<Rightarrow> string \<Rightarrow> bool" where
  "scoped xs w \<longleftrightarrow> chain xs w \<noteq> []"

lemma variable_ends:
  fixes st :: "'c xstate"
  assumes "symtab_rep (SymtabVariable st) xs" "NUL \<notin> set w" "macros_ok E" "b \<longrightarrow> plain_db E N \<and> N \<le> n" "k \<longrightarrow> sc = None"
  shows "ends E b (post b xs [] (found_ok b (level_of (scoped xs) k w)) st) (get_variable_type n E sg sc w p st)"
proof -
  let ?lv = "level_of (scoped xs) k w"
  have here: "ends E b (post b xs [] (\<lambda>r. if r = None then k \<longrightarrow> \<not> scoped xs w else k \<longrightarrow> scoped xs w) st) (if sc \<noteq> None then Inr (None, st)
      else sbind (SymtabFind (SymtabVariable st) w) (\<lambda>(r, S). Inr (r, st\<lparr>SymtabVariable := S\<rparr>)))"
    using find_chain [OF assms(1,2)] assms(1,5) by (auto simp: logged_def scoped_def split: list.splits prod.splits)
  have found: "found_ok b ?lv \<lparr>f_type = t, f_symbol = Some (PAF_LOCAL_VAR_DEF, s, d), f_level = PAF_REF_SCOPE_LOCAL\<rparr>"
    if "k \<longrightarrow> scoped xs w" for t s d
    using that by (auto simp: found_ok_def level_ok_def level_of_def)
  have rest: "ends E b (post b xs [] (found_ok b ?lv) st1)
      (case my_Get_symbol E sg sc w None of
         None \<Rightarrow>
           Inr (\<lparr>f_type = f_TypeCreateUnknown, f_symbol = None, f_level = PAF_REF_SCOPE_GLOBAL\<rparr>, mark (CHR ''u'') p st1)
       | Some (paf, sc, ty, def) \<Rightarrow>
           sbind (f_TypeFromString n (cur_lineno E) ty) (\<lambda>t.
           sbind
             (case t of
                None \<Rightarrow> Inr (f_TypeCreateInt, mark (CHR ''g'') p st1)
              | Some t \<Rightarrow> f_TypeBasic n E (Some t) (plineno_beg p) (mark (CHR ''g'') p st1)) (\<lambda>(t, st).
           Inr (\<lparr>f_type = t, f_symbol = Some (paf, sc, def), f_level = PAF_REF_SCOPE_GLOBAL\<rparr>, st))))"
    if st1: "symtab_rep (SymtabVariable st1) xs" and "k \<longrightarrow> \<not> scoped xs w" for st1 :: "'c xstate"
  proof (intro ends_option ends_prod)
    have lv: "not_local ?lv" using that(2) by (simp add: level_of_def not_local_def)
    then show "ends E b (post b xs [] (found_ok b ?lv) st1)
        (Inr (\<lparr>f_type = f_TypeCreateUnknown, f_symbol = None, f_level = PAF_REF_SCOPE_GLOBAL\<rparr>, mark (CHR ''u'') p st1))"
      using st1 by (simp add: found_ok_def level_global)
    fix a paf y sc' z ty def
    assume "my_Get_symbol E sg sc w None = Some a" "a = (paf, y)" "y = (sc', z)" "z = (ty, def)"
    then have "my_Get_symbol E sg sc w None = Some (paf, sc', ty, def)" by simp
    note ok = answer_ok [OF this assms(3,4)]
    show "ends E b (post b xs [] (found_ok b ?lv) st1)
        (sbind (f_TypeFromString n (cur_lineno E) ty) (\<lambda>t.
         sbind (case t of None \<Rightarrow> Inr (f_TypeCreateInt, mark (CHR ''g'') p st1)
             | Some t \<Rightarrow> f_TypeBasic n E (Some t) (plineno_beg p) (mark (CHR ''g'') p st1)) (\<lambda>(t, st).
         Inr (\<lparr>f_type = t, f_symbol = Some (paf, sc', def), f_level = PAF_REF_SCOPE_GLOBAL\<rparr>, st))))"
    proof (rule ends_bind [OF ok(2)])
      fix t assume t: "opt_ok type_ok t"
      have basic: "ends E b (post b xs [] (\<lambda>_. True) st1) (case t of None \<Rightarrow> Inr (f_TypeCreateInt, mark (CHR ''g'') p st1)
             | Some t \<Rightarrow> f_TypeBasic n E (Some t) (plineno_beg p) (mark (CHR ''g'') p st1))"
      proof (cases t)
        case None
        then show ?thesis using st1 by simp
      next
        case (Some u)
        have "ends E b (post b xs [] (\<lambda>t'. type_ok t' \<and> (b \<longrightarrow> t' = u)) (mark (CHR ''g'') p st1))
            (f_TypeBasic n E (Some u) (plineno_beg p) (mark (CHR ''g'') p st1))"
          by (rule TypeBasic_ends) (use st1 t Some assms(4) in auto)
        then show ?thesis unfolding Some by (auto simp: logged_def elim!: ends_mono)
      qed
      show "ends E b (post b xs [] (found_ok b ?lv) st1)
         (sbind (case t of None \<Rightarrow> Inr (f_TypeCreateInt, mark (CHR ''g'') p st1)
             | Some t \<Rightarrow> f_TypeBasic n E (Some t) (plineno_beg p) (mark (CHR ''g'') p st1)) (\<lambda>(t, st).
         Inr (\<lparr>f_type = t, f_symbol = Some (paf, sc', def), f_level = PAF_REF_SCOPE_GLOBAL\<rparr>, st)))"
        by (rule ends_last [OF basic]) (use ok(1) lv in simp)
    qed
  qed
  show ?thesis unfolding get_variable_type_def
    by (rule ends_quiet [OF here], rule ends_option) (rule rest, simp_all add: found)
qed

lemma function_ends:
  assumes "symtab_rep (SymtabVariable st) xs" "macros_ok E" "b \<longrightarrow> plain_db E N \<and> N \<le> n"
  shows "ends E b (post b xs [] (found_ok b (Some PAF_REF_SCOPE_GLOBAL)) st) (get_function_type n E sg sc w args p st)"
  unfolding get_function_type_def
proof (intro ends_option ends_prod)
  fix a paf y sc' z ty def
  assume "my_Get_symbol E sg sc w (Some args) = Some a" "a = (paf, y)" "y = (sc', z)" "z = (ty, def)"
  then have "my_Get_symbol E sg sc w (Some args) = Some (paf, sc', ty, def)" by simp
  note ok = answer_ok [OF this assms(2,3)]
  show "ends E b (post b xs [] (found_ok b (Some PAF_REF_SCOPE_GLOBAL)) st) (sbind (f_TypeFromString n (cur_lineno E) ty) (\<lambda>t.
          Inr (\<lparr>f_type = (case t of None \<Rightarrow> f_TypeCreateInt | Some t \<Rightarrow> t), f_symbol = Some (paf, sc', def),
                f_level = PAF_REF_SCOPE_GLOBAL\<rparr>, mark (CHR ''g'') p st)))"
    by (rule ends_bind [OF ok(2)]) (use ok(1) assms(1) in \<open>simp add: not_local_def\<close>)
qed (use assms(1) in \<open>simp add: found_ok_def level_global not_local_def\<close>)

section \<open>Chains of macros\<close>

lemma colons_ok:
  assumes "object_ok w"
  shows "\<exists>sc. get_scope w = Inr sc" "NUL \<notin> set (get_name w)"
  using assms by (auto simp: object_ok_def get_scope_def get_name_def split: option.split nat.split dest: in_set_dropD)

lemma macro_chain_ends:
  fixes st :: "'c xstate"
  assumes look: "\<And>sg w st. NUL \<notin> set w \<Longrightarrow> symtab_rep (SymtabVariable st) xs \<Longrightarrow> ends E b (post b xs [] (found_ok b (lv w)) st) (look sg w st)"
    and "object_ok w" "symtab_rep (SymtabVariable st) xs" "b \<longrightarrow> 0 < k"
  shows "ends E b (post b xs [] (\<lambda>r. object_ok (ce_object r) \<and> (b \<longrightarrow> ce_object r = w \<and> ce_name r = get_name w \<and> level_ok (lv (get_name w)) (ce_found r))) st)
    (macro_chain E look args ln met w st k)"
  using assms(2-)
proof (induction k arbitrary: met w st)
  case (Suc k)
  obtain sc where sc: "get_scope w = Inr sc" "NUL \<notin> set (get_name w)" using colons_ok [OF Suc.prems(1)] by blast
  show ?case unfolding macro_chain.simps(2) sc(1) sbind_simps Let_def
  proof (rule ends_quiet [OF look [OF sc(2) Suc.prems(2)]], intro ends_option ends_prod ends_if)
    fix r s paf y sc' def and st1 :: "'c xstate"
    assume r: "found_ok b (lv (get_name w)) r" "f_symbol r = Some s" "s = (paf, y)" "y = (sc', def)"
      "paf = PAF_MACRO_DEF \<and> def \<noteq> [] \<and> def \<notin> set (if met = [] then [w] else met)"
      and st1: "symtab_rep (SymtabVariable st1) xs"
    then have def: "object_ok (take 999 def)" "\<not> b" by (auto simp: found_ok_def)
    let ?st = "if met = [] then Put_cross_ref E paf (f_level r) (Some (scope_g E)) (Some sc') (get_name w) args ln PAF_REF_READ st1
      else st1"
    have "ends E b (post b xs [] (\<lambda>r. object_ok (ce_object r) \<and> (b \<longrightarrow> ce_object r = take 999 def \<and> ce_name r = get_name (take 999 def) \<and>
        level_ok (lv (get_name (take 999 def))) (ce_found r))) ?st)
        (macro_chain E look args ln (def # (if met = [] then [w] else met)) (take 999 def) ?st k)"
      by (rule Suc.IH) (use def st1 in auto)
    then show "ends E b (post b xs [] (\<lambda>r. object_ok (ce_object r) \<and> (b \<longrightarrow> ce_object r = w \<and> ce_name r = get_name w \<and> level_ok (lv (get_name w)) (ce_found r))) st1)
        (macro_chain E look args ln (def # (if met = [] then [w] else met)) (take 999 def) ?st k)"
      by (rule ends_mono) (use def(2) in \<open>auto simp: logged_def\<close>)
  qed (use Suc.prems in \<open>auto simp: found_ok_def\<close>)
qed simp

section \<open>One node\<close>

definition proc_ok :: "bool \<Rightarrow> bool \<Rightarrow> Expr \<Rightarrow> proc \<Rightarrow> bool" where
  "proc_ok b call x p \<longleftrightarrow>
     (pr_type p = None \<longrightarrow> call \<and> pr_name p \<noteq> None) \<and> opt_ok object_ok (pr_name p) \<and>
     (b \<longrightarrow> callee x = map_option (\<lambda>w. (w, plineno_beg (pr_place p))) (pr_name p))"

definition enough :: "bool \<Rightarrow> xenv \<Rightarrow> nat \<Rightarrow> nat \<Rightarrow> nat \<Rightarrow> bool" where
  "enough b E N m n \<longleftrightarrow> (b \<longrightarrow> plain_db E N \<and> m + N \<le> n)"

definition walker_ok :: "xenv \<Rightarrow> nat \<Rightarrow> Type chains \<Rightarrow> nat \<Rightarrow> 'c walker \<Rightarrow> bool" where
  "walker_ok E N xs n W \<longleftrightarrow>
     (\<forall>b st. symtab_rep (SymtabVariable st) xs \<longrightarrow>
       (\<forall>x k a sc call pass. (k \<longrightarrow> sc = None) \<longrightarrow> expr_ok x \<longrightarrow> enough b E N (size x) n \<longrightarrow>
          ends E b (post b xs (expr_uses (scoped xs) k a call pass x) (proc_ok b call x) st) (w_expr W (Some x) a sc call pass st)) \<and>
       (\<forall>d. declarator_ok d \<longrightarrow> enough b E N (size d) n \<longrightarrow>
          ends E b (logged b xs (declarator_uses (scoped xs) d) st) (w_declarator W d st)) \<and>
       (\<forall>i. init_ok i \<longrightarrow> enough b E N (size i) n \<longrightarrow> ends E b (logged b xs (init_uses (scoped xs) i) st) (w_init W i st)) \<and>
       (\<forall>d. declaration_ok d \<longrightarrow> enough b E N (size d) n \<longrightarrow>
          ends E b (logged b xs (declaration_uses (scoped xs) d) st) (w_declaration W d False st)))"

lemma walker_okD:
  assumes "walker_ok E N xs n W" "symtab_rep (SymtabVariable st) xs"
  shows "k \<longrightarrow> sc = None \<Longrightarrow> expr_ok x \<Longrightarrow> enough b E N (size x) n \<Longrightarrow>
      ends E b (post b xs (expr_uses (scoped xs) k a call pass x) (proc_ok b call x) st) (w_expr W (Some x) a sc call pass st)"
    and "declarator_ok d \<Longrightarrow> enough b E N (size d) n \<Longrightarrow> ends E b (logged b xs (declarator_uses (scoped xs) d) st) (w_declarator W d st)"
    and "init_ok i \<Longrightarrow> enough b E N (size i) n \<Longrightarrow> ends E b (logged b xs (init_uses (scoped xs) i) st) (w_init W i st)"
    and "declaration_ok c \<Longrightarrow> enough b E N (size c) n \<Longrightarrow>
      ends E b (logged b xs (declaration_uses (scoped xs) c) st) (w_declaration W c False st)"
  using assms unfolding walker_ok_def by blast+

lemma enough_less: "enough b E N m (Suc n) \<Longrightarrow> k < m \<Longrightarrow> enough b E N k n"
  by (auto simp: enough_def)

lemma enough_fuel: "enough b E N m (Suc n) \<Longrightarrow> 0 < m \<Longrightarrow> b \<longrightarrow> plain_db E N \<and> N \<le> n"
  by (auto simp: enough_def)

lemma size_elems: "y \<in> set (elems l) \<Longrightarrow> size y < Suc (size_option (size_list size) l)"
  using size_list_estimation' [of y "elems l" "size y" size] by (cases l) simp_all

lemma proc_typed [simp]: "proc_ok b call x (typed t) \<longleftrightarrow> t \<noteq> None \<and> (b \<longrightarrow> callee x = None)"
  by (auto simp: proc_ok_def typed_def)

lemma typed_simps [simp]: "pr_type (typed t) = t" "pr_name (typed t) = None"
  by (simp_all add: typed_def)

lemma proc_type: "proc_ok b False x p \<Longrightarrow> \<exists>t. pr_type p = Some t"
  by (cases "pr_type p") (simp_all add: proc_ok_def)

lemma paf_access_code: "paf_access a pass = acc_code a pass"
  by (cases a) (simp add: paf_access_def acc_code_def PAF_REF_WRITE_def PAF_REF_READ_def PAF_REF_PASS_def)

lemma operator_call_ends:
  assumes "symtab_rep (SymtabVariable st) xs" "b \<longrightarrow> plain_db E N"
  shows "ends E b (post b xs [] (\<lambda>t. b \<longrightarrow> t = None) st) (f_OperatorCall2 n E w t1 t2 a st)"
proof (cases b)
  case True
  then show ?thesis using assms by (simp add: f_OperatorCall2_def Let_def plain_db_def)
next
  case False
  show ?thesis unfolding f_OperatorCall2_def Let_def
    by (intro ends_split ends_bind [OF string_type_any [OF False]]) (use assms False in \<open>auto simp: logged_def\<close>)
qed

lemma plain: "True \<longrightarrow> None = None" and not_plain: "False \<longrightarrow> sc = None"
  by simp_all

lemma exprlist_ends:
  assumes "walker_ok E N xs n W" "list_all expr_ok l" "\<forall>x \<in> set l. enough b E N (size x) n" "symtab_rep (SymtabVariable st) xs"
  shows "ends E b (post b xs (concat (map (expr_uses (scoped xs) True READ False pass) l)) (\<lambda>_. True) st) (exprlist_loop W pass l args st)"
  using assms(2-)
proof (induction l arbitrary: args st)
  case (Cons x l)
  show ?case unfolding exprlist_loop.simps Let_def list.map concat.simps
    by (rule ends_then [OF walker_okD(1) [OF assms(1) Cons.prems(3) plain]])
      (use Cons in \<open>auto intro!: Cons.IH\<close>)
qed simp

lemma f_exprlist_ends:
  assumes "walker_ok E N xs n W" "list_all expr_ok (elems l)" "\<forall>x \<in> set (elems l). enough b E N (size x) n"
    "symtab_rep (SymtabVariable st) xs"
  shows "ends E b (post b xs (concat (map (expr_uses (scoped xs) True READ False pass) (elems l))) (\<lambda>_. True) st) (f_exprlist W l pass st)"
  using exprlist_ends [OF assms, of pass None] unfolding f_exprlist_def ends_map_sum by (auto elim!: ends_mono)

section \<open>The operators\<close>

lemmas shape_defs = arity_def with_list_def operand1_def operand2_def assigns_def steps_def members_def selectors_def

lemma binary_shape:
  assumes "binary_operator op = Some (w, a', d)"
  shows "arity op = 2" "operand1 op a = a'" "op \<notin> members \<union> selectors" "op \<notin> with_list"
    "op \<notin> {OPERATOR_NAME, OPERATOR_TYPE, OPERATOR_CAST, OPERATOR_NEW, OPERATOR_FUNCTION_CALL}"
proof -
  have "arity op = 2 \<and> operand1 op a = a' \<and> op \<notin> members \<union> selectors \<and> op \<notin> with_list \<and>
    op \<notin> {OPERATOR_NAME, OPERATOR_TYPE, OPERATOR_CAST, OPERATOR_NEW, OPERATOR_FUNCTION_CALL}"
  proof (cases op)
    case (Op q)
    then show ?thesis using assms by (cases q) (simp_all add: binary_operator_def shape_defs)
  qed (use assms in \<open>simp_all add: binary_operator_def shape_defs\<close>)
  then show "arity op = 2" "operand1 op a = a'" "op \<notin> members \<union> selectors" "op \<notin> with_list"
    "op \<notin> {OPERATOR_NAME, OPERATOR_TYPE, OPERATOR_CAST, OPERATOR_NEW, OPERATOR_FUNCTION_CALL}" by blast+
qed

lemma unary_shape:
  assumes "unary_operator op a = Some (a', g)"
  shows "arity op = 1" "operand1 op a = a'" "op \<notin> members \<union> selectors" "op \<notin> with_list"
    "op \<notin> {OPERATOR_NAME, OPERATOR_TYPE, OPERATOR_CAST, OPERATOR_NEW, OPERATOR_FUNCTION_CALL}"
    "\<exists>u. g (Some t) = Inr (Some u)"
proof -
  have "arity op = 1 \<and> operand1 op a = a' \<and> op \<notin> members \<union> selectors \<and> op \<notin> with_list \<and>
    op \<notin> {OPERATOR_NAME, OPERATOR_TYPE, OPERATOR_CAST, OPERATOR_NEW, OPERATOR_FUNCTION_CALL} \<and>
    (\<exists>u. g (Some t) = Inr (Some u))"
  proof (cases op)
    case (Op q)
    then show ?thesis using assms by (cases q) (auto simp: unary_operator_def shape_defs)
  qed (use assms in \<open>auto simp: unary_operator_def shape_defs f_TypeDelPointer_def f_TypeAddPointer_def\<close>)
  then show "arity op = 1" "operand1 op a = a'" "op \<notin> members \<union> selectors" "op \<notin> with_list"
    "op \<notin> {OPERATOR_NAME, OPERATOR_TYPE, OPERATOR_CAST, OPERATOR_NEW, OPERATOR_FUNCTION_CALL}"
    "\<exists>u. g (Some t) = Inr (Some u)" by blast+
qed

lemma other_operators:
  assumes "binary_operator op = None" "unary_operator op a = None" "member_operator op = None" "op \<notin> members"
  shows "op \<in> {Op OPERATOR_CONDITIONAL, OPERATOR_CAST, OPERATOR_ARRAY, OPERATOR_FUNCTION_CALL, OPERATOR_CONSTRUCTOR_CALL,
    OPERATOR_NEW, OPERATOR_DELETE, OPERATOR_NAME, OPERATOR_TYPE}"
proof (cases op)
  case (Op q)
  then show ?thesis using assms by (cases q) (simp_all add: binary_operator_def unary_operator_def)
qed (use assms in \<open>simp_all add: binary_operator_def unary_operator_def member_operator_def members_def\<close>)

text \<open>The operands of a node.\<close>

lemma operand_ok:
  assumes "expr_ok (Expr op nm ty x1 x2 x3 i l p)" "enough b E N (size (Expr op nm ty x1 x2 x3 i l p)) (Suc n)"
  shows "op \<notin> {OPERATOR_NAME, OPERATOR_TYPE} \<Longrightarrow> \<exists>y. x1 = Some y \<and> expr_ok y \<and> enough b E N (size y) n"
    and "op \<notin> {OPERATOR_NAME, OPERATOR_TYPE} \<Longrightarrow> 2 \<le> arity op \<Longrightarrow> \<exists>y. x2 = Some y \<and> expr_ok y \<and> enough b E N (size y) n"
    and "op \<notin> {OPERATOR_NAME, OPERATOR_TYPE} \<Longrightarrow> 3 \<le> arity op \<Longrightarrow> \<exists>y. x3 = Some y \<and> expr_ok y \<and> enough b E N (size y) n"
    and "op \<in> with_list \<Longrightarrow> list_all expr_ok (elems l) \<and> (\<forall>y \<in> set (elems l). enough b E N (size y) n)"
    and "op = OPERATOR_NEW \<Longrightarrow> opt_ok init_ok i \<and> opt_ok (\<lambda>i. enough b E N (size i) n) i"
    and "op = OPERATOR_TYPE \<Longrightarrow> \<exists>t. ty = Some t \<and> type_ok t \<and> opt_ok (\<lambda>d. enough b E N (size d) n) (t_declarator t)"
  using assms
proof -
  note less = enough_less [OF assms(2)]
  show "op \<notin> {OPERATOR_NAME, OPERATOR_TYPE} \<Longrightarrow> \<exists>y. x1 = Some y \<and> expr_ok y \<and> enough b E N (size y) n"
    using assms(1) by (cases x1) (auto intro: less)
  show "op \<notin> {OPERATOR_NAME, OPERATOR_TYPE} \<Longrightarrow> 2 \<le> arity op \<Longrightarrow> \<exists>y. x2 = Some y \<and> expr_ok y \<and> enough b E N (size y) n"
    using assms(1) by (cases x2) (auto intro: less)
  show "op \<notin> {OPERATOR_NAME, OPERATOR_TYPE} \<Longrightarrow> 3 \<le> arity op \<Longrightarrow> \<exists>y. x3 = Some y \<and> expr_ok y \<and> enough b E N (size y) n"
    using assms(1) by (cases x3) (auto intro: less)
  show "list_all expr_ok (elems l) \<and> (\<forall>y \<in> set (elems l). enough b E N (size y) n)" if "op \<in> with_list"
  proof -
    have "op \<notin> {OPERATOR_NAME, OPERATOR_TYPE}" using that by (auto simp: with_list_def)
    moreover have "enough b E N (size y) n" if "y \<in> set (elems l)" for y using size_elems [OF that] by (intro less) simp
    ultimately show ?thesis using assms(1) that by (simp add: list_ok)
  qed
  show "op = OPERATOR_NEW \<Longrightarrow> opt_ok init_ok i \<and> opt_ok (\<lambda>i. enough b E N (size i) n) i"
    using assms(1) by (cases i) (auto intro: less)
  show "op = OPERATOR_TYPE \<Longrightarrow> \<exists>t. ty = Some t \<and> type_ok t \<and> opt_ok (\<lambda>d. enough b E N (size d) n) (t_declarator t)"
    using assms(1) by (auto simp: opt_ok_def split: option.splits Type.splits intro!: less)
qed

section \<open>Each operator\<close>

lemma binary_step:
  assumes W: "walker_ok E N xs n W" and st: "symtab_rep (SymtabVariable st) xs"
    and K: "k \<longrightarrow> sc = None"
    and ok: "expr_ok (Expr op nm ty x1 x2 x3 i l p)" "enough b E N (size (Expr op nm ty x1 x2 x3 i l p)) (Suc n)"
    and op: "binary_operator op = Some (w, a', d)"
  shows "ends E b (post b xs (expr_uses (scoped xs) k a call pass (Expr op nm ty x1 x2 x3 i l p)) (proc_ok b call (Expr op nm ty x1 x2 x3 i l p)) st)
    (binary_expr W n E (w, a', d) x1 x2 a sc pass st)"
proof -
  note shape = binary_shape [OF op]
  obtain y1 y2 where y: "x1 = Some y1" "expr_ok y1" "enough b E N (size y1) n" "x2 = Some y2" "expr_ok y2" "enough b E N (size y2) n"
    using operand_ok(1,2) [OF ok] shape by auto
  have uses: "expr_uses (scoped xs) k a call pass (Expr op nm ty x1 x2 x3 i l p) = expr_uses (scoped xs) k a' False pass y1 @ expr_uses (scoped xs) k READ False pass y2"
    using shape by (simp add: y operand2_def)
  have db: "b \<longrightarrow> plain_db E N" using ok(2) by (simp add: enough_def)
  show ?thesis unfolding uses unfolding binary_expr_def prod.case y(1,4)
  proof (rule ends_then [OF walker_okD(1) [OF W st K y(2,3)]], rule ends_last [OF walker_okD(1) [OF W _ K y(5,6)]], assumption)
    fix p1 st1 p2 and st2 :: "'a xstate"
    assume p: "proc_ok b False y1 p1" "proc_ok b False y2 p2" and st2: "symtab_rep (SymtabVariable st2) xs"
    have "callee (Expr op nm ty (Some y1) (Some y2) x3 i l p) = None" using shape by simp
    then show "ends E b (post b xs [] (proc_ok b call (Expr op nm ty (Some y1) (Some y2) x3 i l p)) st2)
      (sbind (f_OperatorCall2 n E w (pr_type p1) (pr_type p2) a st2) (\<lambda>(t, st).
        Inr (typed (if t \<noteq> None then t
          else case d of LeftType \<Rightarrow> pr_type p1 | RightType \<Rightarrow> pr_type p2 | IntType \<Rightarrow> Some f_TypeCreateInt), st)))"
      using proc_type [OF p(1)] proc_type [OF p(2)]
      by (intro ends_last [OF operator_call_ends [OF st2 db]]) (auto split: bin_default.split)
  qed
qed

lemma unary_step:
  assumes W: "walker_ok E N xs n W" and st: "symtab_rep (SymtabVariable st) xs"
    and K: "k \<longrightarrow> sc = None"
    and ok: "expr_ok (Expr op nm ty x1 x2 x3 i l p)" "enough b E N (size (Expr op nm ty x1 x2 x3 i l p)) (Suc n)"
    and op: "unary_operator op a = Some (a', g)"
  shows "ends E b (post b xs (expr_uses (scoped xs) k a call pass (Expr op nm ty x1 x2 x3 i l p)) (proc_ok b call (Expr op nm ty x1 x2 x3 i l p)) st)
    (sbind (w_expr W x1 a' sc False pass st) (\<lambda>(p1, st). sbind (g (pr_type p1)) (\<lambda>t. Inr (typed t, st))))"
proof -
  note shape = unary_shape [OF op]
  obtain y where y: "x1 = Some y" "expr_ok y" "enough b E N (size y) n"
    using operand_ok(1) [OF ok] shape(5) by auto
  have uses: "expr_uses (scoped xs) k a call pass (Expr op nm ty x1 x2 x3 i l p) = expr_uses (scoped xs) k a' False pass y"
    using shape by (simp add: y)
  show ?thesis unfolding uses unfolding y(1)
  proof (rule ends_last [OF walker_okD(1) [OF W st K y(2,3)]])
    fix p1 and st1 :: "'a xstate"
    assume "proc_ok b False y p1" and st1: "symtab_rep (SymtabVariable st1) xs"
    then obtain t where t: "pr_type p1 = Some t" using proc_type by blast
    have "callee (Expr op nm ty (Some y) x2 x3 i l p) = None" using shape(3,5) by simp
    then show "ends E b (post b xs [] (proc_ok b call (Expr op nm ty (Some y) x2 x3 i l p)) st1)
        (sbind (g (pr_type p1)) (\<lambda>t. Inr (typed t, st1)))"
      using shape(6) [of t] st1 by (auto simp: t)
  qed
qed

lemma TypeDelPointer_None [simp]: "f_TypeDelPointer t = None \<longleftrightarrow> t = None"
  by (simp add: f_TypeDelPointer_def)

lemma member_step:
  assumes W: "walker_ok E N xs n W" and st: "symtab_rep (SymtabVariable st) xs"
    and K: "k \<longrightarrow> sc = None"
    and ok: "expr_ok (Expr op nm ty x1 x2 x3 i l p)" "enough b E N (size (Expr op nm ty x1 x2 x3 i l p)) (Suc n)"
    and op: "member_operator op = Some w"
  shows "ends E b (post b xs (expr_uses (scoped xs) k a call pass (Expr op nm ty x1 x2 x3 i l p)) (proc_ok b call (Expr op nm ty x1 x2 x3 i l p)) st)
    (sbind (w_expr W x1 READ sc False pass st) (\<lambda>(p1, st).
     sbind (w_expr W x2 READ (f_TypeToScope (pr_type p1)) False pass st) (\<lambda>(p2, st).
     sbind (f_OperatorCall2 n E w (pr_type p1) (pr_type p2) a st) (\<lambda>(t, st).
     Inr (typed (f_TypeDelPointer (if t \<noteq> None then t else pr_type p2)), st)))))"
proof -
  have shape: "op \<in> selectors" "arity op = 2" "op \<notin> assigns \<union> steps \<union> members \<union> with_list \<union> {OPERATOR_STAR, OPERATOR_ET, OPERATOR_ARRAY}"
    "op \<notin> {OPERATOR_NAME, OPERATOR_TYPE, OPERATOR_CAST, OPERATOR_NEW, OPERATOR_FUNCTION_CALL}"
    using op by (auto simp: member_operator_def shape_defs split: xoperator.splits)
  obtain y1 y2 where y: "x1 = Some y1" "expr_ok y1" "enough b E N (size y1) n" "x2 = Some y2" "expr_ok y2" "enough b E N (size y2) n"
    using operand_ok(1,2) [OF ok] shape by auto
  have uses: "expr_uses (scoped xs) k a call pass (Expr op nm ty x1 x2 x3 i l p) = expr_uses (scoped xs) k READ False pass y1 @ expr_uses (scoped xs) False READ False pass y2"
    using shape by (simp add: y operand1_def operand2_def)
  have db: "b \<longrightarrow> plain_db E N" using ok(2) by (simp add: enough_def)
  show ?thesis unfolding uses unfolding y(1,4)
  proof (rule ends_then [OF walker_okD(1) [OF W st K y(2,3)]], rule ends_last [OF walker_okD(1) [OF W _ not_plain y(5,6)]], assumption)
    fix p1 st1 p2 and st2 :: "'a xstate"
    assume p: "proc_ok b False y2 p2" and st2: "symtab_rep (SymtabVariable st2) xs"
    have "callee (Expr op nm ty (Some y1) (Some y2) x3 i l p) = None" using shape by simp
    then show "ends E b (post b xs [] (proc_ok b call (Expr op nm ty (Some y1) (Some y2) x3 i l p)) st2)
      (sbind (f_OperatorCall2 n E w (pr_type p1) (pr_type p2) a st2) (\<lambda>(t, st).
        Inr (typed (f_TypeDelPointer (if t \<noteq> None then t else pr_type p2)), st)))"
      using proc_type [OF p] by (intro ends_last [OF operator_call_ends [OF st2 db]]) auto
  qed
qed

lemma dot_step:
  assumes W: "walker_ok E N xs n W" and st: "symtab_rep (SymtabVariable st) xs"
    and K: "k \<longrightarrow> sc = None"
    and ok: "expr_ok (Expr op nm ty x1 x2 x3 i l p)" "enough b E N (size (Expr op nm ty x1 x2 x3 i l p)) (Suc n)"
    and op: "op \<in> members"
  shows "ends E b (post b xs (expr_uses (scoped xs) k a call pass (Expr op nm ty x1 x2 x3 i l p)) (proc_ok b call (Expr op nm ty x1 x2 x3 i l p)) st)
    (sbind (w_expr W x1 a sc False pass st) (\<lambda>(p1, st). w_expr W x2 a (f_TypeToScope (pr_type p1)) call pass st))"
proof -
  have shape: "op \<in> selectors" "arity op = 2" "op \<notin> assigns \<union> steps \<union> with_list"
    "op \<notin> {OPERATOR_NAME, OPERATOR_TYPE, OPERATOR_NEW, OPERATOR_FUNCTION_CALL}"
    using op by (auto simp: shape_defs)
  obtain y1 y2 where y: "x1 = Some y1" "expr_ok y1" "enough b E N (size y1) n" "x2 = Some y2" "expr_ok y2" "enough b E N (size y2) n"
    using operand_ok(1,2) [OF ok] shape by auto
  have uses: "expr_uses (scoped xs) k a call pass (Expr op nm ty x1 x2 x3 i l p) = expr_uses (scoped xs) k a False pass y1 @ expr_uses (scoped xs) False a call pass y2"
    using shape op by (simp add: y operand1_def operand2_def)
  have callee: "callee (Expr op nm ty x1 x2 x3 i l p) = callee y2" using shape op by (simp add: y)
  show ?thesis unfolding uses unfolding y(1,4)
  proof (rule ends_then [OF walker_okD(1) [OF W st K y(2,3)]])
    fix p1 and st1 :: "'a xstate"
    assume "symtab_rep (SymtabVariable st1) xs"
    from walker_okD(1) [OF W this not_plain y(5,6)]
    show "ends E b (post b xs (expr_uses (scoped xs) False a call pass y2) (proc_ok b call (Expr op nm ty (Some y1) (Some y2) x3 i l p)) st1)
        (w_expr W (Some y2) a (f_TypeToScope (pr_type p1)) call pass st1)"
      by (rule ends_mono) (use callee y in \<open>auto simp: proc_ok_def\<close>)
  qed
qed

lemma name_step:
  assumes M: "macros_ok E" and st: "symtab_rep (SymtabVariable st) xs"
    and K: "k \<longrightarrow> sc = None"
    and ok: "expr_ok (Expr OPERATOR_NAME nm ty x1 x2 x3 i l p)" "enough b E N (size (Expr OPERATOR_NAME nm ty x1 x2 x3 i l p)) (Suc n)"
  shows "ends E b (post b xs (expr_uses (scoped xs) k a call pass (Expr OPERATOR_NAME nm ty x1 x2 x3 i l p))
      (proc_ok b call (Expr OPERATOR_NAME nm ty x1 x2 x3 i l p)) st) (name_expr n E nm p a sc call pass st)"
proof -
  obtain w where w: "nm = Some w" "object_ok w" using ok(1) by (cases nm) auto
  have db: "b \<longrightarrow> plain_db E N \<and> N \<le> n" by (rule enough_fuel [OF ok(2)]) simp
  show ?thesis
  proof (cases call)
    case True
    then show ?thesis using st w by (simp add: name_expr_def proc_ok_def)
  next
    case False
    have uses: "expr_uses (scoped xs) k a call pass (Expr OPERATOR_NAME nm ty x1 x2 x3 i l p) = [] @ [(get_name w, plineno_beg p, acc_code a pass, level_of (scoped xs) k (get_name w))]"
      using False by (simp add: w)
    have fuel: "b \<longrightarrow> 0 < n" using db by (auto simp: plain_db_def)
    have look: "ends E b (post b xs [] (found_ok b (level_of (scoped xs) k w)) st) (get_variable_type n E sg sc w p st)"
      if "NUL \<notin> set w" "symtab_rep (SymtabVariable st) xs" for sg w and st :: "'a xstate"
      by (rule variable_ends [OF that(2,1) M db K])
    show ?thesis unfolding uses unfolding name_expr_def w(1) option.case if_not_P [OF False]
    proof (rule ends_then [OF macro_chain_ends [OF look w(2) st fuel]])
      fix r :: chain_end and st1 :: "'a xstate"
      assume r: "object_ok (ce_object r) \<and> (b \<longrightarrow> ce_object r = w \<and> ce_name r = get_name w \<and> level_ok (level_of (scoped xs) k (get_name w)) (ce_found r))"
        and st1: "symtab_rep (SymtabVariable st1) xs"
      show "ends E b (post b xs [(get_name w, plineno_beg p, acc_code a pass, level_of (scoped xs) k (get_name w))] (proc_ok b call (Expr OPERATOR_NAME (Some w) ty x1 x2 x3 i l p)) st1)
         (Inr (\<lparr>pr_type = Some (f_type (ce_found r)), pr_name = Some (ce_object r), pr_scope = sc, pr_place = p\<rparr>,
            put_use E r None (plineno_beg p) (paf_access a pass) False st1))"
        using put_use_logged [OF st1, of b "level_of (scoped xs) k (get_name w)" r "plineno_beg p" "acc_code a pass" E None False] r
        by (auto simp: proc_ok_def paf_access_code logged_def)
    qed
  qed
qed

lemma call_step:
  assumes W: "walker_ok E N xs n W" and M: "macros_ok E" and st: "symtab_rep (SymtabVariable st) xs"
    and K: "k \<longrightarrow> sc = None"
    and ok: "expr_ok (Expr OPERATOR_FUNCTION_CALL nm ty x1 x2 x3 i l p)"
      "enough b E N (size (Expr OPERATOR_FUNCTION_CALL nm ty x1 x2 x3 i l p)) (Suc n)"
  shows "ends E b (post b xs (expr_uses (scoped xs) k a call pass (Expr OPERATOR_FUNCTION_CALL nm ty x1 x2 x3 i l p))
      (proc_ok b call (Expr OPERATOR_FUNCTION_CALL nm ty x1 x2 x3 i l p)) st) (call_expr W n E x1 l a sc pass st)"
proof -
  have shape: "arity OPERATOR_FUNCTION_CALL = 1" "OPERATOR_FUNCTION_CALL \<in> with_list"
    "operand1 OPERATOR_FUNCTION_CALL a = READ" by (simp_all add: shape_defs)
  obtain y where y: "x1 = Some y" "expr_ok y" "enough b E N (size y) n" using operand_ok(1) [OF ok] by auto
  have l: "list_all expr_ok (elems l)" "\<forall>y \<in> set (elems l). enough b E N (size y) n"
    using operand_ok(4) [OF ok shape(2)] by blast+
  have uses: "expr_uses (scoped xs) k a call pass (Expr OPERATOR_FUNCTION_CALL nm ty x1 x2 x3 i l p) =
      expr_uses (scoped xs) k READ True pass y @ concat (map (expr_uses (scoped xs) True READ False True) (elems l)) @ call_use a pass y"
    using shape by (cases l) (simp_all add: y)
  have db: "b \<longrightarrow> plain_db E N \<and> N \<le> n" by (rule enough_fuel [OF ok(2)]) simp
  then have fuel: "b \<longrightarrow> 0 < n" by (auto simp: plain_db_def)
  have none: "callee (Expr OPERATOR_FUNCTION_CALL nm ty (Some y) x2 x3 i l p) = None" by (simp add: members_def)
  show ?thesis unfolding uses unfolding call_expr_def y(1)
  proof (rule ends_then [OF walker_okD(1) [OF W st K y(2,3)]], rule ends_then [OF f_exprlist_ends [OF W l]], assumption)
    fix p1 st1 args and st2 :: "'a xstate"
    assume p1: "proc_ok b True y p1" and st2: "symtab_rep (SymtabVariable st2) xs"
    show "ends E b (post b xs (call_use a pass y) (proc_ok b call (Expr OPERATOR_FUNCTION_CALL nm ty (Some y) x2 x3 i l p)) st2)
       (case pr_name p1 of
          None \<Rightarrow> sbind (f_TypeDelFunction (pr_type p1)) (\<lambda>t. Inr (typed (Some t), st2))
        | Some object \<Rightarrow>
            let ln = plineno_beg (pr_place p1) in
            sbind (macro_chain E (\<lambda>sg name st. get_function_type n E sg (pr_scope p1) name args (pr_place p1) st)
                     (Some args) ln [] object st2 n) (\<lambda>(r, st).
            Inr (typed (Some (f_type (ce_found r))), put_use E r (Some args) ln (paf_access a pass) True st)))"
    proof (cases "pr_name p1")
      case None
      then obtain t where "pr_type p1 = Some t" using p1 by (cases "pr_type p1") (simp_all add: proc_ok_def)
      then show ?thesis using None p1 st2 none by (auto simp: f_TypeDelFunction_def proc_ok_def call_use_def logged_def)
    next
      case (Some w)
      let ?ln = "plineno_beg (pr_place p1)"
      have w: "object_ok w" and c: "b \<longrightarrow> callee y = Some (w, ?ln)" using p1 Some by (simp_all add: proc_ok_def)
      have look: "ends E b (post b xs [] (found_ok b (Some PAF_REF_SCOPE_GLOBAL)) st) (get_function_type n E sg (pr_scope p1) w args (pr_place p1) st)"
        if "symtab_rep (SymtabVariable st) xs" for sg w and st :: "'a xstate"
        by (rule function_ends [OF that M db])
      show ?thesis unfolding Some option.case Let_def
      proof (rule ends_quiet [OF macro_chain_ends [OF look w st2 fuel]], assumption)
        fix r :: chain_end and st3 :: "'a xstate"
        assume r: "object_ok (ce_object r) \<and> (b \<longrightarrow> ce_object r = w \<and> ce_name r = get_name w \<and> level_ok (Some PAF_REF_SCOPE_GLOBAL) (ce_found r))"
          and st3: "symtab_rep (SymtabVariable st3) xs"
        show "ends E b (post b xs (call_use a pass y) (proc_ok b call (Expr OPERATOR_FUNCTION_CALL nm ty (Some y) x2 x3 i l p)) st3)
            (Inr (typed (Some (f_type (ce_found r))), put_use E r (Some args) ?ln (paf_access a pass) True st3))"
          using put_use_logged [OF st3, of b "Some PAF_REF_SCOPE_GLOBAL" r ?ln "acc_code a pass" E "Some args" True] r c none
          by (auto simp: paf_access_code call_use_def logged_def)
      qed
    qed
  qed
qed

lemma logged_False [simp]: "logged False xs us st st' \<longleftrightarrow> symtab_rep (SymtabVariable st') xs \<and> niveauComp st' = niveauComp st"
  by (simp add: logged_def)

lemma type_step:
  assumes W: "walker_ok E N xs n W" and st: "symtab_rep (SymtabVariable st) xs"
    and ok: "expr_ok (Expr OPERATOR_TYPE nm ty x1 x2 x3 i l p)" "enough b E N (size (Expr OPERATOR_TYPE nm ty x1 x2 x3 i l p)) (Suc n)"
  shows "ends E b (post b xs (expr_uses (scoped xs) k a call pass (Expr OPERATOR_TYPE nm ty x1 x2 x3 i l p))
      (proc_ok b call (Expr OPERATOR_TYPE nm ty x1 x2 x3 i l p)) st) (type_expr W n E ty (plineno_beg p) st)"
proof -
  obtain t where t: "ty = Some t" "type_ok t" "opt_ok (\<lambda>d. enough b E N (size d) n) (t_declarator t)"
    using operand_ok(6) [OF ok] by auto
  have uses: "expr_uses (scoped xs) k a call pass (Expr OPERATOR_TYPE nm ty x1 x2 x3 i l p) =
      (case t_declarator t of None \<Rightarrow> [] | Some d \<Rightarrow> declarator_uses (scoped xs) d)"
    by (cases t) (simp add: t)
  have db: "b \<longrightarrow> plain_db E N \<and> N \<le> n" by (rule enough_fuel [OF ok(2)]) simp
  have none: "callee (Expr OPERATOR_TYPE nm ty x1 x2 x3 i l p) = None" by (simp add: members_def)
  show ?thesis unfolding uses none type_expr_def
  proof (unfold t(1), rule ends_quiet [OF TypeBasic_ends [OF st t(2) db]])
    fix t' and st1 :: "'a xstate"
    assume t': "type_ok t' \<and> (b \<longrightarrow> t' = t)" and st1: "symtab_rep (SymtabVariable st1) xs"
    have "ends E b (logged b xs (case t_declarator t of None \<Rightarrow> [] | Some d \<Rightarrow> declarator_uses (scoped xs) d) st1)
        (case t_declarator t' of None \<Rightarrow> Inr st1 | Some d \<Rightarrow> w_declarator W d st1)"
    proof (cases "t_declarator t'")
      case None
      then show ?thesis using t' st1 by (cases b) auto
    next
      case (Some d)
      then have "declarator_ok d" "enough b E N (size d) n"
        using t' t(3) by (auto simp: type_ok_def enough_def)
      from walker_okD(2) [OF W st1 this] show ?thesis using t' Some by (cases b) (auto elim!: ends_mono)
    qed
    then show "ends E b (post b xs (case t_declarator t of None \<Rightarrow> [] | Some d \<Rightarrow> declarator_uses (scoped xs) d)
          (proc_ok b call (Expr OPERATOR_TYPE nm (Some t) x1 x2 x3 i l p)) st1)
        (sbind (case t_declarator t' of None \<Rightarrow> Inr st1 | Some d \<Rightarrow> w_declarator W d st1) (\<lambda>st. Inr (typed (Some t'), st)))"
      by (rule ends_bind) (use none in \<open>simp add: t\<close>)
  qed
qed

lemma put_members_logged:
  "symtab_rep (SymtabVariable st) xs \<Longrightarrow> b \<longrightarrow> plain_db E N \<Longrightarrow>
   logged b xs [] st (f_PutConstructorByNewOrDelete E t ln c d st)"
  by (cases b) (auto simp: f_PutConstructorByNewOrDelete_def put_members_def put_member_def plain_db_def Let_def
    split: option.split)

lemma new_step:
  assumes W: "walker_ok E N xs n W" and st: "symtab_rep (SymtabVariable st) xs"
    and K: "k \<longrightarrow> sc = None"
    and ok: "expr_ok (Expr OPERATOR_NEW nm ty x1 x2 x3 i l p)" "enough b E N (size (Expr OPERATOR_NEW nm ty x1 x2 x3 i l p)) (Suc n)"
  shows "ends E b (post b xs (expr_uses (scoped xs) k a call pass (Expr OPERATOR_NEW nm ty x1 x2 x3 i l p))
      (proc_ok b call (Expr OPERATOR_NEW nm ty x1 x2 x3 i l p)) st)
    (other_expr W n E (Expr OPERATOR_NEW nm ty x1 x2 x3 i l p) a sc call pass st)"
proof -
  have shape: "arity OPERATOR_NEW = 1" "OPERATOR_NEW \<in> with_list" "operand1 OPERATOR_NEW a = READ" by (simp_all add: shape_defs)
  obtain y where y: "x1 = Some y" "expr_ok y" "enough b E N (size y) n" using operand_ok(1) [OF ok] by auto
  have l: "list_all expr_ok (elems l)" "\<forall>y \<in> set (elems l). enough b E N (size y) n"
    using operand_ok(4) [OF ok shape(2)] by blast+
  have i: "opt_ok init_ok i" "opt_ok (\<lambda>i. enough b E N (size i) n) i" using operand_ok(5) [OF ok] by blast+
  have uses: "expr_uses (scoped xs) k a call pass (Expr OPERATOR_NEW nm ty x1 x2 x3 i l p) =
      expr_uses (scoped xs) k READ False pass y @ concat (map (expr_uses (scoped xs) True READ False True) (elems l)) @ (case i of None \<Rightarrow> [] | Some i \<Rightarrow> init_uses (scoped xs) i)"
    using shape by (cases l) (simp_all add: y)
  have db: "b \<longrightarrow> plain_db E N" using ok(2) by (simp add: enough_def)
  have none: "callee (Expr OPERATOR_NEW nm ty (Some y) x2 x3 i l p) = None" by (simp add: members_def)
  show ?thesis unfolding uses unfolding other_expr_def Expr.case xoperator.case y(1)
  proof (rule ends_then [OF walker_okD(1) [OF W st K y(2,3)]], rule ends_then [OF f_exprlist_ends [OF W l]], assumption,
      unfold option.case)
    fix p1 st1 args and st2 :: "'a xstate"
    assume p1: "proc_ok b False y p1" and st2: "symtab_rep (SymtabVariable st2) xs"
    let ?st = "f_PutConstructorByNewOrDelete E (pr_type p1) (plineno_beg (x_place y)) True False st2"
    have put: "logged b xs [] st2 ?st" by (rule put_members_logged [OF st2 db])
    have "ends E b (logged b xs (case i of None \<Rightarrow> [] | Some i \<Rightarrow> init_uses (scoped xs) i) ?st) ((case i of None \<Rightarrow> Inr | Some i \<Rightarrow> w_init W i) ?st)"
    proof (cases i)
      case None
      then show ?thesis using logged_rep [OF put] by simp
    next
      case (Some j)
      then show ?thesis using walker_okD(3) [OF W logged_rep [OF put]] i by simp
    qed
    then show "ends E b (post b xs (case i of None \<Rightarrow> [] | Some i \<Rightarrow> init_uses (scoped xs) i)
        (proc_ok b call (Expr OPERATOR_NEW nm ty (Some y) x2 x3 i l p)) st2)
       (sbind ((case i of None \<Rightarrow> Inr | Some i \<Rightarrow> w_init W i) ?st) (\<lambda>st. Inr (typed (pr_type p1), st)))"
      by (rule ends_bind) (use none logged_trans [OF put] proc_type [OF p1] in auto)
  qed
qed

lemma delete_step:
  assumes W: "walker_ok E N xs n W" and st: "symtab_rep (SymtabVariable st) xs"
    and K: "k \<longrightarrow> sc = None"
    and ok: "expr_ok (Expr OPERATOR_DELETE nm ty x1 x2 x3 i l p)" "enough b E N (size (Expr OPERATOR_DELETE nm ty x1 x2 x3 i l p)) (Suc n)"
  shows "ends E b (post b xs (expr_uses (scoped xs) k a call pass (Expr OPERATOR_DELETE nm ty x1 x2 x3 i l p))
      (proc_ok b call (Expr OPERATOR_DELETE nm ty x1 x2 x3 i l p)) st)
    (other_expr W n E (Expr OPERATOR_DELETE nm ty x1 x2 x3 i l p) a sc call pass st)"
proof -
  have shape: "arity OPERATOR_DELETE = 1" "OPERATOR_DELETE \<notin> with_list" "operand1 OPERATOR_DELETE a = READ"
    by (simp_all add: shape_defs)
  obtain y where y: "x1 = Some y" "expr_ok y" "enough b E N (size y) n" using operand_ok(1) [OF ok] by auto
  have uses: "expr_uses (scoped xs) k a call pass (Expr OPERATOR_DELETE nm ty x1 x2 x3 i l p) = expr_uses (scoped xs) k READ False pass y"
    using shape by (simp add: y)
  have db: "b \<longrightarrow> plain_db E N" using ok(2) by (simp add: enough_def)
  show ?thesis unfolding uses unfolding other_expr_def Expr.case xoperator.case y(1)
    by (rule ends_last [OF walker_okD(1) [OF W st K y(2,3)]])
      (use put_members_logged [OF _ db] in \<open>auto simp: members_def\<close>)
qed

lemma three_step:
  assumes W: "walker_ok E N xs n W" and st: "symtab_rep (SymtabVariable st) xs"
    and K: "k \<longrightarrow> sc = None"
    and ok: "expr_ok (Expr op nm ty x1 x2 x3 i l p)" "enough b E N (size (Expr op nm ty x1 x2 x3 i l p)) (Suc n)"
    and op: "op \<in> {Op OPERATOR_CONDITIONAL, OPERATOR_CAST, OPERATOR_ARRAY, OPERATOR_CONSTRUCTOR_CALL}"
  shows "ends E b (post b xs (expr_uses (scoped xs) k a call pass (Expr op nm ty x1 x2 x3 i l p)) (proc_ok b call (Expr op nm ty x1 x2 x3 i l p)) st)
    (other_expr W n E (Expr op nm ty x1 x2 x3 i l p) a sc call pass st)"
proof -
  have "op \<notin> {OPERATOR_NAME, OPERATOR_TYPE}" using op by auto
  then obtain y1 where y1: "x1 = Some y1" "expr_ok y1" "enough b E N (size y1) n" using operand_ok(1) [OF ok] by auto
  note first = walker_okD(1) [OF W st K y1(2,3)]
  consider (conditional) "op = Op OPERATOR_CONDITIONAL" | (cast) "op = OPERATOR_CAST" | (array) "op = OPERATOR_ARRAY"
    | (ctor) "op = OPERATOR_CONSTRUCTOR_CALL" using op by blast
  then show ?thesis
  proof cases
    case conditional
    obtain y2 where y2: "x2 = Some y2" "expr_ok y2" "enough b E N (size y2) n"
      using operand_ok(2) [OF ok] conditional by (auto simp: shape_defs)
    obtain y3 where y3: "x3 = Some y3" "expr_ok y3" "enough b E N (size y3) n"
      using operand_ok(3) [OF ok] conditional by (auto simp: shape_defs)
    have uses: "expr_uses (scoped xs) k a call pass (Expr op nm ty x1 x2 x3 i l p) =
        expr_uses (scoped xs) k READ False pass y1 @ expr_uses (scoped xs) k READ False pass y2 @ expr_uses (scoped xs) k READ False pass y3"
      by (simp add: conditional y1 y2 y3 shape_defs)
    show ?thesis unfolding uses unfolding other_expr_def Expr.case conditional xoperator.case operator.case y1(1) y2(1) y3(1)
      by (rule ends_then [OF first], rule ends_then [OF walker_okD(1) [OF W _ K y2(2,3)]], assumption,
          rule ends_last [OF walker_okD(1) [OF W _ K y3(2,3)]])
        (use proc_type in \<open>auto simp: members_def\<close>)
  next
    case cast
    obtain y2 where y2: "x2 = Some y2" "expr_ok y2" "enough b E N (size y2) n"
      using operand_ok(2) [OF ok] cast by (auto simp: shape_defs)
    have uses: "expr_uses (scoped xs) k a call pass (Expr op nm ty x1 x2 x3 i l p) = expr_uses (scoped xs) k READ False pass y1 @ expr_uses (scoped xs) k READ False pass y2"
      by (simp add: cast y1 y2 shape_defs)
    show ?thesis unfolding uses unfolding other_expr_def Expr.case cast xoperator.case y1(1) y2(1)
      by (rule ends_then [OF first], rule ends_last [OF walker_okD(1) [OF W _ K y2(2,3)]])
        (use proc_type in \<open>auto simp: proc_ok_def\<close>)
  next
    case array
    obtain y2 where y2: "x2 = Some y2" "expr_ok y2" "enough b E N (size y2) n"
      using operand_ok(2) [OF ok] array by (auto simp: shape_defs)
    have uses: "expr_uses (scoped xs) k a call pass (Expr op nm ty x1 x2 x3 i l p) = expr_uses (scoped xs) k a False pass y1 @ expr_uses (scoped xs) k READ False pass y2"
      by (simp add: array y1 y2 shape_defs)
    show ?thesis unfolding uses unfolding other_expr_def Expr.case array xoperator.case y1(1) y2(1)
      by (rule ends_then [OF first], rule ends_last [OF walker_okD(1) [OF W _ K y2(2,3)]])
        (use proc_type in \<open>auto simp: members_def\<close>)
  next
    case ctor
    have l: "list_all expr_ok (elems l)" "\<forall>y \<in> set (elems l). enough b E N (size y) n"
      using operand_ok(4) [OF ok] ctor by (auto simp: with_list_def)
    have uses: "expr_uses (scoped xs) k a call pass (Expr op nm ty x1 x2 x3 i l p) =
        expr_uses (scoped xs) k READ False pass y1 @ concat (map (expr_uses (scoped xs) True READ False True) (elems l))"
      by (cases l) (simp_all add: ctor y1 shape_defs)
    show ?thesis unfolding uses unfolding other_expr_def Expr.case ctor xoperator.case y1(1)
      by (rule ends_then [OF first], rule ends_last [OF f_exprlist_ends [OF W l]])
        (use proc_type in \<open>auto simp: members_def\<close>)
  qed
qed

section \<open>Whole trees\<close>

lemma expr_step:
  assumes W: "walker_ok E N xs n W" and M: "macros_ok E" and st: "symtab_rep (SymtabVariable st) xs"
    and K: "k \<longrightarrow> sc = None"
    and ok: "expr_ok x" "enough b E N (size x) (Suc n)"
  shows "ends E b (post b xs (expr_uses (scoped xs) k a call pass x) (proc_ok b call x) st) (f_expr W n E (Some x) a sc call pass st)"
proof (cases x)
  case x: (Expr op nm ty x1 x2 x3 i l p)
  note ok = ok [unfolded x]
  consider (binary) w a' d where "binary_operator op = Some (w, a', d)"
    | (unary) a' g where "binary_operator op = None" "unary_operator op a = Some (a', g)"
    | (member) w where "binary_operator op = None" "unary_operator op a = None" "member_operator op = Some w"
    | (dot) "binary_operator op = None" "unary_operator op a = None" "member_operator op = None" "op \<in> members"
    | (other) "binary_operator op = None" "unary_operator op a = None" "member_operator op = None" "op \<notin> members"
    by (cases "binary_operator op"; cases "unary_operator op a"; cases "member_operator op") (auto simp: prod_eq_iff)
  then show ?thesis
  proof cases
    case binary
    then show ?thesis using binary_step [OF W st K ok] by (simp add: f_expr_def x)
  next
    case unary
    then show ?thesis using unary_step [OF W st K ok] by (simp add: f_expr_def x)
  next
    case member
    then show ?thesis using member_step [OF W st K ok] by (simp add: f_expr_def x)
  next
    case dot
    then have "f_expr W n E (Some x) a sc call pass st =
        sbind (w_expr W x1 a sc False pass st) (\<lambda>(p1, st). w_expr W x2 a (f_TypeToScope (pr_type p1)) call pass st)"
      by (auto simp: f_expr_def x members_def)
    then show ?thesis using dot_step [OF W st K ok dot(4)] by (simp only: x)
  next
    case other
    then have "f_expr W n E (Some x) a sc call pass st = other_expr W n E (Expr op nm ty x1 x2 x3 i l p) a sc call pass st"
      by (auto simp: f_expr_def x members_def)
    moreover have "ends E b (post b xs (expr_uses (scoped xs) k a call pass (Expr op nm ty x1 x2 x3 i l p))
        (proc_ok b call (Expr op nm ty x1 x2 x3 i l p)) st)
      (other_expr W n E (Expr op nm ty x1 x2 x3 i l p) a sc call pass st)"
    proof -
      note calls = call_step [OF W M st K] name_step [OF M st K] type_step [OF W st]
      have "op \<in> {Op OPERATOR_CONDITIONAL, OPERATOR_CAST, OPERATOR_ARRAY, OPERATOR_CONSTRUCTOR_CALL} \<or>
          op \<in> {OPERATOR_FUNCTION_CALL, OPERATOR_NEW, OPERATOR_DELETE, OPERATOR_NAME, OPERATOR_TYPE}"
        using other_operators [OF other] by blast
      then show ?thesis
      proof
        assume "op \<in> {Op OPERATOR_CONDITIONAL, OPERATOR_CAST, OPERATOR_ARRAY, OPERATOR_CONSTRUCTOR_CALL}"
        then show ?thesis by (rule three_step [OF W st K ok])
      next
        assume "op \<in> {OPERATOR_FUNCTION_CALL, OPERATOR_NEW, OPERATOR_DELETE, OPERATOR_NAME, OPERATOR_TYPE}"
        then consider "op = OPERATOR_FUNCTION_CALL" | "op = OPERATOR_NEW" | "op = OPERATOR_DELETE" | "op = OPERATOR_NAME"
          | "op = OPERATOR_TYPE" by blast
        then show ?thesis
        proof cases
          case 1
          show ?thesis using calls(1) [OF ok [unfolded 1]] unfolding other_expr_def Expr.case 1 xoperator.case .
        next
          case 2
          show ?thesis using new_step [OF W st K ok [unfolded 2]] unfolding 2 .
        next
          case 3
          show ?thesis using delete_step [OF W st K ok [unfolded 3]] unfolding 3 .
        next
          case 4
          show ?thesis using calls(2) [OF ok [unfolded 4]] unfolding other_expr_def Expr.case 4 xoperator.case .
        next
          case 5
          show ?thesis using calls(3) [OF ok [unfolded 5]] unfolding other_expr_def Expr.case 5 xoperator.case .
        qed
      qed
    qed
    ultimately show ?thesis by (simp only: x)
  qed
qed

lemma ExprProcess_ends:
  assumes "walker_ok E N xs n W" "symtab_rep (SymtabVariable st) xs" "expr_ok x" "enough b E N (size x) n"
  shows "ends E b (logged b xs (expr_uses (scoped xs) True READ False False x) st) (f_ExprProcess W x st)"
  using walker_okD(1) [OF assms(1,2) plain assms(3,4), of READ False False]
  unfolding f_ExprProcess_def ends_map_sum by (auto elim!: ends_mono)

lemma opt_process_ends:
  assumes "opt_ok (\<lambda>x. \<forall>st. symtab_rep (SymtabVariable st) xs \<longrightarrow> ends E b (logged b xs (u x) st) (f x st)) x"
    and "symtab_rep (SymtabVariable st) xs"
  shows "ends E b (logged b xs (case x of None \<Rightarrow> [] | Some x \<Rightarrow> u x) st) ((case x of None \<Rightarrow> Inr | Some x \<Rightarrow> f x) st)"
  using assms by (cases x) simp_all

text \<open>The parts of a node have less fuel than the node.\<close>

lemma opt_part:
  assumes "opt_ok P x" "\<And>y. x = Some y \<Longrightarrow> P y \<Longrightarrow> Q y"
  shows "opt_ok Q x"
  using assms by (cases x) simp_all

lemma init_step:
  assumes W: "walker_ok E N xs n W" and st: "symtab_rep (SymtabVariable st) xs"
    and ok: "init_ok i" "enough b E N (size i) (Suc n)"
  shows "ends E b (logged b xs (init_uses (scoped xs) i) st) (f_InitProcess W i st)"
proof (cases i)
  case i: (Init x l)
  note less = enough_less [OF ok(2)]
  have uses: "init_uses (scoped xs) i = (case x of None \<Rightarrow> [] | Some x \<Rightarrow> expr_uses (scoped xs) True READ False False x) @ concat (map (init_uses (scoped xs)) (elems l))"
    by (cases l) (simp_all add: i)
  have "opt_ok expr_ok x" using ok(1) by (simp add: i)
  then have x: "opt_ok (\<lambda>x. \<forall>st. symtab_rep (SymtabVariable st) xs \<longrightarrow>
      ends E b (logged b xs (expr_uses (scoped xs) True READ False False x) st) (f_ExprProcess W x st)) x"
    by (rule opt_part) (auto intro!: ExprProcess_ends [OF W] less simp: i)
  have l: "ends E b (logged b xs (init_uses (scoped xs) y) st) (w_init W y st)" if "y \<in> set (elems l)" "symtab_rep (SymtabVariable st) xs"
    for y and st :: "'a xstate"
    by (rule walker_okD(3) [OF W that(2)]) (use ok(1) that size_elems [OF that(1)] in \<open>auto simp: i list_all_iff intro!: less\<close>)
  show ?thesis unfolding uses unfolding i f_InitProcess_def Init.case
    by (rule ends_state [OF opt_process_ends [OF x st]], rule in_turn_ends [OF l])
qed

lemma oper_step:
  assumes W: "walker_ok E N xs n W" and st: "symtab_rep (SymtabVariable st) xs"
    and ok: "oper_ok p" "enough b E N (size p) n"
  shows "ends E b (logged b xs (oper_uses (scoped xs) p) st) (f_OperProcess W p st)"
proof (cases p)
  case p: (Oper f x l)
  have less: "enough b E N k n" if "k < size p" for k using ok(2) that by (auto simp: enough_def)
  have uses: "oper_uses (scoped xs) p = (case x of None \<Rightarrow> [] | Some x \<Rightarrow> expr_uses (scoped xs) True READ False False x) @ concat (map (declaration_uses (scoped xs)) (elems l))"
    by (cases l) (simp_all add: p)
  have "opt_ok expr_ok x" using ok(1) by (simp add: p)
  then have x: "opt_ok (\<lambda>x. \<forall>st. symtab_rep (SymtabVariable st) xs \<longrightarrow>
      ends E b (logged b xs (expr_uses (scoped xs) True READ False False x) st) (f_ExprProcess W x st)) x"
    by (rule opt_part) (auto intro!: ExprProcess_ends [OF W] less simp: p)
  have l: "ends E b (logged b xs (declaration_uses (scoped xs) y) st) (w_declaration W y False st)"
    if "y \<in> set (elems l)" "symtab_rep (SymtabVariable st) xs" for y and st :: "'a xstate"
    by (rule walker_okD(4) [OF W that(2)]) (use ok(1) that size_elems [OF that(1)] in \<open>auto simp: p list_all_iff intro!: less\<close>)
  show ?thesis unfolding uses unfolding p f_OperProcess_def Oper.case
    by (rule ends_state [OF opt_process_ends [OF x st]], rule in_turn_ends [OF l])
qed

lemma declarator_walk_step:
  assumes W: "walker_ok E N xs n W" and st: "symtab_rep (SymtabVariable st) xs"
    and ok: "declarator_ok d" "enough b E N (size d) (Suc n)"
  shows "ends E b (logged b xs (declarator_uses (scoped xs) d) st) (f_DeclaratorProcess W d st)"
proof (cases d)
  case d: (Declarator f x l i ops)
  note less = enough_less [OF ok(2)]
  have uses: "declarator_uses (scoped xs) d = (case x of None \<Rightarrow> [] | Some x \<Rightarrow> expr_uses (scoped xs) True READ False False x)
      @ (case i of None \<Rightarrow> [] | Some i \<Rightarrow> init_uses (scoped xs) i)
      @ concat (map (expr_uses (scoped xs) True READ False False) (elems l)) @ concat (map (oper_uses (scoped xs)) (elems ops))"
    by (cases l; cases ops) (simp_all add: d)
  have parts: "opt_ok expr_ok x" "opt_ok init_ok i" using ok(1) by (simp_all add: d)
  have x: "opt_ok (\<lambda>x. \<forall>st. symtab_rep (SymtabVariable st) xs \<longrightarrow>
      ends E b (logged b xs (expr_uses (scoped xs) True READ False False x) st) (f_ExprProcess W x st)) x"
    by (rule opt_part [OF parts(1)]) (auto intro!: ExprProcess_ends [OF W] less simp: d)
  have i: "opt_ok (\<lambda>i. \<forall>st. symtab_rep (SymtabVariable st) xs \<longrightarrow> ends E b (logged b xs (init_uses (scoped xs) i) st) (w_init W i st)) i"
    by (rule opt_part [OF parts(2)]) (auto intro!: walker_okD(3) [OF W] less simp: d)
  have l: "ends E b (logged b xs (expr_uses (scoped xs) True READ False False y) st) (f_ExprProcess W y st)"
    if "y \<in> set (elems l)" "symtab_rep (SymtabVariable st) xs" for y and st :: "'a xstate"
    by (rule ExprProcess_ends [OF W that(2)]) (use ok(1) that size_elems [OF that(1)] in \<open>auto simp: d list_all_iff intro!: less\<close>)
  have ops: "ends E b (logged b xs (oper_uses (scoped xs) y) st) (f_OperProcess W y st)"
    if "y \<in> set (elems ops)" "symtab_rep (SymtabVariable st) xs" for y and st :: "'a xstate"
    by (rule oper_step [OF W that(2)]) (use ok(1) that size_elems [OF that(1)] in \<open>auto simp: d list_all_iff intro!: less\<close>)
  show ?thesis unfolding uses unfolding d f_DeclaratorProcess_def Declarator.case
    by (rule ends_state [OF opt_process_ends [OF x st]], rule ends_state [OF opt_process_ends [OF i]], assumption,
        rule ends_state, rule in_turn_ends, rule l, assumption+, rule in_turn_ends, rule ops, assumption+)
qed

lemma declaration_step:
  assumes W: "walker_ok E N xs n W" and st: "symtab_rep (SymtabVariable st) xs"
    and ok: "declaration_ok c" "enough b E N (size c) (Suc n)"
  shows "ends E b (logged b xs (declaration_uses (scoped xs) c) st) (f_DeclarationProcess W n E c False st)"
proof (cases c)
  case c: (Declaration f k e l)
  note less = enough_less [OF ok(2)]
  let ?u = "\<lambda>d. (case d_name (dr_fields d) of None \<Rightarrow> []
      | Some w \<Rightarrow> if dr_expr d \<noteq> None \<or> dr_init d \<noteq> None then [(w, lineno f, 1, Some PAF_REF_SCOPE_LOCAL)] else []) @ declarator_uses (scoped xs) d"
  have db: "b \<longrightarrow> plain_db E N \<and> N \<le> n" by (rule enough_fuel [OF ok(2)]) (simp add: c)
  have t: "type_ok (f_TypeFromDeclaration f k e)" by (simp add: f_TypeFromDeclaration_def f_TypeFromDeclarationAndDeclarator_def)
  have d: "ends E b (logged b xs (?u d) st) (declarator_step W E T (lineno f) False d st)"
    if "d \<in> set (elems l)" "symtab_rep (SymtabVariable st) xs" for d T and st :: "'a xstate"
  proof -
    let ?put = "case d_name (dr_fields d) of
         Some w \<Rightarrow> if dr_expr d \<noteq> None \<or> dr_init d \<noteq> None
           then Put_cross_ref E PAF_LOCAL_VAR_DEF PAF_REF_SCOPE_LOCAL (Some (scope_g E)) (Some (sym_name_g E)) w None (lineno f)
                  PAF_REF_WRITE st else st
       | None \<Rightarrow> st"
    have put: "logged b xs (case d_name (dr_fields d) of None \<Rightarrow> []
        | Some w \<Rightarrow> if dr_expr d \<noteq> None \<or> dr_init d \<noteq> None then [(w, lineno f, 1, Some PAF_REF_SCOPE_LOCAL)] else []) st ?put"
      using that(2) logged_put [OF that(2), of b PAF_REF_SCOPE_LOCAL PAF_LOCAL_VAR_DEF "Some PAF_REF_SCOPE_LOCAL" _ "lineno f" PAF_REF_WRITE]
      by (auto simp: PAF_REF_WRITE_def split: option.split)
    have "ends E b (logged b xs (declarator_uses (scoped xs) d) ?put) (w_declarator W d ?put)"
      by (rule walker_okD(2) [OF W logged_rep [OF put]])
        (use ok(1) that size_elems [OF that(1)] in \<open>auto simp: c list_all_iff intro!: less\<close>)
    then show ?thesis unfolding declarator_step_def if_False sbind_simps prod.case
      by (rule ends_mono) (rule logged_trans [OF put])
  qed
  have uses: "declaration_uses (scoped xs) c = (if iType f \<in> {DECLARATION_OBJECT, DECLARATION_MEMBER, DECLARATION_ARGUMENT}
      then [] @ concat (map ?u (elems l)) else [])"
    by (cases l) (simp_all add: c)
  have "ends E b (logged b xs ([] @ concat (map ?u (elems l))) st)
      (sbind (f_TypeBasic n E (Some (f_TypeFromDeclaration f k e)) (lineno f) st)
        (\<lambda>(T, st). in_turn (declarator_step W E T (lineno f) False) (elems l) st))"
  proof (rule ends_bind [OF TypeBasic_ends [OF st t db]], clarsimp)
    fix t' and st1 :: "'a xstate"
    assume st1: "logged b xs [] st st1"
    have "ends E b (logged b xs (concat (map ?u (elems l))) st1) (in_turn (declarator_step W E t' (lineno f) False) (elems l) st1)"
      by (rule in_turn_ends, rule d, assumption+, rule logged_rep [OF st1])
    then show "ends E b (logged b xs (concat (map ?u (elems l))) st) (in_turn (declarator_step W E t' (lineno f) False) (elems l) st1)"
      by (rule ends_mono) (use logged_trans [OF st1] in simp)
  qed
  then show ?thesis unfolding uses unfolding c f_DeclarationProcess_def Declaration.case
    using st by (auto simp del: append.simps concat.simps)
next
  case c: (DeclarationSpecial t n1 n2 l)
  note less = enough_less [OF ok(2)]
  have uses: "declaration_uses (scoped xs) c = concat (map (declaration_uses (scoped xs)) (elems l))" by (cases l) (simp_all add: c)
  have l: "ends E b (logged b xs (declaration_uses (scoped xs) y) st) (w_declaration W y False st)"
    if "y \<in> set (elems l)" "symtab_rep (SymtabVariable st) xs" for y and st :: "'a xstate"
    by (rule walker_okD(4) [OF W that(2)]) (use ok(1) that size_elems [OF that(1)] in \<open>auto simp: c list_all_iff intro!: less\<close>)
  show ?thesis unfolding uses unfolding c f_DeclarationProcess_def Declaration.case
    by (rule in_turn_ends, rule l, assumption+, rule st)
qed

lemma size_pos: "0 < size (x :: Expr)" "0 < size (d :: Declarator)" "0 < size (i :: Init)" "0 < size (c :: Declaration)"
  by (cases x, simp, cases d, simp, cases i, simp, cases c) simp_all

lemma walk_ok:
  assumes "macros_ok E"
  shows "walker_ok E N xs n (walk n E)"
proof (induction n)
  case 0
  then show ?case using size_pos by (auto simp: walker_ok_def enough_def plain_db_def)
next
  case (Suc n)
  have W: "walk (Suc n) E = \<lparr>w_expr = f_expr (walk n E) n E, w_declarator = f_DeclaratorProcess (walk n E),
      w_init = f_InitProcess (walk n E), w_declaration = f_DeclarationProcess (walk n E) n E\<rparr>"
    by (simp add: walk.simps(2) Let_def)
  show ?case unfolding walker_ok_def W
  proof (intro allI impI conjI, goal_cases)
    case (1 b st x k a sc call pass)
    show ?case unfolding walker.simps by (rule expr_step [OF Suc assms 1])
  next
    case (2 b st d)
    show ?case unfolding walker.simps by (rule declarator_walk_step [OF Suc 2])
  next
    case (3 b st i)
    show ?case unfolding walker.simps by (rule init_step [OF Suc 3])
  next
    case (4 b st d)
    show ?case unfolding walker.simps by (rule declaration_step [OF Suc 4])
  qed
qed

lemma plain_macros: "plain_db E N \<Longrightarrow> macros_ok E"
  unfolding plain_db_def macros_ok_def by (fastforce simp: object_ok_def last_colon_def)

section \<open>Declarations\<close>

text \<open>The name of a declarator becomes the innermost variable of that name.\<close>

definition decl_name :: "Declarator \<Rightarrow> string" where
  "decl_name d = the (d_name (dr_fields d))"

definition declare_in :: "Type \<Rightarrow> int \<Rightarrow> Declarator \<Rightarrow> (string \<Rightarrow> (Type \<times> int) list) \<Rightarrow> string \<Rightarrow> (Type \<times> int) list" where
  "declare_in t lev d ch = ch(decl_name d := (f_TypeDeclaratorConcat t d, lev) # ch (decl_name d))"

definition declarable :: "Declarator \<Rightarrow> bool" where
  "declarable d \<longleftrightarrow> declarator_ok d \<and> d_name (dr_fields d) \<noteq> None \<and> NUL \<notin> set (decl_name d)"

lemma scoped_declared: "chain xs' = declare_in t lev d (chain xs) \<Longrightarrow> scoped xs' = (scoped xs)(decl_name d := True)"
  by (rule ext) (simp add: scoped_def declare_in_def)

text \<open>What one declarator uses, and what a list uses: each declarator knows its own name and the earlier ones.\<close>

definition init_use :: "(string \<Rightarrow> bool) \<Rightarrow> int \<Rightarrow> Declarator \<Rightarrow> occurrence list" where
  "init_use L ln d = (case d_name (dr_fields d) of None \<Rightarrow> []
     | Some w \<Rightarrow> if dr_expr d \<noteq> None \<or> dr_init d \<noteq> None then [(w, ln, 1, Some PAF_REF_SCOPE_LOCAL)] else [])
     @ declarator_uses L d"

fun decl_uses :: "(string \<Rightarrow> bool) \<Rightarrow> int \<Rightarrow> Declarator list \<Rightarrow> occurrence list" where
  "decl_uses L ln [] = []"
| "decl_uses L ln (d # ds) =
     (let L' = L(decl_name d := True) in init_use L' ln d @ decl_uses L' ln ds)"

lemma PutConstructor_plain: "plain_db E N \<Longrightarrow> f_PutConstructor E t ln c d st = st"
  by (auto simp: f_PutConstructor_def put_members_def plain_db_def split: option.split)

lemma concat_plain: "t_declarator t = None \<Longrightarrow> t_declarator (f_TypeDeclaratorConcat t d) = Some d"
  by (cases t) (simp add: f_TypeDeclaratorConcat_def f_TypeDuplicate_def)

lemma recorded_one:
  assumes W: "\<And>xs. walker_ok E N xs n W" and E: "plain_db E N" and st: "symtab_rep (SymtabVariable st) xs"
    and T: "t_declarator T = None" and d: "declarable d" "size d + N \<le> n"
  shows "\<exists>st' xs'. declarator_step W E T ln True d st = Inr st' \<and> symtab_rep (SymtabVariable st') xs' \<and>
    niveauComp st' = niveauComp st \<and> chain xs' = declare_in T (niveauComp st) d (chain xs) \<and>
    reported (init_use (scoped xs') ln d) (refs st) (refs st')"
proof -
  obtain w where w: "d_name (dr_fields d) = Some w" "decl_name d = w" "NUL \<notin> set w"
    using d(1) by (auto simp: declarable_def decl_name_def)
  obtain S xs' where S: "SymtabInsert (SymtabVariable st) w (f_TypeDeclaratorConcat T d) (niveauComp st) = Inr S"
    "symtab_rep S xs'" "\<forall>j. chain xs' j = (if j = w then (f_TypeDeclaratorConcat T d, niveauComp st) # chain xs w else chain xs j)"
    using insert_chain [OF st w(3)] by blast
  let ?st = "(mark (CHR ''l'') (d_place (dr_fields d)) st)\<lparr>SymtabVariable := S\<rparr>"
  let ?put = "if dr_expr d \<noteq> None \<or> dr_init d \<noteq> None
    then Put_cross_ref E PAF_LOCAL_VAR_DEF PAF_REF_SCOPE_LOCAL (Some (scope_g E)) (Some (sym_name_g E)) w None ln PAF_REF_WRITE ?st
    else ?st"
  have step: "declarator_step W E T ln True d st = w_declarator W d ?put"
    using S(1) by (simp add: declarator_step_def record_variable_def PutConstructor_plain [OF E] concat_plain [OF T] w(1) Let_def)
  let ?own = "if dr_expr d \<noteq> None \<or> dr_init d \<noteq> None then [(w, ln, 1, Some PAF_REF_SCOPE_LOCAL)] else []"
  have put: "symtab_rep (SymtabVariable ?put) xs'" "niveauComp ?put = niveauComp st" "reported ?own (refs st) (refs ?put)"
    using S(2) by (simp_all add: Put_cross_ref_def reports_def PAF_REF_WRITE_def)
  have "ends E True (logged True xs' (declarator_uses (scoped xs') d) ?put) (w_declarator W d ?put)"
    using d E by (intro walker_okD(2) [OF W put(1)]) (simp_all add: declarable_def enough_def)
  moreover have "chain xs' = declare_in T (niveauComp st) d (chain xs)" using S(3) w(2) by (auto simp: declare_in_def)
  ultimately obtain st' where st': "w_declarator W d ?put = Inr st'" "logged True xs' (declarator_uses (scoped xs') d) ?put st'"
    and ch: "chain xs' = declare_in T (niveauComp st) d (chain xs)"
    by (cases "w_declarator W d ?put") simp_all
  have "reported (?own @ declarator_uses (scoped xs') d) (refs st) (refs st')"
    using st'(2) put(3) by (auto simp only: logged_def intro: reported_trans)
  then show ?thesis unfolding step using st' put(2) ch w(1) by (auto simp: logged_def init_use_def)
qed

lemma recorded_all:
  assumes W: "\<And>xs. walker_ok E N xs n W" and E: "plain_db E N" and T: "t_declarator T = None"
    and "\<forall>d \<in> set ds. declarable d \<and> size d + N \<le> n" "symtab_rep (SymtabVariable st) xs"
  shows "\<exists>st' xs'. in_turn (declarator_step W E T ln True) ds st = Inr st' \<and> symtab_rep (SymtabVariable st') xs' \<and>
    niveauComp st' = niveauComp st \<and> chain xs' = fold (declare_in T (niveauComp st)) ds (chain xs) \<and>
    reported (decl_uses (scoped xs) ln ds) (refs st) (refs st')"
  using assms(4,5)
proof (induction ds arbitrary: st xs)
  case (Cons d ds)
  obtain st1 xs1 where s1: "declarator_step W E T ln True d st = Inr st1" "symtab_rep (SymtabVariable st1) xs1"
    "niveauComp st1 = niveauComp st" "chain xs1 = declare_in T (niveauComp st) d (chain xs)"
    "reported (init_use (scoped xs1) ln d) (refs st) (refs st1)"
    using recorded_one [OF W E Cons.prems(2) T, of d ln] Cons.prems(1) by auto
  obtain st2 xs2 where s2: "in_turn (declarator_step W E T ln True) ds st1 = Inr st2" "symtab_rep (SymtabVariable st2) xs2"
    "niveauComp st2 = niveauComp st1" "chain xs2 = fold (declare_in T (niveauComp st1)) ds (chain xs1)"
    "reported (decl_uses (scoped xs1) ln ds) (refs st1) (refs st2)"
    using Cons.IH [OF _ s1(2)] Cons.prems(1) by auto
  have "scoped xs1 = (scoped xs)(decl_name d := True)" by (rule scoped_declared [OF s1(4)])
  then have "reported (decl_uses (scoped xs) ln (d # ds)) (refs st) (refs st2)"
    using reported_trans [OF s1(5) s2(5)] by (simp add: Let_def)
  then show ?case using s1(1,3,4) s2(1-4) by auto
qed auto

end
