(* ===== verification/XRef_Props.thy ===== *)
theory XRef_Props
  imports XRef_Walk
begin

text \<open>
  The properties of the cross references: every expression gets a type, each name is reported once
  and in order, declarations fill the innermost scope, chains of macros end, and which wrong names the
  code reports.
\<close>

declare type_parser.simps(2) [simp del] type_basic_loop.simps(2) [simp del] walk.simps(2) [simp del]

section \<open>Properties\<close>

text \<open>A node for a name, and an assignment with a call in it.\<close>

definition name_node :: "string \<Rightarrow> Expr" where
  "name_node w = Expr OPERATOR_NAME (Some w) None None None None None None (no_place\<lparr>plineno_beg := 3\<rparr>)"

definition sample_expr :: Expr where
  "sample_expr = Expr OPERATOR_ASSIGN None None (Some (name_node ''i''))
     (Some (Expr OPERATOR_FUNCTION_CALL None None (Some (name_node ''f'')) None None None
       (Some [Expr OPERATOR_PRE_ICR None None (Some (name_node ''k'')) None None None None no_place]) no_place))
     None None None no_place"

lemma sample_expr_ok: "expr_ok sample_expr" "object_ok ''A::x''" "get_name ''A::x'' = ''x''"
  by code_simp+


lemma empty_env: "plain_db (typedef_env Map.empty) 1" "macros_ok (typedef_env Map.empty)"
  by (simp_all add: plain_db_def macros_ok_def typedef_env_def)

lemma empty_rep: "symtab_rep (SymtabVariable empty_xstate) []"
  by (simp add: empty_xstate_def rep_create)

lemma empty_simps [simp]: "refs empty_xstate = []" "niveauComp empty_xstate = 1"
  by (simp_all add: empty_xstate_def)

text \<open>C4: Every expression whose tree has all its parts gets a type, whatever the database answers, as long as
  no value of a macro has its last colon in front (like :x, where the code reads before the string):
  the walk follows no null pointer, reads nothing out of bounds and keeps the scopes.  Only the fuel
  can run out; and when the database knows a class a typedef chain that ends in it releases a name
  twice.\<close>

theorem expression_typed:
  assumes "macros_ok E" "symtab_rep (SymtabVariable st) xs" "expr_ok x"
  shows "case w_expr (walk n E) (Some x) a sc False pass st of
      Inl e \<Rightarrow> e = NoReturn \<or> e = UseAfterFree \<and> knows_class E
    | Inr (p, st') \<Rightarrow> (\<exists>t. pr_type p = Some t) \<and> symtab_rep (SymtabVariable st') xs"
  using walker_okD(1) [OF walk_ok [OF assms(1), of 0 xs n] assms(2) not_plain assms(3), of False a False pass sc]
  by (cases "w_expr (walk n E) (Some x) a sc False pass st") (auto simp: enough_def dest: proc_type)

theorem expression_typed_witness:
  "case w_expr (walk 60 (typedef_env Map.empty)) (Some sample_expr) READ None False False empty_xstate of
      Inl e \<Rightarrow> e = NoReturn \<or> e = UseAfterFree \<and> knows_class (typedef_env Map.empty)
    | Inr (p, st') \<Rightarrow> (\<exists>t. pr_type p = Some t) \<and> symtab_rep (SymtabVariable st') []"
  by (rule expression_typed [OF empty_env(2) empty_rep sample_expr_ok(1)])


lemma reported_from_none: "reported us [] rs \<longleftrightarrow> list_all2 reports (rev rs) us"
  unfolding reported_def by (metis append_Nil2 rev_rev_ident)


text \<open>C3: With a database as in C1, a declaration of variables puts each of its names into the innermost scope
  with the type its declarator makes of the declared type, in order.  The initialised variables are
  reported as written, and the names the declarators and initialisers use are reported, each as local
  or global by the scopes as they are then: an initialiser sees the names before it and its own.\<close>

theorem declaration_recorded:
  assumes "plain_db E N" "symtab_rep (SymtabVariable st) xs" "iType f = DECLARATION_OBJECT"
    "\<forall>d \<in> set ds. declarable d" "size (Declaration f c e (Some ds)) + N \<le> n"
  shows "\<exists>st' xs'. process_declaration n E (Declaration f c e (Some ds)) st = Inr st' \<and>
    symtab_rep (SymtabVariable st') xs' \<and>
    chain xs' = fold (declare_in (f_TypeFromDeclaration f c e) (niveauComp st)) ds (chain xs) \<and>
    reported (decl_uses (scoped xs) (lineno f) ds) (refs st) (refs st')"
proof -
  obtain m where m: "n = Suc m" using assms(5) by (cases n) simp_all
  have ds: "\<forall>d \<in> set ds. declarable d \<and> size d + N \<le> m"
    using assms(4,5) size_elems [of _ "Some ds"] by (fastforce simp: m)
  have T: "t_declarator (f_TypeFromDeclaration f c e) = None"
    by (simp add: f_TypeFromDeclaration_def f_TypeFromDeclarationAndDeclarator_def)
  have basic: "f_TypeBasic m E (Some (f_TypeFromDeclaration f c e)) (lineno f) st = Inr (f_TypeFromDeclaration f c e, st)"
    by (rule TypeBasic_plain [OF assms(1)]) (use assms(5) in \<open>simp add: m\<close>)
  show ?thesis
    using recorded_all [OF walk_ok [OF plain_macros [OF assms(1)]] assms(1) T ds assms(2), of "lineno f"]
    by (auto simp: process_declaration_def m walk.simps(2) Let_def f_DeclarationProcess_def assms(3) basic)
qed

text \<open>For example \<open>int x = x\<close>: the second \<open>x\<close> is the variable itself.\<close>

theorem declaration_recorded_witness:
  "\<exists>st' xs'. process_declaration 40 (typedef_env Map.empty)
      (Declaration ((f_DeclarationCreate DECLARATION_OBJECT 3)\<lparr>s_int := True\<rparr>) None None
        (Some [Declarator (f_DeclaratorCreate\<lparr>d_name := Some ''x''\<rparr>) None None (Some (Init (Some (name_node ''x'')) None)) None]))
      empty_xstate = Inr st' \<and>
    symtab_rep (SymtabVariable st') xs' \<and> (\<exists>t. chain xs' ''x'' = [(t, 1)]) \<and>
    list_all2 reports (rev (refs st')) [(''x'', 3, 1, Some PAF_REF_SCOPE_LOCAL), (''x'', 3, 0, Some PAF_REF_SCOPE_LOCAL)]"
proof -
  let ?f = "(f_DeclarationCreate DECLARATION_OBJECT 3)\<lparr>s_int := True\<rparr>"
  let ?d = "Declarator (f_DeclaratorCreate\<lparr>d_name := Some ''x''\<rparr>) None None (Some (Init (Some (name_node ''x'')) None)) None"
  have f: "iType ?f = DECLARATION_OBJECT" "lineno ?f = 3"
    by (simp_all add: f_DeclarationCreate_def specs.defs decl_fields.defs no_specs_def)
  have x: "expr_ok (name_node ''x'')" by code_simp
  have d: "\<forall>d \<in> set [?d]. declarable d" using x by (simp add: declarable_def decl_name_def)
  have size: "size (Declaration ?f None None (Some [?d])) + 1 \<le> 40" by (simp add: name_node_def)
  have uses: "decl_uses (\<lambda>w. False) 3 [?d] = [(''x'', 3, 1, Some PAF_REF_SCOPE_LOCAL), (''x'', 3, 0, Some PAF_REF_SCOPE_LOCAL)]"
    by code_simp
  have L: "scoped [] = (\<lambda>w. False)" by (intro ext) (simp add: scoped_def chain_def)
  obtain st' xs' where r: "process_declaration 40 (typedef_env Map.empty) (Declaration ?f None None (Some [?d])) empty_xstate = Inr st'"
    "symtab_rep (SymtabVariable st') xs'"
    "chain xs' = fold (declare_in (f_TypeFromDeclaration ?f None None) 1) [?d] (chain [])"
    "list_all2 reports (rev (refs st')) [(''x'', 3, 1, Some PAF_REF_SCOPE_LOCAL), (''x'', 3, 0, Some PAF_REF_SCOPE_LOCAL)]"
    using declaration_recorded [OF empty_env(1) empty_rep f(1) d size] unfolding f(2) L uses by (auto simp: reported_from_none)
  then have "chain xs' ''x'' = [(f_TypeDeclaratorConcat (f_TypeFromDeclaration ?f None None) ?d, 1)]"
    by (simp add: declare_in_def decl_name_def chain_def)
  then show ?thesis using r by blast
qed

text \<open>C39: A name that is not called and not behind a member operator is reported as a variable whenever a
  variable of its last part is in scope, and gets the type of the innermost one: also \<open>::x\<close> and
  \<open>A::x\<close>, which name something else.\<close>

theorem qualified_name_is_local:
  assumes "symtab_rep (SymtabVariable st) xs" "object_ok w" "chain xs (get_name w) = (t, l) # ds"
  shows "\<exists>st'. w_expr (walk (Suc (Suc n)) E) (Some (Expr OPERATOR_NAME (Some w) ty x1 x2 x3 i l' p)) a None False pass st =
      Inr (\<lparr>pr_type = Some (f_TypeDuplicate t), pr_name = Some w, pr_scope = None, pr_place = p\<rparr>, st') \<and>
    refs st' = \<lparr>ref_type = PAF_LOCAL_VAR_DEF, ref_scope_type = (if scope_g E \<noteq> [] then PAF_MBR_FUNC_DEF else PAF_FUNC_DEF),
      ref_scope_lev = PAF_REF_SCOPE_LOCAL, ref_cls = Some (scope_g E), ref_fnc = sym_name_g E, ref_fnc_args = arg_types_g E,
      ref_scope = Some (sym_name_g E), ref_what = get_name w, ref_args = None, ref_file = filename_g E,
      ref_line = plineno_beg p, ref_acc = acc_code a pass\<rparr> # refs st"
proof -
  obtain sc where sc: "get_scope w = Inr sc" "NUL \<notin> set (get_name w)" using colons_ok [OF assms(2)] by blast
  obtain S where S: "SymtabFind (SymtabVariable st) (get_name w) = Inr (Some t, S)"
    using find_chain [OF assms(1) sc(2)] assms(3) by auto
  show ?thesis
    by (simp add: walk.simps(2) Let_def f_expr_def binary_operator_def unary_operator_def member_operator_def other_expr_def
        name_expr_def get_variable_type_def sc S put_use_def Put_cross_ref_def paf_access_code mark_def)
qed

theorem qualified_name_is_local_witness:
  "\<exists>S st'. SymtabInsert (SymtabCreate True) ''x'' f_TypeCreateInt 1 = Inr S \<and>
    w_expr (walk 2 (typedef_env Map.empty)) (Some (name_node ''A::x'')) READ None False False
      (empty_xstate\<lparr>SymtabVariable := S\<rparr>) = Inr (\<lparr>pr_type = Some (f_TypeDuplicate f_TypeCreateInt), pr_name = Some ''A::x'',
        pr_scope = None, pr_place = no_place\<lparr>plineno_beg := 3\<rparr>\<rparr>, st') \<and>
    map (\<lambda>r. (ref_type r, ref_what r)) (refs st') = [(PAF_LOCAL_VAR_DEF, ''x'')]"
proof -
  obtain S xs where S: "SymtabInsert (SymtabCreate True) ''x'' f_TypeCreateInt 1 = Inr S" "symtab_rep S xs"
    "chain xs ''x'' = [(f_TypeCreateInt, 1)]"
    using insert_chain [OF rep_create, of "''x''" True f_TypeCreateInt 1] by (auto simp: chain_def)
  let ?st = "empty_xstate\<lparr>SymtabVariable := S\<rparr>"
  have "symtab_rep (SymtabVariable ?st) xs" "chain xs (get_name ''A::x'') = (f_TypeCreateInt, 1) # []"
    using S sample_expr_ok(3) by simp_all
  from qualified_name_is_local [OF this(1) sample_expr_ok(2) this(2), of 0 "typedef_env Map.empty" None None None None None None
      "no_place\<lparr>plineno_beg := 3\<rparr>" READ False]
  show ?thesis using S(1) sample_expr_ok(3) by (auto simp: name_node_def numeral_2_eq_2)
qed

text \<open>A comparison \<open>a <= b\<close> of overloaded operands is reported as a use of \<open>operator>=\<close> and gets its type.\<close>

theorem comparison_asks_opposite:
  assumes "w_expr (walk n E) x1 READ sc False pass st = Inr (p1, st1)"
    and "w_expr (walk n E) x2 READ sc False pass st1 = Inr (p2, st2)"
    and "db_symbol E (Some (scope_g E)) None ''operator>=''
      (Some (f_TypeToString (pr_type p1) False @ '','' @ f_TypeToString (pr_type p2) False)) True = Some (paf, s, ty, def)"
    and "f_TypeFromString n (cur_lineno E) ty = Inr (Some t)"
  shows "\<exists>st3. w_expr (walk (Suc n) E) (Some (Expr (Op OPERATOR_LE) nm ty' x1 x2 x3 i l p)) a sc call pass st = Inr (typed (Some t), st3) \<and>
    map ref_what (refs st3) = ''operator>='' # map ref_what (refs st2)"
  using assms
  by (simp add: walk.simps(2) Let_def f_expr_def binary_operator_def binary_expr_def f_OperatorCall2_def Put_cross_ref_def)

theorem comparison_asks_opposite_witness:
  "\<exists>E st3. E = (typedef_env Map.empty)\<lparr>db_symbol := \<lambda>sg sc w args exact.
        if w = ''operator>='' then Some (PAF_FUNC_DEF, [], ''A'', []) else None\<rparr> \<and>
    w_expr (walk 4 E) (Some (Expr (Op OPERATOR_LE) None None (Some (name_node ''a'')) (Some (name_node ''b'')) None None None no_place))
      READ None False False empty_xstate = Inr (typed (Some (named_type ''A'')), st3) \<and>
    map ref_what (refs st3) = [''operator>='', ''b'', ''a'']"
proof -
  let ?E = "(typedef_env Map.empty)\<lparr>db_symbol := \<lambda>sg sc w args exact.
        if w = ''operator>='' then Some (PAF_FUNC_DEF, [], ''A'', []) else None\<rparr>"
  have name: "\<exists>p st1. w_expr (walk 3 ?E) (Some (name_node w)) READ None False False st = Inr (p, st1) \<and>
      symtab_rep (SymtabVariable st1) [] \<and> map ref_what (refs st1) = w # map ref_what (refs st)"
    if asm: "w \<in> {''a'', ''b''}" "symtab_rep (SymtabVariable st) []" for w and st :: "unit xstate"
  proof -
    have w: "NUL \<notin> set w" "get_scope w = Inr None" "get_name w = w" "w \<noteq> ''operator>=''"
      using asm(1) by (auto simp: get_scope_def get_name_def last_colon_def)
    have sp: "map (\<lambda>c. if c = CHR '' '' then CHR ''_'' else c) w = w" using asm(1) by auto
    obtain S where "SymtabFind (SymtabVariable st) w = Inr (None, S)" "symtab_rep S []"
      using find_chain [OF asm(2) w(1)] by (auto simp: chain_def)
    then show ?thesis using w
      by (simp add: numeral_3_eq_3 walk.simps(2) Let_def f_expr_def binary_operator_def unary_operator_def member_operator_def
          other_expr_def name_expr_def name_node_def get_variable_type_def my_Get_symbol_def sp put_use_def Put_cross_ref_def mark_def)
  qed
  obtain p1 st1 where a: "w_expr (walk 3 ?E) (Some (name_node ''a'')) READ None False False empty_xstate = Inr (p1, st1)"
    "symtab_rep (SymtabVariable st1) []" "map ref_what (refs st1) = [''a'']" using name [OF _ empty_rep, of "''a''"] by auto
  obtain p2 st2 where b: "w_expr (walk 3 ?E) (Some (name_node ''b'')) READ None False False st1 = Inr (p2, st2)"
    "map ref_what (refs st2) = [''b'', ''a'']" using name [OF _ a(2), of "''b''"] a(3) by auto
  have "f_TypeFromString 3 (cur_lineno ?E) ''A'' = Inr (Some (named_type ''A''))" by (simp add: read_name ident_samples)
  from comparison_asks_opposite [OF a(1) b(1) _ this, of PAF_FUNC_DEF "[]" "[]" None None None None None no_place READ False]
  show ?thesis using b(2) by (auto simp: eval_nat_numeral)
qed

text \<open>The value of the macro a name stands for: the name in front of the last colon is the scope that is
  asked; \<open>L\<close> are the names that are found in the scopes before the database is asked.\<close>

definition macro_of :: "(int \<times> string \<times> string) option \<Rightarrow> string option" where
  "macro_of r =
     (case r of
        None \<Rightarrow> None
      | Some (paf, sc, def) \<Rightarrow> if paf = PAF_MACRO_DEF \<and> def \<noteq> [] then Some def else None)"

definition macro_value :: "xenv \<Rightarrow> (string \<Rightarrow> bool) \<Rightarrow> string option \<Rightarrow> string option \<Rightarrow> string \<Rightarrow> string option" where
  "macro_value E L sc args w =
     (if L (get_name w) then None
      else macro_of (map_option (\<lambda>(paf, sc', ty, def). (paf, sc', def))
        (my_Get_symbol E (case get_scope w of Inr (Some s) \<Rightarrow> Some s | _ \<Rightarrow> class_or_null E) sc (get_name w) args)))"

lemma macro_value_db:
  assumes "macro_value E L sc args w = Some d"
  shows "\<exists>sg sc w args sc' ty. db_symbol E sg sc w args False = Some (PAF_MACRO_DEF, sc', ty, d)"
proof (cases "my_Get_symbol E (case get_scope w of Inr (Some s) \<Rightarrow> Some s | _ \<Rightarrow> class_or_null E) sc (get_name w) args")
  case None
  then show ?thesis using assms by (simp add: macro_value_def macro_of_def split: if_splits)
next
  case (Some r)
  obtain paf sc' ty def where r: "r = (paf, sc', ty, def)" by (cases r)
  have "macro_of (Some (paf, sc', def)) = Some d" using assms Some by (simp add: macro_value_def r split: if_splits)
  then have "paf = PAF_MACRO_DEF" "def = d" by (simp_all add: macro_of_def split: if_splits)
  then show ?thesis using my_Get_symbol_asks [OF Some [unfolded r]] by blast
qed

text \<open>\<open>ds\<close> are the values that are followed from \<open>w\<close> on: each is the value of the one before it and none
  was met before, and the last one has no value or one that was met.  Names are cut at 999 characters.\<close>

fun value_path :: "(string \<Rightarrow> string option) \<Rightarrow> string \<Rightarrow> string list \<Rightarrow> bool" where
  "value_path V w [] \<longleftrightarrow> True"
| "value_path V w (d # ds) \<longleftrightarrow> V w = Some d \<and> value_path V (take 999 d) ds"

definition followed :: "(string \<Rightarrow> string option) \<Rightarrow> string list \<Rightarrow> string \<Rightarrow> string list \<Rightarrow> string \<Rightarrow> bool" where
  "followed V met w ds last_name \<longleftrightarrow>
     value_path V w ds \<and> distinct ds \<and> set ds \<inter> set met = {} \<and> last_name = last (w # map (take 999) ds) \<and>
     (case V last_name of None \<Rightarrow> True | Some d \<Rightarrow> d \<in> set met \<union> set ds)"

lemma followed_step:
  "V w = Some d \<Longrightarrow> d \<notin> set met \<Longrightarrow> followed V (d # met) (take 999 d) ds l \<Longrightarrow> followed V met w (d # ds) l"
  by (auto simp: followed_def split: option.splits)

text \<open>A database without typedefs and classes whose type strings can all be read; macros may have values.\<close>

definition quiet_db :: "xenv \<Rightarrow> nat \<Rightarrow> bool" where
  "quiet_db E N \<longleftrightarrow> 0 < N \<and> (\<forall>w. db_class_or_typedef E w = None) \<and>
     (\<forall>sg sc w args paf sc' ty def. db_symbol E sg sc w args False = Some (paf, sc', ty, def) \<longrightarrow>
        (\<forall>n \<ge> N. \<exists>t. f_TypeFromString n (cur_lineno E) ty = Inr t))"

lemma TypeBasic_quiet: "quiet_db E N \<Longrightarrow> N \<le> n \<Longrightarrow> f_TypeBasic n E (Some t) ln st = Inr (t, st)"
  by (cases n; cases "f_NameFromType t")
    (auto simp: quiet_db_def f_TypeBasic_def type_basic_def round_nameless round_unknown is_visited_def visited_def)

lemma quiet_type:
  assumes "quiet_db E N" "N \<le> n" "my_Get_symbol E sg sc w args = Some (paf, sc', ty, def)"
  shows "\<exists>t. f_TypeFromString n (cur_lineno E) ty = Inr t"
  using my_Get_symbol_asks [OF assms(3)] assms(1,2) unfolding quiet_db_def by blast

text \<open>A lookup that answers with the value of the macro and keeps the scopes and the reports.\<close>

definition looks :: "xenv \<Rightarrow> Type chains \<Rightarrow> (string \<Rightarrow> string option) \<Rightarrow> 'c lookup \<Rightarrow> bool" where
  "looks E xs V look \<longleftrightarrow>
     (\<forall>w sc st. object_ok w \<longrightarrow> get_scope w = Inr sc \<longrightarrow> symtab_rep (SymtabVariable st) xs \<longrightarrow>
        (\<exists>r st'. look (case sc of None \<Rightarrow> class_or_null E | Some s \<Rightarrow> Some s) (get_name w) st = Inr (r, st') \<and>
           symtab_rep (SymtabVariable st') xs \<and> refs st' = refs st \<and> macro_of (f_symbol r) = V w))"

lemma variable_looks:
  assumes "quiet_db E N" "N \<le> n"
  shows "looks E xs (macro_value E (\<lambda>v. scope = None \<and> scoped xs v) scope None)
    (\<lambda>sg name st. get_variable_type n E sg scope name p st)"
  unfolding looks_def
proof (intro allI impI)
  fix w sc and st :: "'a xstate"
  assume w: "object_ok w" "get_scope w = Inr sc" and st: "symtab_rep (SymtabVariable st) xs"
  let ?sg = "case sc of None \<Rightarrow> class_or_null E | Some s \<Rightarrow> Some s"
  let ?V = "macro_value E (\<lambda>v. scope = None \<and> scoped xs v) scope None w"
  obtain r S where f: "SymtabFind (SymtabVariable st) (get_name w) = Inr (r, S)" "symtab_rep S xs"
      "r = None \<longleftrightarrow> \<not> scoped xs (get_name w)"
    using find_chain [OF st colons_ok(2) [OF w(1)]] by (auto simp: scoped_def split: list.splits)
  have g: "(case get_scope w of Inr (Some s) \<Rightarrow> Some s | _ \<Rightarrow> class_or_null E) = ?sg" by (simp add: w(2) split: option.split)
  show "\<exists>r st'. get_variable_type n E ?sg scope (get_name w) p st = Inr (r, st') \<and>
      symtab_rep (SymtabVariable st') xs \<and> refs st' = refs st \<and> macro_of (f_symbol r) = ?V"
  proof (cases "my_Get_symbol E ?sg scope (get_name w) None")
    case None
    then show ?thesis using f st
      by (cases r) (auto simp: get_variable_type_def macro_value_def g macro_of_def)
  next
    case (Some a)
    obtain paf sc' ty def where a: "a = (paf, sc', ty, def)" by (cases a)
    obtain t where t: "f_TypeFromString n (cur_lineno E) ty = Inr t" using quiet_type [OF assms Some [unfolded a]] by blast
    show ?thesis using f st Some a t
      by (cases r; cases t) (auto simp: get_variable_type_def macro_value_def g macro_of_def TypeBasic_quiet [OF assms])
  qed
qed

lemma function_looks:
  assumes "quiet_db E N" "N \<le> n"
  shows "looks E xs (macro_value E (\<lambda>v. False) scope (Some args))
    (\<lambda>sg name st. get_function_type n E sg scope name args p st)"
  unfolding looks_def
proof (intro allI impI)
  fix w sc and st :: "'a xstate"
  assume w: "object_ok w" "get_scope w = Inr sc" and st: "symtab_rep (SymtabVariable st) xs"
  let ?sg = "case sc of None \<Rightarrow> class_or_null E | Some s \<Rightarrow> Some s"
  have g: "(case get_scope w of Inr (Some s) \<Rightarrow> Some s | _ \<Rightarrow> class_or_null E) = ?sg" by (simp add: w(2) split: option.split)
  show "\<exists>r st'. get_function_type n E ?sg scope (get_name w) args p st = Inr (r, st') \<and>
      symtab_rep (SymtabVariable st') xs \<and> refs st' = refs st \<and>
      macro_of (f_symbol r) = macro_value E (\<lambda>v. False) scope (Some args) w"
  proof (cases "my_Get_symbol E ?sg scope (get_name w) (Some args)")
    case None
    then show ?thesis using st by (simp add: get_function_type_def macro_value_def g macro_of_def)
  next
    case (Some a)
    obtain paf sc' ty def where a: "a = (paf, sc', ty, def)" by (cases a)
    obtain t where t: "f_TypeFromString n (cur_lineno E) ty = Inr t" using quiet_type [OF assms Some [unfolded a]] by blast
    show ?thesis using st Some a t by (simp add: get_function_type_def macro_value_def g macro_of_def)
  qed
qed

lemma macro_chain_rounds:
  assumes look: "looks E xs V look" and V: "\<And>w d. V w = Some d \<Longrightarrow> d \<in> D \<and> object_ok (take 999 d)" and D: "finite D"
    and "object_ok w" "symtab_rep (SymtabVariable st) xs" "card (D - set met) < k"
  shows "\<exists>r st' ds. macro_chain E look args ln met w st k = Inr (r, st') \<and>
    followed V (if met = [] then [w] else met) w ds (ce_object r) \<and> symtab_rep (SymtabVariable st') xs \<and>
    map ref_what (refs st') = (if met = [] \<and> ds \<noteq> [] then [get_name w] else []) @ map ref_what (refs st)"
  using assms(4-)
proof (induction k arbitrary: met w st)
  case (Suc k)
  let ?met = "if met = [] then [w] else met"
  obtain sc where sc: "get_scope w = Inr sc" using colons_ok(1) [OF Suc.prems(1)] by blast
  obtain r st1 where r: "look (case sc of None \<Rightarrow> class_or_null E | Some s \<Rightarrow> Some s) (get_name w) st = Inr (r, st1)"
    "symtab_rep (SymtabVariable st1) xs" "refs st1 = refs st" "macro_of (f_symbol r) = V w"
    using look Suc.prems(1,2) sc unfolding looks_def by blast
  show ?case
  proof (cases "\<exists>d. V w = Some d \<and> d \<notin> set ?met")
    case False
    then have "macro_chain E look args ln met w st (Suc k) =
        Inr (\<lparr>ce_found = r, ce_scope = sc, ce_name = get_name w, ce_object = w\<rparr>, st1)"
      using r(1,4) by (auto simp: sc Let_def macro_of_def split: option.splits if_splits)
    then show ?thesis using False r(2,3) 
      by (intro exI [of _ "\<lparr>ce_found = r, ce_scope = sc, ce_name = get_name w, ce_object = w\<rparr>"] exI [of _ st1] exI [of _ "[]"])
        (auto simp: followed_def split: option.split)
  next
    case True
    then obtain d where d: "V w = Some d" "d \<notin> set ?met" by blast
    then obtain sc' where f: "f_symbol r = Some (PAF_MACRO_DEF, sc', d)" "d \<noteq> []"
      using r(4) by (auto simp: macro_of_def split: option.splits if_splits)
    let ?st = "if met = [] then Put_cross_ref E PAF_MACRO_DEF (f_level r) (Some (scope_g E)) (Some sc') (get_name w) args ln PAF_REF_READ st1
      else st1"
    have step: "macro_chain E look args ln met w st (Suc k) = macro_chain E look args ln (d # ?met) (take 999 d) ?st k"
      using r(1) f d(2) by (simp add: sc Let_def)
    have st: "symtab_rep (SymtabVariable ?st) xs" using r(2) by simp
    have refs: "map ref_what (refs ?st) = (if met = [] then [get_name w] else []) @ map ref_what (refs st)"
      using r(3) by (simp add: Put_cross_ref_def)
    have "D - set (d # ?met) \<subset> D - set met" using V [OF d(1)] d(2) by (auto split: if_splits)
    then have "card (D - set (d # ?met)) < card (D - set met)" using D by (intro psubset_card_mono) simp_all
    then have k: "card (D - set (d # ?met)) < k" using Suc.prems(3) by simp
    obtain r' st' ds where ih: "macro_chain E look args ln (d # ?met) (take 999 d) ?st k = Inr (r', st')"
      "followed V (d # ?met) (take 999 d) ds (ce_object r')"
      "symtab_rep (SymtabVariable st') xs" "map ref_what (refs st') = map ref_what (refs ?st)"
      using Suc.IH [OF conjunct2 [OF V [OF d(1)]] st k] by auto
    have "followed V ?met w (d # ds) (ce_object r')" by (rule followed_step [OF d ih(2)])
    then show ?thesis unfolding step using ih(1,3,4) refs by (intro exI [of _ r'] exI [of _ st'] exI [of _ "d # ds"]) simp
  qed
qed simp

text \<open>C37: Macros that stand for each other are followed once each, whatever cycle they form: with a database
  without typedefs and classes whose type strings can all be read, and with finitely many values of
  macros, none with its last colon in front, the search for the name at the end of the chain returns
  after at most one round more than there are values.  It has followed distinct values from the name
  on, has reported the name when it was a macro, and ends at a name without a value or with a value it
  has met.  So for variables, where the scopes answer first, and for functions.\<close>

theorem macro_chain_returns:
  assumes "quiet_db E N" "N \<le> n" "symtab_rep (SymtabVariable st) xs" "object_ok w" "finite D" "card D < k"
    and V: "V = macro_value E (\<lambda>v. args = None \<and> scope = None \<and> scoped xs v) scope args"
    and "\<forall>v d. V v = Some d \<longrightarrow> d \<in> D \<and> object_ok (take 999 d)"
    and look: "look = (\<lambda>sg name st. case args of
        None \<Rightarrow> get_variable_type n E sg scope name p st
      | Some a \<Rightarrow> get_function_type n E sg scope name a p st)"
  shows "\<exists>r st' ds. macro_chain E look args ln [] w st k = Inr (r, st') \<and> followed V [w] w ds (ce_object r) \<and>
    symtab_rep (SymtabVariable st') xs \<and>
    map ref_what (refs st') = (if ds = [] then [] else [get_name w]) @ map ref_what (refs st)"
proof -
  have "looks E xs V look"
    using variable_looks [OF assms(1,2)] function_looks [OF assms(1,2)] by (cases args) (simp_all add: V look)
  have "card (D - set []) < k" using assms(6) by simp
  obtain r st' ds where "macro_chain E look args ln [] w st k = Inr (r, st')" "followed V [w] w ds (ce_object r)"
    "symtab_rep (SymtabVariable st') xs" "map ref_what (refs st') = (if ds \<noteq> [] then [get_name w] else []) @ map ref_what (refs st)"
    using macro_chain_rounds [OF \<open>looks E xs V look\<close> _ assms(5,4,3) \<open>card (D - set []) < k\<close>, where args = args and ln = ln] assms(8) by auto
  then show ?thesis by auto
qed

text \<open>Two macros that stand for each other.\<close>

definition two_macros :: xenv where
  "two_macros = (typedef_env Map.empty)\<lparr>db_symbol := \<lambda>sg sc w args exact.
     if exact then None
     else if w = ''A'' then Some (PAF_MACRO_DEF, [], ''A'', ''B'')
     else if w = ''B'' then Some (PAF_MACRO_DEF, [], ''A'', ''A'') else None\<rparr>"

theorem macro_chain_returns_witness:
  "\<exists>r st'. macro_chain two_macros (\<lambda>sg name st. get_variable_type 3 two_macros sg None name no_place st) None 3 [] ''A''
      empty_xstate 3 = Inr (r, st') \<and> ce_object r = ''B'' \<and> map ref_what (refs st') = [''A'']"
proof -
  let ?V = "macro_value two_macros (\<lambda>v. None = (None :: string option) \<and> None = (None :: string option) \<and> scoped [] v) None None"
  have db: "quiet_db two_macros 3" by (auto simp: quiet_db_def two_macros_def typedef_env_def read_name ident_samples)
  have V: "d \<in> {''A'', ''B''}" if "?V w = Some d" for w d
    using macro_value_db [OF that] by (auto simp: two_macros_def split: if_splits)
  have ok: "object_ok ''A''" "object_ok ''B''" "get_name ''A'' = ''A''" "get_name ''B'' = ''B''" by code_simp+
  have V': "\<forall>v d. ?V v = Some d \<longrightarrow> d \<in> {''A'', ''B''} \<and> object_ok (take 999 d)"
    using V ok(1,2) by fastforce
  have VA: "?V ''A'' = Some ''B''" "?V ''B'' = Some ''A''"
    using ok(3,4) by (simp_all add: macro_value_def macro_of_def my_Get_symbol_def scoped_def chain_def two_macros_def)
  obtain r st' ds where r: "macro_chain two_macros (\<lambda>sg name st. get_variable_type 3 two_macros sg None name no_place st) None 3 []
      ''A'' empty_xstate 3 = Inr (r, st')" "followed ?V [''A''] ''A'' ds (ce_object r)"
    "map ref_what (refs st') = (if ds = [] then [] else [''A''])"
    using macro_chain_returns [OF db order_refl empty_rep ok(1), of "{''A'', ''B''}" 3 ?V None None _ no_place 3, OF _ _ refl V'] ok(3)
    by auto
  then show ?thesis by (cases ds; cases "tl ds") (auto simp: followed_def VA [simplified])
qed

end
