(* ===== verification/Spec2Isabelle.thy ===== *)
theory Spec2Isabelle
  imports Expr_Props Tables LongStr_Props Macread_Props MacroLex_Props Macro_Run Token_Props Cplex_Total CpStack_Props XRef_Props
begin

text \<open>
  Verification of the parser core of Source-Navigator.

  \<^bold>\<open>The program.\<close>  Source-Navigator reads the sources of a project with one parser per language
  and records what it finds in a database that the user interface shows.  The code of its own
  that decides what is found is the C/C++ parser under \<open>src/snavigator/parsers/cpp\<close>: a library
  \<open>cpplib\<close> with a lexer, a preprocessor and a recognizer.  It rests on two modules that all parsers
  share, the search tables (\<open>parsers/common/srchtbl.c\<close>) and the growing strings
  (\<open>misc/libutils/longstr.c\<close>).  A macro file (\<open>macread.c\<close>) is read into a search table of
  definitions; the lexer (\<open>cplex.c\<close>) asks \<open>f_MacroFind\<close> (\<open>macro.c\<close>) for every identifier, which
  asks the definitions through the function pointer \<open>Paf_Word\<close>, reads the body of a new macro with
  the tokenizer \<open>my_TokenInput\<close>, and has \<open>process.c\<close> replace the macros in it; the conditions of
  \<open>#if\<close> and \<open>#elif\<close> are evaluated by \<open>expr.c\<close>.  The recognizer reads the tokens through the window of
  \<open>cp_stack.c\<close>, builds trees, and has \<open>cp_process.c\<close> report the cross references of the bodies of functions,
  with the local variables in the scopes of \<open>cp_symbol.c\<close>.

  \<^bold>\<open>Theories and code.\<close>
  \<^item> \<open>Prelude\<close>: bytes, C strings, fallible results (\<open>ub + 'a\<close>, where \<open>ub\<close> lists what C leaves
    undefined, runs that never return, and \<open>exit\<close>), and lemmas shared by all.
  \<^item> \<open>Cpdefines\<close>: lexical codes, keywords, operator codes and the value of a token
    (\<open>cpdefines.h\<close>, \<open>operator.h\<close>, \<open>cplex.h\<close>).
  \<^item> \<open>Expr\<close> (\<open>expr.c\<close>): the recursive-descent evaluator of conditions.  \<open>Expr_Spec\<close>: the grammar
    and its three-valued meaning.  \<open>Expr_Props\<close>: reading back printed conditions, soundness of the
    decision under C's rules, termination, constants that are cut.
  \<^item> \<open>SrchTbl\<close>, \<open>Btree\<close>, \<open>Hashtbl\<close> (\<open>srchtbl.c\<close>): entries, the sorted array and the hash table.
    \<open>Btree_Map\<close> and \<open>Hashtbl_Map\<close>: both implement a finite map, stated once as a locale and
    interpreted for each; \<open>Tables\<close>: through the function pointers a client cannot tell them apart.
  \<^item> \<open>LongStr\<close> (\<open>longstr.c\<close>): the growing string as a block of memory of its own size.
    \<open>LongStr_Props\<close>: which text each operation leaves, where it writes past the block, and the size of a
    slot with which it never ends.
  \<^item> \<open>Macread\<close> (\<open>macread.c\<close>): reading macro files and \<open>paf_word\<close>.  \<open>Macread_Props\<close>: lines are
    read back as they were written, and the table answers what was stored.
  \<^item> \<open>Keywords\<close> (\<open>cpkeyw.c\<close>): the keyword table, a perfect hash.  \<open>Scan\<close>: the recognition of one
    number, identifier or operator, which the two tokenizers share.  \<open>MacroLex\<close> (\<open>macro.c\<close>):
    the tokenizer of macro bodies.
  \<^item> \<open>Macro\<close>, \<open>Process\<close> (\<open>macro.c\<close>, \<open>process.c\<close>): macros in a store, the cache that is a hash table
    of \<open>Hashtbl\<close>, the rings of macros in use, the reading of macros and their expansion.
    \<open>MacroLex_Props\<close>: reading a body terminates and reads back what is printed; the lexemes and
    literals defined there are those of the lexer's round trip too.
    \<open>Process_Props\<close>: the invariant of the state, kept by every function.  \<open>Process_Spec\<close>: the
    specification without a cache and the proof that the code refines it.  \<open>Macro_Run\<close>: what is
    promised of every call, and runs that go wrong.
  \<^item> \<open>Ring\<close>: circular lists as a next function, shared by the two structures that are rings.
    \<open>Token\<close> (\<open>token.c\<close>): token objects, their blocks and free list, and the rings they are linked
    to.  \<open>Token_Props\<close>: fresh tokens, the release of a ring, appending as concatenation.
  \<^item> \<open>Cplex\<close> (\<open>cplex.c\<close>, first half): the lexer of source files, with lines and columns, comments
    and literals.  \<open>Directives\<close> (second half): macro calls, \<open>defined\<close>, the directives, and the mutual
    recursion of lexer and preprocessor.  \<open>Cplex_Keeps\<close>: what a step of the lexer leaves alone.
    \<open>Cplex_Lines\<close>: the line counter is the number of line ends read.  \<open>Cplex_Total\<close>: the lexer
    returns.  \<open>Cplex_Text\<close>: a text is cut into the tokens it was written from, at their places.
    \<open>Directives_Props\<close>: a macro call at the end of a file.
  \<^item> \<open>CpStack\<close> (\<open>cp_stack.c\<close>, and the macros of \<open>crossrefP.h\<close>): the window of the last 65536 tokens the recognizer looks
    at, and conditional compilation on the way into it.  \<open>CpStack_Spec\<close>: conditional compilation as
    nested groups, each with the level the recognizer is on when it is read.  \<open>CpStack_Props\<close>: the window
    holds the tokens of the groups that are taken, whatever looks, moves and changes of the level are made.
  \<^item> \<open>Symtab\<close> (\<open>cp_symbol.c\<close>, the scopes of \<open>cp_statement.c\<close>): names with the chains of their
    declarations on the sorted array of \<open>Btree\<close>.  \<open>Symtab_Props\<close>: lookup finds the innermost
    declaration, and the end of a scope gives the table back as it was.
  \<^item> \<open>Trees\<close> (\<open>crossrefP.h\<close>, \<open>cp_list.c\<close>): the trees of types, declarations and expressions.
    \<open>TypeStr\<close> (\<open>cp_type.c\<close> and the printers of \<open>cp_declarator.c\<close> and \<open>cp_declaration.c\<close>): types as strings,
    written and read.  \<open>TypeStr_Print\<close>: the usual types as a datatype, with names spelled as
    \<open>cp_name.c\<close> or as the reader spells them, and the tokens of what is printed for them.  \<open>TypeStr_Props\<close>: the parser on these tokens, and the round trip.
  \<^item> \<open>TypeOps\<close> (\<open>cp_type.c\<close>): copies of types, pointers and functions put on and taken off.
    \<open>XRef\<close> (\<open>cp_process.c\<close>, and the functions of \<open>cp_declaration.c\<close>, \<open>cp_declarator.c\<close>, \<open>cp_oper.c\<close>,
    \<open>cp_init.c\<close> it calls): the walk over the trees of a function body that looks names up in the scopes of
    \<open>Symtab\<close> and in the database, gives each expression a type and reports each use.  \<open>XRef_Types\<close>:
    the resolution of typedefs against what a chain of typedefs means.  \<open>XRef_Spec\<close>: which trees are complete, and which names a tree uses
    in which way, local or global by the scopes.  \<open>XRef_Walk\<close>: the walk against this, operator by operator.
    \<open>XRef_Props\<close>: types, reports, declarations, chains of macros, and wrong reports.

  \<^bold>\<open>Conventions.\<close>  A C string is the list of its bytes before the NUL; a slice \<open>(text, leng)\<close> of a
  buffer is the list of its bytes.  Memory that is freed is no longer reachable in the model;
  allocation does not fail.  A variable that is not set, a read or write outside an array, a null
  pointer, a signed overflow and, in \<open>f_TypeBasic\<close>, a string that is released twice are results \<open>Inl\<close>, so a theorem that a function returns
  \<open>Inr\<close> says that it does none of this.  Not seen by the model are: the bounds of buffers of 1000 and
  10000 bytes and of the sizes of tables, which are unbounded here; a \<open>data_len\<close> greater than the block
  that is copied (\<open>srchtbl.c\<close>), which is cut; and the fields \<open>f_TokenCreate\<close> leaves unset, which have
  default values in the tokens of macro bodies.

  \<^bold>\<open>Fuel.\<close>  Functions whose recursion is not on their data take fuel, and running out of it is
  the result \<open>Inl NoReturn\<close>.  The evaluator of conditions starts with a multiple of the number of
  tokens (\<open>ConstantExpression\<close>), the reading of a body with its length (\<open>f_MacroProcess2\<close>), the
  parameter list with its length (\<open>f_MacroProcess1\<close>); that this is enough is proved.  The probing of the hash table has
  the size of the table.  The lexer needs the length of the text and 4 (\<open>Cplex_Total\<close>), the
  window the number of tokens it is to read, the end of a scope the number of symbols and 1, the
  reader of type strings 4 for each token and 4 more, the walk over a tree the size of the tree and
  what the type strings of the database need.  \<open>f_MacroFind\<close> takes its fuel as an argument,
  because expansion need not end: theorems give the fuel that is enough for a plain macro, and a
  program for which none is.  Loops that end for no fuel are properties of their own.

  \<^bold>\<open>Not modelled.\<close>  The recognizer of declarations, statements and expressions (the functions
  of \<open>cp_declaration.c\<close>, \<open>cp_declarator.c\<close>, \<open>cp_argument.c\<close>, \<open>cp_class.c\<close>, \<open>cp_name.c\<close>,
  \<open>cp_statement.c\<close>, \<open>cp_expression.c\<close> that read tokens, and \<open>cparser.c\<close>): about 9000 lines of mutual
  recursion that goes back over the window of tokens whenever a guess fails; what it rests on (window, scopes,
  trees, type strings) and what is done with its trees in a function body (cross references) is modelled; a tree
  comes to that walk as a value, and its reports are a list.  What the database answers
  (\<open>get_symbol\<close>, \<open>get_class_or_typedef\<close>) is an argument.  Printing and debugging functions only write to a stream.
  The database (Berkeley DB), Tcl/Tk and its extensions are vendored libraries; the parsers of
  other languages are generated from grammars or imported programs; the user interface is drawing
  and event code on Tk; the toolbox of the parsers writes records through pipes.
\<close>

end
